(* ===== verification/Prelude.thy ===== *)
theory Prelude
  imports Main "HOL-Library.Word"
begin

section \<open>Shared vocabulary of the development\<close>

text \<open>
  Types, failure values and generic lemmas used by every component.

  \<^item> \<open>byte\<close>, \<open>bytes\<close>: the contents of a \<open>std::string\<close> or of a
    \<open>std::vector<uint8_t>\<close>, as a list of 8-bit words.
  \<^item> \<open>fault\<close>: how a C++ computation can fail to deliver a value. \<open>Status\<close> is an
    error \<open>Status\<close> of \<open>utils/status.h\<close> with its code and message; \<open>Fatal\<close> ends the
    process: a failed \<open>INVARIANT\<close>, a \<open>LOG(FATAL)\<close> or an exception that nothing catches; \<open>Undef\<close> is undefined
    behaviour of the language (a read outside a buffer, a shift by the width or more).
  \<^item> \<open>'a expected\<close>: \<open>Expected<T>\<close>, a value or a fault. \<open>ebind\<close> is the recurring
    \<open>if (!e.ok()) return e.status();\<close>.
  \<^item> \<open>INVARIANT_D\<close> only logs in a release build (\<open>utils/invariant.h\<close>, lines 55-61), so
    it has no effect in the model.
\<close>

unbundle bit_operations_syntax

named_theorems codec_simps \<open>evaluation of encoders and decoders on concatenated input\<close>

type_synonym byte = "8 word"
type_synonym bytes = "8 word list"
type_synonym u16 = "16 word"
type_synonym u32 = "32 word"
type_synonym u64 = "64 word"

subsection \<open>Error codes and failures\<close>

datatype ErrorCodes =
    ERR_OK | ERR_NETWORK | ERR_TIMEOUT | ERR_INTERNAL | ERR_MANUAL | ERR_COMMIT_RETRY
  | ERR_NOTFOUND | ERR_DECODE | ERR_BUSY | ERR_EXHAUST | ERR_EXPIRED | ERR_OVERFLOW
  | ERR_CAS | ERR_NOT_EXPIRED | ERR_EXTENDED_PROTOCOL | ERR_STORE_NOT_OPEN
  | ERR_LOCK_TIMEOUT | ERR_UNKNOWN | ERR_CLUSTER | ERR_CONNECT_TRY | ERR_MEMORY_LIMIT
  | ERR_READY_MIGRATE | ERR_BINLOG_DISABLED
  | ERR_AUTH | ERR_PARSEOPT | ERR_PARSEPKT | ERR_NAN | ERR_FLOAT | ERR_INTERGER
  | ERR_ZSLPARSERANGE | ERR_ZSLPARSELEXRANGE | ERR_WRONG_TYPE | ERR_WRONG_ARGS_SIZE
  | ERR_INVALID_HLL | ERR_NO_KEY | ERR_OUT_OF_RANGE | ERR_WRONG_VERSION_EP
  | ERR_CLUSTER_ERR | ERR_MOVED | ERR_CLUSTER_REDIR_CROSS_SLOT
  | ERR_CLUSTER_REDIR_DOWN_STATE | ERR_CLUSTER_REDIR_DOWN_UNBOUND
  | ERR_LUA | ERR_LUA_NOSCRIPT

datatype fault = Status ErrorCodes string | Fatal | Undef

type_synonym 'a expected = "fault + 'a"

abbreviation ok :: "'a \<Rightarrow> 'a expected" where
  "ok \<equiv> Inr"

abbreviation err :: "ErrorCodes \<Rightarrow> string \<Rightarrow> 'a expected" where
  "err c m \<equiv> Inl (Status c m)"

definition ebind :: "'a expected \<Rightarrow> ('a \<Rightarrow> 'b expected) \<Rightarrow> 'b expected" where
  "ebind m f = (case m of Inl e \<Rightarrow> Inl e | Inr x \<Rightarrow> f x)"

lemma ebind_simps [simp]:
  "ebind (Inr x) f = f x"
  "ebind (Inl e) f = Inl e"
  by (simp_all add: ebind_def)

lemma ebind_cong [fundef_cong]:
  "m = m' \<Longrightarrow> (\<And>x. m' = Inr x \<Longrightarrow> f x = f' x) \<Longrightarrow> ebind m f = ebind m' f'"
  by (cases m') (auto simp: ebind_def)

lemma ebind_eq_Inr:
  "ebind m f = Inr y \<longleftrightarrow> (\<exists>x. m = Inr x \<and> f x = Inr y)"
  by (cases m) auto

lemma ebind_assoc: "ebind (ebind m f) g = ebind m (\<lambda>x. ebind (f x) g)"
  by (cases m) auto

lemma ebind_if: "ebind (if b then m else m') f = (if b then ebind m f else ebind m' f)"
  by simp

subsection \<open>State and failure\<close>

text \<open>
  Code with side effects maps a state to a result and the state in which it ends; a failing
  computation keeps the state it reached. \<open>sbind\<close> stops at the first fault, as
  \<open>if (!e.ok()) return e.status();\<close> does; \<open>stry\<close> hands an error status to the rest of the function,
  which inspects it, while the end of the process and undefined behaviour still stop it.
\<close>

type_synonym ('s, 'a) st = "'s \<Rightarrow> 'a expected \<times> 's"

definition sret :: "'a \<Rightarrow> ('s, 'a) st" where
  "sret x s = (ok x, s)"

definition sfail :: "fault \<Rightarrow> ('s, 'a) st" where
  "sfail e s = (Inl e, s)"

definition slift :: "'a expected \<Rightarrow> ('s, 'a) st" where
  "slift e s = (e, s)"

definition sget :: "('s \<Rightarrow> ('s, 'a) st) \<Rightarrow> ('s, 'a) st" where
  "sget f s = f s s"

definition sbind :: "('s, 'a) st \<Rightarrow> ('a \<Rightarrow> ('s, 'b) st) \<Rightarrow> ('s, 'b) st" where
  "sbind m f s = (case m s of (Inl e, s') \<Rightarrow> (Inl e, s') | (Inr x, s') \<Rightarrow> f x s')"

definition stry :: "('s, 'a) st \<Rightarrow> ('a expected \<Rightarrow> ('s, 'b) st) \<Rightarrow> ('s, 'b) st" where
  "stry m f s = (case m s of
      (Inr x, s') \<Rightarrow> f (Inr x) s'
    | (Inl (Status c msg), s') \<Rightarrow> f (Inl (Status c msg)) s'
    | (Inl e, s') \<Rightarrow> (Inl e, s'))"

abbreviation sthen :: "('s, 'a) st \<Rightarrow> ('s, 'b) st \<Rightarrow> ('s, 'b) st" where
  "sthen m n \<equiv> sbind m (\<lambda>_. n)"

abbreviation serr :: "ErrorCodes \<Rightarrow> string \<Rightarrow> ('s, 'a) st" where
  "serr c m \<equiv> sfail (Status c m)"

text \<open>The code of \<open>e.status()\<close>.\<close>

definition code_of :: "'a expected \<Rightarrow> ErrorCodes" where
  "code_of e = (case e of Inl (Status c _) \<Rightarrow> c | _ \<Rightarrow> ERR_OK)"

lemma code_of_simps [simp]:
  "code_of (Inr x) = ERR_OK" "code_of (Inl (Status c m)) = c"
  by (simp_all add: code_of_def)

lemma sret_apply [simp]: "sret x s = (ok x, s)"
  by (simp add: sret_def)

lemma sfail_apply [simp]: "sfail e s = (Inl e, s)"
  by (simp add: sfail_def)

lemma slift_apply [simp]: "slift e s = (e, s)"
  by (simp add: slift_def)

lemma sget_apply [simp]: "sget f s = f s s"
  by (simp add: sget_def)

lemma sbind_Inr: "m s = (Inr x, s') \<Longrightarrow> sbind m f s = f x s'"
  by (simp add: sbind_def)

lemma sbind_Inl: "m s = (Inl e, s') \<Longrightarrow> sbind m f s = (Inl e, s')"
  by (simp add: sbind_def)

lemma sbind_simps [simp]:
  "sbind (sret x) f = f x" "sbind (sfail e) f = sfail e"
  "sbind (slift (Inr x)) f = f x" "sbind (slift (Inl e)) f = sfail e"
  by (simp_all add: fun_eq_iff sbind_def)

lemma sbind_cong [fundef_cong]:
  "m s = m' s' \<Longrightarrow> (\<And>x t. m' s' = (Inr x, t) \<Longrightarrow> f x t = f' x t) \<Longrightarrow> sbind m f s = sbind m' f' s'"
  by (auto simp: sbind_def split: prod.split sum.split)

lemma stry_cong [fundef_cong]:
  "m s = m' s' \<Longrightarrow> (\<And>r t. m' s' = (r, t) \<Longrightarrow> f r t = f' r t) \<Longrightarrow> stry m f s = stry m' f' s'"
  by (auto simp: stry_def split: prod.split sum.split fault.split)

lemma sbind_eq_Inr:
  "sbind m f s = (Inr y, t) \<longleftrightarrow> (\<exists>x s'. m s = (Inr x, s') \<and> f x s' = (Inr y, t))"
  by (auto simp: sbind_def split: prod.split sum.split)

lemma sbind_eqE:
  assumes "sbind m f s = (r, t)"
  obtains (fail) e where "m s = (Inl e, t)" "r = Inl e"
    | (cont) x s' where "m s = (Inr x, s')" "f x s' = (r, t)"
  using assms by (auto simp: sbind_def split: prod.split_asm sum.split_asm)

lemma stry_eqE:
  assumes "stry m f s = (r, t)"
  obtains (crash) e where "m s = (Inl e, t)" "r = Inl e" "\<And>c msg. e \<noteq> Status c msg"
    | (error) c msg s' where "m s = (Inl (Status c msg), s')" "f (Inl (Status c msg)) s' = (r, t)"
    | (cont) x s' where "m s = (Inr x, s')" "f (Inr x) s' = (r, t)"
  using assms by (auto simp: stry_def split: prod.split_asm sum.split_asm fault.split_asm)

subsection \<open>Checked memory reads\<close>

text \<open>
  \<open>rd8 buf i\<close> reads byte \<open>i\<close> of a buffer; \<open>rdstr buf off n\<close> copies \<open>n\<close> bytes from
  offset \<open>off\<close>, as \<open>std::string(ptr + off, n)\<close> does. Outside the buffer both are undefined.
\<close>

definition rd8 :: "bytes \<Rightarrow> nat \<Rightarrow> byte expected" where
  "rd8 buf i = (if i < length buf then ok (buf ! i) else Inl Undef)"

definition rdstr :: "bytes \<Rightarrow> nat \<Rightarrow> nat \<Rightarrow> bytes expected" where
  "rdstr buf off n = (if off + n \<le> length buf then ok (take n (drop off buf)) else Inl Undef)"

lemma rd8_mid [simp, codec_simps]: "rd8 (pre @ b # post) (length pre) = ok b"
  by (simp add: rd8_def)

lemma rdstr_mid: "length mid = n \<Longrightarrow> rdstr (pre @ mid @ post) (length pre) n = ok mid"
  by (simp add: rdstr_def)

lemma rdstr_Undef_iff: "rdstr buf off n = Inl Undef \<longleftrightarrow> length buf < off + n"
  by (auto simp: rdstr_def)

text \<open>A left shift of a 64-bit value: undefined from the width on.\<close>

definition shl64 :: "u64 \<Rightarrow> nat \<Rightarrow> u64 expected" where
  "shl64 v n = (if n < 64 then ok (push_bit n v) else Inl Undef)"

subsection \<open>Lists and words\<close>

lemma unat_of_nat64: "n < 2 ^ 64 \<Longrightarrow> unat (of_nat n :: u64) = n"
  by (simp add: unat_of_nat)

lemma nth_append_len [simp]: "(pre @ b # post) ! length pre = b"
  by simp

lemma unat_drop_bit_less:
  fixes val :: u64
  assumes "0x80 \<le> val"
  shows "unat (drop_bit 7 val) < unat val"
proof -
  from assms have "unat val \<noteq> 0" by (auto simp: word_le_nat_alt)
  moreover have "unat (drop_bit 7 val) = unat val div 2 ^ 7"
    by (simp only: unat_drop_bit_eq) (simp add: drop_bit_eq_div)
  ultimately show ?thesis by simp
qed

lemma or_take_push_drop:
  fixes v :: "'a::len word"
  shows "take_bit n v OR push_bit n (drop_bit n v) = v"
proof (rule bit_word_eqI)
  fix m
  show "bit (take_bit n v OR push_bit n (drop_bit n v)) m \<longleftrightarrow> bit v m" if "m < LENGTH('a)"
    using that by (cases "m < n") (auto simp: bit_simps)
qed

lemma pair_fst: "fst p = x \<Longrightarrow> p = (x, snd p)"
  by (cases p) simp

end
