(* ===== verification/Mgl.thy ===== *)
theory Mgl
  imports Prelude "HOL-Library.Sublist"
begin

section \<open>Multi-granularity locks (lock/mgl)\<close>

text \<open>
  The lock manager: per target a scheduling context with the running and the pending locks, their
  reference counts per mode and the bit masks of the modes present (\<open>LockSchedCtx\<close>), and the
  sharded map from targets to contexts (\<open>MGLockMgr\<close>). Lock objects are numbered; \<open>mg_locks\<close> holds
  their members. The iterator a lock keeps into the list it is in is the lock's own number, so
  erasing at the iterator is \<open>remove1\<close>. Each operation runs under the mutex of its shard, so an
  operation is one step. \<open>std::hash\<close> is a parameter.
\<close>

subsection \<open>Modes and conflicts\<close>

datatype LockMode = LOCK_NONE | LOCK_IS | LOCK_IX | LOCK_S | LOCK_X

datatype LockRes = LOCKRES_OK | LOCKRES_WAIT | LOCKRES_TIMEOUT | LOCKRES_DEADLOCK | LOCKRES_UNINITED

primrec enum2Int :: "LockMode \<Rightarrow> nat" where
  "enum2Int LOCK_NONE = 0"
| "enum2Int LOCK_IS = 1"
| "enum2Int LOCK_IX = 2"
| "enum2Int LOCK_S = 3"
| "enum2Int LOCK_X = 4"

definition LOCK_MODE_NUM :: nat where "LOCK_MODE_NUM = 5"

definition mode_bit :: "LockMode \<Rightarrow> u16" where
  "mode_bit m = push_bit (enum2Int m) 1"

definition conflictTable :: "u16 list" where
  "conflictTable =
    [0,
     mode_bit LOCK_X,
     mode_bit LOCK_S OR mode_bit LOCK_X,
     mode_bit LOCK_IX OR mode_bit LOCK_X,
     mode_bit LOCK_IS OR mode_bit LOCK_IX OR mode_bit LOCK_S OR mode_bit LOCK_X]"

primrec lockModeRepr :: "LockMode \<Rightarrow> string" where
  "lockModeRepr LOCK_X = ''X''"
| "lockModeRepr LOCK_IX = ''IX''"
| "lockModeRepr LOCK_S = ''S''"
| "lockModeRepr LOCK_IS = ''IS''"
| "lockModeRepr LOCK_NONE = ''?''"

definition isConflict :: "u16 \<Rightarrow> LockMode \<Rightarrow> bool" where
  "isConflict modes mode \<longleftrightarrow> conflictTable ! enum2Int mode AND modes \<noteq> 0"

subsection \<open>State\<close>

record LockSchedCtx =
  sc_runningModes :: u16
  sc_pendingModes :: u16
  sc_runningRefCnt :: "u16 list"
  sc_pendingRefCnt :: "u16 list"
  sc_runningList :: "nat list"
  sc_pendingList :: "nat list"

record MGLock =
  lk_target :: bytes
  lk_targetHash :: u64
  lk_mode :: LockMode
  lk_res :: LockRes

type_synonym locks = "nat \<Rightarrow> MGLock"

definition MGLock_new :: MGLock where
  "MGLock_new =
     \<lparr>lk_target = [], lk_targetHash = 0, lk_mode = LOCK_NONE, lk_res = LOCKRES_UNINITED\<rparr>"

definition LockSchedCtx_new :: LockSchedCtx where
  "LockSchedCtx_new =
     \<lparr>sc_runningModes = 0, sc_pendingModes = 0,
      sc_runningRefCnt = replicate LOCK_MODE_NUM 0, sc_pendingRefCnt = replicate LOCK_MODE_NUM 0,
      sc_runningList = [], sc_pendingList = []\<rparr>"

definition setLockResult :: "locks \<Rightarrow> nat \<Rightarrow> LockRes \<Rightarrow> locks" where
  "setLockResult ls core res = ls(core := (ls core)\<lparr>lk_res := res\<rparr>)"

definition releaseLockResult :: "locks \<Rightarrow> nat \<Rightarrow> locks" where
  "releaseLockResult ls core = ls(core := (ls core)\<lparr>lk_res := LOCKRES_UNINITED\<rparr>)"

subsection \<open>Reference counts\<close>

definition incrRef :: "LockMode \<Rightarrow> u16 list \<times> u16 \<Rightarrow> u16 list \<times> u16" where
  "incrRef mode = (\<lambda>(cnt, modes).
    (let n = enum2Int mode; cnt' = cnt[n := cnt ! n + 1] in
     (cnt', if cnt' ! n = 1 then modes OR mode_bit mode else modes)))"

definition decRef :: "LockMode \<Rightarrow> u16 list \<times> u16 \<Rightarrow> u16 list \<times> u16" where
  "decRef mode = (\<lambda>(cnt, modes).
    (let n = enum2Int mode; cnt' = cnt[n := cnt ! n - 1] in
     (cnt', if cnt' ! n = 0 then modes AND NOT (mode_bit mode) else modes)))"

definition incrPendingRef :: "LockMode \<Rightarrow> LockSchedCtx \<Rightarrow> LockSchedCtx" where
  "incrPendingRef mode c =
    (let (cnt, modes) = incrRef mode (sc_pendingRefCnt c, sc_pendingModes c) in
     c\<lparr>sc_pendingRefCnt := cnt, sc_pendingModes := modes\<rparr>)"

definition decPendingRef :: "LockMode \<Rightarrow> LockSchedCtx \<Rightarrow> LockSchedCtx" where
  "decPendingRef mode c =
    (let (cnt, modes) = decRef mode (sc_pendingRefCnt c, sc_pendingModes c) in
     c\<lparr>sc_pendingRefCnt := cnt, sc_pendingModes := modes\<rparr>)"

definition incrRunningRef :: "LockMode \<Rightarrow> LockSchedCtx \<Rightarrow> LockSchedCtx" where
  "incrRunningRef mode c =
    (let (cnt, modes) = incrRef mode (sc_runningRefCnt c, sc_runningModes c) in
     c\<lparr>sc_runningRefCnt := cnt, sc_runningModes := modes\<rparr>)"

definition decRunningRef :: "LockMode \<Rightarrow> LockSchedCtx \<Rightarrow> LockSchedCtx" where
  "decRunningRef mode c =
    (let (cnt, modes) = decRef mode (sc_runningRefCnt c, sc_runningModes c) in
     c\<lparr>sc_runningRefCnt := cnt, sc_runningModes := modes\<rparr>)"

subsection \<open>Scheduling\<close>

definition LockSchedCtx_lock :: "nat \<Rightarrow> LockSchedCtx \<times> locks \<Rightarrow> LockSchedCtx \<times> locks" where
  "LockSchedCtx_lock core = (\<lambda>(c, ls).
    (let mode = lk_mode (ls core) in
     if isConflict (sc_runningModes c) mode \<or> 1 \<le> length (sc_pendingList c)
     then (incrPendingRef mode (c\<lparr>sc_pendingList := sc_pendingList c @ [core]\<rparr>),
           setLockResult ls core LOCKRES_WAIT)
     else (incrRunningRef mode (c\<lparr>sc_runningList := sc_runningList c @ [core]\<rparr>),
           setLockResult ls core LOCKRES_OK)))"

text \<open>The body of the loop of \<open>schedPendingLocks\<close> for the lock at the head of the pending list.\<close>

definition grant :: "nat \<Rightarrow> LockSchedCtx \<times> locks \<Rightarrow> LockSchedCtx \<times> locks" where
  "grant core = (\<lambda>(c, ls).
    (let mode = lk_mode (ls core);
         c = decPendingRef mode (incrRunningRef mode c) in
     (c\<lparr>sc_runningList := sc_runningList c @ [core], sc_pendingList := tl (sc_pendingList c)\<rparr>,
      setLockResult ls core LOCKRES_OK)))"

lemma grant_pendingList: "sc_pendingList (fst (grant core (c, ls))) = tl (sc_pendingList c)"
  by (simp add: grant_def Let_def decPendingRef_def incrRunningRef_def split: prod.split)

function schedPendingLocks :: "LockSchedCtx \<times> locks \<Rightarrow> LockSchedCtx \<times> locks" where
  "schedPendingLocks (c, ls) =
    (case sc_pendingList c of
       [] \<Rightarrow> (c, ls)
     | core # _ \<Rightarrow>
        (if isConflict (sc_runningModes c) (lk_mode (ls core)) then (c, ls)
         else schedPendingLocks (grant core (c, ls))))"
  by pat_completeness auto
termination
proof (relation "measure (\<lambda>(c, ls). length (sc_pendingList c))")
  fix c :: LockSchedCtx and ls :: locks and core rest
  assume "sc_pendingList c = core # rest"
  then show "(grant core (c, ls), c, ls) \<in> measure (\<lambda>(c, ls). length (sc_pendingList c))"
    using grant_pendingList [of core c ls] by (cases "grant core (c, ls)") simp
qed simp

declare schedPendingLocks.simps [simp del]

definition LockSchedCtx_unlock ::
  "nat \<Rightarrow> LockSchedCtx \<times> locks \<Rightarrow> bool \<times> LockSchedCtx \<times> locks" where
  "LockSchedCtx_unlock core = (\<lambda>(c, ls).
    (let mode = lk_mode (ls core);
         result = (\<lambda>(c, ls). (sc_pendingList c = [] \<and> sc_runningList c = [], c, ls)) in
     case lk_res (ls core) of
       LOCKRES_OK \<Rightarrow>
        (let c = decRunningRef mode (c\<lparr>sc_runningList := remove1 core (sc_runningList c)\<rparr>);
             ls = releaseLockResult ls core in
         if sc_runningModes c \<noteq> 0 then (False, c, ls)
         else result (schedPendingLocks (c, ls)))
     | LOCKRES_WAIT \<Rightarrow>
        (let c = decPendingRef mode (c\<lparr>sc_pendingList := remove1 core (sc_pendingList c)\<rparr>);
             ls = releaseLockResult ls core in
         result (schedPendingLocks (c, ls)))
     | _ \<Rightarrow> result (c, ls)))"

subsection \<open>The manager\<close>

definition SHARD_NUM :: nat where "SHARD_NUM = 32"

record MGLockMgr =
  mg_locks :: locks
  mg_shards :: "nat \<Rightarrow> (bytes \<rightharpoonup> LockSchedCtx)"

definition MGLockMgr_new :: MGLockMgr where
  "MGLockMgr_new = \<lparr>mg_locks = (\<lambda>_. MGLock_new), mg_shards = (\<lambda>_. Map.empty)\<rparr>"

definition shard_of :: "MGLock \<Rightarrow> nat" where
  "shard_of l = unat (lk_targetHash l) mod SHARD_NUM"

definition put_ctx :: "nat \<Rightarrow> bytes \<Rightarrow> LockSchedCtx option \<Rightarrow> MGLockMgr \<Rightarrow> MGLockMgr" where
  "put_ctx sh t c s = s\<lparr>mg_shards := (mg_shards s)(sh := (mg_shards s sh)(t := c))\<rparr>"

definition MGLockMgr_lock :: "nat \<Rightarrow> MGLockMgr \<Rightarrow> MGLockMgr" where
  "MGLockMgr_lock core s =
    (let l = mg_locks s core; sh = shard_of l; t = lk_target l;
         c = (case mg_shards s sh t of None \<Rightarrow> LockSchedCtx_new | Some c \<Rightarrow> c);
         (c', ls) = LockSchedCtx_lock core (c, mg_locks s) in
     (put_ctx sh t (Some c') s)\<lparr>mg_locks := ls\<rparr>)"

definition MGLockMgr_unlock :: "nat \<Rightarrow> MGLockMgr \<Rightarrow> MGLockMgr expected" where
  "MGLockMgr_unlock core s =
    (let l = mg_locks s core; sh = shard_of l; t = lk_target l in
     case mg_shards s sh t of
       None \<Rightarrow> Inl Fatal
     | Some c \<Rightarrow>
        (let (empty, c', ls) = LockSchedCtx_unlock core (c, mg_locks s) in
         ok ((put_ctx sh t (if empty then None else Some c') s)\<lparr>mg_locks := ls\<rparr>)))"

subsection \<open>Lock objects\<close>

text \<open>
  \<open>MGLock::lock\<close> up to the point where it returns or starts to wait; \<open>waitLock\<close> is the result of the
  wait in the state in which it ends, by notification or by timeout.
\<close>

definition MGLock_lock :: "(bytes \<Rightarrow> u64) \<Rightarrow> nat \<Rightarrow> bytes \<Rightarrow> LockMode \<Rightarrow> MGLockMgr \<Rightarrow> MGLockMgr" where
  "MGLock_lock hash core target mode s =
    (let l = (mg_locks s core)\<lparr>lk_target := target, lk_mode := mode,
               lk_targetHash := (if target \<noteq> [] then hash target else 0)\<rparr> in
     MGLockMgr_lock core (s\<lparr>mg_locks := (mg_locks s)(core := l)\<rparr>))"

definition waitLock :: "nat \<Rightarrow> MGLockMgr \<Rightarrow> bool" where
  "waitLock core s \<longleftrightarrow> lk_res (mg_locks s core) = LOCKRES_OK"

definition lock_result :: "nat \<Rightarrow> MGLockMgr \<Rightarrow> LockRes" where
  "lock_result core s = (if waitLock core s then LOCKRES_OK else LOCKRES_TIMEOUT)"

definition MGLock_unlock :: "nat \<Rightarrow> MGLockMgr \<Rightarrow> MGLockMgr expected" where
  "MGLock_unlock core s =
    (if lk_res (mg_locks s core) \<noteq> LOCKRES_UNINITED then MGLockMgr_unlock core s else ok s)"

subsection \<open>Masks and counts describe the lists\<close>

text \<open>The conflict matrix the table encodes.\<close>

fun conflicts :: "LockMode \<Rightarrow> LockMode \<Rightarrow> bool" where
  "conflicts LOCK_NONE _ = False"
| "conflicts _ LOCK_NONE = False"
| "conflicts LOCK_X _ = True"
| "conflicts _ LOCK_X = True"
| "conflicts LOCK_IX LOCK_S = True"
| "conflicts LOCK_S LOCK_IX = True"
| "conflicts _ _ = False"

definition refs_ok :: "(nat \<Rightarrow> LockMode) \<Rightarrow> u16 list \<Rightarrow> u16 \<Rightarrow> nat list \<Rightarrow> bool" where
  "refs_ok mo cnt modes xs \<longleftrightarrow>
     length cnt = LOCK_MODE_NUM \<and>
     (\<forall>m. cnt ! enum2Int m = of_nat (length (filter (\<lambda>i. mo i = m) xs))) \<and>
     (\<forall>n. bit modes n \<longleftrightarrow> (\<exists>i\<in>set xs. enum2Int (mo i) = n))"

lemma enum2Int_less: "enum2Int m < LOCK_MODE_NUM"
  by (cases m) (simp_all add: LOCK_MODE_NUM_def)

lemma enum2Int_not_16 [simp]: "\<not> 16 \<le> enum2Int m"
  by (cases m) simp_all

lemma enum2Int_inj [simp]: "enum2Int a = enum2Int b \<longleftrightarrow> a = b"
  by (cases a; cases b) simp_all

lemma bit_mode_bit [simp]: "bit (mode_bit m) n \<longleftrightarrow> n = enum2Int m"
  using enum2Int_less [of m] by (auto simp: mode_bit_def bit_exp_iff LOCK_MODE_NUM_def)

lemma ex_LockMode:
  "(\<exists>b. P b) \<longleftrightarrow> P LOCK_NONE \<or> P LOCK_IS \<or> P LOCK_IX \<or> P LOCK_S \<or> P LOCK_X"
proof
  assume "\<exists>b. P b"
  then obtain b where "P b" by blast
  then show "P LOCK_NONE \<or> P LOCK_IS \<or> P LOCK_IX \<or> P LOCK_S \<or> P LOCK_X" by (cases b) simp_all
qed blast

lemma conflicts_sym: "conflicts a b \<longleftrightarrow> conflicts b a"
  by (cases a; cases b) simp_all

lemma conflictTable_bit: "bit (conflictTable ! enum2Int m) n \<longleftrightarrow> (\<exists>b. enum2Int b = n \<and> conflicts m b)"
  unfolding ex_LockMode by (cases m) (auto simp: conflictTable_def bit_or_iff)

lemma word_eq_0_iff_bits: "(a :: 'a::len word) = 0 \<longleftrightarrow> (\<forall>n. \<not> bit a n)"
proof
  assume "\<forall>n. \<not> bit a n"
  then show "a = 0" by (intro bit_word_eqI) simp
qed simp

lemma word_and_neq_0_iff: "a AND b \<noteq> (0 :: 'a::len word) \<longleftrightarrow> (\<exists>n. bit a n \<and> bit b n)"
  by (simp add: word_eq_0_iff_bits bit_and_iff)

lemma isConflict_iff:
  assumes "refs_ok mo cnt modes xs"
  shows "isConflict modes m \<longleftrightarrow> (\<exists>i\<in>set xs. conflicts m (mo i))"
proof -
  have b: "bit modes n \<longleftrightarrow> (\<exists>i\<in>set xs. enum2Int (mo i) = n)" for n
    using assms by (simp add: refs_ok_def)
  show ?thesis
    unfolding isConflict_def word_and_neq_0_iff conflictTable_bit b by auto
qed

lemma modes_eq_0_iff:
  assumes "refs_ok mo cnt modes xs"
  shows "modes = 0 \<longleftrightarrow> xs = []"
proof -
  have b: "bit modes n \<longleftrightarrow> (\<exists>i\<in>set xs. enum2Int (mo i) = n)" for n
    using assms by (simp add: refs_ok_def)
  have "modes = 0 \<longleftrightarrow> (\<forall>n. \<not> bit modes n)" by (rule word_eq_0_iff_bits)
  then show ?thesis using b by (cases xs) auto
qed

lemma refs_ok_new: "refs_ok mo (replicate LOCK_MODE_NUM 0) 0 []"
  using enum2Int_less by (simp add: refs_ok_def)

lemma refs_ok_cong:
  "(\<And>i. i \<in> set xs \<Longrightarrow> mo i = mo' i) \<Longrightarrow> refs_ok mo cnt modes xs \<longleftrightarrow> refs_ok mo' cnt modes xs"
  unfolding refs_ok_def by (auto cong: filter_cong)

lemma unat_of_nat_u16: "n < 65536 \<Longrightarrow> unat (of_nat n :: u16) = n"
  by (simp add: unat_of_nat)

lemma of_nat_u16_eq_iff:
  assumes "a < 65536" "b < 65536"
  shows "(of_nat a :: u16) = of_nat b \<longleftrightarrow> a = b"
  using unat_of_nat_u16 [OF assms(1)] unat_of_nat_u16 [OF assms(2)] by metis

lemma refs_ok_incr:
  assumes "refs_ok mo cnt modes xs" "Suc (length xs) < 65536"
    and "incrRef (mo i) (cnt, modes) = (cnt', modes')"
  shows "refs_ok mo cnt' modes' (xs @ [i])"
proof -
  let ?m = "mo i" and ?c = "\<lambda>m. length (filter (\<lambda>j. mo j = m) xs)"
  have len: "length cnt = LOCK_MODE_NUM" and cnt: "\<And>m. cnt ! enum2Int m = of_nat (?c m)"
    and modes: "\<And>n. bit modes n \<longleftrightarrow> (\<exists>j\<in>set xs. enum2Int (mo j) = n)"
    using assms(1) by (auto simp: refs_ok_def)
  have cnt': "cnt' = cnt[enum2Int ?m := of_nat (Suc (?c ?m))]"
    using assms(3) cnt [of ?m] by (simp add: incrRef_def Let_def add.commute)
  have n: "enum2Int ?m < length cnt" using enum2Int_less len by simp
  have bound: "Suc (?c ?m) < 65536"
    using assms(2) length_filter_le [of "\<lambda>j. mo j = ?m" xs] by linarith
  have one: "cnt' ! enum2Int ?m = 1 \<longleftrightarrow> ?c ?m = 0"
    using of_nat_u16_eq_iff [OF bound, of 1] n by (simp add: cnt')
  have modes': "modes' = (if ?c ?m = 0 then modes OR mode_bit ?m else modes)"
    using assms(3) one by (simp add: incrRef_def Let_def cnt' split: if_splits)
  have "cnt' ! enum2Int m = of_nat (length (filter (\<lambda>j. mo j = m) (xs @ [i])))" for m
    using n cnt [of m] by (cases "m = ?m") (simp_all add: cnt')
  moreover have "bit modes' k \<longleftrightarrow> (\<exists>j\<in>set (xs @ [i]). enum2Int (mo j) = k)" for k
  proof (cases "?c ?m = 0")
    case True
    then show ?thesis by (auto simp: modes' modes bit_or_iff)
  next
    case False
    then obtain j where "j \<in> set xs" "mo j = ?m" by (auto simp: filter_empty_conv)
    with False show ?thesis by (auto simp: modes' modes)
  qed
  ultimately show ?thesis using len by (simp add: refs_ok_def cnt')
qed

lemma refs_ok_decr:
  assumes "refs_ok mo cnt modes xs" "length xs < 65536" "distinct xs" "i \<in> set xs"
    and "decRef (mo i) (cnt, modes) = (cnt', modes')"
  shows "refs_ok mo cnt' modes' (remove1 i xs)"
proof -
  let ?m = "mo i" and ?c = "\<lambda>m. length (filter (\<lambda>j. mo j = m) xs)"
  let ?d = "\<lambda>m. length (filter (\<lambda>j. mo j = m) (remove1 i xs))"
  have len: "length cnt = LOCK_MODE_NUM" and cnt: "\<And>m. cnt ! enum2Int m = of_nat (?c m)"
    and modes: "\<And>n. bit modes n \<longleftrightarrow> (\<exists>j\<in>set xs. enum2Int (mo j) = n)"
    using assms(1) by (auto simp: refs_ok_def)
  have rem: "filter (\<lambda>j. mo j = m) (remove1 i xs) = remove1 i (filter (\<lambda>j. mo j = m) xs)" for m
    by (rule filter_remove1)
  have d: "?c m = (if m = ?m then Suc (?d m) else ?d m)" for m
    using assms(4) length_pos_if_in_set [of i "filter (\<lambda>j. mo j = ?m) xs"]
    by (auto simp: rem length_remove1)
  have n: "enum2Int ?m < length cnt" using enum2Int_less len by simp
  have cnt': "cnt' = cnt[enum2Int ?m := of_nat (?d ?m)]"
    using assms(5) cnt [of ?m] d [of ?m] by (simp add: decRef_def Let_def)
  have bound: "?d ?m < 65536"
    using assms(2) length_filter_le [of "\<lambda>j. mo j = ?m" xs] d [of ?m] by simp
  have zero: "cnt' ! enum2Int ?m = 0 \<longleftrightarrow> ?d ?m = 0"
    using of_nat_u16_eq_iff [OF bound, of 0] n by (simp add: cnt')
  have modes': "modes' = (if ?d ?m = 0 then modes AND NOT (mode_bit ?m) else modes)"
    using assms(5) zero by (simp add: decRef_def Let_def cnt' split: if_splits)
  have "cnt' ! enum2Int m = of_nat (?d m)" for m
    using n cnt [of m] d [of m] by (cases "m = ?m") (simp_all add: cnt')
  moreover have "bit modes' k \<longleftrightarrow> (\<exists>j\<in>set (remove1 i xs). enum2Int (mo j) = k)" for k
  proof (cases "?d ?m = 0")
    case True
    then have "mo j \<noteq> ?m" if "j \<in> set (remove1 i xs)" for j
      using that by (auto simp: filter_empty_conv)
    then show ?thesis
      using True assms(3) by (auto simp: modes' modes bit_and_iff bit_not_iff_eq)
  next
    case False
    then obtain j where "j \<in> set (remove1 i xs)" "mo j = ?m" by (auto simp: filter_empty_conv)
    with False assms(3) show ?thesis
      by (auto simp: modes' modes) (metis DiffI empty_iff insert_iff)
  qed
  ultimately show ?thesis using len by (simp add: refs_ok_def cnt')
qed

subsection \<open>The invariant of a scheduling context\<close>

definition queue :: "LockSchedCtx \<times> locks \<Rightarrow> nat list" where
  "queue = (\<lambda>(c, ls). sc_runningList c @ sc_pendingList c)"

definition granted :: "LockSchedCtx \<times> locks \<Rightarrow> nat list" where
  "granted = (\<lambda>(c, ls). sc_runningList c)"

definition mode_of :: "LockSchedCtx \<times> locks \<Rightarrow> nat \<Rightarrow> LockMode" where
  "mode_of = (\<lambda>(c, ls) i. lk_mode (ls i))"

definition compatible :: "LockSchedCtx \<times> locks \<Rightarrow> bool" where
  "compatible = (\<lambda>(c, ls). \<forall>i\<in>set (sc_runningList c). \<forall>j\<in>set (sc_runningList c).
     i \<noteq> j \<longrightarrow> \<not> conflicts (lk_mode (ls i)) (lk_mode (ls j)))"

definition ctx_ok :: "LockSchedCtx \<times> locks \<Rightarrow> bool" where
  "ctx_ok = (\<lambda>(c, ls).
     distinct (sc_runningList c @ sc_pendingList c) \<and>
     length (sc_runningList c @ sc_pendingList c) < 65536 \<and>
     refs_ok (\<lambda>i. lk_mode (ls i)) (sc_runningRefCnt c) (sc_runningModes c) (sc_runningList c) \<and>
     refs_ok (\<lambda>i. lk_mode (ls i)) (sc_pendingRefCnt c) (sc_pendingModes c) (sc_pendingList c) \<and>
     (\<forall>i\<in>set (sc_runningList c). lk_res (ls i) = LOCKRES_OK) \<and>
     (\<forall>i\<in>set (sc_pendingList c). lk_res (ls i) = LOCKRES_WAIT) \<and>
     compatible (c, ls))"

definition ctx_live :: "LockSchedCtx \<times> locks \<Rightarrow> bool" where
  "ctx_live = (\<lambda>(c, ls). sc_pendingList c \<noteq> [] \<longrightarrow> sc_runningList c \<noteq> [])"

lemma lk_mode_setLockResult [simp]: "lk_mode (setLockResult ls i r j) = lk_mode (ls j)"
  by (simp add: setLockResult_def)

lemma lk_mode_releaseLockResult [simp]: "lk_mode (releaseLockResult ls i j) = lk_mode (ls j)"
  by (simp add: releaseLockResult_def)

lemma lk_res_setLockResult: "lk_res (setLockResult ls i r j) = (if i = j then r else lk_res (ls j))"
  by (simp add: setLockResult_def)

lemma lk_res_releaseLockResult:
  "lk_res (releaseLockResult ls i j) = (if i = j then LOCKRES_UNINITED else lk_res (ls j))"
  by (simp add: releaseLockResult_def)

lemma incrRunningRef_fields [simp]:
  "sc_runningList (incrRunningRef m c) = sc_runningList c"
  "sc_pendingList (incrRunningRef m c) = sc_pendingList c"
  "sc_pendingRefCnt (incrRunningRef m c) = sc_pendingRefCnt c"
  "sc_pendingModes (incrRunningRef m c) = sc_pendingModes c"
  by (simp_all add: incrRunningRef_def split: prod.split)

lemma decRunningRef_fields [simp]:
  "sc_runningList (decRunningRef m c) = sc_runningList c"
  "sc_pendingList (decRunningRef m c) = sc_pendingList c"
  "sc_pendingRefCnt (decRunningRef m c) = sc_pendingRefCnt c"
  "sc_pendingModes (decRunningRef m c) = sc_pendingModes c"
  by (simp_all add: decRunningRef_def split: prod.split)

lemma incrPendingRef_fields [simp]:
  "sc_runningList (incrPendingRef m c) = sc_runningList c"
  "sc_pendingList (incrPendingRef m c) = sc_pendingList c"
  "sc_runningRefCnt (incrPendingRef m c) = sc_runningRefCnt c"
  "sc_runningModes (incrPendingRef m c) = sc_runningModes c"
  by (simp_all add: incrPendingRef_def split: prod.split)

lemma decPendingRef_fields [simp]:
  "sc_runningList (decPendingRef m c) = sc_runningList c"
  "sc_pendingList (decPendingRef m c) = sc_pendingList c"
  "sc_runningRefCnt (decPendingRef m c) = sc_runningRefCnt c"
  "sc_runningModes (decPendingRef m c) = sc_runningModes c"
  by (simp_all add: decPendingRef_def split: prod.split)

lemma incrRunningRef_ok:
  assumes "refs_ok mo (sc_runningRefCnt c) (sc_runningModes c) xs" "Suc (length xs) < 65536"
  shows "refs_ok mo (sc_runningRefCnt (incrRunningRef (mo i) c))
    (sc_runningModes (incrRunningRef (mo i) c)) (xs @ [i])"
  using refs_ok_incr [OF assms] by (simp add: incrRunningRef_def split: prod.split)

lemma incrPendingRef_ok:
  assumes "refs_ok mo (sc_pendingRefCnt c) (sc_pendingModes c) xs" "Suc (length xs) < 65536"
  shows "refs_ok mo (sc_pendingRefCnt (incrPendingRef (mo i) c))
    (sc_pendingModes (incrPendingRef (mo i) c)) (xs @ [i])"
  using refs_ok_incr [OF assms] by (simp add: incrPendingRef_def split: prod.split)

lemma decRunningRef_ok:
  assumes "refs_ok mo (sc_runningRefCnt c) (sc_runningModes c) xs" "length xs < 65536"
    "distinct xs" "i \<in> set xs"
  shows "refs_ok mo (sc_runningRefCnt (decRunningRef (mo i) c))
    (sc_runningModes (decRunningRef (mo i) c)) (remove1 i xs)"
  using refs_ok_decr [OF assms] by (simp add: decRunningRef_def split: prod.split)

lemma decPendingRef_ok:
  assumes "refs_ok mo (sc_pendingRefCnt c) (sc_pendingModes c) xs" "length xs < 65536"
    "distinct xs" "i \<in> set xs"
  shows "refs_ok mo (sc_pendingRefCnt (decPendingRef (mo i) c))
    (sc_pendingModes (decPendingRef (mo i) c)) (remove1 i xs)"
  using refs_ok_decr [OF assms] by (simp add: decPendingRef_def split: prod.split)

lemmas ctx_defs = ctx_ok_def ctx_live_def compatible_def queue_def granted_def

lemma LockSchedCtx_lock_ok:
  assumes "ctx_ok (c, ls)" "core \<notin> set (queue (c, ls))" "Suc (length (queue (c, ls))) < 65536"
  shows "ctx_ok (LockSchedCtx_lock core (c, ls))"
proof (cases "isConflict (sc_runningModes c) (lk_mode (ls core)) \<or> 1 \<le> length (sc_pendingList c)")
  case True
  let ?c = "c\<lparr>sc_pendingList := sc_pendingList c @ [core]\<rparr>"
  have "refs_ok (\<lambda>i. lk_mode (ls i)) (sc_pendingRefCnt (incrPendingRef (lk_mode (ls core)) ?c))
      (sc_pendingModes (incrPendingRef (lk_mode (ls core)) ?c)) (sc_pendingList c @ [core])"
    by (rule incrPendingRef_ok) (use assms in \<open>auto simp: ctx_defs\<close>)
  with True assms show ?thesis
    by (auto simp: LockSchedCtx_lock_def ctx_defs lk_res_setLockResult)
next
  case False
  let ?c = "c\<lparr>sc_runningList := sc_runningList c @ [core]\<rparr>"
  have "refs_ok (\<lambda>i. lk_mode (ls i)) (sc_runningRefCnt (incrRunningRef (lk_mode (ls core)) ?c))
      (sc_runningModes (incrRunningRef (lk_mode (ls core)) ?c)) (sc_runningList c @ [core])"
    by (rule incrRunningRef_ok) (use assms in \<open>auto simp: ctx_defs\<close>)
  moreover have "\<not> conflicts (lk_mode (ls core)) (lk_mode (ls i))" if "i \<in> set (sc_runningList c)" for i
    using False isConflict_iff [of "\<lambda>i. lk_mode (ls i)"] assms(1) that by (auto simp: ctx_defs)
  ultimately show ?thesis
    using False assms conflicts_sym
    by (auto simp: LockSchedCtx_lock_def ctx_defs lk_res_setLockResult)
qed

lemma LockSchedCtx_lock_queue:
  "queue (LockSchedCtx_lock core (c, ls)) = queue (c, ls) @ [core]"
  by (cases "sc_pendingList c") (auto simp: LockSchedCtx_lock_def queue_def Let_def)

lemma LockSchedCtx_lock_live:
  assumes "ctx_ok (c, ls)" "ctx_live (c, ls)"
  shows "ctx_live (LockSchedCtx_lock core (c, ls))"
  using assms isConflict_iff [of "\<lambda>i. lk_mode (ls i)" "sc_runningRefCnt c" "sc_runningModes c"]
  by (auto simp: LockSchedCtx_lock_def ctx_defs Let_def)

lemma grant_ok:
  assumes "ctx_ok (c, ls)" "sc_pendingList c = core # rest"
    and "\<not> isConflict (sc_runningModes c) (lk_mode (ls core))"
  shows "ctx_ok (grant core (c, ls))"
proof -
  let ?m = "lk_mode (ls core)" and ?mo = "\<lambda>i. lk_mode (ls i)"
  let ?c = "decPendingRef ?m (incrRunningRef ?m c)"
  have "refs_ok ?mo (sc_runningRefCnt ?c) (sc_runningModes ?c) (sc_runningList c @ [core])"
    unfolding decPendingRef_fields
    by (rule incrRunningRef_ok) (use assms in \<open>auto simp: ctx_defs\<close>)
  moreover have "refs_ok ?mo (sc_pendingRefCnt ?c) (sc_pendingModes ?c)
      (remove1 core (sc_pendingList c))"
    by (rule decPendingRef_ok) (use assms in \<open>auto simp: ctx_defs\<close>)
  moreover have "\<not> conflicts ?m (lk_mode (ls i))" if "i \<in> set (sc_runningList c)" for i
    using assms(3) isConflict_iff [of ?mo] assms(1) that by (auto simp: ctx_defs)
  ultimately show ?thesis
    using assms conflicts_sym by (auto simp: grant_def Let_def ctx_defs lk_res_setLockResult)
qed

lemma grant_queue: "sc_pendingList c = core # rest \<Longrightarrow> queue (grant core (c, ls)) = queue (c, ls)"
  by (simp add: grant_def queue_def Let_def)

text \<open>
  What scheduling keeps: the queue, the members of the locks but for results, the results outside
  the queue, and the granted locks.
\<close>

definition same_locks :: "locks \<Rightarrow> locks \<Rightarrow> nat set \<Rightarrow> bool" where
  "same_locks ls ls' A \<longleftrightarrow>
     (\<forall>i. lk_mode (ls' i) = lk_mode (ls i) \<and> lk_target (ls' i) = lk_target (ls i) \<and>
          lk_targetHash (ls' i) = lk_targetHash (ls i)) \<and>
     (\<forall>i. i \<notin> A \<longrightarrow> ls' i = ls i)"

lemma same_locks_refl [simp]: "same_locks ls ls A"
  by (simp add: same_locks_def)

lemma same_locks_trans: "same_locks a b A \<Longrightarrow> same_locks b c A \<Longrightarrow> same_locks a c A"
  by (simp add: same_locks_def)

lemma same_locks_setLockResult: "i \<in> A \<Longrightarrow> same_locks ls (setLockResult ls i r) A"
  by (auto simp: same_locks_def setLockResult_def)

lemma same_locks_releaseLockResult: "i \<in> A \<Longrightarrow> same_locks ls (releaseLockResult ls i) A"
  by (auto simp: same_locks_def releaseLockResult_def)

lemma grant_same:
  "sc_pendingList c = core # rest \<Longrightarrow>
   same_locks ls (snd (grant core (c, ls))) (set (queue (c, ls))) \<and>
   sc_runningList (fst (grant core (c, ls))) = sc_runningList c @ [core]"
  by (simp add: grant_def Let_def queue_def same_locks_setLockResult)

lemma schedPendingLocks_ok:
  assumes "ctx_ok s"
  shows "ctx_ok (schedPendingLocks s) \<and> ctx_live (schedPendingLocks s) \<and>
    queue (schedPendingLocks s) = queue s \<and>
    set (granted s) \<subseteq> set (granted (schedPendingLocks s)) \<and>
    same_locks (snd s) (snd (schedPendingLocks s)) (set (queue s))"
  using assms
proof (induction s rule: schedPendingLocks.induct)
  case (1 c ls)
  show ?case
  proof (cases "sc_pendingList c")
    case Nil
    with 1 show ?thesis by (simp add: schedPendingLocks.simps ctx_live_def)
  next
    case (Cons core rest)
    show ?thesis
    proof (cases "isConflict (sc_runningModes c) (lk_mode (ls core))")
      case True
      moreover from True "1.prems" have "sc_runningList c \<noteq> []"
        using isConflict_iff [of "\<lambda>i. lk_mode (ls i)" "sc_runningRefCnt c" "sc_runningModes c"
            "sc_runningList c"]
        by (auto simp: ctx_ok_def)
      ultimately show ?thesis
        using Cons "1.prems" by (simp add: schedPendingLocks.simps ctx_live_def)
    next
      case False
      let ?g = "grant core (c, ls)"
      have g: "ctx_ok ?g" by (rule grant_ok [OF "1.prems" Cons False])
      have step: "schedPendingLocks (c, ls) = schedPendingLocks ?g"
        using Cons False by (simp add: schedPendingLocks.simps)
      have "set (granted (c, ls)) \<subseteq> set (granted ?g)"
        using grant_same [OF Cons, of ls] by (cases ?g) (auto simp: granted_def)
      with "1.IH" [OF Cons False g] grant_queue [OF Cons, of ls] grant_same [OF Cons, of ls]
      show ?thesis unfolding step by (auto intro: same_locks_trans)
    qed
  qed
qed

definition unlock_state :: "nat \<Rightarrow> LockSchedCtx \<times> locks \<Rightarrow> LockSchedCtx \<times> locks" where
  "unlock_state core s = snd (LockSchedCtx_unlock core s)"

text \<open>The state after the lock has left its list and before pending locks are scheduled.\<close>

definition left_state :: "nat \<Rightarrow> LockSchedCtx \<times> locks \<Rightarrow> LockSchedCtx \<times> locks" where
  "left_state core = (\<lambda>(c, ls).
     (if core \<in> set (sc_runningList c)
      then decRunningRef (lk_mode (ls core))
        (c\<lparr>sc_runningList := remove1 core (sc_runningList c)\<rparr>)
      else decPendingRef (lk_mode (ls core))
        (c\<lparr>sc_pendingList := remove1 core (sc_pendingList c)\<rparr>),
      releaseLockResult ls core))"

lemma left_state_ok:
  assumes "ctx_ok (c, ls)" "core \<in> set (queue (c, ls))"
  shows "ctx_ok (left_state core (c, ls)) \<and>
    queue (left_state core (c, ls)) = remove1 core (queue (c, ls))"
proof (cases "core \<in> set (sc_runningList c)")
  case True
  let ?c = "c\<lparr>sc_runningList := remove1 core (sc_runningList c)\<rparr>"
  have "refs_ok (\<lambda>i. lk_mode (ls i)) (sc_runningRefCnt (decRunningRef (lk_mode (ls core)) ?c))
      (sc_runningModes (decRunningRef (lk_mode (ls core)) ?c)) (remove1 core (sc_runningList c))"
    by (rule decRunningRef_ok) (use assms True in \<open>auto simp: ctx_defs\<close>)
  with True assms show ?thesis
    by (auto simp: left_state_def ctx_defs lk_res_releaseLockResult remove1_append length_remove1)
next
  case False
  let ?c = "c\<lparr>sc_pendingList := remove1 core (sc_pendingList c)\<rparr>"
  have "refs_ok (\<lambda>i. lk_mode (ls i)) (sc_pendingRefCnt (decPendingRef (lk_mode (ls core)) ?c))
      (sc_pendingModes (decPendingRef (lk_mode (ls core)) ?c)) (remove1 core (sc_pendingList c))"
    by (rule decPendingRef_ok) (use assms False in \<open>auto simp: ctx_defs\<close>)
  with False assms show ?thesis
    by (auto simp: left_state_def ctx_defs lk_res_releaseLockResult remove1_append length_remove1)
qed

lemma unlock_cases:
  assumes "ctx_ok (c, ls)" "core \<in> set (queue (c, ls))"
  shows "LockSchedCtx_unlock core (c, ls) =
    (let s = left_state core (c, ls) in
     if core \<in> set (sc_runningList c) \<and> sc_runningModes (fst s) \<noteq> 0 then (False, s)
     else (queue (schedPendingLocks s) = [], schedPendingLocks s))"
proof -
  have st: "core \<in> set (sc_runningList c) \<Longrightarrow> lk_res (ls core) = LOCKRES_OK"
    "core \<notin> set (sc_runningList c) \<Longrightarrow> lk_res (ls core) = LOCKRES_WAIT"
    using assms by (auto simp: ctx_defs)
  have res: "(\<lambda>(c, ls). (sc_pendingList c = [] \<and> sc_runningList c = [], c, ls)) s =
      (queue s = [], s)" for s
    by (cases s) (auto simp: queue_def)
  show ?thesis
    by (cases "core \<in> set (sc_runningList c)")
      (simp_all add: LockSchedCtx_unlock_def left_state_def Let_def st res [unfolded Let_def])
qed

lemma left_state_same:
  assumes "core \<in> set (queue (c, ls))"
  shows "same_locks ls (snd (left_state core (c, ls))) (set (queue (c, ls)))"
    and "set (granted (c, ls)) - {core} \<subseteq> set (granted (left_state core (c, ls)))"
    and "lk_res (snd (left_state core (c, ls)) core) = LOCKRES_UNINITED"
  using assms
  by (auto simp: left_state_def granted_def same_locks_releaseLockResult lk_res_releaseLockResult)
    (metis in_set_remove1)

lemma LockSchedCtx_unlock_ok:
  assumes ok: "ctx_ok s" and core: "core \<in> set (queue s)"
    and u: "LockSchedCtx_unlock core s = (e, s')"
  shows "ctx_ok s' \<and> ctx_live s' \<and> queue s' = remove1 core (queue s) \<and> (e \<longleftrightarrow> queue s' = []) \<and>
    set (granted s) - {core} \<subseteq> set (granted s') \<and> same_locks (snd s) (snd s') (set (queue s)) \<and>
    lk_res (snd s' core) = LOCKRES_UNINITED"
proof -
  obtain c ls where s: "s = (c, ls)" by (cases s)
  let ?l = "left_state core s"
  note l = left_state_ok [OF ok [unfolded s] core [unfolded s], folded s]
  note same = left_state_same [OF core [unfolded s], folded s]
  have dist: "core \<notin> set (queue ?l)" using l ok core by (auto simp: s ctx_ok_def queue_def)
  show ?thesis
  proof (cases "core \<in> set (sc_runningList c) \<and> sc_runningModes (fst ?l) \<noteq> 0")
    case True
    then have es: "e = False" "s' = ?l"
      using unlock_cases [OF ok [unfolded s] core [unfolded s]] u by (simp_all add: s Let_def)
    have "sc_runningList (fst ?l) \<noteq> []"
      using True l modes_eq_0_iff by (cases ?l) (fastforce simp: ctx_ok_def)
    then have "ctx_live ?l" "queue ?l \<noteq> []"
      by (auto simp: ctx_live_def queue_def split: prod.split)
    with l same es show ?thesis by (simp add: s)
  next
    case False
    then have es: "e = (queue (schedPendingLocks ?l) = [])" "s' = schedPendingLocks ?l"
      using unlock_cases [OF ok [unfolded s] core [unfolded s]] u by (auto simp: s Let_def)
    note p = schedPendingLocks_ok [of ?l]
    have sub: "set (queue ?l) \<subseteq> set (queue s)" using l by (metis set_remove1_subset)
    have "same_locks (snd ?l) (snd s') (set (queue s))"
      using p l sub unfolding es same_locks_def by blast
    then have "same_locks ls (snd s') (set (queue s))"
      using same(1) by (auto simp: s intro: same_locks_trans)
    moreover have "lk_res (snd s' core) = LOCKRES_UNINITED"
      using p l dist same(3) unfolding es same_locks_def by simp
    ultimately show ?thesis
      using p l same(2) unfolding es by (auto simp: s)
  qed
qed

subsection \<open>First come, first served\<close>

text \<open>
  What clients of a target's lock rely on: locks queue in the order of arrival, the granted ones
  are a prefix of the queue and pairwise compatible, and a queue is never stuck.
\<close>

locale fifo_locks =
  fixes inv :: "'s \<Rightarrow> bool"
    and que :: "'s \<Rightarrow> nat list"
    and run :: "'s \<Rightarrow> nat list"
    and mode :: "'s \<Rightarrow> nat \<Rightarrow> LockMode"
    and room :: "'s \<Rightarrow> bool"
    and enter :: "nat \<Rightarrow> 's \<Rightarrow> 's"
    and leave :: "nat \<Rightarrow> 's \<Rightarrow> 's"
  assumes run_prefix: "inv s \<Longrightarrow> prefix (run s) (que s)"
    and que_distinct: "inv s \<Longrightarrow> distinct (que s)"
    and run_compatible: "inv s \<Longrightarrow> i \<in> set (run s) \<Longrightarrow> j \<in> set (run s) \<Longrightarrow> i \<noteq> j \<Longrightarrow>
      \<not> conflicts (mode s i) (mode s j)"
    and run_live: "inv s \<Longrightarrow> que s \<noteq> [] \<Longrightarrow> run s \<noteq> []"
    and enter_ok: "inv s \<Longrightarrow> i \<notin> set (que s) \<Longrightarrow> room s \<Longrightarrow>
      inv (enter i s) \<and> que (enter i s) = que s @ [i]"
    and leave_ok: "inv s \<Longrightarrow> i \<in> set (que s) \<Longrightarrow>
      inv (leave i s) \<and> que (leave i s) = remove1 i (que s) \<and>
      set (run s) - {i} \<subseteq> set (run (leave i s))"
begin

lemma head_granted: "inv s \<Longrightarrow> que s = i # xs \<Longrightarrow> i \<in> set (run s)"
  using run_prefix [of s] run_live [of s] by (cases "run s") auto

lemma no_overtaking:
  assumes "inv s" "que s = xs @ i # ys" "j \<in> set ys" "j \<in> set (run s)"
  shows "i \<in> set (run s)"
proof -
  from run_prefix [OF assms(1)] obtain zs where q: "que s = run s @ zs" by (auto elim: prefixE)
  have d: "distinct (xs @ i # ys)" using que_distinct [OF assms(1)] assms(2) by simp
  show ?thesis
  proof (rule ccontr)
    assume "i \<notin> set (run s)"
    moreover from q assms(2) have "xs @ (i # ys) = run s @ zs" by simp
    then obtain us where "xs = run s @ us \<or> run s = xs @ us \<and> i # ys = us @ zs"
      by (metis append_eq_append_conv2)
    ultimately have "set (run s) \<subseteq> set xs" by (cases us) auto
    with assms(3,4) d show False by auto
  qed
qed

text \<open>Once all locks ahead of a lock have left, it is granted.\<close>

lemma granted_when_first:
  assumes "inv s" "que s = xs @ i # ys"
  shows "i \<in> set (run (fold leave xs s))"
  using assms
proof (induction xs arbitrary: s)
  case Nil
  then show ?case using head_granted by simp
next
  case (Cons x xs)
  have "inv (leave x s)" "que (leave x s) = xs @ i # ys"
    using leave_ok [of s x] Cons.prems by simp_all
  from Cons.IH [OF this] show ?case by simp
qed

end

text \<open>The number of locks of a target stays below what the 16-bit counters hold.\<close>

definition ctx_room :: "LockSchedCtx \<times> locks \<Rightarrow> bool" where
  "ctx_room s \<longleftrightarrow> Suc (length (queue s)) < 65536"

interpretation sched: fifo_locks "\<lambda>s. ctx_ok s \<and> ctx_live s" queue granted mode_of ctx_room
  LockSchedCtx_lock unlock_state
proof
  fix s :: "LockSchedCtx \<times> locks" and i :: nat
  assume inv: "ctx_ok s \<and> ctx_live s"
  obtain c ls where s: "s = (c, ls)" by (cases s)
  show "prefix (granted s) (queue s)" by (simp add: s granted_def queue_def)
  show "distinct (queue s)" using inv by (simp add: s ctx_defs)
  show "\<And>j. i \<in> set (granted s) \<Longrightarrow> j \<in> set (granted s) \<Longrightarrow> i \<noteq> j \<Longrightarrow>
      \<not> conflicts (mode_of s i) (mode_of s j)"
    using inv by (auto simp: s ctx_defs mode_of_def)
  show "queue s \<noteq> [] \<Longrightarrow> granted s \<noteq> []" using inv by (auto simp: s ctx_defs)
  show "i \<notin> set (queue s) \<Longrightarrow> ctx_room s \<Longrightarrow>
      (ctx_ok (LockSchedCtx_lock i s) \<and> ctx_live (LockSchedCtx_lock i s)) \<and>
      queue (LockSchedCtx_lock i s) = queue s @ [i]"
    using inv LockSchedCtx_lock_ok LockSchedCtx_lock_live LockSchedCtx_lock_queue
    by (auto simp: s ctx_room_def)
  show "i \<in> set (queue s) \<Longrightarrow>
      (ctx_ok (unlock_state i s) \<and> ctx_live (unlock_state i s)) \<and>
      queue (unlock_state i s) = remove1 i (queue s) \<and>
      set (granted s) - {i} \<subseteq> set (granted (unlock_state i s))"
    using inv LockSchedCtx_unlock_ok [of s i]
    by (cases "LockSchedCtx_unlock i s") (auto simp: unlock_state_def)
qed

subsection \<open>The manager as a state machine\<close>

text \<open>
  The steps of the lock objects. \<open>lock\<close> is called on an idle object (the destructor and
  \<open>INVARIANT_D\<close> of \<open>MGLock::lock\<close> document it), while its target has room for one more lock;
  \<open>unlock\<close> is called at any time, also after a timed out wait.
\<close>

definition ctx_at :: "MGLockMgr \<Rightarrow> nat \<Rightarrow> bytes \<Rightarrow> LockSchedCtx" where
  "ctx_at s sh t = (case mg_shards s sh t of None \<Rightarrow> LockSchedCtx_new | Some c \<Rightarrow> c)"

definition hash_of :: "(bytes \<Rightarrow> u64) \<Rightarrow> bytes \<Rightarrow> u64" where
  "hash_of hash target = (if target \<noteq> [] then hash target else 0)"

inductive mgl_step :: "(bytes \<Rightarrow> u64) \<Rightarrow> MGLockMgr \<Rightarrow> MGLockMgr \<Rightarrow> bool" for hash where
  step_lock:
    "lk_res (mg_locks s core) = LOCKRES_UNINITED \<Longrightarrow>
     ctx_room (ctx_at s (unat (hash_of hash target) mod SHARD_NUM) target, mg_locks s) \<Longrightarrow>
     mgl_step hash s (MGLock_lock hash core target mode s)"
| step_unlock: "MGLock_unlock core s = ok s' \<Longrightarrow> mgl_step hash s s'"

inductive mgl_reachable :: "(bytes \<Rightarrow> u64) \<Rightarrow> MGLockMgr \<Rightarrow> bool" for hash where
  reach_new: "mgl_reachable hash MGLockMgr_new"
| reach_step: "mgl_reachable hash s \<Longrightarrow> mgl_step hash s s' \<Longrightarrow> mgl_reachable hash s'"

definition home :: "(bytes \<Rightarrow> u64) \<Rightarrow> bytes \<Rightarrow> nat" where
  "home hash t = unat (hash_of hash t) mod SHARD_NUM"

definition ctx_queue :: "LockSchedCtx \<Rightarrow> nat list" where
  "ctx_queue c = sc_runningList c @ sc_pendingList c"

definition mgr_ok :: "(bytes \<Rightarrow> u64) \<Rightarrow> MGLockMgr \<Rightarrow> bool" where
  "mgr_ok hash s \<longleftrightarrow>
     (\<forall>sh t c. mg_shards s sh t = Some c \<longrightarrow>
        sh = home hash t \<and> ctx_ok (c, mg_locks s) \<and> ctx_live (c, mg_locks s) \<and>
        ctx_queue c \<noteq> [] \<and> (\<forall>i\<in>set (ctx_queue c). lk_target (mg_locks s i) = t)) \<and>
     (\<forall>i. lk_res (mg_locks s i) \<noteq> LOCKRES_UNINITED \<longrightarrow>
        lk_targetHash (mg_locks s i) = hash_of hash (lk_target (mg_locks s i)) \<and>
        (\<exists>c. mg_shards s (home hash (lk_target (mg_locks s i))) (lk_target (mg_locks s i)) = Some c \<and>
           i \<in> set (ctx_queue c)))"

lemma queue_ctx: "queue (c, ls) = ctx_queue c"
  by (simp add: queue_def ctx_queue_def)

lemma mgr_okD:
  assumes "mgr_ok hash s" "mg_shards s sh t = Some c"
  shows "sh = home hash t" "ctx_ok (c, mg_locks s)" "ctx_live (c, mg_locks s)" "ctx_queue c \<noteq> []"
    "i \<in> set (ctx_queue c) \<Longrightarrow> lk_target (mg_locks s i) = t"
  using assms by (auto simp: mgr_ok_def)

lemma mgr_ok_busyD:
  assumes "mgr_ok hash s" "lk_res (mg_locks s i) \<noteq> LOCKRES_UNINITED"
  shows "shard_of (mg_locks s i) = home hash (lk_target (mg_locks s i))"
    and "lk_targetHash (mg_locks s i) = hash_of hash (lk_target (mg_locks s i))"
    and "\<exists>c. mg_shards s (home hash (lk_target (mg_locks s i))) (lk_target (mg_locks s i)) = Some c \<and>
      i \<in> set (ctx_queue c)"
  using assms unfolding mgr_ok_def shard_of_def home_def by simp_all

lemma mgr_okI:
  assumes "\<And>sh t c. mg_shards s sh t = Some c \<Longrightarrow>
      sh = home hash t \<and> ctx_ok (c, mg_locks s) \<and> ctx_live (c, mg_locks s) \<and>
      ctx_queue c \<noteq> [] \<and> (\<forall>i\<in>set (ctx_queue c). lk_target (mg_locks s i) = t)"
    and "\<And>i. lk_res (mg_locks s i) \<noteq> LOCKRES_UNINITED \<Longrightarrow>
      lk_targetHash (mg_locks s i) = hash_of hash (lk_target (mg_locks s i)) \<and>
      (\<exists>c. mg_shards s (home hash (lk_target (mg_locks s i))) (lk_target (mg_locks s i)) = Some c \<and>
         i \<in> set (ctx_queue c))"
  shows "mgr_ok hash s"
  unfolding mgr_ok_def by (rule conjI; intro allI impI; erule assms)

lemma mgr_ok_new: "mgr_ok hash MGLockMgr_new"
  by (simp add: mgr_ok_def MGLockMgr_new_def MGLock_new_def)

lemma ctx_new_ok: "ctx_ok (LockSchedCtx_new, ls) \<and> ctx_live (LockSchedCtx_new, ls)"
  by (simp add: ctx_defs LockSchedCtx_new_def refs_ok_new)

lemma ctx_queue_new [simp]: "ctx_queue LockSchedCtx_new = []"
  by (simp add: ctx_queue_def LockSchedCtx_new_def)

lemma ctx_ok_cong:
  assumes "ctx_ok (c, ls)"
    and "\<And>i. i \<in> set (ctx_queue c) \<Longrightarrow> lk_mode (ls' i) = lk_mode (ls i) \<and> lk_res (ls' i) = lk_res (ls i)"
  shows "ctx_ok (c, ls')"
proof -
  have "refs_ok (\<lambda>i. lk_mode (ls' i)) a b (sc_runningList c) \<longleftrightarrow>
      refs_ok (\<lambda>i. lk_mode (ls i)) a b (sc_runningList c)"
    "refs_ok (\<lambda>i. lk_mode (ls' i)) a b (sc_pendingList c) \<longleftrightarrow>
      refs_ok (\<lambda>i. lk_mode (ls i)) a b (sc_pendingList c)" for a b
    using assms(2) by (auto simp: ctx_queue_def intro!: refs_ok_cong)
  with assms show ?thesis by (auto simp: ctx_defs ctx_queue_def)
qed

lemma ctx_live_locks: "ctx_live (c, ls) \<longleftrightarrow> ctx_live (c, ls')"
  by (simp add: ctx_live_def)

lemma ctx_ok_busy: "ctx_ok (c, ls) \<Longrightarrow> i \<in> set (ctx_queue c) \<Longrightarrow> lk_res (ls i) \<noteq> LOCKRES_UNINITED"
  by (auto simp: ctx_defs ctx_queue_def)

lemma LockSchedCtx_lock_locks:
  assumes "LockSchedCtx_lock core (c, ls) = (c', ls')"
  shows "ctx_queue c' = ctx_queue c @ [core] \<and> lk_res (ls' core) \<noteq> LOCKRES_UNINITED \<and>
    same_locks ls ls' {core}"
  using assms LockSchedCtx_lock_queue [of core c ls]
  by (auto simp: queue_ctx LockSchedCtx_lock_def Let_def same_locks_setLockResult
      lk_res_setLockResult split: if_splits)

lemma mgr_ok_lock:
  assumes ok: "mgr_ok hash s" and idle: "lk_res (mg_locks s core) = LOCKRES_UNINITED"
    and room: "ctx_room (ctx_at s (home hash target) target, mg_locks s)"
  shows "mgr_ok hash (MGLock_lock hash core target mode s)"
proof -
  define l where "l = (mg_locks s core)\<lparr>lk_target := target, lk_mode := mode,
      lk_targetHash := hash_of hash target\<rparr>"
  define ls1 where "ls1 = (mg_locks s)(core := l)"
  let ?c = "ctx_at s (home hash target) target"
  obtain c' ls2 where L: "LockSchedCtx_lock core (?c, ls1) = (c', ls2)"
    by (cases "LockSchedCtx_lock core (?c, ls1)")
  define s' where "s' = (put_ctx (home hash target) target (Some c') s)\<lparr>mg_locks := ls2\<rparr>"
  have s': "MGLock_lock hash core target mode s = s'"
    using L unfolding s'_def MGLock_lock_def MGLockMgr_lock_def ls1_def l_def
    by (simp add: Let_def ctx_at_def shard_of_def home_def hash_of_def put_ctx_def)
  have fresh: "core \<notin> set (ctx_queue c)" if "mg_shards s sh t = Some c" for sh t c
    using ctx_ok_busy [OF mgr_okD(2) [OF ok that], of core] idle by auto
  have C: "ctx_ok (?c, mg_locks s)" "ctx_live (?c, mg_locks s)" "core \<notin> set (ctx_queue ?c)"
    "\<forall>i\<in>set (ctx_queue ?c). lk_target (mg_locks s i) = target"
    using ctx_new_ok fresh [of "home hash target" target] mgr_okD [OF ok, of "home hash target" target]
    by (cases "mg_shards s (home hash target) target"; simp add: ctx_at_def)+
  have C1: "ctx_ok (?c, ls1)" "ctx_live (?c, ls1)"
    by (rule ctx_ok_cong [OF C(1)]) (use C(2,3) in \<open>auto simp: ls1_def ctx_live_def\<close>)
  have C2: "ctx_ok (c', ls2)" "ctx_live (c', ls2)"
    using LockSchedCtx_lock_ok [OF C1(1), of core] LockSchedCtx_lock_live [OF C1, of core] C(3) room L
    by (simp_all add: queue_ctx ctx_room_def)
  note lk = LockSchedCtx_lock_locks [OF L]
  have same: "ls2 i = mg_locks s i" if "i \<noteq> core" for i
    using lk that by (simp add: same_locks_def ls1_def)
  have core: "lk_target (ls2 core) = target" "lk_targetHash (ls2 core) = hash_of hash target"
    using lk by (simp_all add: same_locks_def ls1_def l_def)
  have others: "ctx_ok (c, ls2)" if "mg_shards s sh t = Some c" for sh t c
  proof (rule ctx_ok_cong [OF mgr_okD(2) [OF ok that]])
    fix i
    assume "i \<in> set (ctx_queue c)"
    then have "i \<noteq> core" using fresh [OF that] by blast
    then show "lk_mode (ls2 i) = lk_mode (mg_locks s i) \<and> lk_res (ls2 i) = lk_res (mg_locks s i)"
      by (simp add: same)
  qed
  show ?thesis
    unfolding s'
  proof (rule mgr_okI)
    fix sh t c
    assume some: "mg_shards s' sh t = Some c"
    show "sh = home hash t \<and> ctx_ok (c, mg_locks s') \<and> ctx_live (c, mg_locks s') \<and>
        ctx_queue c \<noteq> [] \<and> (\<forall>i\<in>set (ctx_queue c). lk_target (mg_locks s' i) = t)"
    proof (cases "sh = home hash target \<and> t = target")
      case True
      with some have c: "c = c'" by (simp add: s'_def put_ctx_def)
      have "lk_target (ls2 i) = target" if "i \<in> set (ctx_queue c')" for i
        using that lk C(4) core(1) same [of i] by (cases "i = core") simp_all
      with c True C2 lk show ?thesis by (simp add: s'_def)
    next
      case False
      with some have old: "mg_shards s sh t = Some c"
        by (auto simp: s'_def put_ctx_def split: if_splits)
      have "lk_target (ls2 i) = t" if "i \<in> set (ctx_queue c)" for i
      proof -
        have "i \<noteq> core" using that fresh [OF old] by blast
        with mgr_okD(5) [OF ok old that] same show ?thesis by simp
      qed
      with others [OF old] mgr_okD [OF ok old] show ?thesis by (simp add: s'_def ctx_live_def)
    qed
  next
    fix i
    assume busy: "lk_res (mg_locks s' i) \<noteq> LOCKRES_UNINITED"
    show "lk_targetHash (mg_locks s' i) = hash_of hash (lk_target (mg_locks s' i)) \<and>
        (\<exists>c. mg_shards s' (home hash (lk_target (mg_locks s' i))) (lk_target (mg_locks s' i)) =
           Some c \<and> i \<in> set (ctx_queue c))"
    proof (cases "i = core")
      case True
      with core lk show ?thesis by (simp add: s'_def put_ctx_def)
    next
      case False
      then have i: "ls2 i = mg_locks s i" by (rule same)
      have b: "lk_res (mg_locks s i) \<noteq> LOCKRES_UNINITED" using busy by (simp add: s'_def i)
      obtain c where c: "lk_targetHash (mg_locks s i) = hash_of hash (lk_target (mg_locks s i))"
        "mg_shards s (home hash (lk_target (mg_locks s i))) (lk_target (mg_locks s i)) = Some c"
        "i \<in> set (ctx_queue c)"
        using mgr_ok_busyD(2,3) [OF ok b] by blast
      show ?thesis
      proof (cases "lk_target (mg_locks s i) = target")
        case True
        with c have "i \<in> set (ctx_queue c')" using lk by (simp add: ctx_at_def)
        with True c show ?thesis by (simp add: s'_def i put_ctx_def)
      next
        case False
        with c show ?thesis by (auto simp: s'_def i put_ctx_def)
      qed
    qed
  qed
qed

lemma mgr_ok_unlock:
  assumes ok: "mgr_ok hash s" and busy: "lk_res (mg_locks s core) \<noteq> LOCKRES_UNINITED"
  shows "\<exists>s'. MGLockMgr_unlock core s = ok s' \<and> mgr_ok hash s' \<and>
    lk_res (mg_locks s' core) = LOCKRES_UNINITED"
proof -
  let ?t = "lk_target (mg_locks s core)"
  obtain c where c: "mg_shards s (home hash ?t) ?t = Some c" and core: "core \<in> set (ctx_queue c)"
    using mgr_ok_busyD(3) [OF ok busy] by blast
  obtain e c' ls' where U: "LockSchedCtx_unlock core (c, mg_locks s) = (e, c', ls')"
    by (cases "LockSchedCtx_unlock core (c, mg_locks s)") auto
  define s' where "s' = (put_ctx (home hash ?t) ?t (if e then None else Some c') s)\<lparr>mg_locks := ls'\<rparr>"
  have s': "MGLockMgr_unlock core s = ok s'"
    using U c mgr_ok_busyD(1) [OF ok busy] by (simp add: MGLockMgr_unlock_def Let_def s'_def)
  have "core \<in> set (queue (c, mg_locks s))" using core by (simp add: queue_ctx)
  from LockSchedCtx_unlock_ok [OF mgr_okD(2) [OF ok c] this U]
  have R: "ctx_ok (c', ls')" "ctx_live (c', ls')" "ctx_queue c' = remove1 core (ctx_queue c)"
    "e \<longleftrightarrow> ctx_queue c' = []" "same_locks (mg_locks s) ls' (set (ctx_queue c))"
    "lk_res (ls' core) = LOCKRES_UNINITED"
    by (simp_all add: queue_ctx)
  have keep: "ls' i = mg_locks s i" if "i \<notin> set (ctx_queue c)" for i
    using R that by (simp add: same_locks_def)
  have fields: "lk_target (ls' i) = lk_target (mg_locks s i)"
    "lk_targetHash (ls' i) = lk_targetHash (mg_locks s i)" for i
    using R by (simp_all add: same_locks_def)
  have sub: "i \<in> set (ctx_queue c') \<Longrightarrow> i \<in> set (ctx_queue c)"
    "i \<in> set (ctx_queue c) \<Longrightarrow> i \<noteq> core \<Longrightarrow> i \<in> set (ctx_queue c')" for i
    using R(3) set_remove1_subset [of core "ctx_queue c"] by auto
  have "mgr_ok hash s'"
  proof (rule mgr_okI)
    fix sh t d
    assume some: "mg_shards s' sh t = Some d"
    show "sh = home hash t \<and> ctx_ok (d, mg_locks s') \<and> ctx_live (d, mg_locks s') \<and>
        ctx_queue d \<noteq> [] \<and> (\<forall>i\<in>set (ctx_queue d). lk_target (mg_locks s' i) = t)"
    proof (cases "sh = home hash ?t \<and> t = ?t")
      case True
      with some have "(if e then None else Some c') = Some d" by (simp add: s'_def put_ctx_def)
      then have d: "d = c'" "\<not> e" by (simp_all split: if_splits)
      have "lk_target (ls' i) = t" if "i \<in> set (ctx_queue c')" for i
        using fields(1) [of i] mgr_okD(5) [OF ok c sub(1) [OF that]] True by simp
      with d True R(1,2,4) show ?thesis by (simp add: s'_def)
    next
      case False
      with some have old: "mg_shards s sh t = Some d"
        unfolding s'_def put_ctx_def by (cases "sh = home hash ?t") simp_all
      note D = mgr_okD [OF ok old]
      have "ls' i = mg_locks s i" if "i \<in> set (ctx_queue d)" for i
      proof (rule keep)
        have "t \<noteq> ?t" using False D(1) by auto
        then show "i \<notin> set (ctx_queue c)"
          using D(5) [OF that] mgr_okD(5) [OF ok c, of i] by auto
      qed
      then have "ctx_ok (d, ls')" by (intro ctx_ok_cong [OF D(2)]) simp
      with D fields(1) show ?thesis by (simp add: s'_def ctx_live_def)
    qed
  next
    fix i
    assume b: "lk_res (mg_locks s' i) \<noteq> LOCKRES_UNINITED"
    then have i: "i \<noteq> core" using R(6) unfolding s'_def by auto
    have b': "lk_res (mg_locks s i) \<noteq> LOCKRES_UNINITED"
      using b keep [of i] ctx_ok_busy [OF mgr_okD(2) [OF ok c], of i] by (cases "i \<in> set (ctx_queue c)")
        (simp_all add: s'_def)
    obtain d where d: "lk_targetHash (mg_locks s i) = hash_of hash (lk_target (mg_locks s i))"
      "mg_shards s (home hash (lk_target (mg_locks s i))) (lk_target (mg_locks s i)) = Some d"
      "i \<in> set (ctx_queue d)"
      using mgr_ok_busyD(2,3) [OF ok b'] by blast
    show "lk_targetHash (mg_locks s' i) = hash_of hash (lk_target (mg_locks s' i)) \<and>
        (\<exists>c. mg_shards s' (home hash (lk_target (mg_locks s' i))) (lk_target (mg_locks s' i)) =
           Some c \<and> i \<in> set (ctx_queue c))"
    proof (cases "lk_target (mg_locks s i) = ?t")
      case True
      with d c have "d = c" by simp
      with d(3) sub(2) i have i': "i \<in> set (ctx_queue c')" by simp
      then have "\<not> e" using R(4) by auto
      with i' True d fields show ?thesis by (simp add: s'_def put_ctx_def)
    next
      case False
      with d fields show ?thesis by (auto simp: s'_def put_ctx_def)
    qed
  qed
  moreover have "lk_res (mg_locks s' core) = LOCKRES_UNINITED" by (simp add: s'_def R(6))
  ultimately show ?thesis using s' by blast
qed

lemma mgr_ok_reachable: "mgl_reachable hash s \<Longrightarrow> mgr_ok hash s"
proof (induction rule: mgl_reachable.induct)
  case reach_new
  show ?case by (rule mgr_ok_new)
next
  case (reach_step s s')
  from reach_step.hyps(2) show ?case
  proof cases
    case (step_lock core target mode)
    then show ?thesis using mgr_ok_lock [OF reach_step.IH] by (simp add: home_def)
  next
    case (step_unlock core)
    show ?thesis
    proof (cases "lk_res (mg_locks s core) = LOCKRES_UNINITED")
      case True
      with step_unlock reach_step.IH show ?thesis by (simp add: MGLock_unlock_def)
    next
      case False
      with mgr_ok_unlock [OF reach_step.IH False] step_unlock show ?thesis
        by (simp add: MGLock_unlock_def)
    qed
  qed
qed

subsection \<open>Properties\<close>

text \<open>C13: in every reachable state, two different lock objects that hold the same target hold it in
  compatible modes.\<close>

theorem mgl_mutual_exclusion:
  assumes "mgl_reachable hash s" "i \<noteq> j"
    and "lk_res (mg_locks s i) = LOCKRES_OK" "lk_res (mg_locks s j) = LOCKRES_OK"
    and "lk_target (mg_locks s i) = lk_target (mg_locks s j)"
  shows "\<not> conflicts (lk_mode (mg_locks s i)) (lk_mode (mg_locks s j))"
proof -
  note ok = mgr_ok_reachable [OF assms(1)]
  let ?t = "lk_target (mg_locks s i)"
  obtain c where c: "mg_shards s (home hash ?t) ?t = Some c" and i: "i \<in> set (ctx_queue c)"
    using mgr_ok_busyD(3) [OF ok, of i] assms(3) by auto
  obtain d where "mg_shards s (home hash ?t) ?t = Some d" "j \<in> set (ctx_queue d)"
    using mgr_ok_busyD(3) [OF ok, of j] assms(4,5) by auto
  with c have j: "j \<in> set (ctx_queue c)" by simp
  have "i \<in> set (granted (c, mg_locks s))" "j \<in> set (granted (c, mg_locks s))"
    using mgr_okD(2) [OF ok c] i j assms(3,4) by (auto simp: ctx_defs ctx_queue_def)
  with sched.run_compatible [of "(c, mg_locks s)" i j] mgr_okD(2,3) [OF ok c] assms(2)
  show ?thesis by (simp add: mode_of_def)
qed

definition h0 :: "bytes \<Rightarrow> u64" where "h0 t = of_nat (length t)"

definition sample_mgr :: MGLockMgr where
  "sample_mgr = MGLock_lock h0 1 [97] LOCK_IX (MGLock_lock h0 0 [97] LOCK_IS MGLockMgr_new)"

lemmas mgl_eval = MGLock_lock_def MGLockMgr_lock_def LockSchedCtx_lock_def Let_def shard_of_def
  put_ctx_def setLockResult_def incrRunningRef_def incrRef_def isConflict_def conflictTable_def
  LockSchedCtx_new_def LOCK_MODE_NUM_def mode_bit_def MGLockMgr_new_def MGLock_new_def h0_def
  SHARD_NUM_def ctx_at_def ctx_room_def queue_def hash_of_def

lemma sample_mgr_reachable: "mgl_reachable h0 sample_mgr"
proof -
  have "mgl_step h0 MGLockMgr_new (MGLock_lock h0 0 [97] LOCK_IS MGLockMgr_new)"
    by (rule step_lock) (simp_all add: mgl_eval)
  moreover have "mgl_step h0 (MGLock_lock h0 0 [97] LOCK_IS MGLockMgr_new) sample_mgr"
    unfolding sample_mgr_def by (rule step_lock) (simp_all add: mgl_eval)
  ultimately show ?thesis by (blast intro: reach_new reach_step)
qed

theorem mgl_mutual_exclusion_witness:
  "\<not> conflicts (lk_mode (mg_locks sample_mgr 0)) (lk_mode (mg_locks sample_mgr 1)) \<and>
   lk_res (mg_locks sample_mgr 0) = LOCKRES_OK \<and> lk_res (mg_locks sample_mgr 1) = LOCKRES_OK"
proof -
  have "lk_res (mg_locks sample_mgr 0) = LOCKRES_OK" "lk_res (mg_locks sample_mgr 1) = LOCKRES_OK"
    "lk_target (mg_locks sample_mgr 0) = lk_target (mg_locks sample_mgr 1)"
    by (simp_all add: sample_mgr_def mgl_eval)
  with mgl_mutual_exclusion [OF sample_mgr_reachable _ this] show ?thesis by simp
qed

text \<open>C16: in every reachable state, \<open>unlock\<close> of any lock object succeeds, never meets a missing
  context, and leaves the object idle.\<close>

theorem mgl_unlock_succeeds:
  assumes "mgl_reachable hash s"
  shows "\<exists>s'. MGLock_unlock core s = ok s' \<and> mgl_reachable hash s' \<and>
    lk_res (mg_locks s' core) = LOCKRES_UNINITED"
proof (cases "lk_res (mg_locks s core) = LOCKRES_UNINITED")
  case True
  with assms show ?thesis by (simp add: MGLock_unlock_def)
next
  case False
  obtain s' where "MGLock_unlock core s = ok s'" "lk_res (mg_locks s' core) = LOCKRES_UNINITED"
    using mgr_ok_unlock [OF mgr_ok_reachable [OF assms] False] False by (auto simp: MGLock_unlock_def)
  with assms show ?thesis by (blast intro: reach_step step_unlock)
qed

theorem mgl_unlock_succeeds_witness:
  "\<exists>s'. MGLock_unlock 0 sample_mgr = ok s' \<and> lk_res (mg_locks s' 0) = LOCKRES_UNINITED"
  using mgl_unlock_succeeds [OF sample_mgr_reachable, of 0] by blast



text \<open>C15: a waiting lock is granted once all the locks ahead of it have been released, in whatever
  modes they are; no lock waits for one that came after it.\<close>

theorem mgl_granted_when_first:
  assumes "ctx_ok s" "ctx_live s" "queue s = xs @ i # ys"
  shows "i \<in> set (granted (fold unlock_state xs s)) \<and>
    lk_res (snd (fold unlock_state xs s) i) = LOCKRES_OK"
proof -
  have inv: "ctx_ok s \<and> ctx_live s" using assms by simp
  have g: "i \<in> set (granted (fold unlock_state xs s))"
    by (rule sched.granted_when_first [OF inv assms(3)])
  have "ctx_ok (fold unlock_state xs s)"
    using inv assms(3)
  proof (induction xs arbitrary: s)
    case (Cons x xs)
    then show ?case using sched.leave_ok [of s x] by simp
  qed simp
  with g show ?thesis by (cases "fold unlock_state xs s") (auto simp: ctx_defs)
qed

theorem mgl_granted_when_first_witness:
  "1 \<in> set (granted (fold unlock_state [0]
     (LockSchedCtx_lock 1 (LockSchedCtx_lock 0 (LockSchedCtx_new, (\<lambda>_. MGLock_new\<lparr>lk_mode := LOCK_X\<rparr>))))))"
proof -
  let ?ls = "\<lambda>_ :: nat. MGLock_new\<lparr>lk_mode := LOCK_X\<rparr>"
  let ?s0 = "(LockSchedCtx_new, ?ls)"
  have s0: "ctx_ok ?s0 \<and> ctx_live ?s0" by (rule ctx_new_ok)
  have q0: "queue ?s0 = []" by (simp add: queue_def LockSchedCtx_new_def)
  have s1: "(ctx_ok (LockSchedCtx_lock 0 ?s0) \<and> ctx_live (LockSchedCtx_lock 0 ?s0)) \<and>
      queue (LockSchedCtx_lock 0 ?s0) = [0]"
    using sched.enter_ok [OF s0, of 0] q0 by (simp add: ctx_room_def)
  have s2: "(ctx_ok (LockSchedCtx_lock 1 (LockSchedCtx_lock 0 ?s0)) \<and>
      ctx_live (LockSchedCtx_lock 1 (LockSchedCtx_lock 0 ?s0))) \<and>
      queue (LockSchedCtx_lock 1 (LockSchedCtx_lock 0 ?s0)) = [0, 1]"
    using sched.enter_ok [of "LockSchedCtx_lock 0 ?s0" 1] s1 by (simp add: ctx_room_def)
  then show ?thesis
    using mgl_granted_when_first [of "LockSchedCtx_lock 1 (LockSchedCtx_lock 0 ?s0)" "[0]" 1 "[]"]
    by simp
qed

end
