(* ===== verification/Codec.thy ===== *)
theory Codec
  imports Prelude "HOL-Library.Sublist"
begin

section \<open>Self-delimiting encodings\<close>

text \<open>
  The contract shared by the storage formats: an encoder whose output a decoder recognises in
  front of any continuation, consuming exactly the bytes written. From it follow unique
  readability, freedom from prefixes and the decoding of sequences. The varint, the
  length-prefixed string and the binlog entry are its instances.
\<close>

locale prefix_codec =
  fixes enc :: "'a \<Rightarrow> bytes"
    and dec :: "bytes \<Rightarrow> ('a \<times> nat) expected"
    and wf :: "'a \<Rightarrow> bool"
  assumes dec_enc: "wf x \<Longrightarrow> dec (enc x @ r) = ok (x, length (enc x))"
begin

lemma enc_append_inj:
  assumes "wf x" "wf y" "enc x @ r = enc y @ s"
  shows "x = y \<and> r = s"
  using dec_enc [OF assms(1), of r] dec_enc [OF assms(2), of s] assms(3) by auto

lemma enc_inj: "wf x \<Longrightarrow> wf y \<Longrightarrow> enc x = enc y \<Longrightarrow> x = y"
  using enc_append_inj [of x y "[]" "[]"] by simp

lemma enc_prefix_free:
  assumes "wf x" "wf y" "prefix (enc x) (enc y @ s)"
  shows "x = y"
proof -
  from assms(3) obtain r where "enc x @ r = enc y @ s" by (auto elim!: prefixE)
  then show ?thesis using enc_append_inj [OF assms(1,2)] by blast
qed

lemma concat_enc_inj:
  assumes "\<And>x. wf x \<Longrightarrow> enc x \<noteq> []"
    and "list_all wf xs" "list_all wf ys" "concat (map enc xs) = concat (map enc ys)"
  shows "xs = ys"
  using assms(2-4)
proof (induction xs arbitrary: ys)
  case Nil
  then show ?case using assms(1) by (cases ys) auto
next
  case (Cons x xs)
  then obtain y ys' where ys: "ys = y # ys'"
    using assms(1) [of x] by (cases ys) auto
  with Cons.prems have "x = y \<and> concat (map enc xs) = concat (map enc ys')"
    by (intro enc_append_inj) auto
  with Cons ys show ?case by simp
qed

text \<open>Reading an entry at an offset, as the decoding loops do.\<close>

lemma dec_at: "wf x \<Longrightarrow> dec (drop (length pre) (pre @ enc x @ r)) = ok (x, length (enc x))"
  by (simp add: dec_enc)

end

end
