(* ===== verification/Varint.thy ===== *)
theory Varint
  imports Codec
begin

section \<open>Variable-length and fixed-width integer encodings (storage/varint.cpp)\<close>

text \<open>
  A varint stores a 64-bit value in groups of seven bits, least significant first; every
  byte but the last has its top bit set. \<open>varintDecodeFwd\<close> reads it forwards from a
  pointer, \<open>varintDecodeRvs\<close> backwards from the byte it points at. The fixed-width
  encoders write big-endian; \<open>doubleEncode\<close> copies the eight bytes of a double as they
  are in memory (a double is its 64-bit pattern, the host is little-endian).
\<close>

subsection \<open>Encoding\<close>

function varintEncode :: "u64 \<Rightarrow> bytes" where
  "varintEncode val =
     (if 0x80 \<le> val then ucast (0x80 OR (val AND 0x7f)) # varintEncode (drop_bit 7 val)
      else [ucast val])"
  by pat_completeness auto
termination by (relation "measure unat") (auto intro: unat_drop_bit_less)

declare varintEncode.simps [simp del]

text \<open>
  \<open>varintEncodeBuf\<close> writes into a caller's array; \<open>bufsize\<close> is the room there is. The check
  of the size comes after the writes, so too small an array is written out of bounds.
\<close>

definition varintEncodeBuf :: "nat \<Rightarrow> u64 \<Rightarrow> bytes expected" where
  "varintEncodeBuf bufsize val =
     (let out = varintEncode val in if length out \<le> bufsize then ok out else Inl Undef)"

definition varintEncodeStr :: "u64 \<Rightarrow> bytes expected" where
  "varintEncodeStr val = varintEncodeBuf 16 val"

definition varintMaxSize :: "nat \<Rightarrow> nat expected" where
  "varintMaxSize sz = (if sz = 8 then ok 10 else if sz = 4 then ok 5 else Inl Fatal)"

function varintEncodeSize_loop :: "u64 \<Rightarrow> nat \<Rightarrow> nat" where
  "varintEncodeSize_loop val sz =
     (if 0x80 \<le> val then varintEncodeSize_loop (drop_bit 7 val) (sz + 1) else sz + 1)"
  by pat_completeness auto
termination by (relation "measure (unat \<circ> fst)") (auto intro: unat_drop_bit_less)

declare varintEncodeSize_loop.simps [simp del]

definition varintEncodeSize :: "u64 \<Rightarrow> nat" where
  "varintEncodeSize val = varintEncodeSize_loop val 0"

subsection \<open>Decoding\<close>

function varintDecodeFwd_loop :: "bytes \<Rightarrow> nat \<Rightarrow> nat \<Rightarrow> u64 \<Rightarrow> (u64 \<times> nat) expected" where
  "varintDecodeFwd_loop input maxSize i ret =
     (if i < maxSize
      then ebind (rd8 input i) (\<lambda>b.
        if b AND 0x80 \<noteq> 0
        then ebind (shl64 (ucast (b AND 0x7f)) (7 * i)) (\<lambda>x.
          varintDecodeFwd_loop input maxSize (i + 1) (ret OR x))
        else ok (ret, i))
      else ok (ret, i))"
  by pat_completeness auto
termination by (relation "measure (\<lambda>(input, maxSize, i, ret). maxSize - i)") auto

declare varintDecodeFwd_loop.simps [simp del]

definition varintDecodeFwd_last ::
  "bytes \<Rightarrow> nat \<Rightarrow> (u64 \<times> nat) \<Rightarrow> (u64 \<times> nat) expected" where
  "varintDecodeFwd_last input maxSize = (\<lambda>(ret, i).
     if i = maxSize then err ERR_DECODE ''decode varint maxlen''
     else ebind (rd8 input i) (\<lambda>b.
       ebind (shl64 (ucast (b AND 0x7f)) (7 * i)) (\<lambda>x. ok (ret OR x, i + 1))))"

definition varintDecodeFwd :: "bytes \<Rightarrow> nat \<Rightarrow> (u64 \<times> nat) expected" where
  "varintDecodeFwd input maxSize =
     ebind (varintDecodeFwd_loop input maxSize 0 0) (varintDecodeFwd_last input maxSize)"

text \<open>
  \<open>varintDecodeRvs buf p maxSize\<close>: \<open>p\<close> is the index in \<open>buf\<close> of the byte the C++ pointer
  points at; \<open>p - i\<close> is the pointer after \<open>i\<close> decrements. Before the buffer the read is
  undefined.
\<close>

definition rd8_back :: "bytes \<Rightarrow> nat \<Rightarrow> nat \<Rightarrow> byte expected" where
  "rd8_back buf p i = (if i \<le> p then rd8 buf (p - i) else Inl Undef)"

function varintDecodeRvs_loop ::
  "bytes \<Rightarrow> nat \<Rightarrow> nat \<Rightarrow> nat \<Rightarrow> u64 \<Rightarrow> (u64 \<times> nat) expected" where
  "varintDecodeRvs_loop buf p maxSize i ret =
     (if i < maxSize
      then ebind (rd8_back buf p i) (\<lambda>b.
        if b AND 0x80 \<noteq> 0
        then ebind (shl64 (ucast (b AND 0x7f)) (7 * i)) (\<lambda>x.
          varintDecodeRvs_loop buf p maxSize (i + 1) (ret OR x))
        else ok (ret, i))
      else ok (ret, i))"
  by pat_completeness auto
termination by (relation "measure (\<lambda>(buf, p, maxSize, i, ret). maxSize - i)") auto

declare varintDecodeRvs_loop.simps [simp del]

definition varintDecodeRvs_last ::
  "bytes \<Rightarrow> nat \<Rightarrow> nat \<Rightarrow> (u64 \<times> nat) \<Rightarrow> (u64 \<times> nat) expected" where
  "varintDecodeRvs_last buf p maxSize = (\<lambda>(ret, i).
     if i = maxSize then err ERR_DECODE ''decode varint maxlen''
     else ebind (rd8_back buf p i) (\<lambda>b.
       ebind (shl64 (ucast (b AND 0x7f)) (7 * i)) (\<lambda>x. ok (ret OR x, i + 1))))"

definition varintDecodeRvs :: "bytes \<Rightarrow> nat \<Rightarrow> nat \<Rightarrow> (u64 \<times> nat) expected" where
  "varintDecodeRvs buf p maxSize =
     ebind (varintDecodeRvs_loop buf p maxSize 0 0) (varintDecodeRvs_last buf p maxSize)"

subsection \<open>Fixed-width big-endian integers and doubles\<close>

definition beEncode :: "nat \<Rightarrow> 'a::len word \<Rightarrow> bytes" where
  "beEncode n v = map (\<lambda>i. ucast (drop_bit ((n - i - 1) * 8) v AND 0xff)) [0..<n]"

definition beDecode :: "bytes \<Rightarrow> 'a::len word" where
  "beDecode bs = foldl (\<lambda>acc b. push_bit 8 acc OR ucast b) 0 bs"

definition int16Encode :: "u16 \<Rightarrow> bytes" where
  "int16Encode input = beEncode 2 input"

definition int16Decode :: "bytes \<Rightarrow> nat \<Rightarrow> u16 expected" where
  "int16Decode buf off = ebind (rdstr buf off 2) (\<lambda>bs. ok (beDecode bs))"

definition int32Encode :: "u32 \<Rightarrow> bytes" where
  "int32Encode input = beEncode 4 input"

definition int32Decode :: "bytes \<Rightarrow> nat \<Rightarrow> u32 expected" where
  "int32Decode buf off = ebind (rdstr buf off 4) (\<lambda>bs. ok (beDecode bs))"

definition int64Encode :: "u64 \<Rightarrow> bytes" where
  "int64Encode input = beEncode 8 input"

definition int64Decode :: "bytes \<Rightarrow> nat \<Rightarrow> u64 expected" where
  "int64Decode buf off = ebind (rdstr buf off 8) (\<lambda>bs. ok (beDecode bs))"

definition doubleEncode :: "u64 \<Rightarrow> bytes" where
  "doubleEncode val = map (\<lambda>i. ucast (drop_bit (8 * i) val)) [0..<8]"

definition doubleDecode :: "bytes \<Rightarrow> nat \<Rightarrow> u64 expected" where
  "doubleDecode input maxSize =
     (if maxSize < 8 then err ERR_DECODE ''decode double maxlen''
      else ebind (rdstr input 0 8) (\<lambda>bs. ok (beDecode (rev bs))))"

subsection \<open>Bits of the encoded bytes\<close>

lemma bit_128_int: "bit (128 :: int) n \<longleftrightarrow> n = 7"
proof -
  have "(128 :: int) = 2 ^ 7" by simp
  then show ?thesis by (simp only: bit_exp_iff) auto
qed

lemma bit_127_int: "bit (127 :: int) n \<longleftrightarrow> n < 7"
proof -
  have "(127 :: int) = mask 7" by (simp add: mask_eq_exp_minus_1)
  then show ?thesis by (simp only: bit_mask_iff) auto
qed

lemma less_0x80_bit: 
  assumes "v < 0x80" and "bit (v :: u64) n" shows "n < 7"
proof -
  have "v AND mask 7 = v" using assms(1) by (intro less_mask_eq) simp
  then have "bit (v AND mask 7) n" using assms(2) by (simp only: )
  then show ?thesis by (simp add: bit_and_iff bit_mask_iff)
qed

lemma cont_byte_flag: "(ucast (0x80 OR (v AND 0x7f) :: u64) :: byte) AND 0x80 \<noteq> 0"
proof
  assume "(ucast (0x80 OR (v AND 0x7f) :: u64) :: byte) AND 0x80 = 0"
  then have "bit ((ucast (0x80 OR (v AND 0x7f) :: u64) :: byte) AND 0x80) 7 = bit (0::byte) 7" by simp
  then show False by (simp add: bit_simps)
qed

lemma cont_byte_bits: "(ucast ((ucast (0x80 OR (v AND 0x7f) :: u64) :: byte) AND 0x7f) :: u64) = take_bit 7 v"
  by (rule bit_word_eqI) (auto simp: bit_simps bit_128_int bit_127_int)

lemma last_byte_flag: "v < 0x80 \<Longrightarrow> (ucast (v::u64) :: byte) AND 0x80 = 0"
  by (rule bit_word_eqI) (auto simp: bit_simps bit_128_int dest: less_0x80_bit)

lemma last_byte_bits: "v < 0x80 \<Longrightarrow> (ucast ((ucast (v::u64) :: byte) AND 0x7f)) = v"
  by (rule bit_word_eqI) (auto simp: bit_simps bit_127_int dest: less_0x80_bit)

lemma or_push_split: "push_bit n (take_bit 7 v) OR push_bit (n + 7) (drop_bit 7 v) = push_bit n (v::u64)"
  by (metis or_take_push_drop push_bit_or push_bit_push_bit)

subsection \<open>Decoding what was encoded\<close>

lemma varintDecodeFwd_at:
  assumes "7 * length pre < 64" "unat v < 2 ^ (64 - 7 * length pre)"
    and "length pre + length (varintEncode v) \<le> maxSize"
  shows "ebind (varintDecodeFwd_loop (pre @ varintEncode v @ r) maxSize (length pre) ret)
           (varintDecodeFwd_last (pre @ varintEncode v @ r) maxSize) =
         ok (ret OR push_bit (7 * length pre) v, length pre + length (varintEncode v))"
  using assms
proof (induction v arbitrary: pre ret rule: varintEncode.induct)
  case (1 v)
  show ?case
  proof (cases "0x80 \<le> v")
    case True
    let ?b = "ucast (0x80 OR (v AND 0x7f)) :: byte" and ?i = "length pre"
    have enc: "varintEncode v = ?b # varintEncode (drop_bit 7 v)"
      using True by (subst varintEncode.simps) simp
    have "(2::nat) ^ 7 \<le> unat v" using True by (simp add: word_le_nat_alt)
    also have "\<dots> < 2 ^ (64 - 7 * ?i)" by (rule "1.prems"(2))
    finally have room: "7 < 64 - 7 * ?i" by (rule power_less_imp_less_exp [rotated]) simp
    have "unat (drop_bit 7 v) = unat v div 2 ^ 7"
      by (simp only: unat_drop_bit_eq) (simp add: drop_bit_eq_div)
    also have "\<dots> < 2 ^ (64 - 7 * ?i - 7)"
      using "1.prems"(2) room power_add [of "2::nat" "64 - 7 * ?i - 7" 7]
      by (intro less_mult_imp_div_less) simp
    finally have small: "unat (drop_bit 7 v) < 2 ^ (64 - 7 * length (pre @ [?b]))"
      by simp
    have "ebind (varintDecodeFwd_loop (pre @ varintEncode v @ r) maxSize (Suc ?i)
              (ret OR push_bit (7 * ?i) (take_bit 7 v)))
            (varintDecodeFwd_last (pre @ varintEncode v @ r) maxSize) =
          ok (ret OR push_bit (7 * ?i) v, ?i + length (varintEncode v))"
      using "1.IH" [OF True, of "pre @ [?b]" "ret OR push_bit (7 * ?i) (take_bit 7 v)"] small room
        "1.prems"(3) or_push_split [of "7 * ?i" v]
      by (simp add: enc or.assoc add.commute [of 7])
    with "1.prems"(1,3) show ?thesis
      by (subst varintDecodeFwd_loop.simps) (simp add: enc cont_byte_flag cont_byte_bits shl64_def)
  next
    case False
    then have enc: "varintEncode v = [ucast v]" and small: "v < 0x80"
      by (subst varintEncode.simps, auto)
    with "1.prems" show ?thesis
      by (subst varintDecodeFwd_loop.simps)
        (simp add: enc last_byte_flag last_byte_bits shl64_def varintDecodeFwd_last_def)
  qed
qed


lemma varintEncode_nonempty [simp]: "varintEncode v \<noteq> []"
  by (subst varintEncode.simps) simp

lemma varintDecodeFwd_encode [simp, codec_simps]:
  "length (varintEncode v) \<le> maxSize \<Longrightarrow>
   varintDecodeFwd (varintEncode v @ r) maxSize = ok (v, length (varintEncode v))"
  using varintDecodeFwd_at [of "[]" v maxSize r 0] unsigned_less [of v]
  by (simp add: varintDecodeFwd_def)

lemma rd8_back_rev: "p < length buf \<Longrightarrow> rd8_back buf p i = rd8 (rev (take (Suc p) buf)) i"
  by (auto simp: rd8_back_def rd8_def rev_nth min.absorb2)

lemma varintDecodeRvs_loop_rev:
  "p < length buf \<Longrightarrow>
   varintDecodeRvs_loop buf p m i ret = varintDecodeFwd_loop (rev (take (Suc p) buf)) m i ret"
proof (induction buf p m i ret rule: varintDecodeRvs_loop.induct)
  case (1 buf p m i ret)
  then show ?case
    by (subst varintDecodeRvs_loop.simps, subst varintDecodeFwd_loop.simps)
      (auto simp: rd8_back_rev intro!: ebind_cong)
qed

lemma varintDecodeRvs_last_rev:
  "p < length buf \<Longrightarrow>
   varintDecodeRvs_last buf p m = varintDecodeFwd_last (rev (take (Suc p) buf)) m"
  by (auto simp: varintDecodeRvs_last_def varintDecodeFwd_last_def rd8_back_rev fun_eq_iff)

lemma varintDecodeRvs_rev:
  assumes "p < length buf"
  shows "varintDecodeRvs buf p m = varintDecodeFwd (rev (take (Suc p) buf)) m"
  using assms
  by (simp add: varintDecodeRvs_def varintDecodeFwd_def varintDecodeRvs_loop_rev
      varintDecodeRvs_last_rev)

lemma varintEncodeSize_loop_eq:
  "varintEncodeSize_loop v n = n + length (varintEncode v)"
proof (induction v n rule: varintEncodeSize_loop.induct)
  case (1 v n)
  then show ?case
    by (subst varintEncodeSize_loop.simps, subst varintEncode.simps) auto
qed

lemma varintEncodeSize_eq: "varintEncodeSize v = length (varintEncode v)"
  by (simp add: varintEncodeSize_def varintEncodeSize_loop_eq)

lemma varintEncode_length_le:
  "unat v < 2 ^ (7 * k) \<Longrightarrow> 0 < k \<Longrightarrow> length (varintEncode v) \<le> k"
proof (induction v arbitrary: k rule: varintEncode.induct)
  case (1 v)
  show ?case
  proof (cases "0x80 \<le> v")
    case True
    have "(2::nat) ^ 7 \<le> unat v" using True by (simp add: word_le_nat_alt)
    also have "\<dots> < 2 ^ (7 * k)" by (rule "1.prems"(1))
    finally have "7 < 7 * k" by (rule power_less_imp_less_exp [rotated]) simp
    then obtain j where k: "k = Suc j" and j: "0 < j" by (cases k) auto
    have "unat (drop_bit 7 v) = unat v div 2 ^ 7"
      by (simp only: unat_drop_bit_eq) (simp add: drop_bit_eq_div)
    also have "\<dots> < 2 ^ (7 * j)"
      using "1.prems"(1) by (intro less_mult_imp_div_less) (simp add: k power_add)
    finally show ?thesis
      using "1.IH" [OF True _ j] True by (subst varintEncode.simps) (simp add: k)
  next
    case False
    then show ?thesis using "1.prems"(2) by (subst varintEncode.simps) simp
  qed
qed

lemma varintEncode_length_le_10: "length (varintEncode v) \<le> 10"
proof (rule varintEncode_length_le)
  have "unat v < 2 ^ 64" using unsigned_less [of v] by simp
  then show "unat v < 2 ^ (7 * 10)" by simp
qed simp

lemma and_0xff: "v AND 0xff = take_bit 8 (v :: 'a::len word)"
proof -
  have "(0xff :: 'a word) = mask 8" by (simp add: mask_eq_exp_minus_1)
  then show ?thesis by (simp only: take_bit_eq_mask)
qed

lemma ucast_take_bit_8 [simp]: "ucast (take_bit 8 v) = (ucast v :: byte)"
  by (rule bit_word_eqI) (auto simp: bit_simps dest: bit_imp_le_length)

lemma beEncode_alt: "beEncode n v = map (\<lambda>i. ucast (drop_bit ((n - i - 1) * 8) v)) [0..<n]"
  by (simp add: beEncode_def and_0xff)

lemma beEncode_Suc: "beEncode (Suc n) v = beEncode n (drop_bit 8 v) @ [ucast v]"
proof -
  have "(Suc n - i - 1) * 8 = (n - i - 1) * 8 + 8" if "i < n" for i
    using that by (cases "n - i") auto
  then show ?thesis by (simp add: beEncode_alt)
qed

lemma length_beEncode [simp]: "length (beEncode n v) = n"
  by (simp add: beEncode_def)

lemma beDecode_snoc: "beDecode (bs @ [b]) = push_bit 8 (beDecode bs) OR ucast b"
  by (simp add: beDecode_def)

lemma beDecode_encode: "beDecode (beEncode n v) = take_bit (8 * n) v"
proof (induction n arbitrary: v)
  case 0
  then show ?case by (simp add: beDecode_def beEncode_def)
next
  case (Suc n)
  have "push_bit 8 (take_bit (8 * n) (drop_bit 8 v)) OR ucast (ucast v :: byte) =
      take_bit (8 * Suc n) v"
  proof (rule bit_word_eqI)
    fix m
    assume "m < LENGTH('a)"
    then show "bit (push_bit 8 (take_bit (8 * n) (drop_bit 8 v)) OR ucast (ucast v :: byte)) m
        \<longleftrightarrow> bit (take_bit (8 * Suc n) v) m"
      by (cases "m < 8") (auto simp: bit_simps)
  qed
  with Suc show ?case by (simp add: beEncode_Suc beDecode_snoc)
qed

lemma beEncode_self:
  "LENGTH('a) = 8 * n \<Longrightarrow> beDecode (beEncode n v) = (v :: 'a::len word)"
  by (simp add: beDecode_encode take_bit_word_eq_self)

lemma intDecode_encode [simp, codec_simps]:
  "int16Decode (pre @ int16Encode a @ post) (length pre) = ok a"
  "int32Decode (pre @ int32Encode b @ post) (length pre) = ok b"
  "int64Decode (pre @ int64Encode c @ post) (length pre) = ok c"
  by (simp_all add: int16Decode_def int16Encode_def int32Decode_def int32Encode_def
      int64Decode_def int64Encode_def rdstr_mid beEncode_self)

lemma length_intEncode [simp]:
  "length (int16Encode a) = 2" "length (int32Encode b) = 4" "length (int64Encode c) = 8"
  by (simp_all add: int16Encode_def int32Encode_def int64Encode_def)

lemma doubleEncode_be: "doubleEncode d = rev (beEncode 8 d)"
  by (simp add: doubleEncode_def beEncode_alt rev_map upt_rec)

lemma length_doubleEncode [simp]: "length (doubleEncode d) = 8"
  by (simp add: doubleEncode_def)

lemma doubleDecode_encode [simp, codec_simps]:
  "8 \<le> maxSize \<Longrightarrow> doubleDecode (doubleEncode d @ post) maxSize = ok d"
  using rdstr_mid [of "doubleEncode d" 8 "[]" post]
  by (simp add: doubleDecode_def doubleEncode_be beEncode_self)

lemma varintEncodeStr_ok [simp]: "varintEncodeStr v = ok (varintEncode v)"
  using varintEncode_length_le_10 [of v]
  by (simp add: varintEncodeStr_def varintEncodeBuf_def Let_def)

subsection \<open>Big-endian bytes sort like the integers\<close>

text \<open>
  The LSM store compares keys bytewise, which is \<open>ord_class.lexordp\<close> on lists of bytes.
\<close>

lemma beEncode_Cons: "beEncode (Suc n) v = ucast (drop_bit (8 * n) v) # beEncode n v"
  by (simp add: beEncode_alt upt_conv_Cons map_Suc_upt [symmetric] mult.commute del: upt_Suc)

lemma mod_Suc_byte:
  "x mod 2 ^ (8 * Suc n) = (x div 2 ^ (8 * n)) mod 256 * 2 ^ (8 * n) + x mod 2 ^ (8 * n)" for x :: nat
  using mod_mult2_eq [of x "2 ^ (8 * n)" 256] by (simp add: power_add mult.commute)

lemma unat_be_byte:
  "8 \<le> LENGTH('a) \<Longrightarrow>
   unat (ucast (drop_bit (8 * n) (v :: 'a::len word)) :: byte) = (unat v div 2 ^ (8 * n)) mod 256"
  by (simp only: unsigned_ucast_eq unat_drop_bit_eq)
    (simp add: drop_bit_eq_div take_bit_eq_mod)

lemma beEncode_lexordp:
  fixes v w :: "'a::len word"
  assumes "8 \<le> LENGTH('a)" "unat v mod 2 ^ (8 * n) < unat w mod 2 ^ (8 * n)"
  shows "ord_class.lexordp (beEncode n v @ x) (beEncode n w @ y)"
  using assms(2)
proof (induction n)
  case 0
  then show ?case by simp
next
  case (Suc n)
  let ?b = "\<lambda>v::'a word. ucast (drop_bit (8 * n) v) :: byte"
  have b: "unat (?b v) = (unat v div 2 ^ (8 * n)) mod 256" for v :: "'a word"
    by (rule unat_be_byte [OF assms(1)])
  have lt: "unat (?b v) * 2 ^ (8 * n) + unat v mod 2 ^ (8 * n) <
      unat (?b w) * 2 ^ (8 * n) + unat w mod 2 ^ (8 * n)"
    using Suc.prems unfolding mod_Suc_byte b .
  have hi: "unat (?b v) \<le> unat (?b w)"
  proof (rule ccontr)
    assume "\<not> ?thesis"
    then have "(unat (?b w) + 1) * 2 ^ (8 * n) \<le> unat (?b v) * 2 ^ (8 * n)"
      by (intro mult_right_mono) auto
    moreover have "unat w mod 2 ^ (8 * n) < 2 ^ (8 * n)" by simp
    ultimately show False using lt by (simp only: add_mult_distrib)
  qed
  show ?case
  proof (cases "?b v = ?b w")
    case True
    with lt have "unat v mod 2 ^ (8 * n) < unat w mod 2 ^ (8 * n)" by simp
    with Suc.IH True show ?thesis by (simp add: beEncode_Cons)
  next
    case False
    with hi have "?b v < ?b w" by (simp add: word_less_nat_alt order_less_le word_unat_eq_iff [symmetric])
    then show ?thesis by (simp add: beEncode_Cons)
  qed
qed

lemma beEncode_mono:
  assumes "LENGTH('a) = 8 * n" "v < (w :: 'a::len word)"
  shows "ord_class.lexordp (beEncode n v @ x) (beEncode n w @ y)"
proof (rule beEncode_lexordp)
  show "8 \<le> LENGTH('a)" using assms(1) by (cases n) auto
  have "unat u < 2 ^ (8 * n)" for u :: "'a word"
    using unsigned_less [of u] assms(1) by simp
  then show "unat v mod 2 ^ (8 * n) < unat w mod 2 ^ (8 * n)"
    using assms(2) by (simp add: word_less_nat_alt)
qed

lemma lexordp_append_same:
  "ord_class.lexordp (p @ xs) (p @ ys) \<longleftrightarrow> ord_class.lexordp xs ys" for p :: "'a::preorder list"
  by (induction p) auto

subsection \<open>Bounds of a successful decode\<close>

lemma varintDecodeFwd_loop_bounds:
  "varintDecodeFwd_loop input m i ret = ok (v, j) \<Longrightarrow> i \<le> m \<Longrightarrow> i \<le> j \<and> j \<le> m"
proof (induction input m i ret rule: varintDecodeFwd_loop.induct)
  case (1 input m i ret)
  show ?case
  proof (cases "i < m")
    case True
    from "1.prems"(1) True show ?thesis
      by (subst (asm) varintDecodeFwd_loop.simps)
        (auto simp: ebind_eq_Inr split: if_splits dest: "1.IH" [OF True])
  next
    case False
    with "1.prems" show ?thesis by (simp add: varintDecodeFwd_loop.simps)
  qed
qed

lemma varintDecodeFwd_bounds:
  assumes "varintDecodeFwd input m = ok (v, n)"
  shows "0 < n \<and> n \<le> m \<and> n \<le> length input"
proof -
  from assms obtain ret i where loop: "varintDecodeFwd_loop input m 0 0 = ok (ret, i)"
    and fin: "varintDecodeFwd_last input m (ret, i) = ok (v, n)"
    by (auto simp: varintDecodeFwd_def ebind_eq_Inr)
  from varintDecodeFwd_loop_bounds [OF loop] have "i \<le> m" by simp
  with fin show ?thesis
    by (auto simp: varintDecodeFwd_last_def ebind_eq_Inr rd8_def split: if_splits)
qed

subsection \<open>Reading a varint at an offset\<close>

text \<open>
  The step every record decoder repeats:
  \<open>varintDecodeFwd(cstr + offset, val.size() - offset)\<close>, then \<open>offset += second\<close>.
\<close>

definition varintAt :: "bytes \<Rightarrow> nat \<Rightarrow> (u64 \<times> nat) expected" where
  "varintAt buf offset =
     ebind (varintDecodeFwd (drop offset buf) (length buf - offset)) (\<lambda>(v, n). ok (v, offset + n))"

lemma varintAt_encode [simp, codec_simps]:
  "varintAt (varintEncode v @ r) 0 = ok (v, length (varintEncode v))"
  "varintAt (varintEncode v) 0 = ok (v, length (varintEncode v))"
  using varintDecodeFwd_encode [of v "length (varintEncode v)" "[]"] by (simp_all add: varintAt_def)

lemma varintAt_skip [codec_simps]:
  "varintAt (p @ r) (length p + k) = ebind (varintAt r k) (\<lambda>(v, n). ok (v, length p + n))"
  "varintAt (p @ r) (length p) = ebind (varintAt r 0) (\<lambda>(v, n). ok (v, length p + n))"
  by (simp_all add: varintAt_def ebind_def split: sum.split)

lemma varintAt_skip1 [codec_simps]:
  "varintAt (b # r) (Suc k) = ebind (varintAt r k) (\<lambda>(v, n). ok (v, Suc n))"
  by (simp add: varintAt_def ebind_def split: sum.split)

lemma varintAt_bounds:
  "varintAt buf offset = ok (v, n) \<Longrightarrow> offset < n \<and> n \<le> length buf"
  by (auto simp: varintAt_def ebind_eq_Inr dest!: varintDecodeFwd_bounds)

subsection \<open>The varint as a self-delimiting code\<close>

interpretation vi: prefix_codec varintEncode "\<lambda>b. varintDecodeFwd b (length b)" "\<lambda>_. True"
  by unfold_locales simp

subsection \<open>Properties\<close>

text \<open>C24: decoding an encoded varint gives the value and the number of bytes written, forwards from
  the start of any continuation and backwards from the end of any prefix. The encoding takes at
  most ten bytes, and \<open>varintEncodeSize\<close> predicts its length.\<close>

theorem varint_roundtrip:
  assumes "10 \<le> m"
  shows "varintDecodeFwd (varintEncode v @ r) m = ok (v, varintEncodeSize v) \<and>
    varintDecodeRvs (r @ rev (varintEncode v)) (length r + varintEncodeSize v - 1) m =
      ok (v, varintEncodeSize v) \<and>
    varintEncodeSize v \<le> 10 \<and> length (varintEncode v) = varintEncodeSize v"
proof -
  let ?e = "varintEncode v"
  have m: "length ?e \<le> m" using varintEncode_length_le_10 [of v] assms by simp
  have "0 < length ?e" by simp
  then have p: "length r + length ?e - 1 < length (r @ rev ?e)"
    "take (Suc (length r + length ?e - 1)) (r @ rev ?e) = r @ rev ?e"
    by simp_all
  have "varintDecodeRvs (r @ rev ?e) (length r + length ?e - 1) m = ok (v, length ?e)"
    using m unfolding varintDecodeRvs_rev [OF p(1)] p(2) by simp
  with m show ?thesis by (simp add: varintEncodeSize_eq varintEncode_length_le_10)
qed

theorem varint_roundtrip_witness:
  "varintDecodeFwd (varintEncode 300 @ [7]) 10 = ok (300, varintEncodeSize 300) \<and>
   varintDecodeRvs ([7] @ rev (varintEncode 300)) (length [7 :: byte] + varintEncodeSize 300 - 1) 10 =
     ok (300, varintEncodeSize 300)"
  using varint_roundtrip [of 10 300 "[7]"] by simp

lemma lexordp_be_iff:
  assumes "LENGTH('a) = 8 * n"
  shows "ord_class.lexordp (beEncode n x) (beEncode n y) \<longleftrightarrow> x < (y :: 'a::len word)"
proof -
  have lt: "u < w \<Longrightarrow> ord_class.lexordp (beEncode n u) (beEncode n w)" for u w :: "'a word"
    using beEncode_mono [OF assms, of u w "[]" "[]"] by simp
  show ?thesis
    using lt [of x y] lt [of y x] lexordp_irreflexive' lexordp_antisym
    by (cases x y rule: linorder_cases) blast+
qed

text \<open>C30: bytes written big-endian compare in the store's bytewise order as the integers do, and
  the fixed-width decoders invert the encoders at any offset.\<close>

theorem fixed_width_order_and_roundtrip:
  "(ord_class.lexordp (int64Encode x) (int64Encode y) \<longleftrightarrow> x < y) \<and>
   (ord_class.lexordp (int32Encode a) (int32Encode b) \<longleftrightarrow> a < b) \<and>
   int64Decode (pre @ int64Encode x @ post) (length pre) = ok x \<and>
   int32Decode (pre @ int32Encode a @ post) (length pre) = ok a \<and>
   int16Decode (pre @ int16Encode c @ post) (length pre) = ok c \<and>
   doubleDecode (doubleEncode d @ post) 8 = ok d"
proof -
  have "ord_class.lexordp (int64Encode x) (int64Encode y) \<longleftrightarrow> x < y"
    unfolding int64Encode_def by (rule lexordp_be_iff) simp
  moreover have "ord_class.lexordp (int32Encode a) (int32Encode b) \<longleftrightarrow> a < b"
    unfolding int32Encode_def by (rule lexordp_be_iff) simp
  ultimately show ?thesis by simp
qed

end
