(* ===== verification/RecordType.thy ===== *)
theory RecordType
  imports Varint
begin

section \<open>Record types (storage/record.h, storage/record.cpp)\<close>

text \<open>
  The type tag of keys and values, its one-byte code on disk (\<open>rt2Char\<close>, \<open>char2Rt\<close>) and
  the classification functions. \<open>rt2Char\<close> of \<open>RT_INVALID\<close> is a \<open>LOG(FATAL)\<close>.
\<close>

datatype RecordType =
    RT_INVALID | RT_META | RT_KV | RT_LIST_META | RT_LIST_ELE | RT_HASH_META | RT_HASH_ELE
  | RT_SET_META | RT_SET_ELE | RT_ZSET_META | RT_ZSET_S_ELE | RT_ZSET_H_ELE | RT_BINLOG
  | RT_TTL_INDEX | RT_DATA_META | RT_TBITMAP_META | RT_TBITMAP_ELE

abbreviation chr8 :: "char \<Rightarrow> byte" where
  "chr8 \<equiv> of_char"

fun isDataMetaType :: "RecordType \<Rightarrow> bool" where
  "isDataMetaType RT_HASH_META = True"
| "isDataMetaType RT_LIST_META = True"
| "isDataMetaType RT_ZSET_META = True"
| "isDataMetaType RT_SET_META = True"
| "isDataMetaType RT_KV = True"
| "isDataMetaType RT_TBITMAP_META = True"
| "isDataMetaType _ = False"

definition getRealKeyType :: "RecordType \<Rightarrow> RecordType" where
  "getRealKeyType t = (if isDataMetaType t then RT_DATA_META else t)"

definition isKeyType :: "RecordType \<Rightarrow> bool" where
  "isKeyType t = (\<not> isDataMetaType t)"

text \<open>The \<open>RT_DATA_META\<close> case falls through to the cases that return false.\<close>

fun isRealEleType :: "RecordType \<Rightarrow> RecordType \<Rightarrow> bool" where
  "isRealEleType RT_HASH_ELE _ = True"
| "isRealEleType RT_SET_ELE _ = True"
| "isRealEleType RT_ZSET_H_ELE _ = True"
| "isRealEleType RT_LIST_ELE _ = True"
| "isRealEleType RT_TBITMAP_ELE _ = True"
| "isRealEleType RT_DATA_META valueType = (valueType = RT_KV \<or> valueType = RT_TBITMAP_META)"
| "isRealEleType _ _ = False"

fun rt2Char :: "RecordType \<Rightarrow> byte expected" where
  "rt2Char RT_META = ok (chr8 CHR ''M'')"
| "rt2Char RT_DATA_META = ok (chr8 CHR ''D'')"
| "rt2Char RT_KV = ok (chr8 CHR ''a'')"
| "rt2Char RT_LIST_META = ok (chr8 CHR ''L'')"
| "rt2Char RT_LIST_ELE = ok (chr8 CHR ''l'')"
| "rt2Char RT_HASH_META = ok (chr8 CHR ''H'')"
| "rt2Char RT_HASH_ELE = ok (chr8 CHR ''h'')"
| "rt2Char RT_SET_META = ok (chr8 CHR ''S'')"
| "rt2Char RT_SET_ELE = ok (chr8 CHR ''s'')"
| "rt2Char RT_ZSET_META = ok (chr8 CHR ''Z'')"
| "rt2Char RT_ZSET_H_ELE = ok (chr8 CHR ''c'')"
| "rt2Char RT_ZSET_S_ELE = ok (chr8 CHR ''z'')"
| "rt2Char RT_TBITMAP_META = ok (chr8 CHR ''T'')"
| "rt2Char RT_TBITMAP_ELE = ok (chr8 CHR ''t'')"
| "rt2Char RT_TTL_INDEX = ok 254"
| "rt2Char RT_BINLOG = ok 255"
| "rt2Char RT_INVALID = Inl Fatal"

fun rt2Str :: "RecordType \<Rightarrow> string" where
  "rt2Str RT_KV = ''STRING''"
| "rt2Str RT_LIST_META = ''LIST''"
| "rt2Str RT_LIST_ELE = ''LIST''"
| "rt2Str RT_HASH_META = ''HASH''"
| "rt2Str RT_HASH_ELE = ''HASH''"
| "rt2Str RT_SET_META = ''SET''"
| "rt2Str RT_SET_ELE = ''SET''"
| "rt2Str RT_ZSET_META = ''ZSET''"
| "rt2Str RT_ZSET_H_ELE = ''ZSET''"
| "rt2Str RT_ZSET_S_ELE = ''ZSET''"
| "rt2Str RT_TBITMAP_META = ''TBITMAP''"
| "rt2Str RT_TBITMAP_ELE = ''TBITMAP''"
| "rt2Str _ = ''''"

definition char2Rt :: "byte \<Rightarrow> RecordType" where
  "char2Rt t =
    (if t = chr8 CHR ''M'' then RT_META
     else if t = chr8 CHR ''D'' then RT_DATA_META
     else if t = chr8 CHR ''a'' then RT_KV
     else if t = chr8 CHR ''L'' then RT_LIST_META
     else if t = chr8 CHR ''l'' then RT_LIST_ELE
     else if t = chr8 CHR ''H'' then RT_HASH_META
     else if t = chr8 CHR ''h'' then RT_HASH_ELE
     else if t = chr8 CHR ''S'' then RT_SET_META
     else if t = chr8 CHR ''s'' then RT_SET_ELE
     else if t = chr8 CHR ''Z'' then RT_ZSET_META
     else if t = chr8 CHR ''z'' then RT_ZSET_S_ELE
     else if t = chr8 CHR ''c'' then RT_ZSET_H_ELE
     else if t = chr8 CHR ''T'' then RT_TBITMAP_META
     else if t = chr8 CHR ''t'' then RT_TBITMAP_ELE
     else if t = 254 then RT_TTL_INDEX
     else if t = 255 then RT_BINLOG
     else RT_INVALID)"

subsection \<open>The code is a bijection on the valid types\<close>

lemma rt2Char_valid: "t \<noteq> RT_INVALID \<Longrightarrow> \<exists>c. rt2Char t = ok c"
  by (cases t) auto

lemma rt2Char_Inl_iff: "rt2Char t = Inl e \<longleftrightarrow> t = RT_INVALID \<and> e = Fatal"
  by (cases t) auto

lemma char2Rt_rt2Char: "rt2Char t = ok c \<Longrightarrow> char2Rt c = t"
  by (cases t) (auto simp: char2Rt_def)

lemma rt2Char_char2Rt: "char2Rt c \<noteq> RT_INVALID \<Longrightarrow> rt2Char (char2Rt c) = ok c"
  by (auto simp: char2Rt_def split: if_splits)

lemma rt2Char_inj: "rt2Char t = ok c \<Longrightarrow> rt2Char u = ok c \<Longrightarrow> t = u"
  using char2Rt_rt2Char by metis

lemma getRealKeyType_idem [simp]: "getRealKeyType (getRealKeyType t) = getRealKeyType t"
  by (simp add: getRealKeyType_def)

lemma isKeyType_getRealKeyType [simp]: "isKeyType (getRealKeyType t)"
  by (simp add: isKeyType_def getRealKeyType_def)

lemma getRealKeyType_id: "isKeyType t \<Longrightarrow> getRealKeyType t = t"
  by (simp add: isKeyType_def getRealKeyType_def)

lemma getRealKeyType_invalid_iff [simp]: "getRealKeyType t = RT_INVALID \<longleftrightarrow> t = RT_INVALID"
  by (cases t) (auto simp: getRealKeyType_def)

end
