(* ===== verification/RecordKey.thy ===== *)
theory RecordKey
  imports RecordType
begin

section \<open>Record keys (storage/record.h, storage/record.cpp)\<close>

text \<open>
  A key of the underlying LSM store: chunk id, type, db id, primary key, a zero byte, version,
  secondary key, the length of the primary key as a varint read from the end, and one reserved
  byte. Sizes that the code computes in \<open>size_t\<close> and that a corrupted key can make wrap are
  64-bit words here.
\<close>

record RecordKey =
  rk_chunkId :: u32
  rk_dbId :: u32
  rk_type :: RecordType
  rk_valueType :: RecordType
  rk_pk :: bytes
  rk_sk :: bytes
  rk_version :: u64
  rk_fmtVsn :: byte

definition RecordKey_new ::
  "u32 \<Rightarrow> u32 \<Rightarrow> RecordType \<Rightarrow> bytes \<Rightarrow> bytes \<Rightarrow> u64 \<Rightarrow> RecordKey" where
  "RecordKey_new chunkId dbid type pk sk version =
     \<lparr>rk_chunkId = chunkId, rk_dbId = dbid, rk_type = getRealKeyType type,
      rk_valueType = type, rk_pk = pk, rk_sk = sk, rk_version = version, rk_fmtVsn = 0\<rparr>"

definition RecordKey_default :: RecordKey where
  "RecordKey_default = RecordKey_new 0 0 RT_INVALID [] [] 0"

subsection \<open>Encoding\<close>

definition CHUNKID_OFFSET :: nat where "CHUNKID_OFFSET = 0"
definition TYPE_OFFSET :: nat where "TYPE_OFFSET = CHUNKID_OFFSET + 4"
definition DBID_OFFSET :: nat where "DBID_OFFSET = TYPE_OFFSET + 1"
definition PK_OFFSET :: nat where "PK_OFFSET = DBID_OFFSET + 4"

definition RecordKey_getHdrSize :: nat where
  "RecordKey_getHdrSize = PK_OFFSET"

definition RecordKey_minSize :: nat where
  "RecordKey_minSize = RecordKey_getHdrSize + 1 + 3"

definition encodePrefixPk :: "RecordKey \<Rightarrow> bytes expected" where
  "encodePrefixPk k =
     ebind (rt2Char (rk_type k)) (\<lambda>c.
       ok (beEncode 4 (rk_chunkId k) @ [c] @ beEncode 4 (rk_dbId k) @ rk_pk k @ [0] @
           varintEncode (rk_version k)))"

definition prefixPk :: "RecordKey \<Rightarrow> bytes expected" where
  "prefixPk k = encodePrefixPk k"

definition prefixSlotType :: "RecordKey \<Rightarrow> bytes expected" where
  "prefixSlotType k =
     ebind (rt2Char (rk_type k)) (\<lambda>c. ok (beEncode 4 (rk_chunkId k) @ [c]))"

definition prefixChunkid :: "RecordKey \<Rightarrow> bytes" where
  "prefixChunkid k = beEncode 4 (rk_chunkId k)"

definition prefixReplLogV2 :: "bytes expected" where
  "prefixReplLogV2 = ebind (rt2Char RT_BINLOG) (\<lambda>c.
     ok [0xFF, 0xFF, 0xFF, 0x01, c, 0xFF, 0xFF, 0xFF, 0x01])"

definition prefixTTLIndex :: "bytes expected" where
  "prefixTTLIndex = ebind (rt2Char RT_TTL_INDEX) (\<lambda>c.
     ok [0xFF, 0xFF, 0x00, 0x00, c, 0xFF, 0xFF, 0x00, 0x00])"

definition prefixVersionMeta :: "bytes expected" where
  "prefixVersionMeta = ebind (rt2Char RT_META) (\<lambda>c.
     ok [0xFF, 0xFE, 0x00, 0x00, c, 0xFF, 0xFE, 0x00, 0x00])"

definition RecordKey_encode :: "RecordKey \<Rightarrow> bytes expected" where
  "RecordKey_encode k =
     ebind (encodePrefixPk k) (\<lambda>p.
       ok (p @ rk_sk k @ rev (varintEncode (of_nat (length (rk_pk k)))) @ [rk_fmtVsn k]))"

subsection \<open>Decoding\<close>

definition RecordKey_decodeChunkId :: "bytes \<Rightarrow> u32 expected" where
  "RecordKey_decodeChunkId key = int32Decode key CHUNKID_OFFSET"

definition RecordKey_decodeDbId :: "bytes \<Rightarrow> u32 expected" where
  "RecordKey_decodeDbId key = int32Decode key DBID_OFFSET"

definition RecordKey_decodeType :: "bytes \<Rightarrow> RecordType expected" where
  "RecordKey_decodeType key = ebind (rd8 key TYPE_OFFSET) (\<lambda>c. ok (char2Rt c))"

text \<open>
  \<open>key_size\<close> is \<open>key.size()\<close>. The guard on the length of the primary key is computed in
  \<open>size_t\<close>; after it, the primary key and the padding are read through pointers.
\<close>

definition key_size :: "bytes \<Rightarrow> u64" where
  "key_size key = of_nat (length key)"

definition pkLen_guard :: "bytes \<Rightarrow> nat \<Rightarrow> u64 \<Rightarrow> bool" where
  "pkLen_guard key rvsOffset pkLen =
     (key_size key < of_nat RecordKey_getHdrSize + 1 + of_nat rvsOffset + pkLen + 1)"

definition version_left :: "bytes \<Rightarrow> nat \<Rightarrow> u64 \<Rightarrow> nat" where
  "version_left key rvsOffset pkLen =
     unat (key_size key - of_nat RecordKey_getHdrSize - 1 - of_nat rvsOffset - pkLen - 1)"

text \<open>\<open>key.c_str() + n\<close>: a pointer past the terminator of the string is undefined.\<close>

definition ptr_at :: "bytes \<Rightarrow> nat \<Rightarrow> bytes expected" where
  "ptr_at key n = (if n \<le> length key then ok (drop n key) else Inl Undef)"

definition as_decode_error :: "string \<Rightarrow> 'a expected \<Rightarrow> 'a expected" where
  "as_decode_error msg e = (case e of Inl (Status _ _) \<Rightarrow> err ERR_DECODE msg | _ \<Rightarrow> e)"

definition RecordKey_decode :: "bytes \<Rightarrow> RecordKey expected" where
  "RecordKey_decode key =
    (if length key < RecordKey_minSize then err ERR_DECODE ''invalid recordkey''
     else
       let offset = RecordKey_getHdrSize in
       ebind (RecordKey_decodeChunkId key) (\<lambda>chunkid.
       ebind (RecordKey_decodeType key) (\<lambda>type.
       ebind (RecordKey_decodeDbId key) (\<lambda>dbid.
       ebind (varintDecodeRvs key (length key - 1 - 1) (length key - 1 - offset))
         (\<lambda>(pkLen, rvsOffset).
       if pkLen_guard key rvsOffset pkLen then err ERR_DECODE ''invalid sk len''
       else
       ebind (rdstr key offset (unat pkLen)) (\<lambda>pk.
       ebind (ptr_at key (offset + unat pkLen + 1)) (\<lambda>ptr.
       let left = version_left key rvsOffset pkLen in
       ebind (as_decode_error ''invalid version len'' (varintDecodeFwd ptr left))
         (\<lambda>(version, versionLen).
       let skLen = left - versionLen in
       ebind (if skLen \<noteq> 0 then rdstr ptr versionLen skLen else ok []) (\<lambda>sk.
       ok (RecordKey_new chunkid dbid type pk sk version))))))))))"

definition RecordKey_validate :: "bytes \<Rightarrow> RecordType \<Rightarrow> bool expected" where
  "RecordKey_validate key type =
    (if length key < RecordKey_minSize then err ERR_DECODE ''invalid recordkey''
     else
       let offset = RecordKey_getHdrSize in
       ebind (RecordKey_decodeType key) (\<lambda>thisType.
       if type \<noteq> RT_INVALID \<and> type \<noteq> thisType then err ERR_DECODE ''mismatch key type''
       else
       ebind (varintDecodeRvs key (length key - 1 - 1) (length key - 1 - offset))
         (\<lambda>(pkLen, rvsOffset).
       if pkLen_guard key rvsOffset pkLen then err ERR_DECODE ''invalid sk len''
       else
       ebind (ptr_at key (offset + unat pkLen + 1)) (\<lambda>ptr.
       ebind (as_decode_error ''invalid version len''
                (varintDecodeFwd ptr (version_left key rvsOffset pkLen)))
         (\<lambda>(version, versionLen).
       if version \<noteq> 0 then err ERR_DECODE ''invalid version in record key''
       else ok True)))))"

definition RecordKey_eq :: "RecordKey \<Rightarrow> RecordKey \<Rightarrow> bool" where
  "RecordKey_eq a b \<longleftrightarrow>
     rk_chunkId a = rk_chunkId b \<and> rk_dbId a = rk_dbId b \<and> rk_type a = rk_type b \<and>
     rk_pk a = rk_pk b \<and> rk_sk a = rk_sk b \<and> rk_version a = rk_version b \<and>
     rk_fmtVsn a = rk_fmtVsn b"

text \<open>
  Keys the constructors build: a key type, a zero format version, and a size that fits a
  \<open>size_t\<close> with the at most 33 bytes of overhead.
\<close>

definition RecordKey_wf :: "RecordKey \<Rightarrow> bool" where
  "RecordKey_wf k \<longleftrightarrow>
     rk_type k = getRealKeyType (rk_valueType k) \<and> rk_type k \<noteq> RT_INVALID \<and> rk_fmtVsn k = 0 \<and>
     length (rk_pk k) + length (rk_sk k) + 64 < 2 ^ 64"

lemmas RecordKey_sizes =
  RecordKey_minSize_def RecordKey_getHdrSize_def PK_OFFSET_def DBID_OFFSET_def TYPE_OFFSET_def
  CHUNKID_OFFSET_def

subsection \<open>Shape of an encoded key\<close>

lemma RecordKey_encode_ok_iff:
  "RecordKey_encode k = ok bs \<longleftrightarrow>
    (\<exists>c. rt2Char (rk_type k) = ok c \<and>
      bs = beEncode 4 (rk_chunkId k) @ c # beEncode 4 (rk_dbId k) @ rk_pk k @ 0 #
        varintEncode (rk_version k) @ rk_sk k @
        rev (varintEncode (of_nat (length (rk_pk k)))) @ [rk_fmtVsn k])"
  by (auto simp: RecordKey_encode_def encodePrefixPk_def ebind_eq_Inr)

lemma RecordKey_encode_total:
  "rk_type k \<noteq> RT_INVALID \<Longrightarrow> \<exists>bs. RecordKey_encode k = ok bs"
  using rt2Char_valid [of "rk_type k"] by (auto simp: RecordKey_encode_def encodePrefixPk_def)

lemma RecordKey_encode_length:
  assumes "RecordKey_encode k = ok bs"
  shows "length bs = 11 + length (rk_pk k) + length (varintEncode (rk_version k)) +
    length (rk_sk k) + length (varintEncode (of_nat (length (rk_pk k))))"
  using assms by (auto simp: RecordKey_encode_ok_iff)

lemma beDecode_beEncode_32 [simp]: "beDecode (beEncode 4 (v :: u32)) = v"
  by (rule beEncode_self) simp

lemma int32Decode_at:
  "int32Decode (pre @ beEncode 4 v @ post) (length pre) = ok v"
  using intDecode_encode(2) [of pre v post] by (simp add: int32Encode_def)

lemma RecordKey_decode_fields:
  assumes "RecordKey_encode k = ok bs"
  shows "RecordKey_decodeChunkId bs = ok (rk_chunkId k)"
    and "RecordKey_decodeType bs = ok (rk_type k)"
    and "RecordKey_decodeDbId bs = ok (rk_dbId k)"
proof -
  from assms obtain c rest where c: "rt2Char (rk_type k) = ok c"
    and bs: "bs = beEncode 4 (rk_chunkId k) @ c # beEncode 4 (rk_dbId k) @ rest"
    by (auto simp: RecordKey_encode_ok_iff)
  show "RecordKey_decodeChunkId bs = ok (rk_chunkId k)"
    using int32Decode_at [of "[]"] bs
    by (simp add: RecordKey_decodeChunkId_def RecordKey_sizes)
  show "RecordKey_decodeType bs = ok (rk_type k)"
    using rd8_mid [of "beEncode 4 (rk_chunkId k)" c] bs char2Rt_rt2Char [OF c]
    by (simp add: RecordKey_decodeType_def RecordKey_sizes)
  show "RecordKey_decodeDbId bs = ok (rk_dbId k)"
    using int32Decode_at [of "beEncode 4 (rk_chunkId k) @ [c]" "rk_dbId k" rest] bs
    by (simp add: RecordKey_decodeDbId_def RecordKey_sizes)
qed

lemma RecordKey_decode_pkLen:
  assumes "RecordKey_encode k = ok bs"
  shows "varintDecodeRvs bs (length bs - 1 - 1) (length bs - 1 - RecordKey_getHdrSize) =
    ok (of_nat (length (rk_pk k)), length (varintEncode (of_nat (length (rk_pk k)))))"
proof -
  let ?l = "varintEncode (of_nat (length (rk_pk k)))"
  from assms obtain rest where bs: "bs = rest @ rev ?l @ [rk_fmtVsn k]"
    and len: "10 \<le> length rest"
    by (auto simp: RecordKey_encode_ok_iff)
  have l: "0 < length ?l" by simp
  have "take (Suc (length bs - 1 - 1)) bs = rest @ rev ?l"
    using l by (simp add: bs)
  with l len show ?thesis
    by (simp add: varintDecodeRvs_rev bs RecordKey_sizes)
qed

subsection \<open>Round trip\<close>

lemma RecordKey_guard_ok:
  assumes "length key = 11 + p + v + s + r" "p + s + 64 < 2 ^ 64" "v \<le> 10" "r \<le> 10"
  shows "\<not> pkLen_guard key r (of_nat p)" "version_left key r (of_nat p) = v + s"
proof -
  have b: "11 + p + v + s + r < 2 ^ 64" using assms by simp
  have sum: "of_nat (0 + 4 + 1 + 4) + 1 + of_nat r + of_nat p + 1 = (of_nat (11 + r + p) :: u64)"
    by simp
  have "unat (of_nat (11 + r + p) :: u64) = 11 + r + p"
    by (rule unat_of_nat64) (use b in simp)
  moreover have "unat (of_nat (11 + p + v + s + r) :: u64) = 11 + p + v + s + r"
    by (rule unat_of_nat64) (rule b)
  ultimately show "\<not> pkLen_guard key r (of_nat p)"
    unfolding pkLen_guard_def key_size_def RecordKey_sizes assms(1) sum word_less_nat_alt
    by linarith
  have "version_left key r (of_nat p) = unat (of_nat (v + s) :: u64)"
    unfolding version_left_def key_size_def RecordKey_sizes assms(1)
    by (rule arg_cong [where f = unat]) simp
  also have "\<dots> = v + s" by (rule unat_of_nat64) (use b in simp)
  finally show "version_left key r (of_nat p) = v + s" .
qed

lemma as_decode_error_ok [simp]: "as_decode_error msg (Inr x) = Inr x"
  by (simp add: as_decode_error_def)

lemma as_decode_error_eq_ok [simp]: "as_decode_error msg e = Inr x \<longleftrightarrow> e = Inr x"
  by (auto simp: as_decode_error_def split: sum.splits fault.splits)

lemma RecordKey_decode_encode:
  assumes wf: "RecordKey_wf k" and enc: "RecordKey_encode k = ok bs"
  shows "RecordKey_decode bs = ok (k\<lparr>rk_valueType := rk_type k\<rparr>)"
proof -
  let ?v = "varintEncode (rk_version k)" and ?pk = "rk_pk k" and ?sk = "rk_sk k"
  let ?l = "varintEncode (of_nat (length (rk_pk k)))"
  from enc obtain hdr where
    bs: "bs = hdr @ ?pk @ 0 # ?v @ ?sk @ rev ?l @ [rk_fmtVsn k]" and hdr: "length hdr = 9"
    by (force simp: RecordKey_encode_ok_iff)
  have len: "length bs = 11 + length ?pk + length ?v + length ?sk + length ?l"
    by (rule RecordKey_encode_length [OF enc])
  have small: "length ?pk + length ?sk + 64 < 2 ^ 64" using wf by (simp add: RecordKey_wf_def)
  note guard = RecordKey_guard_ok [OF len small varintEncode_length_le_10 varintEncode_length_le_10]
  have upk: "unat (of_nat (length ?pk) :: u64) = length ?pk"
    by (rule unat_of_nat64) (use small in simp)
  have pk: "rdstr bs RecordKey_getHdrSize (length ?pk) = ok ?pk"
    using rdstr_mid [OF refl, of hdr ?pk] by (simp add: RecordKey_sizes hdr bs)
  have ptr: "ptr_at bs (Suc (RecordKey_getHdrSize + length ?pk)) =
      ok (?v @ ?sk @ rev ?l @ [rk_fmtVsn k])"
    using hdr by (simp add: ptr_at_def bs RecordKey_sizes)
  have sk: "rdstr (?v @ ?sk @ r) (length ?v) (length ?sk) = ok ?sk" for r
    by (rule rdstr_mid) simp
  have "0 < length ?v" "0 < length ?l" by simp_all
  then have min: "\<not> length bs < RecordKey_minSize"
    unfolding RecordKey_sizes len by linarith
  from wf have k: "RecordKey_new (rk_chunkId k) (rk_dbId k) (rk_type k) ?pk ?sk (rk_version k)
      = k\<lparr>rk_valueType := rk_type k\<rparr>"
    by (simp add: RecordKey_new_def RecordKey_wf_def)
  show ?thesis
    using k by (cases "?sk = []")
      (simp_all add: RecordKey_decode_def min Let_def RecordKey_decode_fields [OF enc]
        RecordKey_decode_pkLen [OF enc, simplified] guard upk pk ptr sk [simplified])
qed

lemma RecordKey_encode_inj:
  assumes "RecordKey_wf a" "RecordKey_wf b"
    and "RecordKey_encode a = ok bs" "RecordKey_encode b = ok bs"
  shows "RecordKey_eq a b"
proof -
  have "a\<lparr>rk_valueType := rk_type a\<rparr> = b\<lparr>rk_valueType := rk_type b\<rparr>"
    using RecordKey_decode_encode [OF assms(1,3)] RecordKey_decode_encode [OF assms(2,4)] by simp
  then show ?thesis by (auto simp: RecordKey_eq_def) (cases a; cases b; simp)+
qed

subsection \<open>Validation agrees with decoding\<close>

text \<open>
  On a key that fits in memory the size computations of the guard do not wrap unless the decoded
  length itself points outside the key.
\<close>

lemma version_left_eq:
  assumes "\<not> pkLen_guard key r p" "10 + unat p \<le> length key"
    and "length key < 2 ^ 62" "r \<le> length key"
  shows "11 + r + unat p \<le> length key \<and>
    version_left key r p = length key - (11 + r + unat p)"
proof -
  have sum: "of_nat (0 + 4 + 1 + 4) + 1 + of_nat r + p + 1 = (of_nat (11 + r + unat p) :: u64)"
    by simp
  have u1: "unat (of_nat (11 + r + unat p) :: u64) = 11 + r + unat p"
    by (rule unat_of_nat64) (use assms in simp)
  have u2: "unat (of_nat (length key) :: u64) = length key"
    by (rule unat_of_nat64) (use assms in simp)
  have le: "11 + r + unat p \<le> length key"
    using assms(1)
    unfolding pkLen_guard_def key_size_def RecordKey_sizes sum word_less_nat_alt u1 u2 by simp
  have "version_left key r p = unat (of_nat (length key - (11 + r + unat p)) :: u64)"
    using le unfolding version_left_def key_size_def RecordKey_sizes
    by (intro arg_cong [where f = unat]) (simp add: of_nat_diff)
  also have "\<dots> = length key - (11 + r + unat p)"
    by (rule unat_of_nat64) (use assms in simp)
  finally show ?thesis using le by simp
qed

lemma varintDecodeRvs_bounds:
  assumes "varintDecodeRvs buf p m = ok (v, n)" "p < length buf"
  shows "0 < n \<and> n \<le> m"
  using varintDecodeFwd_bounds assms by (auto simp: varintDecodeRvs_rev)

lemma RecordKey_decode_reads:
  assumes r: "varintDecodeRvs key (length key - 1 - 1) (length key - 1 - RecordKey_getHdrSize) =
      ok (p, r)"
    and g: "\<not> pkLen_guard key r p" and ptr: "ptr_at key (RecordKey_getHdrSize + unat p + 1) = ok ptr"
    and len: "length key < 2 ^ 62" "\<not> length key < RecordKey_minSize"
    and v: "varintDecodeFwd ptr (version_left key r p) = ok (ver, n)"
  shows "\<exists>pk. rdstr key RecordKey_getHdrSize (unat p) = ok pk"
    and "\<exists>sk. rdstr ptr n (version_left key r p - n) = ok sk"
proof -
  have "r \<le> length key - 1 - RecordKey_getHdrSize"
    using varintDecodeRvs_bounds [OF r] len(2) by (simp add: RecordKey_sizes)
  moreover have p: "10 + unat p \<le> length key" "length ptr = length key - (10 + unat p)"
    using ptr by (auto simp: ptr_at_def RecordKey_sizes split: if_splits)
  ultimately have "version_left key r p \<le> length ptr"
    using version_left_eq [OF g _ len(1)] by simp
  with varintDecodeFwd_bounds [OF v] show "\<exists>sk. rdstr ptr n (version_left key r p - n) = ok sk"
    by (simp add: rdstr_def)
  from p show "\<exists>pk. rdstr key RecordKey_getHdrSize (unat p) = ok pk"
    by (simp add: rdstr_def RecordKey_sizes)
qed

lemma RecordKey_decode_ok_iff:
  assumes len: "length key < 2 ^ 62" "\<not> length key < RecordKey_minSize"
  shows "(\<exists>k. RecordKey_decode key = ok k \<and> rk_version k = ver) \<longleftrightarrow>
    (\<exists>p r ptr n. varintDecodeRvs key (length key - 1 - 1) (length key - 1 - RecordKey_getHdrSize)
        = ok (p, r) \<and> \<not> pkLen_guard key r p \<and>
      ptr_at key (RecordKey_getHdrSize + unat p + 1) = ok ptr \<and>
      varintDecodeFwd ptr (version_left key r p) = ok (ver, n))"
    (is "?L \<longleftrightarrow> ?R")
proof
  assume ?L
  with len(2) show ?R
    by (fastforce simp: RecordKey_decode_def Let_def ebind_eq_Inr RecordKey_new_def
        split: if_splits)
next
  assume ?R
  then obtain p r ptr n where
    r: "varintDecodeRvs key (length key - 1 - 1) (length key - 1 - RecordKey_getHdrSize)
        = ok (p, r)" and g: "\<not> pkLen_guard key r p"
    and ptr: "ptr_at key (RecordKey_getHdrSize + unat p + 1) = ok ptr"
    and v: "varintDecodeFwd ptr (version_left key r p) = ok (ver, n)"
    by blast
  obtain pk sk where "rdstr key RecordKey_getHdrSize (unat p) = ok pk"
    "rdstr ptr n (version_left key r p - n) = ok sk"
    using RecordKey_decode_reads [OF r g ptr len v] by blast
  moreover obtain c t d where "RecordKey_decodeChunkId key = ok c" "RecordKey_decodeType key = ok t"
    "RecordKey_decodeDbId key = ok d"
    using len(2) by (auto simp: RecordKey_decodeChunkId_def RecordKey_decodeType_def
        RecordKey_decodeDbId_def int32Decode_def rdstr_def rd8_def RecordKey_sizes)
  ultimately show ?L
    using len(2) r g ptr v
    by (simp add: RecordKey_decode_def Let_def RecordKey_new_def)
qed

lemma RecordKey_validate_iff:
  assumes "length key < 2 ^ 62"
  shows "RecordKey_validate key type = ok True \<longleftrightarrow>
    (\<exists>k. RecordKey_decode key = ok k \<and> rk_version k = 0) \<and>
    (type = RT_INVALID \<or> RecordKey_decodeType key = ok type)"
proof (cases "length key < RecordKey_minSize")
  case True
  then show ?thesis by (simp add: RecordKey_validate_def RecordKey_decode_def)
next
  case False
  obtain t where t: "RecordKey_decodeType key = ok t"
    using False by (auto simp: RecordKey_decodeType_def rd8_def RecordKey_sizes)
  show ?thesis
    unfolding RecordKey_decode_ok_iff [OF assms False] RecordKey_validate_def
    using False t by (auto simp: Let_def ebind_eq_Inr split: if_splits)
qed

subsection \<open>Prefixes and the order of the keys in the store\<close>

lemma append_zero_inj:
  assumes "(0 :: byte) \<notin> set a" "0 \<notin> set b" "a @ 0 # x = b @ 0 # y"
  shows "a = b \<and> x = y"
  using assms
proof (induction a arbitrary: b)
  case Nil
  then show ?case by (cases b) auto
next
  case (Cons c a)
  then show ?case by (cases b) auto
qed

lemma beEncode_inj: "LENGTH('a) = 8 * n \<Longrightarrow> beEncode n v = beEncode n w \<Longrightarrow> v = (w :: 'a::len word)"
  using beEncode_self by metis

lemma prefixPk_isolates:
  assumes p: "prefixPk a = ok p" and e: "RecordKey_encode b = ok bs" and pre: "prefix p bs"
    and z: "0 \<notin> set (rk_pk a)" "0 \<notin> set (rk_pk b)"
  shows "rk_chunkId a = rk_chunkId b \<and> rk_type a = rk_type b \<and> rk_dbId a = rk_dbId b \<and>
    rk_pk a = rk_pk b \<and> rk_version a = rk_version b"
proof -
  from p obtain c where c: "rt2Char (rk_type a) = ok c"
    and pa: "p = beEncode 4 (rk_chunkId a) @ c # beEncode 4 (rk_dbId a) @ rk_pk a @ 0 #
      varintEncode (rk_version a)"
    by (auto simp: prefixPk_def encodePrefixPk_def ebind_eq_Inr)
  from e obtain d tl where d: "rt2Char (rk_type b) = ok d"
    and pb: "bs = beEncode 4 (rk_chunkId b) @ d # beEncode 4 (rk_dbId b) @ rk_pk b @ 0 #
      varintEncode (rk_version b) @ tl"
    by (auto simp: RecordKey_encode_ok_iff)
  from pre obtain r where "bs = p @ r" by (auto elim: prefixE)
  with pa pb have chunk: "beEncode 4 (rk_chunkId b) = beEncode 4 (rk_chunkId a)" and cd: "d = c"
    and db: "beEncode 4 (rk_dbId b) = beEncode 4 (rk_dbId a)"
    and pk: "rk_pk b @ 0 # varintEncode (rk_version b) @ tl =
      rk_pk a @ 0 # varintEncode (rk_version a) @ r"
    by (auto simp: append_eq_append_conv)
  from append_zero_inj [OF z(2,1) pk]
  have "rk_pk b = rk_pk a" and "rk_version b = rk_version a"
    by (auto dest: vi.enc_append_inj [OF TrueI TrueI])
  then show ?thesis
    using chunk cd db c d rt2Char_inj beEncode_inj [of 4, where ?'a = 32] by auto
qed

lemma RecordKey_encode_chunk_order:
  assumes "RecordKey_encode a = ok x" "RecordKey_encode b = ok y" "rk_chunkId a < rk_chunkId b"
  shows "ord_class.lexordp x y"
  using assms beEncode_mono [of 4 "rk_chunkId a" "rk_chunkId b"]
  by (auto simp: RecordKey_encode_ok_iff)

subsection \<open>Properties\<close>

text \<open>C9: every key the constructors build is encoded, and decoding the bytes gives the same key
  up to the value type, which the key bytes do not hold (\<open>operator==\<close> does not compare it). The
  field decoders that read a key without decoding it all agree.\<close>

theorem record_key_roundtrip:
  assumes "RecordKey_wf k"
  shows "\<exists>bs. RecordKey_encode k = ok bs \<and>
    RecordKey_decode bs = ok (k\<lparr>rk_valueType := rk_type k\<rparr>) \<and>
    RecordKey_decodeChunkId bs = ok (rk_chunkId k) \<and> RecordKey_decodeType bs = ok (rk_type k) \<and>
    RecordKey_decodeDbId bs = ok (rk_dbId k)"
proof -
  from assms obtain bs where "RecordKey_encode k = ok bs"
    using RecordKey_encode_total [of k] by (auto simp: RecordKey_wf_def)
  then show ?thesis
    using RecordKey_decode_encode [OF assms] RecordKey_decode_fields by blast
qed

definition sample_key :: RecordKey where
  "sample_key = RecordKey_new 7 1 RT_LIST_ELE [97] [49] 0"

lemma sample_key_wf: "RecordKey_wf sample_key"
  by (simp add: sample_key_def RecordKey_wf_def RecordKey_new_def)

theorem record_key_roundtrip_witness:
  "\<exists>bs. RecordKey_encode sample_key = ok bs \<and> RecordKey_decode bs = ok sample_key"
  using record_key_roundtrip [OF sample_key_wf]
  by (auto simp: sample_key_def RecordKey_new_def getRealKeyType_def)



text \<open>C17: on any bytes that fit in memory, \<open>validate\<close> succeeds exactly when \<open>decode\<close> gives a key
  with version 0 and the expected type is either not given or the one in the key.\<close>

theorem record_key_validate_iff_decode:
  assumes "length key < 2 ^ 62"
  shows "RecordKey_validate key type = ok True \<longleftrightarrow>
    (\<exists>k. RecordKey_decode key = ok k \<and> rk_version k = 0) \<and>
    (type = RT_INVALID \<or> RecordKey_decodeType key = ok type)"
  by (rule RecordKey_validate_iff [OF assms])

theorem record_key_validate_iff_decode_witness:
  "RecordKey_validate [0, 0, 0, 7] RT_KV \<noteq> ok True \<and>
   (RecordKey_validate (replicate 13 0) RT_INVALID = ok True \<longleftrightarrow>
     (\<exists>k. RecordKey_decode (replicate 13 0) = ok k \<and> rk_version k = 0))"
  using record_key_validate_iff_decode [of "[0, 0, 0, 7]" RT_KV]
    record_key_validate_iff_decode [of "replicate 13 0" RT_INVALID]
  by (simp add: RecordKey_decode_def RecordKey_sizes)

text \<open>C19: the prefix of a key is a prefix of another encoded key only when both are records of the
  same chunk, type, db, primary key and version, provided neither primary key holds a zero byte.\<close>

theorem prefix_pk_isolates_keys:
  assumes "prefixPk a = ok p" "RecordKey_encode b = ok bs" "prefix p bs"
    and "0 \<notin> set (rk_pk a)" "0 \<notin> set (rk_pk b)"
  shows "rk_chunkId a = rk_chunkId b \<and> rk_type a = rk_type b \<and> rk_dbId a = rk_dbId b \<and>
    rk_pk a = rk_pk b \<and> rk_version a = rk_version b"
  by (rule prefixPk_isolates [OF assms])

lemma varintEncode_small: "v < 0x80 \<Longrightarrow> varintEncode v = [ucast v]"
  by (subst varintEncode.simps) simp

theorem prefix_pk_isolates_keys_witness:
  "\<exists>p bs. prefixPk sample_key = ok p \<and> RecordKey_encode sample_key = ok bs \<and> prefix p bs \<and>
     rk_pk sample_key = rk_pk sample_key \<and> 0 \<notin> set (rk_pk sample_key)"
proof -
  obtain p where p: "prefixPk sample_key = ok p"
    by (auto simp: sample_key_def RecordKey_new_def getRealKeyType_def prefixPk_def
        encodePrefixPk_def)
  obtain bs where bs: "RecordKey_encode sample_key = ok bs"
    using RecordKey_encode_total [of sample_key]
    by (auto simp: sample_key_def RecordKey_new_def getRealKeyType_def)
  have pre: "prefix p bs" using p bs by (auto simp: prefixPk_def RecordKey_encode_def)
  have z: "0 \<notin> set (rk_pk sample_key)" by (simp add: sample_key_def RecordKey_new_def)
  show ?thesis using prefix_pk_isolates_keys [OF p bs pre z z] p bs pre z by blast
qed


end
