(* ===== verification/MetaValues.thy ===== *)
theory MetaValues
  imports RecordKey
begin

section \<open>Meta values of the composite types (storage/record.cpp)\<close>

text \<open>
  The payloads stored in the \<open>_value\<close> of a record: the meta values of hashes, lists, sets,
  bitmaps and sorted sets, the skip list element and the TTL index key. Each has its record,
  encoder, decoder and the lemma that decoding an encoded value gives it back.
\<close>

subsection \<open>Hash\<close>

record HashMetaValue =
  hm_count :: u64

definition HashMetaValue_encode :: "HashMetaValue \<Rightarrow> bytes" where
  "HashMetaValue_encode m = varintEncode (hm_count m)"

definition HashMetaValue_decode :: "bytes \<Rightarrow> HashMetaValue expected" where
  "HashMetaValue_decode val = ebind (varintAt val 0) (\<lambda>(count, offset). ok \<lparr>hm_count = count\<rparr>)"

subsection \<open>List\<close>

record ListMetaValue =
  lm_head :: u64
  lm_tail :: u64

definition ListMetaValue_encode :: "ListMetaValue \<Rightarrow> bytes" where
  "ListMetaValue_encode m = varintEncode (lm_head m) @ varintEncode (lm_tail m)"

definition ListMetaValue_decode :: "bytes \<Rightarrow> ListMetaValue expected" where
  "ListMetaValue_decode val =
     ebind (varintAt val 0) (\<lambda>(head, offset).
     ebind (varintAt val offset) (\<lambda>(tail, offset).
     ok \<lparr>lm_head = head, lm_tail = tail\<rparr>))"

subsection \<open>Set\<close>

record SetMetaValue =
  sm_count :: u64
  sm_skIndex :: bytes

definition SetMetaValue_encode :: "SetMetaValue \<Rightarrow> bytes" where
  "SetMetaValue_encode m =
     varintEncode (sm_count m) @ (if 0 < length (sm_skIndex m) then sm_skIndex m else [])"

definition SetMetaValue_decode :: "bytes \<Rightarrow> SetMetaValue expected" where
  "SetMetaValue_decode val =
     ebind (varintAt val 0) (\<lambda>(count, offset).
     if offset < length val
     then ebind (rdstr val offset (length val - offset)) (\<lambda>sk.
       ok \<lparr>sm_count = count, sm_skIndex = sk\<rparr>)
     else ok \<lparr>sm_count = count, sm_skIndex = []\<rparr>)"

subsection \<open>Bitmap\<close>

record TBitMapMetaValue =
  bm_bitAmount :: u64
  bm_count :: u64
  bm_eleCount :: u64
  bm_fragmentLen :: u64
  bm_firstFragment :: bytes

definition TBitMapMetaValue_new :: "u64 \<Rightarrow> TBitMapMetaValue" where
  "TBitMapMetaValue_new fragmentLen =
     \<lparr>bm_bitAmount = 0, bm_count = 0, bm_eleCount = 1, bm_fragmentLen = fragmentLen,
      bm_firstFragment = []\<rparr>"

definition TBitMapMetaValue_encode :: "TBitMapMetaValue \<Rightarrow> bytes" where
  "TBitMapMetaValue_encode m =
     varintEncode (bm_bitAmount m) @ varintEncode (bm_count m) @ varintEncode (bm_eleCount m) @
     varintEncode (bm_fragmentLen m) @ [0] @ bm_firstFragment m"

text \<open>
  Without the reserved byte the length of the fragment wraps to the largest \<open>size_t\<close> and the
  string constructor throws.
\<close>

definition TBitMapMetaValue_decode :: "bytes \<Rightarrow> TBitMapMetaValue expected" where
  "TBitMapMetaValue_decode val =
     ebind (varintAt val 0) (\<lambda>(bitAmount, offset).
     ebind (varintAt val offset) (\<lambda>(count, offset).
     ebind (varintAt val offset) (\<lambda>(eleCount, offset).
     ebind (varintAt val offset) (\<lambda>(fragmentLen, offset).
     let offset = offset + 1 in
     if length val < offset then Inl Fatal
     else ebind (rdstr val offset (length val - offset)) (\<lambda>frag.
       ok \<lparr>bm_bitAmount = bitAmount, bm_count = count, bm_eleCount = eleCount,
           bm_fragmentLen = fragmentLen, bm_firstFragment = frag\<rparr>)))))"

text \<open>\<open>operator=(TBitMapMetaValue&&)\<close>: the element count of the target stays.\<close>

definition TBitMapMetaValue_assign ::
  "TBitMapMetaValue \<Rightarrow> TBitMapMetaValue \<Rightarrow> TBitMapMetaValue" where
  "TBitMapMetaValue_assign this o' =
     this\<lparr>bm_bitAmount := bm_bitAmount o', bm_count := bm_count o',
          bm_fragmentLen := bm_fragmentLen o', bm_firstFragment := bm_firstFragment o'\<rparr>"

definition byteAmount :: "TBitMapMetaValue \<Rightarrow> u64" where
  "byteAmount m = drop_bit 3 (bm_bitAmount m) + (if bm_bitAmount m AND 7 \<noteq> 0 then 1 else 0)"

definition fragmentAmount :: "TBitMapMetaValue \<Rightarrow> u64 expected" where
  "fragmentAmount m =
     (if bm_fragmentLen m = 0 then Inl Undef
      else ok (byteAmount m div bm_fragmentLen m +
               (if byteAmount m mod bm_fragmentLen m \<noteq> 0 then 1 else 0)))"

subsection \<open>Sorted set: skip list meta value\<close>

definition MAX_LAYER :: nat where "MAX_LAYER = 32"
definition MIN_POS :: u64 where "MIN_POS = 128"
definition HEAD_ID :: u32 where "HEAD_ID = 1"

record ZSlMetaValue =
  zm_level :: byte
  zm_maxLevel :: byte
  zm_count :: u32
  zm_tail :: u64
  zm_posAlloc :: u64

definition ZSlMetaValue_new :: "byte \<Rightarrow> u32 \<Rightarrow> u64 \<Rightarrow> ZSlMetaValue" where
  "ZSlMetaValue_new lvl count tail =
     \<lparr>zm_level = lvl, zm_maxLevel = of_nat MAX_LAYER, zm_count = count, zm_tail = tail,
      zm_posAlloc = MIN_POS\<rparr>"

definition ZSlMetaValue_encode :: "ZSlMetaValue \<Rightarrow> bytes" where
  "ZSlMetaValue_encode m =
     varintEncode (ucast (zm_level m)) @ varintEncode (ucast (zm_maxLevel m)) @
     varintEncode (ucast (zm_count m)) @ varintEncode (zm_tail m) @ varintEncode (zm_posAlloc m)"

definition ZSlMetaValue_decode :: "bytes \<Rightarrow> ZSlMetaValue expected" where
  "ZSlMetaValue_decode val =
     ebind (varintAt val 0) (\<lambda>(level, offset).
     ebind (varintAt val offset) (\<lambda>(maxLevel, offset).
     ebind (varintAt val offset) (\<lambda>(count, offset).
     ebind (varintAt val offset) (\<lambda>(tail, offset).
     ebind (varintAt val offset) (\<lambda>(posAlloc, offset).
     ok \<lparr>zm_level = ucast level, zm_maxLevel = ucast maxLevel, zm_count = ucast count,
         zm_tail = tail, zm_posAlloc = posAlloc\<rparr>)))))"

subsection \<open>Sorted set: skip list element\<close>

text \<open>A score is the 64-bit pattern of a double.\<close>

record ZSlEleValue =
  ze_forward :: "u64 list"
  ze_span :: "u32 list"
  ze_score :: u64
  ze_backward :: u64
  ze_changed :: bool
  ze_subKey :: bytes

definition ZSlEleValue_new :: "u64 \<Rightarrow> bytes \<Rightarrow> ZSlEleValue" where
  "ZSlEleValue_new score subkey =
     \<lparr>ze_forward = replicate (MAX_LAYER + 1) 0, ze_span = replicate (MAX_LAYER + 1) 0,
      ze_score = score, ze_backward = 0, ze_changed = False, ze_subKey = subkey\<rparr>"

definition ZSlEleValue_encode :: "ZSlEleValue \<Rightarrow> bytes" where
  "ZSlEleValue_encode e =
     concat (map varintEncode (ze_forward e)) @
     concat (map (\<lambda>v. varintEncode (ucast v)) (ze_span e)) @
     doubleEncode (ze_score e) @ varintEncode (ze_backward e) @
     varintEncode (of_nat (length (ze_subKey e))) @ ze_subKey e"

primrec varintsAt :: "nat \<Rightarrow> bytes \<Rightarrow> nat \<Rightarrow> (u64 list \<times> nat) expected" where
  "varintsAt 0 val offset = ok ([], offset)"
| "varintsAt (Suc n) val offset =
     ebind (varintAt val offset) (\<lambda>(v, offset).
     ebind (varintsAt n val offset) (\<lambda>(vs, offset). ok (v # vs, offset)))"

definition ZSlEleValue_decode :: "bytes \<Rightarrow> ZSlEleValue expected" where
  "ZSlEleValue_decode val =
     ebind (varintsAt (MAX_LAYER + 1) val 0) (\<lambda>(forward, offset).
     ebind (varintsAt (MAX_LAYER + 1) val offset) (\<lambda>(span, offset).
     ebind (doubleDecode (drop offset val) (length val - offset)) (\<lambda>score.
     let offset = offset + 8 in
     ebind (varintAt val offset) (\<lambda>(backward, offset).
     ebind (varintAt val offset) (\<lambda>(keyLen, offset).
     if of_nat offset + keyLen \<noteq> (of_nat (length val) :: u64)
     then err ERR_DECODE ''invalid skiplist key len''
     else ebind (rdstr val offset (unat keyLen)) (\<lambda>subKey.
       ok \<lparr>ze_forward = forward, ze_span = map ucast span, ze_score = score,
           ze_backward = backward, ze_changed = False, ze_subKey = subKey\<rparr>))))))"

definition getForward :: "ZSlEleValue \<Rightarrow> nat \<Rightarrow> u64 expected" where
  "getForward e layer =
     (if layer < length (ze_forward e) then ok (ze_forward e ! layer) else Inl Undef)"

definition setForward :: "ZSlEleValue \<Rightarrow> nat \<Rightarrow> u64 \<Rightarrow> ZSlEleValue expected" where
  "setForward e layer p =
     (if layer < length (ze_forward e)
      then ok (e\<lparr>ze_changed := True, ze_forward := (ze_forward e)[layer := p]\<rparr>) else Inl Undef)"

definition getSpan :: "ZSlEleValue \<Rightarrow> nat \<Rightarrow> u32 expected" where
  "getSpan e layer =
     (if layer < length (ze_span e) then ok (ze_span e ! layer) else Inl Undef)"

definition setSpan :: "ZSlEleValue \<Rightarrow> nat \<Rightarrow> u32 \<Rightarrow> ZSlEleValue expected" where
  "setSpan e layer sp =
     (if layer < length (ze_span e)
      then ok (e\<lparr>ze_changed := True, ze_span := (ze_span e)[layer := sp]\<rparr>) else Inl Undef)"

definition setBackward :: "ZSlEleValue \<Rightarrow> u64 \<Rightarrow> ZSlEleValue" where
  "setBackward e p = e\<lparr>ze_changed := True, ze_backward := p\<rparr>"

subsection \<open>TTL index\<close>

datatype IndexType = IT_TTL | IT_INVALID

fun it2Char :: "IndexType \<Rightarrow> byte expected" where
  "it2Char IT_TTL = ok (chr8 CHR ''t'')"
| "it2Char IT_INVALID = Inl Fatal"

definition char2It :: "byte \<Rightarrow> IndexType expected" where
  "char2It t = (if t = chr8 CHR ''t'' then ok IT_TTL else Inl Fatal)"

record TTLIndex =
  ti_priKey :: bytes
  ti_type :: RecordType
  ti_dbId :: u32
  ti_ttl :: u64

definition TTLINDEX_CHUNKID :: u32 where "TTLINDEX_CHUNKID = 0xFFFF0000"
definition TTLINDEX_DBID :: u32 where "TTLINDEX_DBID = 0xFFFF0000"

definition ttlIndex :: "TTLIndex \<Rightarrow> bytes expected" where
  "ttlIndex t =
     ebind (rt2Char (ti_type t)) (\<lambda>c.
       ok (beEncode 8 (ti_ttl t) @ beEncode 4 (ti_dbId t) @ [c] @ ti_priKey t))"

definition TTLIndex_decodeTTL :: "bytes \<Rightarrow> u64 expected" where
  "TTLIndex_decodeTTL index =
     ebind (rdstr index 0 8) (\<lambda>bs.
       ok (foldl (\<lambda>ttl b. push_bit 8 ttl OR ucast b) 0 bs))"

text \<open>
  \<open>index[offset + i]\<close> is a \<open>char\<close>, signed on the platform: the operand of \<open>|\<close> is sign-extended.
\<close>

definition TTLIndex_decodeDBId :: "bytes \<Rightarrow> u32 expected" where
  "TTLIndex_decodeDBId index =
     ebind (rdstr index 8 4) (\<lambda>bs.
       ok (foldl (\<lambda>dbid b. push_bit 8 dbid OR scast b) 0 bs))"

definition TTLIndex_decodeType :: "bytes \<Rightarrow> RecordType expected" where
  "TTLIndex_decodeType index = ebind (rd8 index 12) (\<lambda>c. ok (char2Rt c))"

text \<open>\<open>substr\<close> throws when the offset is past the end.\<close>

definition TTLIndex_decodePriKey :: "bytes \<Rightarrow> bytes expected" where
  "TTLIndex_decodePriKey index = (if 13 \<le> length index then ok (drop 13 index) else Inl Fatal)"

definition TTLIndex_encode :: "TTLIndex \<Rightarrow> bytes expected" where
  "TTLIndex_encode t =
     ebind (ttlIndex t) (\<lambda>partial.
       RecordKey_encode
         (RecordKey_new TTLINDEX_CHUNKID TTLINDEX_DBID RT_TTL_INDEX partial [] 0))"

definition TTLIndex_decode :: "RecordKey \<Rightarrow> TTLIndex expected" where
  "TTLIndex_decode rk =
    (let index = rk_pk rk in
     if length index < 8 + 1 + 4 then err ERR_DECODE ''Invalid keylen''
     else
       ebind (TTLIndex_decodeTTL index) (\<lambda>ttl.
       ebind (TTLIndex_decodeDBId index) (\<lambda>dbId.
       ebind (TTLIndex_decodeType index) (\<lambda>type.
       ebind (TTLIndex_decodePriKey index) (\<lambda>priKey.
       ok \<lparr>ti_priKey = priKey, ti_type = type, ti_dbId = dbId, ti_ttl = ttl\<rparr>)))))"

subsection \<open>Round trips\<close>

lemma HashMetaValue_decode_encode [simp]:
  "HashMetaValue_decode (HashMetaValue_encode m) = ok m"
  by (simp add: HashMetaValue_decode_def HashMetaValue_encode_def)

lemma ListMetaValue_decode_encode [simp]:
  "ListMetaValue_decode (ListMetaValue_encode m) = ok m"
  by (simp add: ListMetaValue_decode_def ListMetaValue_encode_def codec_simps)

lemma SetMetaValue_decode_encode [simp]:
  "SetMetaValue_decode (SetMetaValue_encode m) = ok m"
  using rdstr_mid [OF refl, of "varintEncode (sm_count m)" "sm_skIndex m" "[]"]
  by (simp add: SetMetaValue_decode_def SetMetaValue_encode_def codec_simps)

lemma rdstr_tail: "n = length pre \<Longrightarrow> m = length mid \<Longrightarrow> rdstr (pre @ mid) n m = ok mid"
  using rdstr_mid [of mid m pre "[]"] by simp

lemma TBitMapMetaValue_decode_encode [simp]:
  "TBitMapMetaValue_decode (TBitMapMetaValue_encode m) = ok m"
proof -
  let ?hdr = "varintEncode (bm_bitAmount m) @ varintEncode (bm_count m) @
    varintEncode (bm_eleCount m) @ varintEncode (bm_fragmentLen m) @ [0]"
  have "rdstr (?hdr @ bm_firstFragment m) (length ?hdr) (length (bm_firstFragment m)) =
      ok (bm_firstFragment m)"
    by (rule rdstr_tail) simp_all
  then show ?thesis
    by (simp add: TBitMapMetaValue_decode_def TBitMapMetaValue_encode_def codec_simps Let_def
        add.assoc)
qed

lemma ucast_u64_u32 [simp]: "ucast (ucast (c :: u32) :: u64) = c"
  by (rule bit_word_eqI) (auto simp: bit_simps)

lemma ucast_u64_u8 [simp]: "ucast (ucast (c :: byte) :: u64) = c"
  by (rule bit_word_eqI) (auto simp: bit_simps)

lemma ZSlMetaValue_decode_encode [simp]:
  "ZSlMetaValue_decode (ZSlMetaValue_encode m) = ok m"
  by (simp add: ZSlMetaValue_decode_def ZSlMetaValue_encode_def codec_simps add.assoc)

lemma varintsAt_encode [codec_simps]:
  "varintsAt (length vs) (pre @ concat (map varintEncode vs) @ r) (length pre) =
    ok (vs, length pre + length (concat (map varintEncode vs)))"
proof (induction vs arbitrary: pre)
  case (Cons v vs)
  from Cons.IH [of "pre @ varintEncode v"] show ?case
    by (simp add: codec_simps add.assoc)
qed simp

definition ZSlEleValue_wf :: "ZSlEleValue \<Rightarrow> bool" where
  "ZSlEleValue_wf e \<longleftrightarrow>
     length (ze_forward e) = MAX_LAYER + 1 \<and> length (ze_span e) = MAX_LAYER + 1 \<and>
     length (ze_subKey e) < 2 ^ 63"

lemma ZSlEleValue_new_wf: "length k < 2 ^ 63 \<Longrightarrow> ZSlEleValue_wf (ZSlEleValue_new s k)"
  by (simp add: ZSlEleValue_wf_def ZSlEleValue_new_def)

lemma ZSlEleValue_decode_encode:
  assumes "ZSlEleValue_wf e"
  shows "ZSlEleValue_decode (ZSlEleValue_encode e) = ok (e\<lparr>ze_changed := False\<rparr>)"
proof -
  let ?f = "concat (map varintEncode (ze_forward e))"
  let ?s = "concat (map varintEncode (map ucast (ze_span e)))"
  let ?b = "varintEncode (ze_backward e)" and ?k = "ze_subKey e"
  let ?l = "varintEncode (of_nat (length ?k))"
  define tl where "tl = doubleEncode (ze_score e) @ ?b @ ?l @ ?k"
  have enc: "ZSlEleValue_encode e = ?f @ ?s @ tl"
    by (simp add: ZSlEleValue_encode_def tl_def comp_def)
  have len: "MAX_LAYER + 1 = length (ze_forward e)" "MAX_LAYER + 1 = length (map ucast (ze_span e) :: u64 list)"
    using assms by (simp_all add: ZSlEleValue_wf_def)
  have f: "varintsAt (MAX_LAYER + 1) (?f @ ?s @ tl) 0 = ok (ze_forward e, length ?f)"
    using varintsAt_encode [of "ze_forward e" "[]" "?s @ tl"] unfolding len(1) by simp
  have s: "varintsAt (MAX_LAYER + 1) (?f @ ?s @ tl) (length ?f) =
      ok (map ucast (ze_span e), length ?f + length ?s)"
    unfolding len(2) by (rule varintsAt_encode)
  have d: "doubleDecode (drop (length ?f + length ?s) (?f @ ?s @ tl))
      (length (?f @ ?s @ tl) - (length ?f + length ?s)) = ok (ze_score e)"
    unfolding tl_def by simp
  let ?p = "?f @ ?s @ doubleEncode (ze_score e)"
  have p: "?f @ ?s @ tl = ?p @ ?b @ ?l @ ?k" "length ?f + length ?s + 8 = length ?p"
    by (simp_all add: tl_def)
  have b: "varintAt (?f @ ?s @ tl) (length ?f + length ?s + 8) =
      ok (ze_backward e, length ?p + length ?b)"
    unfolding p by (simp only: varintAt_skip(2) varintAt_encode) simp
  have l: "varintAt (?f @ ?s @ tl) (length ?p + length ?b) =
      ok (of_nat (length ?k), length ?p + length ?b + length ?l)"
    unfolding p(1) by (simp only: varintAt_skip varintAt_encode) simp
  have u: "unat (of_nat (length ?k) :: u64) = length ?k"
    by (rule unat_of_nat64) (use assms in \<open>simp add: ZSlEleValue_wf_def\<close>)
  have k: "rdstr (?f @ ?s @ tl) (length ?p + length ?b + length ?l) (length ?k) = ok ?k"
    unfolding p(1) using rdstr_tail [OF refl refl, of "?p @ ?b @ ?l" ?k] by (simp add: add.assoc)
  have sz: "of_nat (length ?p + length ?b + length ?l) + of_nat (length ?k) =
      (of_nat (length (?f @ ?s @ tl)) :: u64)"
    unfolding p(1) by simp
  show ?thesis
    unfolding ZSlEleValue_decode_def enc f s ebind_simps split d Let_def b l sz u k
    by (simp add: comp_def)
qed

lemma and_7_eq_0_iff: "x AND 7 = 0 \<longleftrightarrow> unat (x :: u64) mod 8 = 0"
proof -
  have "(7 :: u64) = mask 3" by (simp add: mask_eq_exp_minus_1)
  then have "x AND 7 = take_bit 3 x" by (simp only: take_bit_eq_mask)
  moreover have "unat (take_bit 3 x) = unat x mod 8"
    by (simp only: unsigned_take_bit_eq) (simp add: take_bit_eq_mod)
  ultimately show ?thesis by (metis unsigned_eq_0_iff)
qed

lemma ceil_div:
  assumes "0 < (k :: nat)"
  shows "(n + k - 1) div k = n div k + (if n mod k = 0 then 0 else 1)"
proof -
  have n: "n = k * (n div k) + n mod k" by simp
  have r: "n mod k < k" using assms by simp
  show ?thesis
  proof (cases "n mod k = 0")
    case True
    have "(n + k - 1) div k = n div k"
      by (rule div_nat_eqI) (use n True assms in \<open>simp_all add: algebra_simps\<close>)
    with True show ?thesis by simp
  next
    case False
    have "k * Suc (n div k) \<le> n + k - 1" "n + k - 1 < k * Suc (Suc (n div k))"
      using n False r assms by (simp_all only: mult_Suc_right)
    then have "(n + k - 1) div k = Suc (n div k)" by (rule div_nat_eqI)
    with False show ?thesis by simp
  qed
qed

lemma unat_Suc_less: "unat (x :: u64) + 1 < 2 ^ 64 \<Longrightarrow> unat (x + 1) = unat x + 1"
  using unat_add_lem [of x 1] by simp

lemma byteAmount_eq: "unat (byteAmount m) = (unat (bm_bitAmount m) + 7) div 8"
proof -
  let ?x = "bm_bitAmount m"
  have d: "unat (drop_bit 3 ?x) = unat ?x div 8"
    by (simp only: unat_drop_bit_eq) (simp add: drop_bit_eq_div)
  have "unat ?x < 2 ^ 64" using unsigned_less [of ?x] by simp
  then have "unat (drop_bit 3 ?x) + 1 < 2 ^ 64" unfolding d by simp
  from unat_Suc_less [OF this] d ceil_div [of 8 "unat ?x"] and_7_eq_0_iff [of ?x]
  show ?thesis by (simp add: byteAmount_def add.commute)
qed

lemma fragmentAmount_eq:
  assumes "bm_fragmentLen m \<noteq> 0"
  shows "\<exists>n. fragmentAmount m = ok n \<and>
    unat n = (unat (byteAmount m) + unat (bm_fragmentLen m) - 1) div unat (bm_fragmentLen m)"
proof -
  let ?b = "unat (byteAmount m)" and ?f = "unat (bm_fragmentLen m)"
  have f: "0 < ?f" using assms by (simp add: unat_gt_0)
  have b: "?b < 2 ^ 64" using unsigned_less [of "byteAmount m"] by simp
  have q: "unat (byteAmount m div bm_fragmentLen m) = ?b div ?f" by (rule unat_div)
  have z: "byteAmount m mod bm_fragmentLen m = 0 \<longleftrightarrow> ?b mod ?f = 0"
    by (metis unat_mod unsigned_eq_0_iff)
  have "unat (byteAmount m div bm_fragmentLen m + 1) = ?b div ?f + 1" if "?b mod ?f \<noteq> 0"
  proof -
    from that f have "2 \<le> ?f" by (cases "?f = 1") auto
    then have "?b div ?f \<le> ?b div 2" by (rule div_le_mono2 [rotated]) simp
    with b have "?b div ?f + 1 < 2 ^ 64" by simp
    then show ?thesis using unat_Suc_less [of "byteAmount m div bm_fragmentLen m"] q by simp
  qed
  with ceil_div [OF f, of ?b] q z assms show ?thesis
    by (simp add: fragmentAmount_def)
qed

subsection \<open>TTL index: the round trip needs small bytes in the db id\<close>

lemma scast_pos_byte: "\<not> bit (b :: byte) 7 \<Longrightarrow> scast b = (ucast b :: u32)"
proof (rule bit_word_eqI)
  fix n
  assume "\<not> bit b 7"
  moreover have "bit b n \<Longrightarrow> n < 8" using bit_imp_le_length [of b n] by simp
  ultimately show "bit (scast b :: u32) n \<longleftrightarrow> bit (ucast b :: u32) n" if "n < LENGTH(32)"
    using that by (cases "n < 7"; cases "n = 7") (auto simp: bit_simps min_def)
qed

lemma beEncode_4: "beEncode 4 v =
    [ucast (drop_bit 24 v), ucast (drop_bit 16 v), ucast (drop_bit 8 v), ucast (v :: u32)]"
  by (simp add: beEncode_alt upt_rec)

definition small_dbId :: "u32 \<Rightarrow> bool" where
  "small_dbId d \<longleftrightarrow> d AND 0x00808080 = 0"

lemma small_dbId_bits:
  assumes "small_dbId d"
  shows "\<not> bit d 7" "\<not> bit d 15" "\<not> bit d 23"
proof -
  have "\<not> bit (d AND 0x00808080) n" for n using assms by (simp add: small_dbId_def)
  from this [of 7] this [of 15] this [of 23] show "\<not> bit d 7" "\<not> bit d 15" "\<not> bit d 23"
    by (simp_all add: bit_and_iff)
qed

lemma TTLIndex_decodeDBId_small:
  assumes "small_dbId d"
  shows "TTLIndex_decodeDBId (beEncode 8 t @ beEncode 4 d @ r) = ok d"
proof -
  have s: "scast (ucast (drop_bit n d) :: byte) = (ucast (ucast (drop_bit n d) :: byte) :: u32)"
    if "n \<in> {0, 8, 16}" for n
    by (rule scast_pos_byte) (use that small_dbId_bits [OF assms] in \<open>auto simp: bit_simps\<close>)
  have top: "push_bit 24 (scast b) = (push_bit 24 (ucast b) :: u32)" for b :: byte
  proof (rule bit_word_eqI)
    fix n
    assume "n < LENGTH(32)"
    then show "bit (push_bit 24 (scast b) :: u32) n \<longleftrightarrow> bit (push_bit 24 (ucast b) :: u32) n"
      by (cases "n = 31") (auto simp: bit_simps min_def)
  qed
  have "rdstr (beEncode 8 t @ beEncode 4 d @ r) 8 4 = ok (beEncode 4 d)"
    using rdstr_mid [of "beEncode 4 d" 4 "beEncode 8 t" r] by simp
  moreover have "foldl (\<lambda>dbid b. push_bit 8 dbid OR scast b) (0 :: u32) (beEncode 4 d) =
      beDecode (beEncode 4 d)"
    using s [of 0] s [of 8] s [of 16] top [of "ucast (drop_bit 24 d)"]
    unfolding beEncode_4 beDecode_def
    by (simp add: push_bit_or push_bit_push_bit)
  ultimately show ?thesis by (simp add: TTLIndex_decodeDBId_def)
qed

lemma ttlIndex_ok_iff:
  "ttlIndex t = ok p \<longleftrightarrow>
    (\<exists>c. rt2Char (ti_type t) = ok c \<and>
      p = beEncode 8 (ti_ttl t) @ beEncode 4 (ti_dbId t) @ c # ti_priKey t)"
  by (auto simp: ttlIndex_def ebind_eq_Inr)

lemma TTLIndex_decode_parts:
  assumes "ttlIndex t = ok p"
  shows "TTLIndex_decodeTTL p = ok (ti_ttl t)" "TTLIndex_decodeType p = ok (ti_type t)"
    "TTLIndex_decodePriKey p = ok (ti_priKey t)" "\<not> length p < 8 + 1 + 4"
proof -
  from assms obtain c where c: "rt2Char (ti_type t) = ok c"
    and p: "p = beEncode 8 (ti_ttl t) @ beEncode 4 (ti_dbId t) @ c # ti_priKey t"
    by (auto simp: ttlIndex_ok_iff)
  have "beDecode (beEncode 8 (ti_ttl t)) = ti_ttl t" by (rule beEncode_self) simp
  then show "TTLIndex_decodeTTL p = ok (ti_ttl t)"
    using rdstr_mid [of "beEncode 8 (ti_ttl t)" 8 "[]"] p
    by (simp add: TTLIndex_decodeTTL_def beDecode_def)
  show "TTLIndex_decodeType p = ok (ti_type t)"
    using rd8_mid [of "beEncode 8 (ti_ttl t) @ beEncode 4 (ti_dbId t)" c "ti_priKey t"]
      char2Rt_rt2Char [OF c] p
    by (simp add: TTLIndex_decodeType_def)
  show "TTLIndex_decodePriKey p = ok (ti_priKey t)" "\<not> length p < 8 + 1 + 4"
    by (simp_all add: TTLIndex_decodePriKey_def p)
qed

lemma TTLIndex_key_roundtrip:
  assumes "ttlIndex t = ok p" "small_dbId (ti_dbId t)" "rk_pk rk = p"
  shows "TTLIndex_decode rk = ok t"
proof -
  have "TTLIndex_decodeDBId p = ok (ti_dbId t)"
    using assms(1) TTLIndex_decodeDBId_small [OF assms(2)] by (auto simp: ttlIndex_ok_iff)
  with TTLIndex_decode_parts [OF assms(1)] assms(3) show ?thesis
    by (simp add: TTLIndex_decode_def)
qed

lemma TTLIndex_decode_encode:
  assumes "TTLIndex_encode t = ok bs" "small_dbId (ti_dbId t)" "length (ti_priKey t) + 77 < 2 ^ 64"
  shows "ebind (RecordKey_decode bs) TTLIndex_decode = ok t"
proof -
  from assms(1) obtain p where p: "ttlIndex t = ok p"
    and enc: "RecordKey_encode (RecordKey_new TTLINDEX_CHUNKID TTLINDEX_DBID RT_TTL_INDEX p [] 0)
      = ok bs"
    by (auto simp: TTLIndex_encode_def ebind_eq_Inr)
  have len: "length p + 64 < 2 ^ 64" using p assms(3) by (auto simp: ttlIndex_ok_iff)
  have "RecordKey_wf (RecordKey_new TTLINDEX_CHUNKID TTLINDEX_DBID RT_TTL_INDEX p [] 0)"
    using len by (simp add: RecordKey_wf_def RecordKey_new_def)
  from RecordKey_decode_encode [OF this enc] show ?thesis
    by (simp add: TTLIndex_key_roundtrip [OF p assms(2)] RecordKey_new_def)
qed

text \<open>The index keys sort by expiry time, which is what the expiry scan walks along.\<close>

lemma TTLIndex_encode_order:
  assumes "TTLIndex_encode a = ok x" "TTLIndex_encode b = ok y" "ti_ttl a < ti_ttl b"
  shows "ord_class.lexordp x y"
proof -
  from assms(1) obtain c pa where "x = beEncode 4 TTLINDEX_CHUNKID @ c # beEncode 4 TTLINDEX_DBID @
      beEncode 8 (ti_ttl a) @ pa" "rt2Char RT_TTL_INDEX = ok c"
    by (auto simp: TTLIndex_encode_def ebind_eq_Inr RecordKey_encode_ok_iff RecordKey_new_def
        ttlIndex_ok_iff getRealKeyType_def)
  moreover from assms(2) obtain pb where "y = beEncode 4 TTLINDEX_CHUNKID @ c #
      beEncode 4 TTLINDEX_DBID @ beEncode 8 (ti_ttl b) @ pb"
    using calculation
    by (auto simp: TTLIndex_encode_def ebind_eq_Inr RecordKey_encode_ok_iff RecordKey_new_def
        ttlIndex_ok_iff getRealKeyType_def)
  ultimately show ?thesis
    using beEncode_mono [of 8 "ti_ttl a" "ti_ttl b"] assms(3) by (simp add: lexordp_append_same)
qed

subsection \<open>Properties\<close>

text \<open>C23: the meta values of hashes, lists, sets, bitmaps and sorted sets decode to the value that
  was encoded, for every value of their fields.\<close>

theorem meta_values_roundtrip:
  "HashMetaValue_decode (HashMetaValue_encode h) = ok h \<and>
   ListMetaValue_decode (ListMetaValue_encode l) = ok l \<and>
   SetMetaValue_decode (SetMetaValue_encode s) = ok s \<and>
   TBitMapMetaValue_decode (TBitMapMetaValue_encode b) = ok b \<and>
   ZSlMetaValue_decode (ZSlMetaValue_encode z) = ok z"
  by simp

text \<open>C22: a skip list node with its 33 forward pointers and spans decodes to itself, unchanged.\<close>

theorem skiplist_node_roundtrip:
  assumes "ZSlEleValue_wf e"
  shows "ZSlEleValue_decode (ZSlEleValue_encode e) = ok (e\<lparr>ze_changed := False\<rparr>)"
  by (rule ZSlEleValue_decode_encode [OF assms])

theorem skiplist_node_roundtrip_witness:
  "ZSlEleValue_decode (ZSlEleValue_encode (ZSlEleValue_new 5 [98])) = ok (ZSlEleValue_new 5 [98])"
  using skiplist_node_roundtrip [OF ZSlEleValue_new_wf, of "[98]" 5]
  by (simp add: ZSlEleValue_new_def)

text \<open>C32: the sizes of a bitmap round up as the header documents: the bytes cover the bits, the
  fragments cover the bytes, and one unit less would not.\<close>

theorem bitmap_amounts_round_up:
  assumes "bm_fragmentLen m \<noteq> 0"
  shows "\<exists>n. fragmentAmount m = ok n \<and>
    unat (byteAmount m) = (unat (bm_bitAmount m) + 7) div 8 \<and>
    unat n = (unat (byteAmount m) + unat (bm_fragmentLen m) - 1) div unat (bm_fragmentLen m)"
  using fragmentAmount_eq [OF assms] byteAmount_eq [of m] by simp

theorem bitmap_amounts_round_up_witness:
  "\<exists>n. fragmentAmount ((TBitMapMetaValue_new 4)\<lparr>bm_bitAmount := 70\<rparr>) = ok n \<and> unat n = 3"
  using bitmap_amounts_round_up [of "(TBitMapMetaValue_new 4)\<lparr>bm_bitAmount := 70\<rparr>"]
  by (auto simp: TBitMapMetaValue_new_def)


text \<open>C27: the key of the TTL index gives back type, db, expiry time and primary key, provided the
  three low bytes of the db id are below 128, and index keys sort by expiry time.\<close>

theorem ttl_index_roundtrip_and_order:
  assumes "TTLIndex_encode a = ok x" "small_dbId (ti_dbId a)" "length (ti_priKey a) + 77 < 2 ^ 64"
  shows "ebind (RecordKey_decode x) TTLIndex_decode = ok a \<and>
    (\<forall>b y. TTLIndex_encode b = ok y \<and> ti_ttl a < ti_ttl b \<longrightarrow> ord_class.lexordp x y)"
  using TTLIndex_decode_encode [OF assms] TTLIndex_encode_order [OF assms(1)] by blast

definition sample_ttl :: TTLIndex where
  "sample_ttl = \<lparr>ti_priKey = [97], ti_type = RT_KV, ti_dbId = 3, ti_ttl = 1600000000000\<rparr>"

lemma TTLIndex_encode_total:
  "ti_type t \<noteq> RT_INVALID \<Longrightarrow> \<exists>bs. TTLIndex_encode t = ok bs"
  using rt2Char_valid [of "ti_type t"] RecordKey_encode_total
  by (auto simp: TTLIndex_encode_def ttlIndex_def RecordKey_new_def)

theorem ttl_index_roundtrip_and_order_witness:
  "\<exists>x. TTLIndex_encode sample_ttl = ok x \<and> ebind (RecordKey_decode x) TTLIndex_decode = ok sample_ttl"
proof -
  have t: "ti_type sample_ttl \<noteq> RT_INVALID" "small_dbId (ti_dbId sample_ttl)"
    "length (ti_priKey sample_ttl) + 77 < 2 ^ 64"
    by (simp_all add: sample_ttl_def small_dbId_def)
  then show ?thesis
    using TTLIndex_encode_total [OF t(1)] ttl_index_roundtrip_and_order [OF _ t(2,3)] by blast
qed


end
