(* ===== verification/RecordValue.thy ===== *)
theory RecordValue
  imports MetaValues
begin

section \<open>Record values and records (storage/record.h, storage/record.cpp)\<close>

text \<open>
  A value of the store: type, TTL, version, version of the extended protocol, CAS, piece size and
  total size, then the user's bytes. For element types the six numeric fields are six zero bytes.
  \<open>_cas\<close> is an \<open>int64_t\<close>, here its 64-bit pattern; \<open>-1\<close> stands for unset, stored as \<open>+ 1\<close>.
\<close>

record RecordValue =
  rv_type :: RecordType
  rv_ttl :: u64
  rv_version :: u64
  rv_versionEP :: u64
  rv_cas :: u64
  rv_pieceSize :: u64
  rv_totalSize :: u64
  rv_value :: bytes

definition RecordValue_of_type :: "RecordType \<Rightarrow> RecordValue" where
  "RecordValue_of_type type =
     \<lparr>rv_type = type, rv_ttl = 0, rv_version = 0, rv_versionEP = -1, rv_cas = -1,
      rv_pieceSize = -1, rv_totalSize = -1, rv_value = []\<rparr>"

definition RecordValue_of_double :: "u64 \<Rightarrow> RecordType \<Rightarrow> RecordValue" where
  "RecordValue_of_double v type =
     \<lparr>rv_type = type, rv_ttl = 0, rv_version = 0, rv_versionEP = -1, rv_cas = -1,
      rv_pieceSize = -1, rv_totalSize = -1, rv_value = doubleEncode v\<rparr>"

definition RecordValue_new ::
  "bytes \<Rightarrow> RecordType \<Rightarrow> u64 \<Rightarrow> u64 \<Rightarrow> u64 \<Rightarrow> u64 \<Rightarrow> u64 \<Rightarrow> RecordValue" where
  "RecordValue_new val type versionEp ttl cas version pieceSize =
     \<lparr>rv_type = type, rv_ttl = ttl, rv_version = version, rv_versionEP = versionEp, rv_cas = cas,
      rv_pieceSize = pieceSize, rv_totalSize = -1, rv_value = val\<rparr>"

text \<open>The constructor that inherits CAS, version and piece size from the replaced value.\<close>

definition RecordValue_inherit ::
  "bytes \<Rightarrow> RecordType \<Rightarrow> u64 \<Rightarrow> u64 \<Rightarrow> RecordValue expected \<Rightarrow> RecordValue" where
  "RecordValue_inherit val type versionEp ttl oldRV =
    (let rv = RecordValue_new val type versionEp ttl (-1) 0 (-1) in
     case oldRV of
       Inr old \<Rightarrow> rv\<lparr>rv_cas := rv_cas old, rv_version := rv_version old,
                    rv_pieceSize := rv_pieceSize old\<rparr>
     | Inl _ \<Rightarrow> rv)"

definition RecordValue_minSize :: nat where
  "RecordValue_minSize = 7"

subsection \<open>Encoding\<close>

text \<open>
  \<open>offset += varintEncodeBuf(ptr + offset, size - offset, val)\<close> on the header buffer of 128
  bytes, of which \<open>out\<close> are written.
\<close>

definition putVarint :: "u64 \<Rightarrow> bytes \<Rightarrow> bytes expected" where
  "putVarint val out = ebind (varintEncodeBuf (128 - length out) val) (\<lambda>b. ok (out @ b))"

definition RecordValue_encode :: "RecordValue \<Rightarrow> bytes expected" where
  "RecordValue_encode v =
     ebind (rt2Char (rv_type v)) (\<lambda>c.
     ebind
      (if isDataMetaType (rv_type v)
       then
         ebind (putVarint (rv_ttl v) [c]) (\<lambda>out.
         ebind (putVarint (rv_version v) out) (\<lambda>out.
         ebind (putVarint (rv_versionEP v + 1) out) (\<lambda>out.
         ebind (putVarint (rv_cas v + 1) out) (\<lambda>out.
         ebind (putVarint (rv_pieceSize v + 1) out) (\<lambda>out.
         putVarint (rv_totalSize v + 1) out)))))
       else ok ([c] @ replicate (RecordValue_minSize - 1) 0)) (\<lambda>out.
     ok (out @ (if 0 < length (rv_value v) then rv_value v else []))))"

subsection \<open>Decoding\<close>

definition RecordValue_decode :: "bytes \<Rightarrow> RecordValue expected" where
  "RecordValue_decode value =
    (if length value < RecordValue_minSize then err ERR_DECODE ''too small RecordValue''
     else
       ebind (rd8 value 0) (\<lambda>c.
       let typeForMeta = char2Rt c in
       ebind
        (if isDataMetaType typeForMeta
         then
           ebind (varintAt value 1) (\<lambda>(ttl, offset).
           ebind (varintAt value offset) (\<lambda>(version, offset).
           ebind (varintAt value offset) (\<lambda>(versionEP, offset).
           ebind (varintAt value offset) (\<lambda>(cas, offset).
           ebind (varintAt value offset) (\<lambda>(pieceSize, offset).
           ebind (varintAt value offset) (\<lambda>(totalSize, offset).
           if length value < offset then err ERR_DECODE ''marshaled value content''
           else ok (offset, ttl, version, versionEP - 1, cas - 1, pieceSize - 1)))))))
         else ok (RecordValue_minSize, 0, 0, -1, -1, -1))
        (\<lambda>(offset, ttl, version, versionEP, cas, pieceSize).
       ebind (if offset < length value then rdstr value offset (length value - offset) else ok [])
        (\<lambda>rawValue.
       ok (RecordValue_new rawValue typeForMeta versionEP ttl cas version pieceSize)))))"

definition RecordValue_validate :: "bytes \<Rightarrow> RecordType \<Rightarrow> bool expected" where
  "RecordValue_validate value type =
    (if length value < RecordValue_minSize then err ERR_DECODE ''too small RecordValue''
     else
       ebind (rd8 value 0) (\<lambda>c.
       let typeForMeta = char2Rt c in
       if type \<noteq> RT_INVALID \<and> type \<noteq> typeForMeta then err ERR_DECODE ''record type mismatch''
       else
         ebind (varintAt value 1) (\<lambda>(_, offset).
         ebind (varintAt value offset) (\<lambda>(_, offset).
         ebind (varintAt value offset) (\<lambda>(_, offset).
         ebind (varintAt value offset) (\<lambda>(_, offset).
         ebind (varintAt value offset) (\<lambda>(p, offset).
         let pieceSize = p - 1 in
         ebind (varintAt value offset) (\<lambda>(t, offset).
         let totalSize = t - 1 in
         if pieceSize < totalSize then err ERR_DECODE ''invalid pieceSize''
         else if totalSize \<noteq> of_nat (length value) - of_nat offset \<and> totalSize \<noteq> -1
         then err ERR_DECODE ''invalid totalSize''
         else ok True))))))))"

definition RecordValue_decodeHdrSize :: "bytes \<Rightarrow> nat expected" where
  "RecordValue_decodeHdrSize value =
    (if length value < 7 then err ERR_DECODE ''too small RecordValue''
     else
       ebind (varintAt value 1) (\<lambda>(_, offset).
       ebind (varintAt value offset) (\<lambda>(_, offset).
       ebind (varintAt value offset) (\<lambda>(_, offset).
       ebind (varintAt value offset) (\<lambda>(_, offset).
       ebind (varintAt value offset) (\<lambda>(_, offset).
       ebind (varintAt value offset) (\<lambda>(_, offset).
       ok offset)))))))"

definition RecordValue_decodeHdrSizeNoMeta :: "bytes \<Rightarrow> nat expected" where
  "RecordValue_decodeHdrSizeNoMeta value =
    (if length value < RecordValue_minSize then err ERR_DECODE ''too small RecordValue''
     else ok RecordValue_minSize)"

definition RecordValue_decodeTtl :: "bytes \<Rightarrow> u64 expected" where
  "RecordValue_decodeTtl value =
    (case varintAt value 1 of
       Inr (ttl, _) \<Rightarrow> ok ttl
     | Inl (Status _ _) \<Rightarrow> ok 0
     | Inl f \<Rightarrow> Inl f)"

definition RecordValue_decodeType :: "bytes \<Rightarrow> RecordType expected" where
  "RecordValue_decodeType value = ebind (rd8 value 0) (\<lambda>c. ok (char2Rt c))"

definition RecordValue_eq :: "RecordValue \<Rightarrow> RecordValue \<Rightarrow> bool" where
  "RecordValue_eq a b \<longleftrightarrow>
     rv_ttl a = rv_ttl b \<and> rv_cas a = rv_cas b \<and> rv_version a = rv_version b \<and>
     rv_type a = rv_type b \<and> rv_versionEP a = rv_versionEP b \<and>
     rv_totalSize a = rv_totalSize b \<and> rv_pieceSize a = rv_pieceSize b \<and>
     rv_value a = rv_value b"

subsection \<open>Element counts\<close>

fun RecordValue_eleType :: "RecordType \<Rightarrow> RecordType" where
  "RecordValue_eleType RT_KV = RT_DATA_META"
| "RecordValue_eleType RT_LIST_META = RT_LIST_ELE"
| "RecordValue_eleType RT_HASH_META = RT_HASH_ELE"
| "RecordValue_eleType RT_ZSET_META = RT_ZSET_H_ELE"
| "RecordValue_eleType RT_SET_META = RT_SET_ELE"
| "RecordValue_eleType RT_TBITMAP_META = RT_TBITMAP_ELE"
| "RecordValue_eleType _ = RT_DATA_META"

definition RecordValue_getEleType :: "RecordValue \<Rightarrow> RecordType" where
  "RecordValue_getEleType v = RecordValue_eleType (rv_type v)"

text \<open>\<open>if (!expt.ok()) return 0\<close>: an error status gives 0, other faults remain.\<close>

definition or_zero :: "u64 expected \<Rightarrow> u64 expected" where
  "or_zero e = (case e of Inl (Status _ _) \<Rightarrow> ok 0 | _ \<Rightarrow> e)"

definition RecordValue_getEleCnt :: "RecordValue \<Rightarrow> u64 expected" where
  "RecordValue_getEleCnt v =
    (case rv_type v of
       RT_KV \<Rightarrow> ok 1
     | RT_LIST_META \<Rightarrow>
         or_zero (ebind (ListMetaValue_decode (rv_value v)) (\<lambda>m. ok (lm_tail m - lm_head m)))
     | RT_HASH_META \<Rightarrow> or_zero (ebind (HashMetaValue_decode (rv_value v)) (\<lambda>m. ok (hm_count m)))
     | RT_SET_META \<Rightarrow> or_zero (ebind (SetMetaValue_decode (rv_value v)) (\<lambda>m. ok (sm_count m)))
     | RT_ZSET_META \<Rightarrow>
         or_zero (ebind (ZSlMetaValue_decode (rv_value v)) (\<lambda>m. ok (ucast (zm_count m - 1))))
     | RT_TBITMAP_META \<Rightarrow>
         or_zero (ebind (TBitMapMetaValue_decode (rv_value v)) (\<lambda>m. ok (bm_eleCount m)))
     | _ \<Rightarrow> ok 0)"

definition RecordValue_isBigKey :: "RecordValue \<Rightarrow> u64 \<Rightarrow> u64 \<Rightarrow> bool expected" where
  "RecordValue_isBigKey v valueSize eleCnt =
    (if valueSize \<le> of_nat (length (rv_value v)) then ok True
     else ebind (RecordValue_getEleCnt v) (\<lambda>cnt. ok (eleCnt \<le> cnt)))"

definition getSubKeyCount :: "RecordKey \<Rightarrow> RecordValue \<Rightarrow> u64 expected" where
  "getSubKeyCount key val =
    (case rv_type val of
       RT_KV \<Rightarrow> ok 1
     | RT_HASH_META \<Rightarrow> ebind (HashMetaValue_decode (rv_value val)) (\<lambda>m. ok (hm_count m))
     | RT_LIST_META \<Rightarrow>
         ebind (ListMetaValue_decode (rv_value val)) (\<lambda>m. ok (lm_tail m - lm_head m))
     | RT_SET_META \<Rightarrow> ebind (SetMetaValue_decode (rv_value val)) (\<lambda>m. ok (sm_count m))
     | RT_ZSET_META \<Rightarrow> ebind (ZSlMetaValue_decode (rv_value val)) (\<lambda>m. ok (ucast (zm_count m)))
     | RT_TBITMAP_META \<Rightarrow> ebind (TBitMapMetaValue_decode (rv_value val)) (\<lambda>m. ok (bm_eleCount m))
     | _ \<Rightarrow> err ERR_INTERNAL ''not support'')"

subsection \<open>Records\<close>

record Record =
  rc_key :: RecordKey
  rc_value :: RecordValue

definition Record_encode :: "Record \<Rightarrow> (bytes \<times> bytes) expected" where
  "Record_encode r =
     ebind (RecordKey_encode (rc_key r)) (\<lambda>k.
     ebind (RecordValue_encode (rc_value r)) (\<lambda>v. ok (k, v)))"

definition Record_decode :: "bytes \<Rightarrow> bytes \<Rightarrow> Record expected" where
  "Record_decode key value =
     ebind (RecordKey_decode key) (\<lambda>k.
     ebind (RecordValue_decode value) (\<lambda>v. ok \<lparr>rc_key = k, rc_value = v\<rparr>))"

definition Record_eq :: "Record \<Rightarrow> Record \<Rightarrow> bool" where
  "Record_eq a b \<longleftrightarrow> RecordKey_eq (rc_key a) (rc_key b) \<and> RecordValue_eq (rc_value a) (rc_value b)"

subsection \<open>The header fits its buffer\<close>

definition RecordValue_wf :: "RecordValue \<Rightarrow> bool" where
  "RecordValue_wf v \<longleftrightarrow>
     rv_type v \<noteq> RT_INVALID \<and> rv_totalSize v = -1 \<and>
     (\<not> isDataMetaType (rv_type v) \<longrightarrow>
        rv_ttl v = 0 \<and> rv_version v = 0 \<and> rv_versionEP v = -1 \<and> rv_cas v = -1 \<and>
        rv_pieceSize v = -1)"

lemma putVarint_ok:
  "length out \<le> 118 \<Longrightarrow> putVarint val out = ok (out @ varintEncode val)"
  using varintEncode_length_le_10 [of val] by (simp add: putVarint_def varintEncodeBuf_def Let_def)

definition hdrFields :: "RecordValue \<Rightarrow> bytes" where
  "hdrFields v =
    (if isDataMetaType (rv_type v)
     then varintEncode (rv_ttl v) @ varintEncode (rv_version v) @ varintEncode (rv_versionEP v + 1) @
       varintEncode (rv_cas v + 1) @ varintEncode (rv_pieceSize v + 1) @
       varintEncode (rv_totalSize v + 1)
     else replicate 6 0)"

lemma RecordValue_encode_eq:
  "RecordValue_encode v = ebind (rt2Char (rv_type v)) (\<lambda>c. ok (c # hdrFields v @ rv_value v))"
proof -
  have "length (varintEncode x) \<le> 10" for x by (rule varintEncode_length_le_10)
  note l = this [of "rv_ttl v"] this [of "rv_version v"] this [of "rv_versionEP v + 1"]
    this [of "rv_cas v + 1"] this [of "rv_pieceSize v + 1"] this [of "rv_totalSize v + 1"]
  then show ?thesis
    by (cases "rt2Char (rv_type v)")
      (simp_all add: RecordValue_encode_def hdrFields_def putVarint_ok RecordValue_minSize_def)
qed

lemma RecordValue_encode_total:
  "rv_type v \<noteq> RT_INVALID \<Longrightarrow> \<exists>bs. RecordValue_encode v = ok bs"
  using rt2Char_valid by (fastforce simp: RecordValue_encode_eq)

lemma length_hdrFields: "6 \<le> length (hdrFields v)"
proof -
  have n: "1 \<le> length (varintEncode x)" for x
    using varintEncode_nonempty [of x] by (cases "varintEncode x") auto
  show ?thesis
    using n [of "rv_ttl v"] n [of "rv_version v"] n [of "rv_versionEP v + 1"]
      n [of "rv_cas v + 1"] n [of "rv_pieceSize v + 1"] n [of "rv_totalSize v + 1"]
    by (simp add: hdrFields_def)
qed

subsection \<open>Round trip\<close>

lemma varintEncode_0: "varintEncode 0 = [0]"
  by (subst varintEncode.simps) simp

lemma replicate_6_0: "replicate 6 (0 :: byte) =
    varintEncode 0 @ varintEncode 0 @ varintEncode 0 @ varintEncode 0 @ varintEncode 0 @ varintEncode 0"
  by (simp add: varintEncode_0 eval_nat_numeral)

text \<open>The six reads of the header, on any value that starts with six encoded integers.\<close>

lemma hdr_reads:
  assumes "bs = c # varintEncode a1 @ varintEncode a2 @ varintEncode a3 @ varintEncode a4 @
      varintEncode a5 @ varintEncode a6 @ r"
  obtains o1 o2 o3 o4 o5 o6 where
    "varintAt bs 1 = ok (a1, o1)" "varintAt bs o1 = ok (a2, o2)" "varintAt bs o2 = ok (a3, o3)"
    "varintAt bs o3 = ok (a4, o4)" "varintAt bs o4 = ok (a5, o5)" "varintAt bs o5 = ok (a6, o6)"
    "o6 = length bs - length r" "o6 \<le> length bs" "rdstr bs o6 (length r) = ok r"
proof -
  let ?l = "\<lambda>x. length (varintEncode x)"
  let ?hdr = "c # varintEncode a1 @ varintEncode a2 @ varintEncode a3 @ varintEncode a4 @
      varintEncode a5 @ varintEncode a6"
  have r: "rdstr bs (length ?hdr) (length r) = ok r"
    using rdstr_tail [of "length ?hdr" ?hdr "length r" r] assms by simp
  show thesis
    by (rule that [of "Suc (?l a1)" "Suc (?l a1 + ?l a2)" "Suc (?l a1 + (?l a2 + ?l a3))"
          "Suc (?l a1 + (?l a2 + (?l a3 + ?l a4)))"
          "Suc (?l a1 + (?l a2 + (?l a3 + (?l a4 + ?l a5))))" "length ?hdr"])
      (use assms r in \<open>simp_all add: codec_simps\<close>)
qed

lemma RecordValue_encode_cases:
  assumes "RecordValue_encode v = ok bs"
  obtains c a1 a2 a3 a4 a5 a6 where "rt2Char (rv_type v) = ok c" "char2Rt c = rv_type v"
    "rd8 bs 0 = ok c" "\<not> length bs < RecordValue_minSize"
    "bs = c # varintEncode a1 @ varintEncode a2 @ varintEncode a3 @ varintEncode a4 @
      varintEncode a5 @ varintEncode a6 @ rv_value v"
    "isDataMetaType (rv_type v) \<Longrightarrow> a1 = rv_ttl v \<and> a2 = rv_version v \<and>
      a3 = rv_versionEP v + 1 \<and> a4 = rv_cas v + 1 \<and> a5 = rv_pieceSize v + 1 \<and>
      a6 = rv_totalSize v + 1"
    "\<not> isDataMetaType (rv_type v) \<Longrightarrow>
      a1 = 0 \<and> a2 = 0 \<and> a3 = 0 \<and> a4 = 0 \<and> a5 = 0 \<and> a6 = 0 \<and>
      length bs - length (rv_value v) = RecordValue_minSize"
proof -
  from assms obtain c where c: "rt2Char (rv_type v) = ok c"
    and bs: "bs = c # hdrFields v @ rv_value v"
    by (auto simp: RecordValue_encode_eq ebind_eq_Inr)
  have min: "\<not> length bs < RecordValue_minSize"
    using length_hdrFields [of v] by (simp add: bs RecordValue_minSize_def)
  have rd: "rd8 bs 0 = ok c" by (simp add: bs rd8_def)
  show thesis
  proof (cases "isDataMetaType (rv_type v)")
    case True
    then have "bs = c # varintEncode (rv_ttl v) @ varintEncode (rv_version v) @
        varintEncode (rv_versionEP v + 1) @ varintEncode (rv_cas v + 1) @
        varintEncode (rv_pieceSize v + 1) @ varintEncode (rv_totalSize v + 1) @ rv_value v"
      by (simp add: bs hdrFields_def)
    from that [OF c char2Rt_rt2Char [OF c] rd min this] True show thesis by simp
  next
    case False
    then have "bs = c # varintEncode 0 @ varintEncode 0 @ varintEncode 0 @ varintEncode 0 @
        varintEncode 0 @ varintEncode 0 @ rv_value v"
      by (simp add: bs hdrFields_def replicate_6_0)
    from that [OF c char2Rt_rt2Char [OF c] rd min this] False show thesis
      by (simp add: bs hdrFields_def RecordValue_minSize_def)
  qed
qed

lemma RecordValue_decode_encode:
  assumes "RecordValue_wf v" "RecordValue_encode v = ok bs"
  shows "RecordValue_decode bs = ok v"
proof -
  obtain c a1 a2 a3 a4 a5 a6 where e: "char2Rt c = rv_type v"
    "rd8 bs 0 = ok c" "\<not> length bs < RecordValue_minSize"
    and bs: "bs = c # varintEncode a1 @ varintEncode a2 @ varintEncode a3 @ varintEncode a4 @
      varintEncode a5 @ varintEncode a6 @ rv_value v"
    and t: "isDataMetaType (rv_type v) \<Longrightarrow> a1 = rv_ttl v \<and> a2 = rv_version v \<and>
      a3 = rv_versionEP v + 1 \<and> a4 = rv_cas v + 1 \<and> a5 = rv_pieceSize v + 1 \<and>
      a6 = rv_totalSize v + 1"
    and f: "\<not> isDataMetaType (rv_type v) \<Longrightarrow>
      length bs - length (rv_value v) = RecordValue_minSize"
    using RecordValue_encode_cases [OF assms(2)] by metis
  from hdr_reads [OF bs] obtain o1 o2 o3 o4 o5 o6 where r:
    "varintAt bs 1 = ok (a1, o1)" "varintAt bs o1 = ok (a2, o2)" "varintAt bs o2 = ok (a3, o3)"
    "varintAt bs o3 = ok (a4, o4)" "varintAt bs o4 = ok (a5, o5)" "varintAt bs o5 = ok (a6, o6)"
    and o: "o6 = length bs - length (rv_value v)" "o6 \<le> length bs"
      "rdstr bs o6 (length (rv_value v)) = ok (rv_value v)"
    by metis
  have len: "length bs - o6 = length (rv_value v)" "o6 < length bs \<longleftrightarrow> rv_value v \<noteq> []"
    using o bs by auto
  have wf: "RecordValue_new (rv_value v) (rv_type v) (rv_versionEP v) (rv_ttl v) (rv_cas v)
      (rv_version v) (rv_pieceSize v) = v"
    using assms(1) by (simp add: RecordValue_new_def RecordValue_wf_def)
  show ?thesis
  proof (cases "isDataMetaType (rv_type v)")
    case True
    with t e r o len wf show ?thesis
      by (auto simp: RecordValue_decode_def Let_def)
  next
    case False
    with f o have "o6 = RecordValue_minSize" by simp
    with False e o len wf assms(1) show ?thesis
      by (auto simp: RecordValue_decode_def Let_def RecordValue_wf_def)
  qed
qed

lemma RecordValue_validate_encode:
  assumes "RecordValue_wf v" "rv_pieceSize v = -1" "RecordValue_encode v = ok bs"
    and "type = RT_INVALID \<or> type = rv_type v"
  shows "RecordValue_validate bs type = ok True"
proof -
  obtain c a1 a2 a3 a4 a5 a6 where e: "char2Rt c = rv_type v"
    "rd8 bs 0 = ok c" "\<not> length bs < RecordValue_minSize"
    and bs: "bs = c # varintEncode a1 @ varintEncode a2 @ varintEncode a3 @ varintEncode a4 @
      varintEncode a5 @ varintEncode a6 @ rv_value v"
    and a: "a5 = 0" "a6 = 0"
    using RecordValue_encode_cases [OF assms(3)] assms(1,2) unfolding RecordValue_wf_def
    by (metis add.left_inverse)
  from hdr_reads [OF bs] obtain o1 o2 o3 o4 o5 o6 where r:
    "varintAt bs 1 = ok (a1, o1)" "varintAt bs o1 = ok (a2, o2)" "varintAt bs o2 = ok (a3, o3)"
    "varintAt bs o3 = ok (a4, o4)" "varintAt bs o4 = ok (a5, o5)" "varintAt bs o5 = ok (a6, o6)"
    by metis
  from assms(4) e r a show ?thesis
    by (auto simp: RecordValue_validate_def Let_def)
qed

lemma RecordValue_decodeTtl_encode:
  assumes "RecordValue_wf v" "RecordValue_encode v = ok bs"
  shows "RecordValue_decodeTtl bs = ok (rv_ttl v)"
  using assms
  by (auto simp: RecordValue_encode_eq ebind_eq_Inr RecordValue_decodeTtl_def hdrFields_def
      codec_simps replicate_6_0 RecordValue_wf_def)

lemma RecordValue_decodeType_encode:
  "RecordValue_encode v = ok bs \<Longrightarrow> RecordValue_decodeType bs = ok (rv_type v)"
  using char2Rt_rt2Char
  by (auto simp: RecordValue_encode_eq ebind_eq_Inr RecordValue_decodeType_def rd8_def)

subsection \<open>The partial decoders agree with the full one\<close>

lemma RecordValue_decodeHdrSize_agrees:
  assumes "RecordValue_decode value = ok v" "isDataMetaType (rv_type v)"
  shows "\<exists>n. RecordValue_decodeHdrSize value = ok n \<and> rv_value v = drop n value"
proof -
  have drop: "drop n value = []" if "\<not> n < length value" for n using that by simp
  from assms show ?thesis
    by (auto simp: RecordValue_decode_def RecordValue_decodeHdrSize_def RecordValue_minSize_def
        Let_def ebind_eq_Inr RecordValue_new_def rdstr_def split: if_splits)
qed

lemma RecordValue_decodeHdrSizeNoMeta_agrees:
  assumes "RecordValue_decode value = ok v" "\<not> isDataMetaType (rv_type v)"
  shows "RecordValue_decodeHdrSizeNoMeta value = ok RecordValue_minSize \<and>
    rv_value v = drop RecordValue_minSize value"
  using assms
  by (auto simp: RecordValue_decode_def RecordValue_decodeHdrSizeNoMeta_def
      Let_def ebind_eq_Inr RecordValue_new_def rdstr_def split: if_splits)

lemma RecordValue_decodeTtl_agrees:
  assumes "RecordValue_decode value = ok v" "isDataMetaType (rv_type v)"
  shows "RecordValue_decodeTtl value = ok (rv_ttl v)"
  using assms
  by (auto simp: RecordValue_decode_def RecordValue_decodeTtl_def
      Let_def ebind_eq_Inr RecordValue_new_def split: if_splits)

lemma Record_decode_encode:
  assumes "RecordKey_wf (rc_key r)" "RecordValue_wf (rc_value r)" "Record_encode r = ok (k, v)"
  shows "\<exists>r'. Record_decode k v = ok r' \<and> Record_eq r' r"
  using assms RecordKey_decode_encode [OF assms(1)] RecordValue_decode_encode [OF assms(2)]
  by (auto simp: Record_encode_def Record_decode_def Record_eq_def RecordKey_eq_def
      RecordValue_eq_def ebind_eq_Inr)

lemma getSubKeyCount_getEleCnt:
  assumes "getSubKeyCount k v = ok n" "rv_type v \<noteq> RT_ZSET_META"
  shows "RecordValue_getEleCnt v = ok n"
  using assms
  by (auto simp: getSubKeyCount_def RecordValue_getEleCnt_def or_zero_def ebind_eq_Inr
      split: RecordType.splits)

subsection \<open>Properties\<close>

text \<open>C10: every record the constructors build is encoded within the header buffer and decodes to an
  equal record; its value passes \<open>validate\<close> when no piece size is set, and the TTL and the type
  read without decoding are those of the record.\<close>

theorem record_roundtrip:
  assumes "RecordKey_wf (rc_key r)" "RecordValue_wf (rc_value r)"
  shows "\<exists>k v r'. Record_encode r = ok (k, v) \<and> Record_decode k v = ok r' \<and> Record_eq r' r \<and>
    rc_value r' = rc_value r \<and> RecordValue_decodeTtl v = ok (rv_ttl (rc_value r)) \<and>
    RecordValue_decodeType v = ok (rv_type (rc_value r)) \<and>
    (rv_pieceSize (rc_value r) = -1 \<longrightarrow> RecordValue_validate v (rv_type (rc_value r)) = ok True)"
proof -
  obtain k where k: "RecordKey_encode (rc_key r) = ok k"
    using RecordKey_encode_total [of "rc_key r"] assms(1) by (auto simp: RecordKey_wf_def)
  obtain v where v: "RecordValue_encode (rc_value r) = ok v"
    using RecordValue_encode_total [of "rc_value r"] assms(2) by (auto simp: RecordValue_wf_def)
  have "Record_decode k v =
      ok \<lparr>rc_key = (rc_key r)\<lparr>rk_valueType := rk_type (rc_key r)\<rparr>, rc_value = rc_value r\<rparr>"
    using RecordKey_decode_encode [OF assms(1) k] RecordValue_decode_encode [OF assms(2) v]
    by (simp add: Record_decode_def)
  then show ?thesis
    using k v RecordValue_decodeTtl_encode [OF assms(2) v] RecordValue_decodeType_encode [OF v]
      RecordValue_validate_encode [OF assms(2) _ v]
    by (auto simp: Record_encode_def Record_eq_def RecordKey_eq_def RecordValue_eq_def)
qed

definition sample_record :: Record where
  "sample_record =
     \<lparr>rc_key = RecordKey_new 7 1 RT_KV [97] [] 0,
      rc_value = RecordValue_new [98, 99] RT_KV (-1) 1600000000000 (-1) 0 (-1)\<rparr>"

theorem record_roundtrip_witness:
  "\<exists>k v r'. Record_encode sample_record = ok (k, v) \<and> Record_decode k v = ok r' \<and>
     Record_eq r' sample_record \<and> RecordValue_validate v RT_KV = ok True"
proof -
  have "RecordKey_wf (rc_key sample_record)" "RecordValue_wf (rc_value sample_record)"
    by (simp_all add: sample_record_def RecordKey_wf_def RecordKey_new_def RecordValue_wf_def
        RecordValue_new_def)
  from record_roundtrip [OF this] show ?thesis
    by (auto simp: sample_record_def RecordValue_new_def)
qed

text \<open>C28: on any bytes that decode, the size of the header read without decoding is where the user's
  value starts, for data and for element values, and the TTL read alone is the decoded one.\<close>

theorem value_partial_decoders_agree:
  assumes "RecordValue_decode value = ok v"
  shows "(isDataMetaType (rv_type v) \<longrightarrow>
      (\<exists>n. RecordValue_decodeHdrSize value = ok n \<and> rv_value v = drop n value) \<and>
      RecordValue_decodeTtl value = ok (rv_ttl v)) \<and>
    (\<not> isDataMetaType (rv_type v) \<longrightarrow>
      RecordValue_decodeHdrSizeNoMeta value = ok RecordValue_minSize \<and>
      rv_value v = drop RecordValue_minSize value)"
  using RecordValue_decodeHdrSize_agrees [OF assms] RecordValue_decodeTtl_agrees [OF assms]
    RecordValue_decodeHdrSizeNoMeta_agrees [OF assms] by blast

theorem value_partial_decoders_agree_witness:
  "RecordValue_decodeHdrSizeNoMeta [108, 0, 0, 0, 0, 0, 0, 120] = ok 7"
proof -
  have d: "RecordValue_decode [108, 0, 0, 0, 0, 0, 0, 120] =
      ok (RecordValue_new [120] RT_LIST_ELE (-1) 0 (-1) 0 (-1))"
    by (simp add: RecordValue_decode_def RecordValue_minSize_def rd8_def char2Rt_def Let_def
        rdstr_def)
  from value_partial_decoders_agree [OF d] show ?thesis
    by (simp add: RecordValue_new_def RecordValue_minSize_def)
qed

text \<open>C31: \<open>getSubKeyCount\<close> and \<open>getEleCnt\<close> count the same elements of a decodable value of every
  type but sorted sets, where the former counts the head of the skip list too.\<close>

theorem element_counts_agree:
  assumes "getSubKeyCount k v = ok n"
  shows "RecordValue_getEleCnt v =
    (if rv_type v = RT_ZSET_META then ok (ucast (ucast n - 1 :: u32)) else ok n)"
proof (cases "rv_type v = RT_ZSET_META")
  case True
  with assms show ?thesis
    by (auto simp: getSubKeyCount_def RecordValue_getEleCnt_def or_zero_def ebind_eq_Inr)
next
  case False
  with getSubKeyCount_getEleCnt [OF assms] show ?thesis by simp
qed

theorem element_counts_agree_witness:
  "getSubKeyCount sample_key
     (RecordValue_new (ListMetaValue_encode \<lparr>lm_head = 5, lm_tail = 9\<rparr>) RT_LIST_META 0 0 0 0 0) =
     ok 4 \<and>
   RecordValue_getEleCnt
     (RecordValue_new (ListMetaValue_encode \<lparr>lm_head = 5, lm_tail = 9\<rparr>) RT_LIST_META 0 0 0 0 0) =
     ok 4"
proof -
  have g: "getSubKeyCount sample_key
     (RecordValue_new (ListMetaValue_encode \<lparr>lm_head = 5, lm_tail = 9\<rparr>) RT_LIST_META 0 0 0 0 0) = ok 4"
    by (simp add: getSubKeyCount_def RecordValue_new_def)
  with element_counts_agree [OF g] show ?thesis by (simp add: RecordValue_new_def)
qed

end
