(* ===== verification/StringUtil.thy ===== *)
theory StringUtil
  imports Varint
begin

section \<open>String helpers (utils/string.cpp)\<close>

text \<open>
  Length-prefixed strings, the unit of the binlog format, and the hexadecimal transcription of
  binary strings.
\<close>

subsection \<open>Length-prefixed strings\<close>

definition lenStrEncode :: "bytes \<Rightarrow> bytes" where
  "lenStrEncode val = varintEncode (of_nat (length val)) @ val"

text \<open>The overload that writes into a caller's array with room for \<open>destsize\<close> bytes.\<close>

definition lenStrEncodeBuf :: "nat \<Rightarrow> bytes \<Rightarrow> bytes expected" where
  "lenStrEncodeBuf destsize val =
     ebind (varintEncodeBuf destsize (of_nat (length val))) (\<lambda>b.
       if length b + length val \<le> destsize then ok (b @ val) else Inl Undef)"

definition lenStrEncodeSize :: "bytes \<Rightarrow> nat" where
  "lenStrEncodeSize val = varintEncodeSize (of_nat (length val)) + length val"

definition lenStrDecode :: "bytes \<Rightarrow> nat \<Rightarrow> (bytes \<times> nat) expected" where
  "lenStrDecode ptr max_size =
     ebind (varintDecodeFwd ptr max_size) (\<lambda>(keySize, offset).
     if max_size - offset < unat keySize then err ERR_DECODE ''invalid string''
     else ebind (rdstr ptr offset (unat keySize)) (\<lambda>str.
       ok (str, offset + unat keySize)))"

lemma length_lenStrEncode: "length (lenStrEncode s) = lenStrEncodeSize s"
  by (simp add: lenStrEncode_def lenStrEncodeSize_def varintEncodeSize_eq)

lemma lenStrEncode_nonempty [simp]: "lenStrEncode s \<noteq> []"
  by (simp add: lenStrEncode_def)

lemma lenStrEncodeBuf_ok:
  "lenStrEncodeSize s \<le> n \<Longrightarrow> lenStrEncodeBuf n s = ok (lenStrEncode s)"
  by (simp add: lenStrEncodeBuf_def varintEncodeBuf_def Let_def lenStrEncode_def
      lenStrEncodeSize_def varintEncodeSize_eq)

lemma lenStrDecode_encode [codec_simps]:
  assumes "length s < 2 ^ 64" "length (lenStrEncode s) \<le> m"
  shows "lenStrDecode (lenStrEncode s @ r) m = ok (s, length (lenStrEncode s))"
proof -
  let ?l = "varintEncode (of_nat (length s))"
  have u: "unat (of_nat (length s) :: u64) = length s"
    by (rule unat_of_nat64) (rule assms(1))
  have m: "length ?l + length s \<le> m" using assms(2) by (simp add: lenStrEncode_def)
  have "rdstr (?l @ s @ r) (length ?l) (length s) = ok s" by (rule rdstr_mid) simp
  with m show ?thesis
    by (simp add: lenStrDecode_def lenStrEncode_def u)
qed

lemma lenStrDecode_bounds:
  assumes "lenStrDecode p m = ok (s, n)"
  shows "0 < n \<and> n \<le> m"
  using assms varintDecodeFwd_bounds
  by (fastforce simp: lenStrDecode_def ebind_eq_Inr split: if_splits)

interpretation ls: prefix_codec lenStrEncode "\<lambda>b. lenStrDecode b (length b)" "\<lambda>s. length s < 2 ^ 64"
  by unfold_locales (simp add: lenStrDecode_encode)

subsection \<open>Hexadecimal transcription\<close>

definition hex_digits :: "byte list" where
  "hex_digits = map of_char ''0123456789ABCDEF''"

definition hexlify_byte :: "byte \<Rightarrow> bytes" where
  "hexlify_byte b =
     [hex_digits ! unat (drop_bit 4 b AND 0xf), hex_digits ! unat (b AND 0x0f)]"

definition hexlify :: "bytes \<Rightarrow> bytes" where
  "hexlify s = concat (map hexlify_byte s)"

text \<open>
  \<open>table_hex[c + 128]\<close> for the signed character \<open>c\<close>: the value of a digit in either case, else
  \<open>-1\<close>, here \<open>None\<close>.
\<close>

definition table_hex :: "byte \<Rightarrow> byte option" where
  "table_hex c =
    (if of_char CHR ''0'' \<le> c \<and> c \<le> of_char CHR ''9'' then Some (c - of_char CHR ''0'')
     else if of_char CHR ''A'' \<le> c \<and> c \<le> of_char CHR ''F'' then Some (c - of_char CHR ''A'' + 10)
     else if of_char CHR ''a'' \<le> c \<and> c \<le> of_char CHR ''f'' then Some (c - of_char CHR ''a'' + 10)
     else None)"

fun unhexlify_loop :: "bytes \<Rightarrow> bytes expected" where
  "unhexlify_loop (h # l # s) =
    (case (table_hex h, table_hex l) of
       (Some high, Some low) \<Rightarrow>
         ebind (unhexlify_loop s) (\<lambda>r. ok ((push_bit 4 high OR low) # r))
     | _ \<Rightarrow> err ERR_DECODE ''invalid hex str'')"
| "unhexlify_loop _ = ok []"

definition unhexlify :: "bytes \<Rightarrow> bytes expected" where
  "unhexlify s =
    (if length s mod 2 = 1 then err ERR_DECODE ''invalid hex size'' else unhexlify_loop s)"

lemma hex_digit_nth: "n < 16 \<Longrightarrow> table_hex (hex_digits ! n) = Some (of_nat n)"
proof -
  have "list_all (\<lambda>n. table_hex (hex_digits ! n) = Some (of_nat n)) [0..<16]" by code_simp
  then show "n < 16 \<Longrightarrow> table_hex (hex_digits ! n) = Some (of_nat n)" by (simp add: list_all_iff)
qed

lemma and_0xf: "v AND 0xf = take_bit 4 (v :: byte)"
proof -
  have "(0xf :: byte) = mask 4" by (simp add: mask_eq_exp_minus_1)
  then show ?thesis by (simp only: take_bit_eq_mask)
qed

lemma nibble_less: "unat (take_bit 4 (b :: byte)) < 16"
  by (simp only: unsigned_take_bit_eq) (simp add: take_bit_eq_mod)

lemma nibbles: "push_bit 4 (take_bit 4 (drop_bit 4 b)) OR take_bit 4 b = (b :: byte)"
proof (rule bit_word_eqI)
  fix n
  assume "n < LENGTH(8)"
  then show "bit (push_bit 4 (take_bit 4 (drop_bit 4 b)) OR take_bit 4 b) n \<longleftrightarrow> bit b n"
    by (cases "n < 4") (auto simp: bit_simps)
qed

lemma hexlify_byte_alt: "hexlify_byte b =
    [hex_digits ! unat (take_bit 4 (drop_bit 4 b)), hex_digits ! unat (take_bit 4 b)]"
  by (simp only: hexlify_byte_def and_0xf)

lemma unhexlify_hexlify_byte:
  "unhexlify_loop (hexlify_byte b @ s) = ebind (unhexlify_loop s) (\<lambda>r. ok (b # r))"
  unfolding hexlify_byte_alt
  by (simp add: hex_digit_nth nibble_less nibbles del: take_bit_drop_bit drop_bit_take_bit)

lemma length_hexlify: "length (hexlify s) = 2 * length s"
  by (induction s) (simp_all add: hexlify_def hexlify_byte_def)

lemma unhexlify_hexlify: "unhexlify (hexlify s) = ok s"
proof -
  have "unhexlify_loop (hexlify s) = ok s"
    by (induction s) (simp_all add: hexlify_def unhexlify_hexlify_byte)
  then show ?thesis by (simp add: unhexlify_def length_hexlify)
qed

lemma hexlify_no_zero: "0 \<notin> set (hexlify s)"
proof -
  have "table_hex 0 = None" by code_simp
  then have "hex_digits ! n \<noteq> 0" if "n < 16" for n using hex_digit_nth [OF that] by auto
  then show ?thesis
    using nibble_less by (induction s) (auto simp: hexlify_def hexlify_byte_alt)
qed

subsection \<open>Properties\<close>

text \<open>Hexadecimal transcription is undone by \<open>unhexlify\<close>, doubles the length and never produces
  a zero byte.\<close>

lemma hexlify_roundtrip:
  "unhexlify (hexlify s) = ok s \<and> length (hexlify s) = 2 * length s \<and> 0 \<notin> set (hexlify s)"
  by (simp add: unhexlify_hexlify length_hexlify hexlify_no_zero)

end
