(* ===== verification/ReplLog.thy ===== *)
theory ReplLog
  imports RecordValue StringUtil
begin

section \<open>The replication log (storage/repllog.cpp)\<close>

text \<open>
  The binlog record: its key (an ordered 64-bit id), the fixed header and command string of its
  value, the operation entries, and the stream of records a master sends (\<open>BinlogWriter\<close>,
  \<open>BinlogReader\<close>). The values of the enumerations \<open>ReplOp\<close> and \<open>ReplFlag\<close> are their integers,
  since the decoders cast any byte. Where the code appends a computed text to an error message
  only the constant part is kept, but the evaluation of that text is kept: \<open>rt2Char\<close> of an
  invalid type is fatal.
\<close>

definition REPL_OP_NONE :: byte where "REPL_OP_NONE = 0"
definition REPL_OP_SET :: byte where "REPL_OP_SET = 1"
definition REPL_OP_DEL :: byte where "REPL_OP_DEL = 2"
definition REPL_OP_STMT :: byte where "REPL_OP_STMT = 3"
definition REPL_OP_SPEC :: byte where "REPL_OP_SPEC = 4"
definition REPL_OP_DEL_RANGE :: byte where "REPL_OP_DEL_RANGE = 5"
definition REPL_OP_DEL_FILES_INCLUDE_END :: byte where "REPL_OP_DEL_FILES_INCLUDE_END = 6"
definition REPL_OP_DEL_FILES_EXCLUDE_END :: byte where "REPL_OP_DEL_FILES_EXCLUDE_END = 7"

definition REPL_GROUP_MID :: u16 where "REPL_GROUP_MID = 0"
definition REPL_GROUP_START :: u16 where "REPL_GROUP_START = 1"
definition REPL_GROUP_END :: u16 where "REPL_GROUP_END = 2"

definition TXNID_UNINITED :: u64 where "TXNID_UNINITED = 0"
definition CHUNKID_UNINITED :: u32 where "CHUNKID_UNINITED = 0xFFFFFFFF"

subsection \<open>Binlog keys\<close>

definition REPLLOGKEYV2_CHUNKID :: u32 where "REPLLOGKEYV2_CHUNKID = 0xFFFFFF01"
definition REPLLOGKEYV2_DBID :: u32 where "REPLLOGKEYV2_DBID = 0xFFFFFF01"

definition ReplLogKeyV2_encode :: "u64 \<Rightarrow> bytes expected" where
  "ReplLogKeyV2_encode binlogId =
     RecordKey_encode
       (RecordKey_new REPLLOGKEYV2_CHUNKID REPLLOGKEYV2_DBID RT_BINLOG (int64Encode binlogId) [] 0)"

definition ReplLogKeyV2_decodeRk :: "RecordKey \<Rightarrow> u64 expected" where
  "ReplLogKeyV2_decodeRk rk =
    (if rk_type rk \<noteq> RT_BINLOG
     then ebind (rt2Char (rk_type rk)) (\<lambda>_.
       err ERR_DECODE ''ReplLogKeyV2::decode:it is not a valid binlog type '')
     else if rk_chunkId rk \<noteq> REPLLOGKEYV2_CHUNKID \<or> rk_dbId rk \<noteq> REPLLOGKEYV2_DBID
     then err ERR_DECODE ''ReplLogKeyV2::decode:chunkid or dbid is invalied''
     else if length (rk_pk rk) \<noteq> 8 then err ERR_DECODE ''invalid keylen''
     else ebind (int64Decode (rk_pk rk) 0) (\<lambda>binlogId.
       if length (rk_sk rk) \<noteq> 0 then err ERR_DECODE ''invalid seccondkeylen''
       else ok binlogId))"

definition ReplLogKeyV2_decode :: "bytes \<Rightarrow> u64 expected" where
  "ReplLogKeyV2_decode rawKey = ebind (RecordKey_decode rawKey) ReplLogKeyV2_decodeRk"

subsection \<open>Entries\<close>

record ReplLogValueEntryV2 =
  le_op :: byte
  le_timestamp :: u64
  le_key :: bytes
  le_val :: bytes

definition ReplLogValueEntryV2_decode ::
  "bytes \<Rightarrow> nat \<Rightarrow> (ReplLogValueEntryV2 \<times> nat) expected" where
  "ReplLogValueEntryV2_decode rawVal maxSize =
    (if maxSize \<le> 1 then err ERR_DECODE ''invalid replvalueentry len''
     else
       ebind (rd8 rawVal 0) (\<lambda>op.
       let offset = 1 in
       ebind (varintDecodeFwd (drop offset rawVal) (maxSize - offset)) (\<lambda>(timestamp, n).
       let offset = offset + n in
       ebind (as_decode_error ''invalid replvalueentry len''
                (lenStrDecode (drop offset rawVal) (maxSize - offset))) (\<lambda>(key, n).
       let offset = offset + n in
       ebind (as_decode_error ''invalid replvalueentry len''
                (lenStrDecode (drop offset rawVal) (maxSize - offset))) (\<lambda>(val, n).
       let offset = offset + n in
       ok (\<lparr>le_op = op, le_timestamp = timestamp, le_key = key, le_val = val\<rparr>, offset))))))"

definition ReplLogValueEntryV2_encodeSize :: "ReplLogValueEntryV2 \<Rightarrow> nat" where
  "ReplLogValueEntryV2_encodeSize e =
     1 + varintEncodeSize (le_timestamp e) + lenStrEncodeSize (le_key e) + lenStrEncodeSize (le_val e)"

text \<open>The bytes written to \<open>dest\<close>, which has room for \<open>destSize\<close>.\<close>

definition ReplLogValueEntryV2_encodeBuf :: "nat \<Rightarrow> ReplLogValueEntryV2 \<Rightarrow> bytes expected" where
  "ReplLogValueEntryV2_encodeBuf destSize e =
    (if destSize < 1 then Inl Undef
     else
       let out = [le_op e] in
       ebind (varintEncodeBuf (destSize - length out) (le_timestamp e)) (\<lambda>b.
       let out = out @ b in
       ebind (lenStrEncodeBuf (destSize - length out) (le_key e)) (\<lambda>b.
       let out = out @ b in
       ebind (lenStrEncodeBuf (destSize - length out) (le_val e)) (\<lambda>b.
       ok (out @ b)))))"

text \<open>A string resized to \<open>n\<close> is filled with zero bytes past what is written into it.\<close>

definition padded :: "nat \<Rightarrow> bytes \<Rightarrow> bytes" where
  "padded n out = out @ replicate (n - length out) 0"

definition ReplLogValueEntryV2_encode :: "ReplLogValueEntryV2 \<Rightarrow> bytes expected" where
  "ReplLogValueEntryV2_encode e =
     ebind (ReplLogValueEntryV2_encodeBuf (ReplLogValueEntryV2_encodeSize e) e) (\<lambda>out.
       ok (padded (ReplLogValueEntryV2_encodeSize e) out))"

subsection \<open>Values\<close>

text \<open>\<open>lv_data\<close> is the memory from \<open>_data\<close> on, of length \<open>_dataSize\<close>.\<close>

record ReplLogValueV2 =
  lv_chunkId :: u32
  lv_flag :: u16
  lv_txnId :: u64
  lv_timestamp :: u64
  lv_versionEp :: u64
  lv_cmdStr :: bytes
  lv_data :: bytes

definition FLAG_OFFSET :: nat where "FLAG_OFFSET = 0 + 4"
definition TXNID_OFFSET :: nat where "TXNID_OFFSET = FLAG_OFFSET + 2"
definition TIMESTAMP_OFFSET :: nat where "TIMESTAMP_OFFSET = TXNID_OFFSET + 8"
definition VERSIONEP_OFFSET :: nat where "VERSIONEP_OFFSET = TIMESTAMP_OFFSET + 8"
definition FIXED_HEADER_SIZE :: nat where "FIXED_HEADER_SIZE = VERSIONEP_OFFSET + 8"

lemmas header_offsets = FLAG_OFFSET_def TXNID_OFFSET_def TIMESTAMP_OFFSET_def
  VERSIONEP_OFFSET_def FIXED_HEADER_SIZE_def

definition ReplLogValueV2_getHdrSize :: "ReplLogValueV2 \<Rightarrow> nat" where
  "ReplLogValueV2_getHdrSize v =
     FIXED_HEADER_SIZE + varintEncodeSize (of_nat (length (lv_cmdStr v))) + length (lv_cmdStr v)"

definition ReplLogValueV2_encodeHdr :: "ReplLogValueV2 \<Rightarrow> bytes expected" where
  "ReplLogValueV2_encodeHdr v =
    (let hdrSize = ReplLogValueV2_getHdrSize v;
         out = int32Encode (lv_chunkId v) @ int16Encode (lv_flag v) @ int64Encode (lv_txnId v) @
           int64Encode (lv_timestamp v) @ int64Encode (lv_versionEp v) in
     ebind (lenStrEncodeBuf (hdrSize - length out) (lv_cmdStr v)) (\<lambda>b.
       ok (padded hdrSize (out @ b))))"

fun encodeEntries :: "nat \<Rightarrow> bytes \<Rightarrow> ReplLogValueEntryV2 list \<Rightarrow> bytes expected" where
  "encodeEntries allocSize val [] = ok (padded allocSize val)"
| "encodeEntries allocSize val (v # vec) =
     ebind (ReplLogValueEntryV2_encodeBuf (allocSize - length val) v) (\<lambda>b.
       encodeEntries allocSize (val @ b) vec)"

definition ReplLogValueV2_encode ::
  "ReplLogValueV2 \<Rightarrow> ReplLogValueEntryV2 list \<Rightarrow> bytes expected" where
  "ReplLogValueV2_encode v vec =
     ebind (ReplLogValueV2_encodeHdr v) (\<lambda>val.
     let allocSize = length val + sum_list (map ReplLogValueEntryV2_encodeSize vec) in
     ebind (encodeEntries allocSize val vec) (\<lambda>val.
     RecordValue_encode (RecordValue_new val RT_BINLOG (-1) 0 (-1) 0 (-1))))"

definition ReplLogValueV2_decodeRaw :: "bytes \<Rightarrow> ReplLogValueV2 expected" where
  "ReplLogValueV2_decodeRaw str =
    (if length str < FIXED_HEADER_SIZE
     then err ERR_DECODE ''ReplLogValueV2::decode() error, too small''
     else
       ebind (int32Decode str 0) (\<lambda>chunkid.
       ebind (int16Decode str FLAG_OFFSET) (\<lambda>flag.
       ebind (int64Decode str TXNID_OFFSET) (\<lambda>txnid.
       ebind (int64Decode str TIMESTAMP_OFFSET) (\<lambda>timestamp.
       ebind (int64Decode str VERSIONEP_OFFSET) (\<lambda>versionEp.
       ebind (as_decode_error ''ReplLogValueV2::decode() error:''
               (lenStrDecode (drop FIXED_HEADER_SIZE str) (length str - FIXED_HEADER_SIZE)))
         (\<lambda>(cmd, _).
       ok \<lparr>lv_chunkId = chunkid, lv_flag = flag, lv_txnId = txnid, lv_timestamp = timestamp,
           lv_versionEp = versionEp, lv_cmdStr = cmd, lv_data = str\<rparr>)))))))"

text \<open>The type is read through \<open>s.c_str()\<close>, which for an empty string points at its terminator.\<close>

definition ReplLogValueV2_decode :: "bytes \<Rightarrow> ReplLogValueV2 expected" where
  "ReplLogValueV2_decode s =
     ebind (RecordValue_decodeType (if s = [] then [0] else s)) (\<lambda>type.
     if type \<noteq> RT_BINLOG
     then ebind (rt2Char type) (\<lambda>_.
       err ERR_DECODE ''ReplLogValueV2::decode: it is not a valid binlog type'')
     else ebind (RecordValue_decodeHdrSizeNoMeta s) (\<lambda>hdrSize.
       ReplLogValueV2_decodeRaw (drop hdrSize s)))"

definition isEqualHdr :: "ReplLogValueV2 \<Rightarrow> ReplLogValueV2 \<Rightarrow> bool" where
  "isEqualHdr a b \<longleftrightarrow>
     lv_chunkId a = lv_chunkId b \<and> lv_flag a = lv_flag b \<and> lv_txnId a = lv_txnId b \<and>
     lv_timestamp a = lv_timestamp b \<and> lv_versionEp a = lv_versionEp b \<and>
     lv_cmdStr a = lv_cmdStr b"

lemma ReplLogValueEntryV2_decode_pos:
  "ReplLogValueEntryV2_decode p m = ok (e, n) \<Longrightarrow> 0 < n \<and> n \<le> m"
  by (auto simp: ReplLogValueEntryV2_decode_def Let_def ebind_eq_Inr split: if_splits
      dest!: lenStrDecode_bounds)

text \<open>
  The loop over the entries of \<open>data\<close> from \<open>offset\<close>, shared by \<open>ReplLogV2::decode\<close> and
  \<open>getLogList\<close>. It returns the offset it stops at.
\<close>

function decodeEntries ::
  "bytes \<Rightarrow> nat \<Rightarrow> (ReplLogValueEntryV2 list \<times> nat) expected" where
  "decodeEntries data offset =
    (if offset < length data
     then ebind (ReplLogValueEntryV2_decode (drop offset data) (length data - offset))
       (\<lambda>(entry, sz).
       ebind (decodeEntries data (offset + sz)) (\<lambda>(es, n). ok (entry # es, n)))
     else ok ([], offset))"
  by pat_completeness auto
termination
  by (relation "measure (\<lambda>(data, offset). length data - offset)")
    (auto dest!: ReplLogValueEntryV2_decode_pos)

declare decodeEntries.simps [simp del]

definition getLogList :: "ReplLogValueV2 \<Rightarrow> ReplLogValueEntryV2 list expected" where
  "getLogList v =
     ebind (as_decode_error ''decode error.'' (decodeEntries (lv_data v) FIXED_HEADER_SIZE))
       (\<lambda>(es, _). ok es)"

subsection \<open>Whole records\<close>

record ReplLogV2 =
  rl_key :: u64
  rl_val :: ReplLogValueV2
  rl_entrys :: "ReplLogValueEntryV2 list"

definition ReplLogV2_decode :: "bytes \<Rightarrow> bytes \<Rightarrow> ReplLogV2 expected" where
  "ReplLogV2_decode key value =
     ebind (ReplLogKeyV2_decode key) (\<lambda>k.
     ebind (ReplLogValueV2_decode value) (\<lambda>v.
     ebind (decodeEntries (lv_data v) (ReplLogValueV2_getHdrSize v)) (\<lambda>(entrys, offset).
     if offset \<noteq> length (lv_data v)
     then err ERR_DECODE ''invalid repllogvaluev2 value len''
     else ok \<lparr>rl_key = k, rl_val = v, rl_entrys = entrys\<rparr>)))"

subsection \<open>Raw records: reading single fields\<close>

record ReplLogRawV2 =
  rr_key :: bytes
  rr_val :: bytes

definition ReplLogRawV2_getBinlogId :: "ReplLogRawV2 \<Rightarrow> u64 expected" where
  "ReplLogRawV2_getBinlogId r =
    (if length (rr_key r) < RecordKey_minSize then ok TXNID_UNINITED
     else int64Decode (rr_key r) PK_OFFSET)"

definition ReplLogRawV2_getVersionEp :: "ReplLogRawV2 \<Rightarrow> u64 expected" where
  "ReplLogRawV2_getVersionEp r =
    (if length (rr_val r) < RecordValue_minSize + FIXED_HEADER_SIZE then ok (-1)
     else case RecordValue_decodeHdrSizeNoMeta (rr_val r) of
       Inr n \<Rightarrow> int64Decode (rr_val r) (n + VERSIONEP_OFFSET)
     | Inl _ \<Rightarrow> ok (-1))"

definition ReplLogRawV2_getTimestamp :: "ReplLogRawV2 \<Rightarrow> u64 expected" where
  "ReplLogRawV2_getTimestamp r =
    (if length (rr_val r) < RecordValue_minSize + FIXED_HEADER_SIZE then ok 0
     else case RecordValue_decodeHdrSizeNoMeta (rr_val r) of
       Inr n \<Rightarrow> int64Decode (rr_val r) (n + TIMESTAMP_OFFSET)
     | Inl _ \<Rightarrow> ok 0)"

definition ReplLogRawV2_getChunkId :: "ReplLogRawV2 \<Rightarrow> u32 expected" where
  "ReplLogRawV2_getChunkId r =
    (if length (rr_val r) < RecordValue_minSize + FIXED_HEADER_SIZE then ok CHUNKID_UNINITED
     else case RecordValue_decodeHdrSizeNoMeta (rr_val r) of
       Inr n \<Rightarrow> int32Decode (rr_val r) (n + 0)
     | Inl _ \<Rightarrow> ok CHUNKID_UNINITED)"

subsection \<open>The stream of records\<close>

datatype BinlogFlag = NORMAL | FLUSH | MIGRATE

definition HEADERSIZE :: nat where "HEADERSIZE = 1"
definition BINLOG_VERSION :: byte where "BINLOG_VERSION = 2"

definition writeHeader :: bytes where
  "writeHeader = [BINLOG_VERSION]"

text \<open>None stands for the largest \<open>size_t\<close>. The first byte of an empty string is its terminator.\<close>

definition decodeHeader :: "bytes \<Rightarrow> nat option" where
  "decodeHeader str =
    (case str of b # _ \<Rightarrow> if b \<noteq> BINLOG_VERSION then None else Some HEADERSIZE | [] \<Rightarrow> None)"

definition Binlog_writeRepllogRaw :: "ReplLogRawV2 \<Rightarrow> bytes" where
  "Binlog_writeRepllogRaw r = lenStrEncode (rr_key r) @ lenStrEncode (rr_val r)"

record BinlogWriter =
  bw_curSize :: u64
  bw_maxSize :: u64
  bw_curCnt :: u32
  bw_maxCnt :: u32
  bw_flag :: BinlogFlag
  bw_ss :: bytes

definition BinlogWriter_new :: "u64 \<Rightarrow> u32 \<Rightarrow> BinlogWriter" where
  "BinlogWriter_new maxSize maxCount =
     \<lparr>bw_curSize = of_nat HEADERSIZE, bw_maxSize = maxSize, bw_curCnt = 0, bw_maxCnt = maxCount,
      bw_flag = NORMAL, bw_ss = writeHeader\<rparr>"

definition writerFull :: "BinlogWriter \<Rightarrow> bool" where
  "writerFull w \<longleftrightarrow> bw_maxSize w \<le> bw_curSize w \<or> bw_maxCnt w \<le> bw_curCnt w"

definition writeRepllogRaw :: "BinlogWriter \<Rightarrow> ReplLogRawV2 \<Rightarrow> bool \<times> BinlogWriter" where
  "writeRepllogRaw w r =
    (let out = Binlog_writeRepllogRaw r;
         w' = w\<lparr>bw_curSize := bw_curSize w + of_nat (length out), bw_curCnt := bw_curCnt w + 1,
                bw_ss := bw_ss w @ out\<rparr> in
     (bw_maxSize w' \<le> bw_curSize w' \<or> bw_maxCnt w' \<le> bw_curCnt w', w'))"

definition resetWriter :: "BinlogWriter \<Rightarrow> BinlogWriter" where
  "resetWriter w =
     w\<lparr>bw_curSize := of_nat HEADERSIZE, bw_curCnt := 0, bw_ss := writeHeader, bw_flag := NORMAL\<rparr>"

record BinlogReader =
  br_pos :: nat
  br_val :: bytes

definition BinlogReader_new :: "bytes \<Rightarrow> BinlogReader" where
  "BinlogReader_new s = \<lparr>br_pos = 0, br_val = s\<rparr>"

text \<open>The first read checks and skips the header; a failure leaves the position as it is.\<close>

definition BinlogReader_first :: "BinlogReader \<Rightarrow> BinlogReader expected" where
  "BinlogReader_first rd =
    (if br_pos rd = 0
     then case decodeHeader (br_val rd) of
       None \<Rightarrow> err ERR_DECODE ''invalid binlog''
     | Some sz \<Rightarrow> if length (br_val rd) < sz then err ERR_DECODE ''invalid binlog''
                  else ok (rd\<lparr>br_pos := sz\<rparr>)
     else ok rd)"

text \<open>The key and value strings at the position, and the position after them.\<close>

definition BinlogReader_pair :: "BinlogReader \<Rightarrow> (bytes \<times> bytes \<times> nat) expected" where
  "BinlogReader_pair rd =
    (let val = br_val rd; offset = br_pos rd in
     if offset = length val then err ERR_EXHAUST ''''
     else if \<not> offset < length val then Inl Fatal
     else
       ebind (as_decode_error ''invalid binlog format''
               (lenStrDecode (drop offset val) (length val - offset))) (\<lambda>(key, n).
       let offset = offset + n in
       ebind (as_decode_error ''invalid binlog format''
               (lenStrDecode (drop offset val) (length val - offset))) (\<lambda>(value, n).
       ok (key, value, offset + n))))"

definition BinlogReader_next :: "BinlogReader \<Rightarrow> ReplLogRawV2 expected \<times> BinlogReader" where
  "BinlogReader_next rd =
    (case BinlogReader_first rd of
       Inl e \<Rightarrow> (Inl e, rd)
     | Inr rd \<Rightarrow>
        (case BinlogReader_pair rd of
           Inl e \<Rightarrow> (Inl e, rd)
         | Inr (key, value, pos) \<Rightarrow>
             (ok \<lparr>rr_key = key, rr_val = value\<rparr>, rd\<lparr>br_pos := pos\<rparr>)))"

definition BinlogReader_nextV2 :: "BinlogReader \<Rightarrow> ReplLogV2 expected \<times> BinlogReader" where
  "BinlogReader_nextV2 rd =
    (case BinlogReader_first rd of
       Inl e \<Rightarrow> (Inl e, rd)
     | Inr rd \<Rightarrow>
        (case BinlogReader_pair rd of
           Inl e \<Rightarrow> (Inl e, rd)
         | Inr (key, value, pos) \<Rightarrow> (ReplLogV2_decode key value, rd\<lparr>br_pos := pos\<rparr>)))"

subsection \<open>What the encoders write\<close>

definition entryBytes :: "ReplLogValueEntryV2 \<Rightarrow> bytes" where
  "entryBytes e =
     le_op e # varintEncode (le_timestamp e) @ lenStrEncode (le_key e) @ lenStrEncode (le_val e)"

definition hdrBytes :: "ReplLogValueV2 \<Rightarrow> bytes" where
  "hdrBytes v =
     int32Encode (lv_chunkId v) @ int16Encode (lv_flag v) @ int64Encode (lv_txnId v) @
     int64Encode (lv_timestamp v) @ int64Encode (lv_versionEp v) @ lenStrEncode (lv_cmdStr v)"

definition entry_wf :: "ReplLogValueEntryV2 \<Rightarrow> bool" where
  "entry_wf e \<longleftrightarrow> length (le_key e) < 2 ^ 64 \<and> length (le_val e) < 2 ^ 64"

lemma length_entryBytes: "length (entryBytes e) = ReplLogValueEntryV2_encodeSize e"
  by (simp add: entryBytes_def ReplLogValueEntryV2_encodeSize_def length_lenStrEncode
      varintEncodeSize_eq)

lemma entryBytes_nonempty [simp]: "entryBytes e \<noteq> []"
  by (simp add: entryBytes_def)

lemma encodeBuf_entryBytes:
  assumes "ReplLogValueEntryV2_encodeSize e \<le> n"
  shows "ReplLogValueEntryV2_encodeBuf n e = ok (entryBytes e)"
proof -
  let ?t = "varintEncode (le_timestamp e)"
  from assms have n: "Suc (length ?t + (lenStrEncodeSize (le_key e) + lenStrEncodeSize (le_val e))) \<le> n"
    by (simp add: ReplLogValueEntryV2_encodeSize_def varintEncodeSize_eq)
  then have "varintEncodeBuf (n - 1) (le_timestamp e) = ok ?t"
    by (simp add: varintEncodeBuf_def Let_def)
  moreover have "lenStrEncodeBuf (n - Suc (length ?t)) (le_key e) = ok (lenStrEncode (le_key e))"
    by (rule lenStrEncodeBuf_ok) (use n in linarith)
  moreover have "lenStrEncodeBuf (n - Suc (length ?t + length (lenStrEncode (le_key e)))) (le_val e) =
      ok (lenStrEncode (le_val e))"
    unfolding length_lenStrEncode by (rule lenStrEncodeBuf_ok) (use n in linarith)
  ultimately show ?thesis
    using n by (simp add: ReplLogValueEntryV2_encodeBuf_def Let_def entryBytes_def)
qed

lemma padded_exact [simp]: "n = length out \<Longrightarrow> padded n out = out"
  by (simp add: padded_def)

lemma ReplLogValueEntryV2_encode_eq: "ReplLogValueEntryV2_encode e = ok (entryBytes e)"
  by (simp add: ReplLogValueEntryV2_encode_def encodeBuf_entryBytes length_entryBytes)

lemma length_hdrBytes: "length (hdrBytes v) = ReplLogValueV2_getHdrSize v"
  by (simp add: hdrBytes_def ReplLogValueV2_getHdrSize_def header_offsets length_lenStrEncode
      lenStrEncodeSize_def)

lemma ReplLogValueV2_encodeHdr_eq: "ReplLogValueV2_encodeHdr v = ok (hdrBytes v)"
proof -
  have "ReplLogValueV2_getHdrSize v - 30 = lenStrEncodeSize (lv_cmdStr v)"
    by (simp add: ReplLogValueV2_getHdrSize_def header_offsets lenStrEncodeSize_def)
  then show ?thesis
    by (simp add: ReplLogValueV2_encodeHdr_def Let_def lenStrEncodeBuf_ok
        length_hdrBytes [symmetric] hdrBytes_def)
qed

lemma encodeEntries_eq:
  "allocSize = length val + sum_list (map ReplLogValueEntryV2_encodeSize vec) \<Longrightarrow>
   encodeEntries allocSize val vec = ok (val @ concat (map entryBytes vec))"
proof (induction vec arbitrary: val)
  case (Cons e vec)
  from Cons.IH [of "val @ entryBytes e"] Cons.prems show ?case
    by (simp add: encodeBuf_entryBytes length_entryBytes)
qed simp

lemma ReplLogValueV2_encode_eq:
  "ReplLogValueV2_encode v vec =
     ok (255 # replicate 6 0 @ hdrBytes v @ concat (map entryBytes vec))"
  by (simp add: ReplLogValueV2_encode_def ReplLogValueV2_encodeHdr_eq encodeEntries_eq Let_def
      RecordValue_encode_eq hdrFields_def RecordValue_new_def)

subsection \<open>Entries decode to what was written\<close>

lemma ReplLogValueEntryV2_decode_encode:
  assumes "entry_wf e" "length (entryBytes e) \<le> m"
  shows "ReplLogValueEntryV2_decode (entryBytes e @ r) m = ok (e, length (entryBytes e))"
proof -
  let ?t = "varintEncode (le_timestamp e)" and ?k = "lenStrEncode (le_key e)"
  let ?v = "lenStrEncode (le_val e)"
  have l: "Suc (length ?t + (length ?k + length ?v)) \<le> m"
    using assms(2) by (simp add: entryBytes_def)
  have "0 < length ?t" by simp
  with l have m: "\<not> m \<le> 1" by linarith
  have t: "varintDecodeFwd (?t @ ?k @ ?v @ r) (m - 1) = ok (le_timestamp e, length ?t)"
    by (rule varintDecodeFwd_encode) (use l in linarith)
  have k: "lenStrDecode (?k @ ?v @ r) (m - Suc (length ?t)) = ok (le_key e, length ?k)"
    by (rule lenStrDecode_encode) (use assms(1) l in \<open>auto simp: entry_wf_def\<close>)
  have v: "lenStrDecode (?v @ r) (m - Suc (length ?t + length ?k)) = ok (le_val e, length ?v)"
    by (rule lenStrDecode_encode) (use assms(1) l in \<open>auto simp: entry_wf_def\<close>)
  show ?thesis
    using m t k v by (simp add: ReplLogValueEntryV2_decode_def Let_def entryBytes_def rd8_def)
qed

interpretation le: prefix_codec entryBytes "\<lambda>b. ReplLogValueEntryV2_decode b (length b)" entry_wf
  by unfold_locales (simp add: ReplLogValueEntryV2_decode_encode)

lemma decodeEntries_concat:
  "list_all entry_wf vec \<Longrightarrow>
   decodeEntries (pre @ concat (map entryBytes vec)) (length pre) =
     ok (vec, length pre + length (concat (map entryBytes vec)))"
proof (induction vec arbitrary: pre)
  case Nil
  then show ?case by (simp add: decodeEntries.simps)
next
  case (Cons e vec)
  have "ReplLogValueEntryV2_decode (entryBytes e @ concat (map entryBytes vec))
      (length (entryBytes e) + length (concat (map entryBytes vec))) = ok (e, length (entryBytes e))"
    by (rule ReplLogValueEntryV2_decode_encode) (use Cons.prems in simp_all)
  moreover have "0 < length (entryBytes e)" by simp
  ultimately show ?case
    using Cons.IH [of "pre @ entryBytes e"] Cons.prems
    by (subst decodeEntries.simps) (simp add: add.assoc)
qed

lemma decode_int_at:
  "off = length pre \<Longrightarrow> int16Decode (pre @ int16Encode a @ post) off = ok a"
  "off = length pre \<Longrightarrow> int32Decode (pre @ int32Encode b @ post) off = ok b"
  "off = length pre \<Longrightarrow> int64Decode (pre @ int64Encode c @ post) off = ok c"
  by simp_all

text \<open>The fixed fields of a header, wherever it starts.\<close>

lemma hdr_field_reads:
  fixes v pre post
  defines "d \<equiv> pre @ hdrBytes v @ post" and "n \<equiv> length pre"
  shows "int32Decode d n = ok (lv_chunkId v)" "int16Decode d (n + FLAG_OFFSET) = ok (lv_flag v)"
    "int64Decode d (n + TXNID_OFFSET) = ok (lv_txnId v)"
    "int64Decode d (n + TIMESTAMP_OFFSET) = ok (lv_timestamp v)"
    "int64Decode d (n + VERSIONEP_OFFSET) = ok (lv_versionEp v)"
proof -
  let ?c = "int32Encode (lv_chunkId v)" and ?f = "int16Encode (lv_flag v)"
  let ?x = "int64Encode (lv_txnId v)" and ?t = "int64Encode (lv_timestamp v)"
  note at = decode_int_at
  show "int32Decode d n = ok (lv_chunkId v)"
    using at(2) [of n pre] by (simp add: d_def n_def hdrBytes_def)
  show "int16Decode d (n + FLAG_OFFSET) = ok (lv_flag v)"
    using at(1) [of "n + FLAG_OFFSET" "pre @ ?c" "lv_flag v"]
    by (simp add: d_def n_def hdrBytes_def header_offsets)
  show "int64Decode d (n + TXNID_OFFSET) = ok (lv_txnId v)"
    using at(3) [of "n + TXNID_OFFSET" "pre @ ?c @ ?f" "lv_txnId v"]
    by (simp add: d_def n_def hdrBytes_def header_offsets)
  show "int64Decode d (n + TIMESTAMP_OFFSET) = ok (lv_timestamp v)"
    using at(3) [of "n + TIMESTAMP_OFFSET" "pre @ ?c @ ?f @ ?x" "lv_timestamp v"]
    by (simp add: d_def n_def hdrBytes_def header_offsets)
  show "int64Decode d (n + VERSIONEP_OFFSET) = ok (lv_versionEp v)"
    using at(3) [of "n + VERSIONEP_OFFSET" "pre @ ?c @ ?f @ ?x @ ?t" "lv_versionEp v"]
    by (simp add: d_def n_def hdrBytes_def header_offsets)
qed

lemma ReplLogValueV2_decodeRaw_encode:
  assumes "length (lv_cmdStr v) < 2 ^ 64"
  shows "ReplLogValueV2_decodeRaw (hdrBytes v @ r) = ok (v\<lparr>lv_data := hdrBytes v @ r\<rparr>)"
proof -
  have cmd: "drop FIXED_HEADER_SIZE (hdrBytes v @ r) = lenStrEncode (lv_cmdStr v) @ r"
    by (simp add: hdrBytes_def header_offsets)
  have "lenStrDecode (lenStrEncode (lv_cmdStr v) @ r) (length (hdrBytes v @ r) - FIXED_HEADER_SIZE) =
      ok (lv_cmdStr v, length (lenStrEncode (lv_cmdStr v)))"
    by (rule lenStrDecode_encode) (use assms in \<open>simp_all add: hdrBytes_def header_offsets\<close>)
  moreover have "\<not> length (hdrBytes v @ r) < FIXED_HEADER_SIZE"
    by (simp add: hdrBytes_def header_offsets)
  ultimately show ?thesis
    using hdr_field_reads [of "[]" v r] unfolding ReplLogValueV2_decodeRaw_def cmd by simp
qed

lemma ReplLogValueV2_decode_encode:
  assumes "length (lv_cmdStr v) < 2 ^ 64" "ReplLogValueV2_encode v vec = ok bs"
  shows "ReplLogValueV2_decode bs = ok (v\<lparr>lv_data := hdrBytes v @ concat (map entryBytes vec)\<rparr>)"
  using assms(2) ReplLogValueV2_decodeRaw_encode [OF assms(1)]
  by (auto simp: ReplLogValueV2_encode_eq ReplLogValueV2_decode_def RecordValue_decodeType_def
      rd8_def char2Rt_def RecordValue_decodeHdrSizeNoMeta_def RecordValue_minSize_def)

subsection \<open>Binlog keys: round trip and order\<close>

lemma ReplLogKeyV2_wf:
  "RecordKey_wf (RecordKey_new REPLLOGKEYV2_CHUNKID REPLLOGKEYV2_DBID RT_BINLOG (int64Encode i) [] 0)"
  by (simp add: RecordKey_wf_def RecordKey_new_def)

lemma ReplLogKeyV2_encode_total: "\<exists>k. ReplLogKeyV2_encode i = ok k"
  unfolding ReplLogKeyV2_encode_def
  by (rule RecordKey_encode_total) (simp add: RecordKey_new_def)

lemma ReplLogKeyV2_decode_encode:
  assumes "ReplLogKeyV2_encode i = ok k"
  shows "ReplLogKeyV2_decode k = ok i"
proof -
  have "int64Decode (int64Encode i) 0 = ok i"
    using decode_int_at(3) [of 0 "[]" i "[]"] by simp
  moreover have "getRealKeyType RT_BINLOG = RT_BINLOG" by (simp add: getRealKeyType_def)
  ultimately show ?thesis
    using RecordKey_decode_encode [OF ReplLogKeyV2_wf assms [unfolded ReplLogKeyV2_encode_def]]
    by (simp add: ReplLogKeyV2_decode_def ReplLogKeyV2_decodeRk_def RecordKey_new_def)
qed

lemma ReplLogKeyV2_encode_shape:
  assumes "ReplLogKeyV2_encode i = ok k"
  obtains tl where "k = beEncode 4 REPLLOGKEYV2_CHUNKID @ 255 # beEncode 4 REPLLOGKEYV2_DBID @
      int64Encode i @ tl" "4 \<le> length tl"
proof -
  have n: "1 \<le> length (varintEncode x)" for x
    using varintEncode_nonempty [of x] by (cases "varintEncode x") auto
  from assms obtain tl where "k = beEncode 4 REPLLOGKEYV2_CHUNKID @ 255 #
      beEncode 4 REPLLOGKEYV2_DBID @ int64Encode i @ tl" "tl = 0 # varintEncode 0 @
      rev (varintEncode 8) @ [0]"
    by (auto simp: ReplLogKeyV2_encode_def RecordKey_encode_ok_iff RecordKey_new_def
        getRealKeyType_def)
  then show thesis
    using n [of 0] n [of 8] by (intro that [of tl]) auto
qed

lemma ReplLogKeyV2_encode_order:
  assumes "ReplLogKeyV2_encode i = ok x" "ReplLogKeyV2_encode j = ok y" "i < j"
  shows "ord_class.lexordp x y"
proof -
  obtain a where "x = beEncode 4 REPLLOGKEYV2_CHUNKID @ 255 # beEncode 4 REPLLOGKEYV2_DBID @
      beEncode 8 i @ a"
    using ReplLogKeyV2_encode_shape [OF assms(1)] by (metis int64Encode_def)
  moreover obtain b where "y = beEncode 4 REPLLOGKEYV2_CHUNKID @ 255 #
      beEncode 4 REPLLOGKEYV2_DBID @ beEncode 8 j @ b"
    using ReplLogKeyV2_encode_shape [OF assms(2)] by (metis int64Encode_def)
  ultimately show ?thesis
    using beEncode_mono [of 8 i j a b] assms(3) by (simp add: lexordp_append_same)
qed

lemma ReplLogRawV2_getBinlogId_encode:
  assumes "ReplLogKeyV2_encode i = ok (rr_key r)"
  shows "ReplLogRawV2_getBinlogId r = ok i"
proof -
  obtain tl where k: "rr_key r = (beEncode 4 REPLLOGKEYV2_CHUNKID @ 255 #
      beEncode 4 REPLLOGKEYV2_DBID) @ int64Encode i @ tl" and tl: "4 \<le> length tl"
    using ReplLogKeyV2_encode_shape [OF assms] by (metis append.assoc append_Cons)
  have "int64Decode (rr_key r) PK_OFFSET = ok i"
    unfolding k by (rule decode_int_at(3)) (simp add: RecordKey_sizes)
  with k tl show ?thesis
    by (simp add: ReplLogRawV2_getBinlogId_def RecordKey_sizes)
qed

lemma ReplLogRawV2_fields_encode:
  assumes "ReplLogValueV2_encode v vec = ok (rr_val r)"
  shows "ReplLogRawV2_getVersionEp r = ok (lv_versionEp v)"
    "ReplLogRawV2_getTimestamp r = ok (lv_timestamp v)"
    "ReplLogRawV2_getChunkId r = ok (lv_chunkId v)"
proof -
  let ?tl = "concat (map entryBytes vec)"
  have v: "rr_val r = (255 # replicate 6 0) @ hdrBytes v @ ?tl"
    using assms by (simp add: ReplLogValueV2_encode_eq)
  have "\<not> length (rr_val r) < RecordValue_minSize + FIXED_HEADER_SIZE"
    by (simp add: v hdrBytes_def header_offsets RecordValue_minSize_def)
  moreover have "RecordValue_decodeHdrSizeNoMeta (rr_val r) = ok 7"
    by (simp add: RecordValue_decodeHdrSizeNoMeta_def RecordValue_minSize_def v)
  moreover note hdr_field_reads [of "255 # replicate 6 0" v ?tl, folded v]
  ultimately show "ReplLogRawV2_getVersionEp r = ok (lv_versionEp v)"
    "ReplLogRawV2_getTimestamp r = ok (lv_timestamp v)"
    "ReplLogRawV2_getChunkId r = ok (lv_chunkId v)"
    by (simp_all add: ReplLogRawV2_getVersionEp_def ReplLogRawV2_getTimestamp_def
        ReplLogRawV2_getChunkId_def)
qed

lemma ReplLogV2_decode_encode:
  assumes "ReplLogKeyV2_encode i = ok k" "ReplLogValueV2_encode v vec = ok val"
    and "length (lv_cmdStr v) < 2 ^ 64" "list_all entry_wf vec"
  shows "\<exists>log. ReplLogV2_decode k val = ok log \<and> rl_key log = i \<and> isEqualHdr (rl_val log) v \<and>
    rl_entrys log = vec"
proof -
  let ?d = "hdrBytes v @ concat (map entryBytes vec)"
  have "decodeEntries ?d (ReplLogValueV2_getHdrSize (v\<lparr>lv_data := ?d\<rparr>)) = ok (vec, length ?d)"
    using decodeEntries_concat [OF assms(4), of "hdrBytes v"]
    by (simp add: length_hdrBytes ReplLogValueV2_getHdrSize_def)
  then show ?thesis
    by (simp add: ReplLogV2_decode_def ReplLogKeyV2_decode_encode [OF assms(1)]
        ReplLogValueV2_decode_encode [OF assms(3,2)] isEqualHdr_def)
qed

subsection \<open>Reading back a written stream\<close>

definition raw_wf :: "ReplLogRawV2 \<Rightarrow> bool" where
  "raw_wf r \<longleftrightarrow> length (rr_key r) < 2 ^ 64 \<and> length (rr_val r) < 2 ^ 64"

definition writeAll :: "BinlogWriter \<Rightarrow> ReplLogRawV2 list \<Rightarrow> BinlogWriter" where
  "writeAll = foldl (\<lambda>w r. snd (writeRepllogRaw w r))"

primrec readN :: "nat \<Rightarrow> BinlogReader \<Rightarrow> ReplLogRawV2 list expected \<times> BinlogReader" where
  "readN 0 rd = (ok [], rd)"
| "readN (Suc n) rd =
    (case BinlogReader_next rd of
       (Inl e, rd) \<Rightarrow> (Inl e, rd)
     | (Inr r, rd) \<Rightarrow> (case readN n rd of
           (Inl e, rd) \<Rightarrow> (Inl e, rd)
         | (Inr rs, rd) \<Rightarrow> (ok (r # rs), rd)))"

lemma writeAll_ss:
  "bw_ss (writeAll w rs) = bw_ss w @ concat (map Binlog_writeRepllogRaw rs)"
proof (induction rs arbitrary: w)
  case Nil
  show ?case by (simp add: writeAll_def)
next
  case (Cons r rs)
  have "writeAll w (r # rs) = writeAll (snd (writeRepllogRaw w r)) rs"
    by (simp add: writeAll_def)
  with Cons show ?case by (simp add: writeRepllogRaw_def Let_def)
qed

lemma BinlogReader_pair_at:
  assumes "raw_wf r" "br_pos rd = length pre"
    and "br_val rd = pre @ Binlog_writeRepllogRaw r @ post"
  shows "BinlogReader_pair rd =
    ok (rr_key r, rr_val r, length (pre @ Binlog_writeRepllogRaw r))"
proof -
  let ?k = "lenStrEncode (rr_key r)" and ?v = "lenStrEncode (rr_val r)"
  have k: "lenStrDecode (?k @ ?v @ post) (length ?k + (length ?v + length post)) =
      ok (rr_key r, length ?k)"
    by (rule lenStrDecode_encode) (use assms(1) in \<open>simp_all add: raw_wf_def\<close>)
  have v: "lenStrDecode (?v @ post) (length ?v + length post) = ok (rr_val r, length ?v)"
    by (rule lenStrDecode_encode) (use assms(1) in \<open>simp_all add: raw_wf_def\<close>)
  from k v assms(2,3) show ?thesis
    by (simp add: BinlogReader_pair_def Let_def Binlog_writeRepllogRaw_def)
qed

lemma readN_stream:
  assumes "list_all raw_wf rs" "br_pos rd = length pre" "pre \<noteq> []"
    and "br_val rd = pre @ concat (map Binlog_writeRepllogRaw rs)"
  shows "readN (length rs) rd = (ok rs, rd\<lparr>br_pos := length (br_val rd)\<rparr>)"
  using assms
proof (induction rs arbitrary: rd pre)
  case Nil
  then show ?case by simp
next
  case (Cons r rs)
  let ?rd = "rd\<lparr>br_pos := length (pre @ Binlog_writeRepllogRaw r)\<rparr>"
  have "BinlogReader_first rd = ok rd"
    using Cons.prems by (simp add: BinlogReader_first_def)
  moreover have "BinlogReader_pair rd =
      ok (rr_key r, rr_val r, length (pre @ Binlog_writeRepllogRaw r))"
    by (rule BinlogReader_pair_at) (use Cons.prems in simp_all)
  ultimately have "BinlogReader_next rd = (ok r, ?rd)"
    by (simp add: BinlogReader_next_def)
  moreover have "readN (length rs) ?rd = (ok rs, ?rd\<lparr>br_pos := length (br_val ?rd)\<rparr>)"
    by (rule Cons.IH [of _ "pre @ Binlog_writeRepllogRaw r"]) (use Cons.prems in simp_all)
  ultimately show ?case by simp
qed

lemma readN_writeAll:
  assumes "list_all raw_wf rs"
    and s_def: "s = bw_ss (writeAll (BinlogWriter_new maxSize maxCount) rs)"
  shows "\<exists>rd. readN (length rs) (BinlogReader_new s) = (ok rs, rd) \<and>
    fst (BinlogReader_next rd) = err ERR_EXHAUST ''''"
proof -
  have s: "s = [BINLOG_VERSION] @ concat (map Binlog_writeRepllogRaw rs)"
    by (simp add: s_def writeAll_ss BinlogWriter_new_def writeHeader_def)
  let ?rd = "\<lparr>br_pos = 1, br_val = s\<rparr>"
  have "BinlogReader_first (BinlogReader_new s) = ok ?rd" "BinlogReader_first ?rd = ok ?rd"
    by (simp_all add: BinlogReader_first_def BinlogReader_new_def s decodeHeader_def HEADERSIZE_def)
  then have next_eq: "BinlogReader_next (BinlogReader_new s) = BinlogReader_next ?rd"
    by (simp add: BinlogReader_next_def)
  have r: "readN (length rs) ?rd = (ok rs, ?rd\<lparr>br_pos := length s\<rparr>)"
    using readN_stream [OF assms(1), of ?rd "[BINLOG_VERSION]"] s by simp
  have e: "fst (BinlogReader_next (?rd\<lparr>br_pos := length s\<rparr>)) = err ERR_EXHAUST ''''"
    by (simp add: BinlogReader_next_def BinlogReader_first_def BinlogReader_pair_def s)
  show ?thesis
  proof (cases rs)
    case Nil
    with e next_eq s show ?thesis by simp
  next
    case (Cons a rs')
    with r have "readN (length rs) (BinlogReader_new s) = (ok rs, ?rd\<lparr>br_pos := length s\<rparr>)"
      by (simp add: next_eq)
    with e show ?thesis by blast
  qed
qed

subsection \<open>Properties\<close>

text \<open>C11: a binlog record written with any id, header, command string and entries decodes to the same
  id, header and entries in order.\<close>

theorem binlog_record_roundtrip:
  assumes "length (lv_cmdStr v) < 2 ^ 64" "list_all entry_wf vec"
  shows "\<exists>k val log. ReplLogKeyV2_encode i = ok k \<and> ReplLogValueV2_encode v vec = ok val \<and>
    ReplLogV2_decode k val = ok log \<and> rl_key log = i \<and> isEqualHdr (rl_val log) v \<and>
    rl_entrys log = vec"
proof -
  obtain k where k: "ReplLogKeyV2_encode i = ok k" using ReplLogKeyV2_encode_total by blast
  obtain val where val: "ReplLogValueV2_encode v vec = ok val" by (simp add: ReplLogValueV2_encode_eq)
  from ReplLogV2_decode_encode [OF k val assms] k val show ?thesis by blast
qed

definition sample_value :: ReplLogValueV2 where
  "sample_value = \<lparr>lv_chunkId = 7, lv_flag = 3, lv_txnId = 9, lv_timestamp = 1600000000000,
     lv_versionEp = -1, lv_cmdStr = [115, 101, 116], lv_data = []\<rparr>"

definition sample_entries :: "ReplLogValueEntryV2 list" where
  "sample_entries =
     [\<lparr>le_op = REPL_OP_SET, le_timestamp = 5, le_key = [97], le_val = [98]\<rparr>,
      \<lparr>le_op = REPL_OP_DEL, le_timestamp = 6, le_key = [99], le_val = []\<rparr>]"

theorem binlog_record_roundtrip_witness:
  "\<exists>k val log. ReplLogKeyV2_encode 42 = ok k \<and>
     ReplLogValueV2_encode sample_value sample_entries = ok val \<and>
     ReplLogV2_decode k val = ok log \<and> rl_key log = 42 \<and> rl_entrys log = sample_entries"
  using binlog_record_roundtrip [of sample_value sample_entries 42]
  by (auto simp: sample_value_def sample_entries_def entry_wf_def)

text \<open>C21: binlog keys decode to their id, the raw accessor reads the same id, and they are sorted in
  the store by it.\<close>

theorem binlog_keys_ordered_by_id:
  "\<exists>x y. ReplLogKeyV2_encode i = ok x \<and> ReplLogKeyV2_encode j = ok y \<and>
    ReplLogKeyV2_decode x = ok i \<and>
    ReplLogRawV2_getBinlogId \<lparr>rr_key = x, rr_val = val\<rparr> = ok i \<and>
    (ord_class.lexordp x y \<longleftrightarrow> i < j)"
proof -
  obtain x y where k: "ReplLogKeyV2_encode i = ok x" "ReplLogKeyV2_encode j = ok y"
    using ReplLogKeyV2_encode_total by metis
  have "ord_class.lexordp x y \<longleftrightarrow> i < j"
    using ReplLogKeyV2_encode_order [OF k] ReplLogKeyV2_encode_order [OF k(2,1)] k
      lexordp_irreflexive' [of x] lexordp_antisym [of x y]
    by (cases i j rule: linorder_cases) auto
  then show ?thesis
    using k ReplLogKeyV2_decode_encode [OF k(1)]
      ReplLogRawV2_getBinlogId_encode [of i "\<lparr>rr_key = x, rr_val = val\<rparr>"] by auto
qed

text \<open>C29: the accessors that read the chunk id, the timestamp and the version of a raw binlog value
  without decoding it return the fields of the header that was encoded.\<close>

theorem binlog_raw_fields:
  assumes "ReplLogValueV2_encode v vec = ok (rr_val r)"
  shows "ReplLogRawV2_getVersionEp r = ok (lv_versionEp v) \<and>
    ReplLogRawV2_getTimestamp r = ok (lv_timestamp v) \<and>
    ReplLogRawV2_getChunkId r = ok (lv_chunkId v)"
  using ReplLogRawV2_fields_encode [OF assms] by simp

theorem binlog_raw_fields_witness:
  "\<exists>val. ReplLogValueV2_encode sample_value sample_entries = ok val \<and>
     ReplLogRawV2_getChunkId \<lparr>rr_key = [], rr_val = val\<rparr> = ok 7"
proof -
  obtain val where v: "ReplLogValueV2_encode sample_value sample_entries = ok val"
    by (simp add: ReplLogValueV2_encode_eq)
  with binlog_raw_fields [of sample_value sample_entries "\<lparr>rr_key = [], rr_val = val\<rparr>"]
  show ?thesis by (simp add: sample_value_def)
qed

text \<open>C12: a reader of the bytes a writer has accumulated returns the written records in order and
  then reports exhaustion.\<close>

theorem binlog_stream_roundtrip:
  assumes "list_all raw_wf rs"
  shows "\<exists>rd. readN (length rs)
      (BinlogReader_new (bw_ss (writeAll (BinlogWriter_new maxSize maxCount) rs))) = (ok rs, rd) \<and>
    fst (BinlogReader_next rd) = err ERR_EXHAUST ''''"
  by (rule readN_writeAll [OF assms refl])

definition sample_raws :: "ReplLogRawV2 list" where
  "sample_raws = [\<lparr>rr_key = [1], rr_val = [2, 3]\<rparr>, \<lparr>rr_key = [4], rr_val = []\<rparr>]"

theorem binlog_stream_roundtrip_witness:
  "\<exists>rd. readN (length sample_raws)
      (BinlogReader_new (bw_ss (writeAll (BinlogWriter_new 1000 10) sample_raws))) =
    (ok sample_raws, rd)"
proof -
  have "list_all raw_wf sample_raws" by (simp add: sample_raws_def raw_wf_def)
  from binlog_stream_roundtrip [OF this, of 1000 10] show ?thesis by blast
qed


text \<open>C40: decoding a binlog value whose type byte is unknown does not return a decode error: building
  the error message aborts the process.\<close>

theorem binlog_value_bad_type_is_fatal:
  "s \<noteq> [] \<Longrightarrow> char2Rt (hd s) = RT_INVALID \<Longrightarrow> ReplLogValueV2_decode s = Inl Fatal"
  by (cases s) (simp_all add: ReplLogValueV2_decode_def RecordValue_decodeType_def rd8_def)

theorem binlog_value_bad_type_is_fatal_witness:
  "ReplLogValueV2_decode [1, 2, 3] = Inl Fatal"
  by (rule binlog_value_bad_type_is_fatal) (simp_all add: char2Rt_def)

end
