(* ===== verification/RocksKVStore.thy ===== *)
theory RocksKVStore
  imports ReplLog
begin

section \<open>Transactions of a store (storage/rocks/rocks_kvstore.cpp)\<close>

text \<open>
  \<open>RocksTxn\<close> and the parts of \<open>RocksKVStore\<close> that create, number and finish transactions. RocksDB
  itself is the parameter \<open>rocks\<close>: a database of type \<open>'d\<close> and a transaction of type \<open>'t\<close> with the
  calls the code makes; \<open>rd_seek\<close> gives the entries an iterator visits from a key on and the status it
  ends with. The transaction modes \<open>TXN_OPT\<close> and \<open>TXN_PES\<close>, which work on a
  \<open>rocksdb::Transaction\<close>, are modelled; \<open>TXN_WB\<close> is not. A \<open>RocksTxn*\<close> is the id of the transaction,
  and \<open>ks_txns\<close> holds the objects; using an id without an object is a dangling pointer, and using a
  finished transaction dereferences the \<open>_txn\<close> that was reset. The clock is the sequence of its
  readings.
\<close>

subsection \<open>RocksDB as a parameter\<close>

datatype rstatus = ROk | RNotFound | RBusy | RTryAgain | RCorruption | ROther

record ('d, 't) rocks =
  rd_begin :: "'d \<Rightarrow> 't"
  rd_get :: "'d \<Rightarrow> 't \<Rightarrow> nat \<Rightarrow> bytes \<Rightarrow> rstatus \<times> bytes"
  rd_put :: "'d \<Rightarrow> 't \<Rightarrow> nat \<Rightarrow> bytes \<Rightarrow> bytes \<Rightarrow> rstatus \<times> 't"
  rd_delete :: "'d \<Rightarrow> 't \<Rightarrow> nat \<Rightarrow> bytes \<Rightarrow> rstatus \<times> 't"
  rd_commit :: "'d \<Rightarrow> 't \<Rightarrow> rstatus \<times> 'd"
  rd_rollback :: "'t \<Rightarrow> rstatus"
  rd_deleteRange :: "'d \<Rightarrow> nat \<Rightarrow> bytes \<Rightarrow> bytes \<Rightarrow> rstatus \<times> 'd"
  rd_deleteFilesInRange :: "'d \<Rightarrow> nat \<Rightarrow> bytes \<Rightarrow> bytes \<Rightarrow> bool \<Rightarrow> rstatus \<times> 'd"
  rd_compactRange :: "'d \<Rightarrow> nat \<Rightarrow> bytes \<Rightarrow> bytes \<Rightarrow> rstatus \<times> 'd"
  rd_seek :: "'d \<Rightarrow> 't \<Rightarrow> nat \<Rightarrow> bytes \<Rightarrow> (bytes \<times> bytes) list \<times> rstatus"

subsection \<open>State\<close>

definition MIN_VALID_TXNID :: u64 where "MIN_VALID_TXNID = 1"
definition CHUNKID_MULTI :: u32 where "CHUNKID_MULTI = 0xFFFFFFFE"
definition CHUNKID_FLUSH :: u32 where "CHUNKID_FLUSH = 0xFFFFFFFD"
definition CHUNKID_MIGRATE :: u32 where "CHUNKID_MIGRATE = 0xFFFFFFFC"
definition CHUNKID_DEL_RANGE :: u32 where "CHUNKID_DEL_RANGE = 0xFFFFFFFB"
definition VERSIONEP_UNINITED :: u64 where "VERSIONEP_UNINITED = -1"

datatype StoreMode = READ_WRITE | REPLICATE_ONLY | STORE_NONE

record 't RocksTxn =
  tx_txnId :: u64
  tx_binlogId :: u64
  tx_chunkId :: u32
  tx_txn :: "'t option"
  tx_done :: bool
  tx_replOnly :: bool
  tx_replLogValues :: "ReplLogValueEntryV2 list"

record ('d, 't) RocksKVStore =
  ks_isRunning :: bool
  ks_isPaused :: bool
  ks_enableRepllog :: bool
  ks_mode :: StoreMode
  ks_forceRecovery :: nat
  ks_binlogUsingDefaultCF :: bool
  ks_nextTxnSeq :: u64
  ks_nextBinlogSeq :: u64
  ks_aliveTxns :: "u64 \<rightharpoonup> bool \<times> u64"
  ks_aliveBinlogs :: "(u64 \<times> bool \<times> u64) list"
  ks_highestVisible :: u64
  ks_db :: 'd
  ks_txns :: "u64 \<rightharpoonup> 't RocksTxn"
  ks_clock :: "nat \<Rightarrow> u64"
  ks_binlogTime :: u64

text \<open>What the store reads of the session of a transaction.\<close>

record TxnSession =
  ts_args :: "bytes list"
  ts_sessionCmd :: bytes
  ts_cmdStr :: bytes
  ts_aofEnabled :: bool
  ts_versionEP :: u64
  ts_replOnly :: bool

type_synonym ('d, 't, 'a) kst = "(('d, 't) RocksKVStore, 'a) st"

definition msSinceEpoch :: "('d, 't, u64) kst" where
  "msSinceEpoch s = (ok (ks_clock s 0), s\<lparr>ks_clock := (\<lambda>n. ks_clock s (Suc n))\<rparr>)"

definition getCurrentTime :: "('d, 't, u64) kst" where
  "getCurrentTime s =
    (if ks_mode s = REPLICATE_ONLY then sret (ks_binlogTime s) s else msSinceEpoch s)"

definition with_txn :: "u64 \<Rightarrow> ('t RocksTxn \<Rightarrow> ('d, 't, 'a) kst) \<Rightarrow> ('d, 't, 'a) kst" where
  "with_txn tid f s = (case ks_txns s tid of None \<Rightarrow> sfail Undef s | Some tx \<Rightarrow> f tx s)"

definition put_txn :: "u64 \<Rightarrow> 't RocksTxn \<Rightarrow> ('d, 't) RocksKVStore \<Rightarrow> ('d, 't) RocksKVStore" where
  "put_txn tid tx s = s\<lparr>ks_txns := (ks_txns s)(tid \<mapsto> tx)\<rparr>"

definition mod_txn :: "u64 \<Rightarrow> ('t RocksTxn \<Rightarrow> 't RocksTxn) \<Rightarrow> ('d, 't, unit) kst" where
  "mod_txn tid f = with_txn tid (\<lambda>tx s. (ok (), put_txn tid (f tx) s))"

subsection \<open>Column families and errors\<close>

definition getDataColumnFamilyHandle :: nat where "getDataColumnFamilyHandle = 0"

definition getBinlogColumnFamilyHandle :: "('d, 't) RocksKVStore \<Rightarrow> nat" where
  "getBinlogColumnFamilyHandle s = (if ks_binlogUsingDefaultCF s then 0 else 1)"

definition getColumnFamilyHandleByRecordType ::
  "('d, 't) RocksKVStore \<Rightarrow> RecordType \<Rightarrow> nat" where
  "getColumnFamilyHandleByRecordType s type =
    (if type = RT_BINLOG then getBinlogColumnFamilyHandle s else getDataColumnFamilyHandle)"

definition handleRocksdbError :: "rstatus \<Rightarrow> ('d, 't, 'a) kst" where
  "handleRocksdbError rs s =
    (if ks_forceRecovery s = 0 \<and> rs = RCorruption then sfail Fatal s
     else serr ERR_INTERNAL ''rocksdb'' s)"

text \<open>\<open>if (!s.ok()) return _store->handleRocksdbError(s);\<close>\<close>

definition checked :: "rstatus \<Rightarrow> ('d, 't, unit) kst" where
  "checked rs = (if rs = ROk then sret () else handleRocksdbError rs)"

subsection \<open>Numbering of transactions and binlogs\<close>

text \<open>\<open>std::map::insert\<close>: keeps the keys ascending and an entry that is already there.\<close>

fun map_insert :: "'k::linorder \<Rightarrow> 'v \<Rightarrow> ('k \<times> 'v) list \<Rightarrow> ('k \<times> 'v) list" where
  "map_insert k v [] = [(k, v)]"
| "map_insert k v ((k', v') # xs) =
    (if k < k' then (k, v) # (k', v') # xs
     else if k = k' then (k', v') # xs
     else (k', v') # map_insert k v xs)"

definition addUnCommitedTxnInLock :: "u64 \<Rightarrow> ('d, 't, unit) kst" where
  "addUnCommitedTxnInLock txnId s =
    (if ks_aliveTxns s txnId \<noteq> None then sfail Fatal s
     else (ok (), s\<lparr>ks_aliveTxns := (ks_aliveTxns s)(txnId \<mapsto> (False, TXNID_UNINITED))\<rparr>))"

definition getUncommittedTxns :: "('d, 't) RocksKVStore \<Rightarrow> u64 set" where
  "getUncommittedTxns s = {t. \<exists>b. ks_aliveTxns s t = Some (False, b)}"

definition RocksTxn_new :: "u64 \<Rightarrow> bool \<Rightarrow> 't \<Rightarrow> 't RocksTxn" where
  "RocksTxn_new txnId replOnly t =
     \<lparr>tx_txnId = txnId, tx_binlogId = TXNID_UNINITED, tx_chunkId = CHUNKID_UNINITED,
      tx_txn = Some t, tx_done = False, tx_replOnly = replOnly, tx_replLogValues = []\<rparr>"

definition createTransaction ::
  "('d, 't) rocks \<Rightarrow> TxnSession option \<Rightarrow> ('d, 't, u64) kst" where
  "createTransaction R sess s =
    (if \<not> ks_isRunning s then serr ERR_INTERNAL ''db stopped!'' s
     else
       let txnId = ks_nextTxnSeq s;
           replOnly = (case sess of None \<Rightarrow> ks_mode s = REPLICATE_ONLY | Some c \<Rightarrow> ts_replOnly c);
           s = s\<lparr>ks_nextTxnSeq := txnId + 1\<rparr>;
           s = put_txn txnId (RocksTxn_new txnId replOnly (rd_begin R (ks_db s))) s in
       sbind (addUnCommitedTxnInLock txnId) (\<lambda>_. sret txnId) s)"

text \<open>
  The entry of \<open>_aliveTxns\<close> is written through the iterator of \<open>find\<close>; at \<open>end()\<close> that is undefined.
\<close>

definition link_binlog :: "u64 \<Rightarrow> u64 \<Rightarrow> ('d, 't, unit) kst" where
  "link_binlog tid binlogId s =
    (let s = s\<lparr>ks_aliveBinlogs := map_insert binlogId (False, tid) (ks_aliveBinlogs s)\<rparr> in
     case ks_aliveTxns s tid of
       None \<Rightarrow> sfail Undef s
     | Some (c, _) \<Rightarrow> (ok (), s\<lparr>ks_aliveTxns := (ks_aliveTxns s)(tid \<mapsto> (c, binlogId))\<rparr>))"

definition assignBinlogIdIfNeeded :: "u64 \<Rightarrow> ('d, 't, unit) kst" where
  "assignBinlogIdIfNeeded tid = with_txn tid (\<lambda>tx s.
    (if tx_binlogId tx = TXNID_UNINITED
     then
       let binlogId = ks_nextBinlogSeq s;
           s = s\<lparr>ks_nextBinlogSeq := binlogId + 1\<rparr> in
       sthen (mod_txn tid (\<lambda>tx. tx\<lparr>tx_binlogId := binlogId\<rparr>)) (link_binlog tid binlogId) s
     else sret () s))"

definition setNextBinlogSeq :: "u64 \<Rightarrow> u64 \<Rightarrow> ('d, 't, unit) kst" where
  "setNextBinlogSeq binlogId tid s =
    (let s = s\<lparr>ks_nextBinlogSeq := binlogId + 1\<rparr> in
     sthen (mod_txn tid (\<lambda>tx. tx\<lparr>tx_binlogId := binlogId\<rparr>)) (link_binlog tid binlogId) s)"

text \<open>The loop of \<open>markCommittedInLock\<close> from the first binlog on.\<close>

fun pop_committed ::
  "u64 \<Rightarrow> (u64 \<times> bool \<times> u64) list \<Rightarrow> u64 \<times> (u64 \<times> bool \<times> u64) list" where
  "pop_committed hv [] = (hv, [])"
| "pop_committed hv ((b, c, t) # xs) =
    (if \<not> c then (hv, (b, c, t) # xs)
     else pop_committed (if t \<noteq> TXNID_UNINITED then b else hv) xs)"

definition mark_binlog ::
  "u64 \<Rightarrow> u64 \<Rightarrow> (u64 \<times> bool \<times> u64) list \<Rightarrow> (u64 \<times> bool \<times> u64) list" where
  "mark_binlog b t = map (\<lambda>(b', e). if b' = b then (b', True, t) else (b', e))"

definition markCommittedInLock :: "u64 \<Rightarrow> u64 \<Rightarrow> ('d, 't, unit) kst" where
  "markCommittedInLock txnId binlogTxnId s =
    (if \<not> ks_isRunning s then sfail Fatal s
     else case ks_aliveTxns s txnId of
       None \<Rightarrow> sfail Undef s
     | Some (_, binlogId) \<Rightarrow>
        (let s = s\<lparr>ks_aliveTxns := (ks_aliveTxns s)(txnId := None)\<rparr> in
         if binlogId = TXNID_UNINITED then sret () s
         else if binlogId \<notin> fst ` set (ks_aliveBinlogs s) then sfail Undef s
         else
           let bs = mark_binlog binlogId binlogTxnId (ks_aliveBinlogs s);
               (hv, bs) = (if fst (hd bs) = binlogId then pop_committed (ks_highestVisible s) bs
                           else (ks_highestVisible s, bs)) in
           (ok (), s\<lparr>ks_highestVisible := hv, ks_aliveBinlogs := bs\<rparr>)))"

subsection \<open>Operations of a transaction\<close>

definition markCommitted :: "u64 \<Rightarrow> u64 \<Rightarrow> ('d, 't, unit) kst" where
  "markCommitted txnId binlogTxnId = markCommittedInLock txnId binlogTxnId"

definition setChunkId :: "u32 \<Rightarrow> 't RocksTxn \<Rightarrow> 't RocksTxn" where
  "setChunkId chunkId tx =
    (if tx_chunkId tx = CHUNKID_UNINITED then tx\<lparr>tx_chunkId := chunkId\<rparr>
     else if chunkId = CHUNKID_FLUSH then tx\<lparr>tx_chunkId := chunkId\<rparr>
     else if tx_chunkId tx \<noteq> chunkId then tx\<lparr>tx_chunkId := CHUNKID_MULTI\<rparr>
     else tx)"

text \<open>\<open>_txn->\<close>: the underlying transaction, undefined once it is reset.\<close>

definition RocksTxn_get ::
  "('d, 't) rocks \<Rightarrow> u64 \<Rightarrow> nat \<Rightarrow> bytes \<Rightarrow> ('d, 't, rstatus \<times> bytes) kst" where
  "RocksTxn_get R tid cf key = with_txn tid (\<lambda>tx s.
    (case tx_txn tx of
       None \<Rightarrow> sfail Undef s
     | Some t \<Rightarrow> sret (rd_get R (ks_db s) t cf key) s))"

definition RocksTxn_put ::
  "('d, 't) rocks \<Rightarrow> u64 \<Rightarrow> nat \<Rightarrow> bytes \<Rightarrow> bytes \<Rightarrow> ('d, 't, rstatus) kst" where
  "RocksTxn_put R tid cf key val = with_txn tid (\<lambda>tx s.
    (case tx_txn tx of
       None \<Rightarrow> sfail Undef s
     | Some t \<Rightarrow>
        (let (rs, t') = rd_put R (ks_db s) t cf key val in
         sret rs (put_txn tid (tx\<lparr>tx_txn := Some t'\<rparr>) s))))"

definition RocksTxn_del ::
  "('d, 't) rocks \<Rightarrow> u64 \<Rightarrow> nat \<Rightarrow> bytes \<Rightarrow> ('d, 't, rstatus) kst" where
  "RocksTxn_del R tid cf key = with_txn tid (\<lambda>tx s.
    (case tx_txn tx of
       None \<Rightarrow> sfail Undef s
     | Some t \<Rightarrow>
        (let (rs, t') = rd_delete R (ks_db s) t cf key in
         sret rs (put_txn tid (tx\<lparr>tx_txn := Some t'\<rparr>) s))))"

definition add_log :: "u64 \<Rightarrow> byte \<Rightarrow> u64 \<Rightarrow> bytes \<Rightarrow> bytes \<Rightarrow> ('d, 't, unit) kst" where
  "add_log tid op ts key val = mod_txn tid (\<lambda>tx.
     tx\<lparr>tx_replLogValues := tx_replLogValues tx @
        [\<lparr>le_op = op, le_timestamp = ts, le_key = key, le_val = val\<rparr>]\<rparr>)"

definition RocksTxn_getKV :: "('d, 't) rocks \<Rightarrow> u64 \<Rightarrow> bytes \<Rightarrow> ('d, 't, bytes) kst" where
  "RocksTxn_getKV R tid key = sget (\<lambda>s.
     sbind (slift (RecordKey_decodeType key)) (\<lambda>type.
     sbind (RocksTxn_get R tid (getColumnFamilyHandleByRecordType s type) key) (\<lambda>(rs, v).
     if rs = ROk then sret v
     else if rs = RNotFound then serr ERR_NOTFOUND ''NotFound: ''
     else handleRocksdbError rs)))"

text \<open>The binlog entry of a write: timestamp \<open>ts ? ts : msSinceEpoch()\<close>.\<close>

definition log_write :: "u64 \<Rightarrow> byte \<Rightarrow> u64 \<Rightarrow> bytes \<Rightarrow> bytes \<Rightarrow> ('d, 't, unit) kst" where
  "log_write tid op ts key val = sget (\<lambda>s.
    if ks_enableRepllog s
     then
       sbind (slift (RecordKey_decodeChunkId key)) (\<lambda>c.
       sbind (mod_txn tid (setChunkId c)) (\<lambda>_.
       sbind (if ts \<noteq> 0 then sret ts else msSinceEpoch) (\<lambda>ts.
       add_log tid op ts key val)))
     else sret ())"

definition RocksTxn_setKV ::
  "('d, 't) rocks \<Rightarrow> u64 \<Rightarrow> bytes \<Rightarrow> bytes \<Rightarrow> u64 \<Rightarrow> ('d, 't, unit) kst" where
  "RocksTxn_setKV R tid key val ts = with_txn tid (\<lambda>tx.
    (if tx_replOnly tx then serr ERR_INTERNAL ''txn is replOnly''
     else
       sbind (RocksTxn_put R tid getDataColumnFamilyHandle key val) (\<lambda>rs.
       sbind (checked rs) (\<lambda>_.
       log_write tid REPL_OP_SET ts key val))))"

definition setKVWithoutBinlog ::
  "('d, 't) rocks \<Rightarrow> u64 \<Rightarrow> bytes \<Rightarrow> bytes \<Rightarrow> ('d, 't, unit) kst" where
  "setKVWithoutBinlog R tid key val =
     sbind (RocksTxn_put R tid getDataColumnFamilyHandle key val) checked"

definition RocksTxn_delKV :: "('d, 't) rocks \<Rightarrow> u64 \<Rightarrow> bytes \<Rightarrow> u64 \<Rightarrow> ('d, 't, unit) kst" where
  "RocksTxn_delKV R tid key ts = with_txn tid (\<lambda>tx. sget (\<lambda>s.
     if tx_replOnly tx then serr ERR_INTERNAL ''txn is replOnly''
     else
       sbind (slift (RecordKey_decodeType key)) (\<lambda>type.
       sbind (RocksTxn_del R tid (getColumnFamilyHandleByRecordType s type) key) (\<lambda>rs.
       sbind (checked rs) (\<lambda>_.
       log_write tid REPL_OP_DEL ts key [])))))"

definition addDeleteRangeBinlog :: "u64 \<Rightarrow> bytes \<Rightarrow> bytes \<Rightarrow> ('d, 't, unit) kst" where
  "addDeleteRangeBinlog tid begin end = with_txn tid (\<lambda>tx. sget (\<lambda>s.
     if tx_replOnly tx then serr ERR_INTERNAL ''txn is replOnly''
     else if ks_enableRepllog s
     then
       sbind (mod_txn tid (setChunkId CHUNKID_DEL_RANGE)) (\<lambda>_.
       sbind msSinceEpoch (\<lambda>ts.
       add_log tid REPL_OP_DEL_RANGE ts begin end))
     else sret ()))"

definition addDeleteFilesInRangeBinlog ::
  "u64 \<Rightarrow> bytes \<Rightarrow> bytes \<Rightarrow> bool \<Rightarrow> ('d, 't, unit) kst" where
  "addDeleteFilesInRangeBinlog tid begin end include_end = with_txn tid (\<lambda>tx. sget (\<lambda>s.
     if tx_replOnly tx then serr ERR_INTERNAL ''txn is replOnly''
     else if ks_enableRepllog s
     then
       sbind (mod_txn tid (setChunkId CHUNKID_DEL_RANGE)) (\<lambda>_.
       sbind msSinceEpoch (\<lambda>ts.
       add_log tid
         (if include_end then REPL_OP_DEL_FILES_INCLUDE_END else REPL_OP_DEL_FILES_EXCLUDE_END)
         ts begin end))
     else sret ()))"

definition RocksTxn_flushall :: "TxnSession option \<Rightarrow> u64 \<Rightarrow> ('d, 't, unit) kst" where
  "RocksTxn_flushall sess tid = with_txn tid (\<lambda>tx. sget (\<lambda>s.
     if tx_replOnly tx then serr ERR_INTERNAL ''txn is replOnly''
     else if \<not> ks_enableRepllog s then serr ERR_INTERNAL ''repllog is not enable''
     else
       sbind (mod_txn tid (setChunkId CHUNKID_FLUSH)) (\<lambda>_.
       let cmd = (case sess of None \<Rightarrow> map of_char ''flush'' | Some c \<Rightarrow> ts_cmdStr c) in
       sbind getCurrentTime (\<lambda>ts.
       add_log tid REPL_OP_STMT ts cmd []))))"

definition RocksTxn_migrate :: "u64 \<Rightarrow> bytes \<Rightarrow> bytes \<Rightarrow> ('d, 't, unit) kst" where
  "RocksTxn_migrate tid logKey logVal = with_txn tid (\<lambda>tx. sget (\<lambda>s.
     if tx_replOnly tx then serr ERR_INTERNAL ''txn is replOnly''
     else if \<not> ks_enableRepllog s then serr ERR_INTERNAL ''repllog is not enable''
     else
       sbind (mod_txn tid (setChunkId CHUNKID_MIGRATE)) (\<lambda>_.
       sbind getCurrentTime (\<lambda>ts.
       add_log tid REPL_OP_SPEC ts [] []))))"

definition deleteRangeWithoutBinlog ::
  "('d, 't) rocks \<Rightarrow> nat \<Rightarrow> bytes \<Rightarrow> bytes \<Rightarrow> ('d, 't, unit) kst" where
  "deleteRangeWithoutBinlog R cf begin end s =
    (let (rs, d) = rd_deleteRange R (ks_db s) cf begin end in checked rs (s\<lparr>ks_db := d\<rparr>))"

definition deleteFilesInRangeWithoutBinlog ::
  "('d, 't) rocks \<Rightarrow> nat \<Rightarrow> bytes \<Rightarrow> bytes \<Rightarrow> bool \<Rightarrow> ('d, 't, unit) kst" where
  "deleteFilesInRangeWithoutBinlog R cf begin end include_end s =
    (let (rs, d) = rd_deleteFilesInRange R (ks_db s) cf begin end include_end in
     checked rs (s\<lparr>ks_db := d\<rparr>))"

text \<open>
  The cases \<open>REPL_OP_STMT\<close> and \<open>REPL_OP_SPEC\<close> have no \<open>break\<close>: they run on into the case of
  \<open>REPL_OP_DEL_RANGE\<close>.
\<close>

definition applyBinlog ::
  "('d, 't) rocks \<Rightarrow> u64 \<Rightarrow> ReplLogValueEntryV2 \<Rightarrow> ('d, 't, unit) kst" where
  "applyBinlog R tid e = with_txn tid (\<lambda>tx.
    (if \<not> tx_replOnly tx then serr ERR_INTERNAL ''txn is not replOnly or migrationOnly''
     else
       let handle = getDataColumnFamilyHandle in
       if le_op e = REPL_OP_SET then sbind (RocksTxn_put R tid handle (le_key e) (le_val e)) checked
       else if le_op e = REPL_OP_DEL then sbind (RocksTxn_del R tid handle (le_key e)) checked
       else if le_op e \<in> {REPL_OP_STMT, REPL_OP_SPEC, REPL_OP_DEL_RANGE}
       then deleteRangeWithoutBinlog R handle (le_key e) (le_val e)
       else if le_op e = REPL_OP_DEL_FILES_INCLUDE_END
       then deleteFilesInRangeWithoutBinlog R handle (le_key e) (le_val e) True
       else if le_op e = REPL_OP_DEL_FILES_EXCLUDE_END
       then deleteFilesInRangeWithoutBinlog R handle (le_key e) (le_val e) False
       else serr ERR_DECODE ''not a valid binlog''))"

definition setBinlogKV ::
  "('d, 't) rocks \<Rightarrow> u64 \<Rightarrow> u64 \<Rightarrow> bytes \<Rightarrow> bytes \<Rightarrow> ('d, 't, unit) kst" where
  "setBinlogKV R tid binlogId logKey logValue = with_txn tid (\<lambda>tx. sget (\<lambda>s.
     if \<not> tx_replOnly tx then serr ERR_INTERNAL ''txn is not replOnly''
     else
       sbind (setNextBinlogSeq binlogId tid) (\<lambda>_.
       sbind (RocksTxn_put R tid (getBinlogColumnFamilyHandle s) logKey logValue) checked)))"

definition setBinlogKV_renumbered ::
  "('d, 't) rocks \<Rightarrow> u64 \<Rightarrow> bytes \<Rightarrow> bytes \<Rightarrow> ('d, 't, unit) kst" where
  "setBinlogKV_renumbered R tid key val = sget (\<lambda>s.
     case ReplLogKeyV2_decode key of
       Inl (Status _ _) \<Rightarrow> serr ERR_INTERGER ''ReplLogKeyV2::decode failed''
     | Inl e \<Rightarrow> sfail e
     | Inr _ \<Rightarrow>
        sbind (assignBinlogIdIfNeeded tid) (\<lambda>_.
        with_txn tid (\<lambda>tx.
        sbind (slift (ReplLogKeyV2_encode (tx_binlogId tx))) (\<lambda>k.
        sbind (RocksTxn_put R tid (getBinlogColumnFamilyHandle s) k val) checked))))"

definition delBinlog :: "('d, 't) rocks \<Rightarrow> u64 \<Rightarrow> ReplLogRawV2 \<Rightarrow> ('d, 't, unit) kst" where
  "delBinlog R tid log = sget (\<lambda>s.
     sbind (RocksTxn_del R tid (getBinlogColumnFamilyHandle s) (rr_key log)) checked)"

subsection \<open>End of a transaction\<close>

text \<open>
  \<open>commit\<close> in its steps: numbering and writing of the binlog record, the commit of the underlying
  transaction, and the guard that marks the transaction as committed when the function returns.
  The steps of different transactions interleave; each is atomic.
\<close>

definition binlog_value :: "TxnSession option \<Rightarrow> 't RocksTxn \<Rightarrow> ReplLogValueV2" where
  "binlog_value sess tx =
     \<lparr>lv_chunkId = tx_chunkId tx, lv_flag = REPL_GROUP_START OR REPL_GROUP_END,
      lv_txnId = tx_txnId tx, lv_timestamp = le_timestamp (last (tx_replLogValues tx)),
      lv_versionEp = (case sess of None \<Rightarrow> VERSIONEP_UNINITED | Some c \<Rightarrow> ts_versionEP c),
      lv_cmdStr = (case sess of
          None \<Rightarrow> []
        | Some c \<Rightarrow> if ts_args c = [] then []
                   else if ts_aofEnabled c then ts_sessionCmd c else hd (ts_args c)),
      lv_data = []\<rparr>"

definition put_binlog :: "('d, 't) rocks \<Rightarrow> TxnSession option \<Rightarrow> u64 \<Rightarrow> ('d, 't, unit) kst" where
  "put_binlog R sess tid = with_txn tid (\<lambda>tx. sget (\<lambda>s.
     sbind (slift (ReplLogKeyV2_encode (tx_binlogId tx))) (\<lambda>k.
     sbind (slift (ReplLogValueV2_encode (binlog_value sess tx) (tx_replLogValues tx))) (\<lambda>v.
     sbind (RocksTxn_put R tid (getBinlogColumnFamilyHandle s) k v) checked))))"

definition commit_log :: "('d, 't) rocks \<Rightarrow> TxnSession option \<Rightarrow> u64 \<Rightarrow> ('d, 't, unit) kst" where
  "commit_log R sess tid = with_txn tid (\<lambda>tx.
    (if tx_replLogValues tx \<noteq> []
     then sthen (assignBinlogIdIfNeeded tid) (put_binlog R sess tid)
     else sret ()))"

text \<open>The value is that of the local \<open>binlogTxnId\<close> of \<open>commit\<close>.\<close>

definition commit_write :: "('d, 't) rocks \<Rightarrow> u64 \<Rightarrow> ('d, 't, u64) kst" where
  "commit_write R tid = with_txn tid (\<lambda>tx s.
    (case tx_txn tx of
       None \<Rightarrow> sfail Undef s
     | Some t \<Rightarrow>
        (let (rs, d) = rd_commit R (ks_db s) t; s = s\<lparr>ks_db := d\<rparr> in
         if rs = ROk
         then sret (if tx_replLogValues tx \<noteq> [] \<or> tx_replOnly tx \<and> tx_binlogId tx \<noteq> TXNID_UNINITED
                    then tx_txnId tx else TXNID_UNINITED) s
         else if rs = RBusy \<or> rs = RTryAgain then serr ERR_COMMIT_RETRY ''rocksdb'' s
         else handleRocksdbError rs s)))"

definition finish_txn :: "u64 \<Rightarrow> u64 \<Rightarrow> ('d, 't, unit) kst" where
  "finish_txn tid binlogTxnId =
     sthen (mod_txn tid (\<lambda>tx. tx\<lparr>tx_txn := None\<rparr>)) (markCommitted tid binlogTxnId)"

definition RocksTxn_commit ::
  "('d, 't) rocks \<Rightarrow> TxnSession option \<Rightarrow> u64 \<Rightarrow> ('d, 't, u64) kst" where
  "RocksTxn_commit R sess tid = with_txn tid (\<lambda>tx.
     sthen (mod_txn tid (\<lambda>tx. tx\<lparr>tx_done := True\<rparr>))
      (if tx_txn tx = None then sthen (finish_txn tid TXNID_UNINITED) (sret TXNID_UNINITED)
       else
         stry (sthen (commit_log R sess tid) (commit_write R tid)) (\<lambda>r.
         case r of
           Inr binlogTxnId \<Rightarrow> sthen (finish_txn tid binlogTxnId) (sret (tx_txnId tx))
         | Inl e \<Rightarrow> sthen (finish_txn tid TXNID_UNINITED) (sfail e))))"

definition RocksTxn_rollback :: "('d, 't) rocks \<Rightarrow> u64 \<Rightarrow> ('d, 't, unit) kst" where
  "RocksTxn_rollback R tid = with_txn tid (\<lambda>tx.
     sthen (mod_txn tid (\<lambda>tx. tx\<lparr>tx_done := True\<rparr>))
      (case tx_txn tx of
         None \<Rightarrow> finish_txn tid TXNID_UNINITED
       | Some t \<Rightarrow>
           stry (checked (rd_rollback R t)) (\<lambda>r.
           sthen (finish_txn tid TXNID_UNINITED) (slift r))))"

text \<open>The destructor, and the end of the object.\<close>

definition RocksTxn_destroy :: "u64 \<Rightarrow> ('d, 't, unit) kst" where
  "RocksTxn_destroy tid = with_txn tid (\<lambda>tx.
     sthen (if tx_done tx then sret () else finish_txn tid TXNID_UNINITED)
      (\<lambda>s. (ok (), s\<lparr>ks_txns := (ks_txns s)(tid := None)\<rparr>)))"

subsection \<open>Records\<close>

definition RocksKVStore_getKV :: "('d, 't) rocks \<Rightarrow> u64 \<Rightarrow> RecordKey \<Rightarrow> ('d, 't, RecordValue) kst" where
  "RocksKVStore_getKV R tid key =
     sbind (slift (RecordKey_encode key)) (\<lambda>k.
     sbind (RocksTxn_getKV R tid k) (\<lambda>v. slift (RecordValue_decode v)))"

definition RocksKVStore_setKV ::
  "('d, 't) rocks \<Rightarrow> u64 \<Rightarrow> RecordKey \<Rightarrow> RecordValue \<Rightarrow> ('d, 't, unit) kst" where
  "RocksKVStore_setKV R tid key val =
     sbind (slift (RecordKey_encode key)) (\<lambda>k.
     sbind (slift (RecordValue_encode val)) (\<lambda>v.
     RocksTxn_setKV R tid k v 0))"

definition RocksKVStore_delKV :: "('d, 't) rocks \<Rightarrow> u64 \<Rightarrow> RecordKey \<Rightarrow> ('d, 't, unit) kst" where
  "RocksKVStore_delKV R tid key =
     sbind (slift (RecordKey_encode key)) (\<lambda>k. RocksTxn_delKV R tid k 0)"

subsection \<open>Ranges\<close>

text \<open>A transaction owned by a \<open>unique_ptr\<close>, destroyed when the function returns.\<close>

definition scoped_txn :: "u64 \<Rightarrow> ('d, 't, 'a) kst \<Rightarrow> ('d, 't, 'a) kst" where
  "scoped_txn tid m = stry m (\<lambda>r. sthen (RocksTxn_destroy tid) (slift r))"

definition RocksKVStore_deleteFilesInRange ::
  "('d, 't) rocks \<Rightarrow> bytes \<Rightarrow> bytes \<Rightarrow> bool \<Rightarrow> ('d, 't, unit) kst" where
  "RocksKVStore_deleteFilesInRange R begin end include_end =
     sbind (deleteFilesInRangeWithoutBinlog R getDataColumnFamilyHandle begin end include_end) (\<lambda>_.
     sbind (createTransaction R None) (\<lambda>tid.
     scoped_txn tid
      (sbind (addDeleteFilesInRangeBinlog tid begin end include_end) (\<lambda>_.
       sbind (RocksTxn_commit R None tid) (\<lambda>_. sret ())))))"

definition compactRange :: "('d, 't) rocks \<Rightarrow> nat \<Rightarrow> bytes \<Rightarrow> bytes \<Rightarrow> ('d, 't, unit) kst" where
  "compactRange R cf begin end s =
    (let (rs, d) = rd_compactRange R (ks_db s) cf begin end in checked rs (s\<lparr>ks_db := d\<rparr>))"

definition RocksKVStore_deleteRange ::
  "('d, 't) rocks \<Rightarrow> bytes \<Rightarrow> bytes \<Rightarrow> bool \<Rightarrow> bool \<Rightarrow> ('d, 't, unit) kst" where
  "RocksKVStore_deleteRange R begin end files compact =
     sbind (if files then RocksKVStore_deleteFilesInRange R begin end False else sret ()) (\<lambda>_.
     sbind (deleteRangeWithoutBinlog R getDataColumnFamilyHandle begin end) (\<lambda>_.
     sbind (createTransaction R None) (\<lambda>tid.
     scoped_txn tid
      (sbind (addDeleteRangeBinlog tid begin end) (\<lambda>_.
       sbind (RocksTxn_commit R None tid) (\<lambda>_.
       if compact then compactRange R getDataColumnFamilyHandle begin end else sret ()))))))"

subsection \<open>Cursors\<close>

text \<open>
  An iterator is made over the database and the transaction as they are then: \<open>cu_it\<close> gives the
  entries it visits from a key on and the status it ends with.
\<close>

record RocksKVCursor =
  cu_it :: "bytes \<Rightarrow> (bytes \<times> bytes) list \<times> rstatus"
  cu_rest :: "(bytes \<times> bytes) list"
  cu_end :: rstatus
  cu_seeked :: bool

definition RocksKVCursor_new :: "(bytes \<Rightarrow> (bytes \<times> bytes) list \<times> rstatus) \<Rightarrow> RocksKVCursor" where
  "RocksKVCursor_new it = \<lparr>cu_it = it, cu_rest = [], cu_end = ROk, cu_seeked = False\<rparr>"

definition RocksKVCursor_seek :: "bytes \<Rightarrow> RocksKVCursor \<Rightarrow> RocksKVCursor" where
  "RocksKVCursor_seek pfx c =
    (let (xs, rs) = cu_it c pfx in c\<lparr>cu_rest := xs, cu_end := rs, cu_seeked := True\<rparr>)"

definition RocksKVCursor_next :: "RocksKVCursor \<Rightarrow> Record expected \<times> RocksKVCursor" where
  "RocksKVCursor_next c =
    (if \<not> cu_seeked c then (Inl Fatal, c)
     else case cu_rest c of
       [] \<Rightarrow> (if cu_end c \<noteq> ROk then (err ERR_INTERNAL ''rocksdb'', c)
             else (err ERR_EXHAUST ''no more data'', c))
     | (k, v) # xs \<Rightarrow> (Record_decode k v, c\<lparr>cu_rest := xs\<rparr>))"

text \<open>\<open>iterate_upper_bound\<close> ends the iteration before the bound.\<close>

definition createCursor ::
  "('d, 't) rocks \<Rightarrow> u64 \<Rightarrow> nat \<Rightarrow> bytes option \<Rightarrow> ('d, 't, RocksKVCursor) kst" where
  "createCursor R tid cf upper = with_txn tid (\<lambda>tx s.
    (case tx_txn tx of
       None \<Rightarrow> sfail Undef s
     | Some t \<Rightarrow>
        sret (RocksKVCursor_new (\<lambda>p.
          let (xs, rs) = rd_seek R (ks_db s) t cf p in
          (case upper of None \<Rightarrow> xs | Some u \<Rightarrow> takeWhile (\<lambda>e. ord_class.lexordp (fst e) u) xs, rs))) s))"

definition CLUSTER_SLOTS :: u32 where "CLUSTER_SLOTS = 16384"

record BasicDataCursor =
  bc_baseCursor :: RocksKVCursor
  bc_seeked :: bool

definition createDataCursor :: "('d, 't) rocks \<Rightarrow> u64 \<Rightarrow> ('d, 't, BasicDataCursor) kst" where
  "createDataCursor R tid =
     sbind (createCursor R tid getDataColumnFamilyHandle None) (\<lambda>c.
     sret \<lparr>bc_baseCursor = c, bc_seeked = False\<rparr>)"

definition BasicDataCursor_seek :: "bytes \<Rightarrow> BasicDataCursor \<Rightarrow> BasicDataCursor" where
  "BasicDataCursor_seek pfx c =
     c\<lparr>bc_baseCursor := RocksKVCursor_seek pfx (bc_baseCursor c), bc_seeked := True\<rparr>"

definition BasicDataCursor_next :: "BasicDataCursor \<Rightarrow> Record expected \<times> BasicDataCursor" where
  "BasicDataCursor_next c =
    (let c = (if \<not> bc_seeked c then BasicDataCursor_seek [] c else c);
         (r, b) = RocksKVCursor_next (bc_baseCursor c);
         c = c\<lparr>bc_baseCursor := b\<rparr> in
     case r of
       Inr r \<Rightarrow>
        (if rk_chunkId (rc_key r) < CLUSTER_SLOTS then (ok r, c)
         else (err ERR_EXHAUST ''no more basic data'', c))
     | Inl e \<Rightarrow> (Inl e, c))"

subsection \<open>What the code relies on of RocksDB\<close>

text \<open>
  \<open>dbv d\<close> is the committed contents of the column families, \<open>wr t\<close> the pending writes of a
  transaction: \<open>Some (Some v)\<close> a put, \<open>Some None\<close> a delete. A transaction reads its own writes over
  the committed contents, a commit applies all of them or fails and applies none, and an iterator
  visits the visible entries in bytewise order of the keys (\<open>Transaction\<close>, \<open>TransactionDB\<close> and
  \<open>Iterator\<close> of RocksDB, without a snapshot as in \<open>RocksPesTxn::ensureTxn\<close>).
\<close>

type_synonym contents = "nat \<Rightarrow> bytes \<rightharpoonup> bytes"
type_synonym pending = "nat \<Rightarrow> bytes \<rightharpoonup> bytes option"

definition overlay :: "contents \<Rightarrow> pending \<Rightarrow> contents" where
  "overlay m w cf k = (case w cf k of None \<Rightarrow> m cf k | Some x \<Rightarrow> x)"

definition pend :: "pending \<Rightarrow> nat \<Rightarrow> bytes \<Rightarrow> bytes option \<Rightarrow> pending" where
  "pend w cf k x = w(cf := (w cf)(k \<mapsto> x))"

definition in_range :: "bytes \<Rightarrow> bytes \<Rightarrow> bytes \<Rightarrow> bool" where
  "in_range begin end k \<longleftrightarrow> \<not> ord_class.lexordp k begin \<and> ord_class.lexordp k end"

locale rocksdb =
  fixes R :: "('d, 't) rocks" and dbv :: "'d \<Rightarrow> contents" and wr :: "'t \<Rightarrow> pending"
  assumes begin_wr: "wr (rd_begin R d) = (\<lambda>_ _. None)"
    and get_found: "rd_get R d t cf k = (ROk, v) \<Longrightarrow> overlay (dbv d) (wr t) cf k = Some v"
    and get_missing: "rd_get R d t cf k = (RNotFound, v) \<Longrightarrow> overlay (dbv d) (wr t) cf k = None"
    and put_wr: "rd_put R d t cf k v = (rs, t') \<Longrightarrow>
      wr t' = (if rs = ROk then pend (wr t) cf k (Some v) else wr t)"
    and delete_wr: "rd_delete R d t cf k = (rs, t') \<Longrightarrow>
      wr t' = (if rs = ROk then pend (wr t) cf k None else wr t)"
    and commit_db: "rd_commit R d t = (rs, d') \<Longrightarrow>
      dbv d' = (if rs = ROk then overlay (dbv d) (wr t) else dbv d)"
    and deleteRange_db: "rd_deleteRange R d cf b e = (ROk, d') \<Longrightarrow>
      dbv d' = (dbv d)(cf := (\<lambda>k. if in_range b e k then None else dbv d cf k))"
    and seek_sorted: "rd_seek R d t cf p = (xs, rs) \<Longrightarrow> sorted_wrt ord_class.lexordp (map fst xs)"
    and seek_sound: "rd_seek R d t cf p = (xs, rs) \<Longrightarrow> (k, v) \<in> set xs \<Longrightarrow>
      overlay (dbv d) (wr t) cf k = Some v \<and> \<not> ord_class.lexordp k p"
    and seek_complete: "rd_seek R d t cf p = (xs, ROk) \<Longrightarrow>
      overlay (dbv d) (wr t) cf k = Some v \<Longrightarrow> \<not> ord_class.lexordp k p \<Longrightarrow> (k, v) \<in> set xs"

text \<open>An in-memory store with these properties: sorted association lists.\<close>

type_synonym memdb = "nat \<Rightarrow> (bytes \<times> bytes) list"
type_synonym memtxn = "(nat \<times> bytes \<times> bytes option) list"

fun ins_sorted :: "bytes \<Rightarrow> bytes \<Rightarrow> (bytes \<times> bytes) list \<Rightarrow> (bytes \<times> bytes) list" where
  "ins_sorted k v [] = [(k, v)]"
| "ins_sorted k v ((k', v') # xs) =
    (if ord_class.lexordp k k' then (k, v) # (k', v') # xs
     else if k = k' then (k, v) # xs
     else (k', v') # ins_sorted k v xs)"

definition mem_write ::
  "bytes \<times> bytes option \<Rightarrow> (bytes \<times> bytes) list \<Rightarrow> (bytes \<times> bytes) list" where
  "mem_write = (\<lambda>(k, x) m. case x of Some v \<Rightarrow> ins_sorted k v m | None \<Rightarrow> filter (\<lambda>e. fst e \<noteq> k) m)"

definition mem_pending :: "memtxn \<Rightarrow> nat \<Rightarrow> (bytes \<times> bytes option) list" where
  "mem_pending t cf = map snd (filter (\<lambda>e. fst e = cf) t)"

definition mem_visible :: "memdb \<Rightarrow> memtxn \<Rightarrow> nat \<Rightarrow> (bytes \<times> bytes) list" where
  "mem_visible d t cf =
     foldr mem_write (mem_pending t cf @ map (\<lambda>(k, v). (k, Some v)) (d cf)) []"

definition mem_lookup :: "memdb \<Rightarrow> contents" where
  "mem_lookup d cf = map_of (d cf)"

definition mem_wr :: "memtxn \<Rightarrow> pending" where
  "mem_wr t cf = map_of (mem_pending t cf)"

definition mem_rocks :: "(memdb, memtxn) rocks" where
  "mem_rocks =
     \<lparr>rd_begin = (\<lambda>d. []),
      rd_get = (\<lambda>d t cf k. case map_of (mem_visible d t cf) k of
         None \<Rightarrow> (RNotFound, []) | Some v \<Rightarrow> (ROk, v)),
      rd_put = (\<lambda>d t cf k v. (ROk, (cf, k, Some v) # t)),
      rd_delete = (\<lambda>d t cf k. (ROk, (cf, k, None) # t)),
      rd_commit = (\<lambda>d t. (ROk, mem_visible d t)),
      rd_rollback = (\<lambda>t. ROk),
      rd_deleteRange = (\<lambda>d cf b e. (ROk, d(cf := filter (\<lambda>x. \<not> in_range b e (fst x)) (d cf)))),
      rd_deleteFilesInRange = (\<lambda>d cf b e i. (ROk, d)),
      rd_compactRange = (\<lambda>d cf b e. (ROk, d)),
      rd_seek = (\<lambda>d t cf p.
        (filter (\<lambda>x. \<not> ord_class.lexordp (fst x) p) (mem_visible d t cf), ROk))\<rparr>"

lemma lexordp_bytes:
  fixes a b c :: bytes
  shows "\<not> ord_class.lexordp a a"
    and "ord_class.lexordp a b \<Longrightarrow> ord_class.lexordp b c \<Longrightarrow> ord_class.lexordp a c"
    and "ord_class.lexordp a b \<or> a = b \<or> ord_class.lexordp b a"
  using lexordp_irreflexive' [of a] lexordp_trans [of a b c] lexordp_linear [of a b] by auto

lemma map_of_ins_sorted: "map_of (ins_sorted k v xs) = (map_of xs)(k \<mapsto> v)"
  by (induction k v xs rule: ins_sorted.induct) (auto simp: fun_eq_iff)

lemma map_of_filter_ne: "map_of (filter (\<lambda>e. fst e \<noteq> k) xs) = (map_of xs)(k := None)"
  by (induction xs) (auto simp: fun_eq_iff)

lemma map_of_mem_write: "map_of (mem_write (k, x) m) = (map_of m)(k := x)"
  by (cases x) (simp_all add: mem_write_def map_of_ins_sorted map_of_filter_ne)

lemma map_of_mem_writes:
  "map_of (foldr mem_write ws m) = (\<lambda>k. case map_of ws k of None \<Rightarrow> map_of m k | Some x \<Rightarrow> x)"
proof (induction ws)
  case (Cons w ws)
  obtain k x where w: "w = (k, x)" by force
  show ?case unfolding w by (auto simp: map_of_mem_write Cons.IH fun_eq_iff)
qed simp

lemma map_of_mem_visible: "map_of (mem_visible d t cf) = overlay (mem_lookup d) (mem_wr t) cf"
proof -
  have "map_of (map (\<lambda>(k, v). (k, Some v)) xs) k = map_option Some (map_of xs k)"
    for xs :: "(bytes \<times> bytes) list" and k
    by (induction xs) auto
  then show ?thesis
    by (auto simp: mem_visible_def map_of_mem_writes overlay_def mem_lookup_def mem_wr_def
        fun_eq_iff map_add_def split: option.split)
qed

lemma set_ins_sorted_fst: "fst ` set (ins_sorted k v xs) = insert k (fst ` set xs)"
  by (induction k v xs rule: ins_sorted.induct) auto

lemma sorted_ins_sorted:
  "sorted_wrt ord_class.lexordp (map fst xs) \<Longrightarrow>
   sorted_wrt ord_class.lexordp (map fst (ins_sorted k v xs))"
proof (induction k v xs rule: ins_sorted.induct)
  case (2 k v k' v' xs)
  have IH: "\<not> ord_class.lexordp k k' \<Longrightarrow> k \<noteq> k' \<Longrightarrow>
      sorted_wrt ord_class.lexordp (map fst (ins_sorted k v xs))" using 2 by simp
  have all: "\<And>z. z \<in> fst ` set xs \<Longrightarrow> ord_class.lexordp k' z" using 2(2) by auto
  show ?case
  proof (cases "ord_class.lexordp k k'")
    case True
    then show ?thesis using 2(2) all lexordp_bytes(2) [of k k'] by auto
  next
    case False
    then show ?thesis
    proof (cases "k = k'")
      case True
      then show ?thesis using 2(2) by (simp add: lexordp_bytes)
    next
      case ne: False
      then have "ord_class.lexordp k' k" using lexordp_bytes(3) [of k k'] False by auto
      then have "\<forall>z\<in>fst ` set (ins_sorted k v xs). ord_class.lexordp k' z"
        using all by (simp add: set_ins_sorted_fst)
      then show ?thesis using False ne IH by auto
    qed
  qed
qed simp

lemma sorted_filter_fst:
  "sorted_wrt P (map fst xs) \<Longrightarrow> sorted_wrt P (map fst (filter Q xs))"
  by (induction xs) auto

lemma sorted_mem_visible: "sorted_wrt ord_class.lexordp (map fst (mem_visible d t cf))"
proof -
  have "sorted_wrt ord_class.lexordp (map fst (foldr mem_write ws []))" for ws
  proof (induction ws)
    case (Cons w ws)
    obtain k x where w: "w = (k, x)" by force
    show ?case unfolding w using Cons.IH
      by (cases x) (simp_all add: mem_write_def sorted_ins_sorted sorted_filter_fst)
  qed simp
  then show ?thesis by (simp only: mem_visible_def)
qed

lemma distinct_sorted_lexordp:
  "sorted_wrt ord_class.lexordp (xs :: bytes list) \<Longrightarrow> distinct xs"
  by (induction xs) (auto simp: lexordp_bytes)

lemma mem_visible_mem_iff:
  "(k, v) \<in> set (mem_visible d t cf) \<longleftrightarrow> overlay (mem_lookup d) (mem_wr t) cf k = Some v"
  using map_of_eq_Some_iff [OF distinct_sorted_lexordp [OF sorted_mem_visible [of d t cf]], of k v]
  by (simp add: map_of_mem_visible)

lemma map_of_filter_range:
  "map_of (filter (\<lambda>x. \<not> P (fst x)) xs) = (\<lambda>k. if P k then None else map_of xs k)"
  by (induction xs) (auto simp: fun_eq_iff)

interpretation mem: rocksdb mem_rocks mem_lookup mem_wr
proof unfold_locales
  fix d :: memdb and t cf k v
  show "mem_wr (rd_begin mem_rocks d) = (\<lambda>_ _. None)"
    by (simp add: mem_rocks_def mem_wr_def mem_pending_def fun_eq_iff)
  show "rd_get mem_rocks d t cf k = (ROk, v) \<Longrightarrow> overlay (mem_lookup d) (mem_wr t) cf k = Some v"
    and "rd_get mem_rocks d t cf k = (RNotFound, v) \<Longrightarrow> overlay (mem_lookup d) (mem_wr t) cf k = None"
    by (auto simp: mem_rocks_def map_of_mem_visible split: option.split_asm)
next
  fix d :: memdb and t cf k v rs t'
  assume "rd_put mem_rocks d t cf k v = (rs, t')"
  then show "mem_wr t' = (if rs = ROk then pend (mem_wr t) cf k (Some v) else mem_wr t)"
    by (auto simp: mem_rocks_def mem_wr_def mem_pending_def pend_def fun_eq_iff)
next
  fix d :: memdb and t cf k rs t'
  assume "rd_delete mem_rocks d t cf k = (rs, t')"
  then show "mem_wr t' = (if rs = ROk then pend (mem_wr t) cf k None else mem_wr t)"
    by (auto simp: mem_rocks_def mem_wr_def mem_pending_def pend_def fun_eq_iff)
next
  fix d t rs d'
  assume "rd_commit mem_rocks d t = (rs, d')"
  then show "mem_lookup d' = (if rs = ROk then overlay (mem_lookup d) (mem_wr t) else mem_lookup d)"
    using map_of_mem_visible [of d t] by (auto simp: mem_rocks_def mem_lookup_def fun_eq_iff)
next
  fix d :: memdb and cf b e d'
  assume "rd_deleteRange mem_rocks d cf b e = (ROk, d')"
  then have d': "d' = d(cf := filter (\<lambda>x. \<not> in_range b e (fst x)) (d cf))"
    by (simp add: mem_rocks_def)
  show "mem_lookup d' =
      (mem_lookup d)(cf := (\<lambda>k. if in_range b e k then None else mem_lookup d cf k))"
    unfolding d' by (intro ext) (auto simp: mem_lookup_def map_of_filter_range)
next
  fix d t cf p xs rs
  assume a: "rd_seek mem_rocks d t cf p = (xs, rs)"
  then have xs: "xs = filter (\<lambda>x. \<not> ord_class.lexordp (fst x) p) (mem_visible d t cf)"
    by (simp add: mem_rocks_def)
  show "sorted_wrt ord_class.lexordp (map fst xs)"
    unfolding xs by (rule sorted_filter_fst [OF sorted_mem_visible])
  show "overlay (mem_lookup d) (mem_wr t) cf k = Some v \<and> \<not> ord_class.lexordp k p"
    if "(k, v) \<in> set xs" for k v
    using that unfolding xs by (auto simp: mem_visible_mem_iff)
next
  fix d t cf p xs k v
  assume "rd_seek mem_rocks d t cf p = (xs, ROk)"
    and "overlay (mem_lookup d) (mem_wr t) cf k = Some v" "\<not> ord_class.lexordp k p"
  then show "(k, v) \<in> set xs" by (auto simp: mem_rocks_def mem_visible_mem_iff)
qed

end
