(* ===== verification/Transactions.thy ===== *)
theory Transactions
  imports RocksKVStore
begin

section \<open>Properties of transactions\<close>

text \<open>
  What the operations of a transaction change, what a commit makes visible, that the binlog record
  of a commit replays to the same contents on a replica, and that the visible part of the binlog
  never changes again.
\<close>

subsection \<open>What an operation may change\<close>

text \<open>The operations of one transaction change its object and read the clock, nothing else.\<close>

definition touches :: "u64 \<Rightarrow> ('d, 't) RocksKVStore \<Rightarrow> ('d, 't) RocksKVStore \<Rightarrow> bool" where
  "touches tid s s' \<longleftrightarrow>
     (\<exists>T C. s' = s\<lparr>ks_txns := T, ks_clock := C\<rparr> \<and> (\<forall>i. i \<noteq> tid \<longrightarrow> T i = ks_txns s i))"

definition local_op :: "u64 \<Rightarrow> ('d, 't, 'a) kst \<Rightarrow> bool" where
  "local_op tid m \<longleftrightarrow> (\<forall>s r s'. m s = (r, s') \<longrightarrow> touches tid s s')"

named_theorems local_intros \<open>operations that only touch their transaction\<close>

lemma touches_refl [simp]: "touches tid s s"
  unfolding touches_def by (rule exI [of _ "ks_txns s"], rule exI [of _ "ks_clock s"]) simp

lemma touches_trans:
  assumes "touches tid a b" "touches tid b c"
  shows "touches tid a c"
proof -
  from assms(1) obtain T C where b: "b = a\<lparr>ks_txns := T, ks_clock := C\<rparr>"
    and T: "\<forall>i. i \<noteq> tid \<longrightarrow> T i = ks_txns a i" by (auto simp: touches_def)
  from assms(2) obtain T' C' where c: "c = b\<lparr>ks_txns := T', ks_clock := C'\<rparr>"
    and T': "\<forall>i. i \<noteq> tid \<longrightarrow> T' i = ks_txns b i" by (auto simp: touches_def)
  have "c = a\<lparr>ks_txns := T', ks_clock := C'\<rparr>" by (simp add: c b)
  moreover have "\<forall>i. i \<noteq> tid \<longrightarrow> T' i = ks_txns a i" using T T' by (simp add: b)
  ultimately show ?thesis unfolding touches_def by blast
qed

lemma touches_put_txn [simp]: "touches tid s (put_txn tid tx s)"
  unfolding touches_def put_txn_def
  by (rule exI [of _ "(ks_txns s)(tid \<mapsto> tx)"], rule exI [of _ "ks_clock s"]) simp

lemma local_sret [local_intros]: "local_op tid (sret x)"
  and local_sfail [local_intros]: "local_op tid (sfail e)"
  and local_slift [local_intros]: "local_op tid (slift r)"
  by (simp_all add: local_op_def)

lemma local_sbind [local_intros]:
  assumes "local_op tid m" "\<And>x. local_op tid (f x)"
  shows "local_op tid (sbind m f)"
  unfolding local_op_def
proof (intro allI impI)
  fix s r s'
  assume "sbind m f s = (r, s')"
  then show "touches tid s s'"
  proof (cases rule: sbind_eqE)
    case (fail e)
    then show ?thesis using assms(1) by (auto simp: local_op_def)
  next
    case (cont x t)
    then have "touches tid s t" "touches tid t s'" using assms unfolding local_op_def by blast+
    then show ?thesis by (rule touches_trans)
  qed
qed

lemma local_stry [local_intros]:
  assumes "local_op tid m" "\<And>x. local_op tid (f x)"
  shows "local_op tid (stry m f)"
  unfolding local_op_def
proof (intro allI impI)
  fix s r s'
  assume "stry m f s = (r, s')"
  then show "touches tid s s'"
  proof (cases rule: stry_eqE)
    case (crash e)
    then show ?thesis using assms(1) by (auto simp: local_op_def)
  next
    case (error c msg t)
    then have "touches tid s t" "touches tid t s'" using assms unfolding local_op_def by blast+
    then show ?thesis by (rule touches_trans)
  next
    case (cont x t)
    then have "touches tid s t" "touches tid t s'" using assms unfolding local_op_def by blast+
    then show ?thesis by (rule touches_trans)
  qed
qed

lemma local_with_txn [local_intros]: "(\<And>tx. local_op tid (f tx)) \<Longrightarrow> local_op tid (with_txn i f)"
  by (auto simp: local_op_def with_txn_def split: option.split_asm)

lemma local_sget [local_intros]: "(\<And>s. local_op tid (f s)) \<Longrightarrow> local_op tid (sget f)"
  by (auto simp: local_op_def)

lemma local_if [local_intros]:
  "local_op tid m \<Longrightarrow> local_op tid n \<Longrightarrow> local_op tid (if b then m else n)"
  by simp

lemma local_mod_txn [local_intros]: "local_op tid (mod_txn tid f)"
  by (auto simp: local_op_def mod_txn_def with_txn_def split: option.split_asm)

lemma local_msSinceEpoch [local_intros]: "local_op tid msSinceEpoch"
  unfolding local_op_def msSinceEpoch_def touches_def
proof (intro allI impI)
  fix s s' :: "('d, 't) RocksKVStore" and r
  assume "(ok (ks_clock s 0), s\<lparr>ks_clock := \<lambda>n. ks_clock s (Suc n)\<rparr>) = (r, s')"
  then have "s' = s\<lparr>ks_txns := ks_txns s, ks_clock := \<lambda>n. ks_clock s (Suc n)\<rparr>" by simp
  then show "\<exists>T C. s' = s\<lparr>ks_txns := T, ks_clock := C\<rparr> \<and> (\<forall>i. i \<noteq> tid \<longrightarrow> T i = ks_txns s i)"
    by blast
qed

lemma local_checked [local_intros]: "local_op tid (checked rs)"
  by (auto simp: local_op_def checked_def handleRocksdbError_def)

lemma local_handleRocksdbError [local_intros]: "local_op tid (handleRocksdbError rs)"
  by (auto simp: local_op_def handleRocksdbError_def)

lemma local_RocksTxn_get [local_intros]: "local_op tid (RocksTxn_get R tid cf k)"
  by (auto simp: local_op_def RocksTxn_get_def with_txn_def split: option.split_asm)

lemma local_RocksTxn_put [local_intros]: "local_op tid (RocksTxn_put R tid cf k v)"
  by (auto simp: local_op_def RocksTxn_put_def with_txn_def split: option.split_asm prod.split_asm)

lemma local_RocksTxn_del [local_intros]: "local_op tid (RocksTxn_del R tid cf k)"
  by (auto simp: local_op_def RocksTxn_del_def with_txn_def split: option.split_asm prod.split_asm)

lemma local_log_write [local_intros]: "local_op tid (log_write tid op ts k v)"
  unfolding log_write_def add_log_def by (intro local_intros)

lemma local_RocksTxn_getKV [local_intros]: "local_op tid (RocksTxn_getKV R tid k)"
  unfolding RocksTxn_getKV_def by (intro local_intros) (auto split: prod.split intro!: local_intros)

lemma local_RocksTxn_setKV [local_intros]: "local_op tid (RocksTxn_setKV R tid k v ts)"
  unfolding RocksTxn_setKV_def by (intro local_intros)

lemma local_RocksTxn_delKV [local_intros]: "local_op tid (RocksTxn_delKV R tid k ts)"
  unfolding RocksTxn_delKV_def by (intro local_intros)

lemma touchesD:
  assumes "touches tid s s'"
  shows "ks_isRunning s' = ks_isRunning s" "ks_enableRepllog s' = ks_enableRepllog s"
    "ks_mode s' = ks_mode s" "ks_forceRecovery s' = ks_forceRecovery s"
    "ks_binlogUsingDefaultCF s' = ks_binlogUsingDefaultCF s"
    "ks_nextTxnSeq s' = ks_nextTxnSeq s" "ks_nextBinlogSeq s' = ks_nextBinlogSeq s"
    "ks_aliveTxns s' = ks_aliveTxns s" "ks_aliveBinlogs s' = ks_aliveBinlogs s"
    "ks_highestVisible s' = ks_highestVisible s" "ks_db s' = ks_db s"
    "i \<noteq> tid \<Longrightarrow> ks_txns s' i = ks_txns s i"
  using assms by (auto simp: touches_def)

lemma local_opD: "local_op tid m \<Longrightarrow> m s = (r, s') \<Longrightarrow> touches tid s s'"
  by (simp add: local_op_def)

subsection \<open>Successful writes\<close>

text \<open>A transaction object that still has its underlying transaction.\<close>

definition open_txn :: "('d, 't) RocksKVStore \<Rightarrow> u64 \<Rightarrow> 't RocksTxn \<Rightarrow> 't \<Rightarrow> bool" where
  "open_txn s tid tx t \<longleftrightarrow> ks_txns s tid = Some tx \<and> tx_txn tx = Some t"

definition log_entry :: "byte \<Rightarrow> u64 \<Rightarrow> bytes \<Rightarrow> bytes \<Rightarrow> ReplLogValueEntryV2" where
  "log_entry op ts k v = \<lparr>le_op = op, le_timestamp = ts, le_key = k, le_val = v\<rparr>"

text \<open>The object after a write: the new underlying transaction and at most one more binlog entry.\<close>

definition wrote ::
  "'t RocksTxn \<Rightarrow> 't \<Rightarrow> bool \<Rightarrow> byte \<Rightarrow> bytes \<Rightarrow> bytes \<Rightarrow> 't RocksTxn \<Rightarrow> bool" where
  "wrote tx t' log op k v tx' \<longleftrightarrow>
     tx_txn tx' = Some t' \<and> tx_txnId tx' = tx_txnId tx \<and> tx_binlogId tx' = tx_binlogId tx \<and>
     tx_done tx' = tx_done tx \<and> tx_replOnly tx' = tx_replOnly tx \<and>
     (if log then \<exists>ts. tx_replLogValues tx' = tx_replLogValues tx @ [log_entry op ts k v]
      else tx_replLogValues tx' = tx_replLogValues tx)"

lemma wrote_upd [simp]: "wrote (tx\<lparr>tx_txn := x\<rparr>) t' log op k v = wrote tx t' log op k v"
  by (cases log) (simp_all add: wrote_def fun_eq_iff)

lemma setChunkId_fields [simp]:
  "tx_txn (setChunkId c tx) = tx_txn tx" "tx_txnId (setChunkId c tx) = tx_txnId tx"
  "tx_binlogId (setChunkId c tx) = tx_binlogId tx" "tx_done (setChunkId c tx) = tx_done tx"
  "tx_replOnly (setChunkId c tx) = tx_replOnly tx"
  "tx_replLogValues (setChunkId c tx) = tx_replLogValues tx"
  by (simp_all add: setChunkId_def)

lemma log_write_ok:
  assumes "log_write tid op ts k v s = (Inr u, s')" "ks_txns s tid = Some tx" "tx_txn tx = Some t"
  shows "\<exists>tx'. ks_txns s' tid = Some tx' \<and> wrote tx t (ks_enableRepllog s) op k v tx'"
proof (cases "ks_enableRepllog s")
  case False
  then show ?thesis using assms by (auto simp: log_write_def wrote_def)
next
  case True
  obtain c where c: "RecordKey_decodeChunkId k = Inr c"
    using assms(1) True by (cases "RecordKey_decodeChunkId k") (auto simp: log_write_def)
  let ?s1 = "put_txn tid (setChunkId c tx) s"
  have m: "mod_txn tid (setChunkId c) s = (Inr (), ?s1)"
    by (simp add: mod_txn_def with_txn_def assms(2))
  obtain ts' s2 where t2: "(if ts \<noteq> 0 then sret ts else msSinceEpoch) ?s1 = (Inr ts', s2)"
    and tx2: "ks_txns s2 tid = Some (setChunkId c tx)"
    by (cases "ts = 0") (auto simp: msSinceEpoch_def put_txn_def)
  have "log_write tid op ts k v s = add_log tid op ts' k v s2"
    using True c m t2 by (simp add: log_write_def sbind_def)
  then show ?thesis
    using assms(1,3) True tx2
    by (auto simp: add_log_def mod_txn_def with_txn_def put_txn_def wrote_def log_entry_def)
qed

lemma setKV_ok:
  assumes "RocksTxn_setKV R tid k v ts s = (Inr u, s')"
  obtains tx t t' tx' where "open_txn s tid tx t" "\<not> tx_replOnly tx"
    "rd_put R (ks_db s) t getDataColumnFamilyHandle k v = (ROk, t')" "ks_txns s' tid = Some tx'"
    "wrote tx t' (ks_enableRepllog s) REPL_OP_SET k v tx'"
proof -
  from assms obtain tx where tx: "ks_txns s tid = Some tx" and r: "\<not> tx_replOnly tx"
    by (auto simp: RocksTxn_setKV_def with_txn_def split: option.split_asm if_split_asm)
  from assms tx r obtain t where t: "tx_txn tx = Some t"
    by (auto simp: RocksTxn_setKV_def with_txn_def RocksTxn_put_def sbind_def
        split: option.split_asm)
  obtain rs t' where p: "rd_put R (ks_db s) t getDataColumnFamilyHandle k v = (rs, t')" by force
  let ?s1 = "put_txn tid (tx\<lparr>tx_txn := Some t'\<rparr>) s"
  have "RocksTxn_put R tid getDataColumnFamilyHandle k v s = (Inr rs, ?s1)"
    by (simp add: RocksTxn_put_def with_txn_def tx t p)
  with assms tx r have w: "sbind (checked rs) (\<lambda>_. log_write tid REPL_OP_SET ts k v) ?s1 = (Inr u, s')"
    by (simp add: RocksTxn_setKV_def with_txn_def sbind_def)
  then have rs: "rs = ROk" by (auto simp: sbind_def checked_def handleRocksdbError_def split: if_split_asm)
  with w have "log_write tid REPL_OP_SET ts k v ?s1 = (Inr u, s')" by (simp add: checked_def)
  from log_write_ok [OF this, of "tx\<lparr>tx_txn := Some t'\<rparr>" t']
  obtain tx' where "ks_txns s' tid = Some tx'"
    "wrote tx t' (ks_enableRepllog s) REPL_OP_SET k v tx'"
    by (auto simp: put_txn_def)
  with tx t r p rs that show ?thesis by (simp add: open_txn_def)
qed

lemma delKV_ok:
  assumes "RocksTxn_delKV R tid k ts s = (Inr u, s')"
  obtains tx t t' tx' ty where "open_txn s tid tx t" "\<not> tx_replOnly tx"
    "RecordKey_decodeType k = Inr ty"
    "rd_delete R (ks_db s) t (getColumnFamilyHandleByRecordType s ty) k = (ROk, t')"
    "ks_txns s' tid = Some tx'" "wrote tx t' (ks_enableRepllog s) REPL_OP_DEL k [] tx'"
proof -
  from assms obtain tx where tx: "ks_txns s tid = Some tx" and r: "\<not> tx_replOnly tx"
    by (auto simp: RocksTxn_delKV_def with_txn_def split: option.split_asm if_split_asm)
  from assms tx r obtain ty where ty: "RecordKey_decodeType k = Inr ty"
    by (cases "RecordKey_decodeType k") (auto simp: RocksTxn_delKV_def with_txn_def)
  from assms tx r ty obtain t where t: "tx_txn tx = Some t"
    by (auto simp: RocksTxn_delKV_def with_txn_def RocksTxn_del_def sbind_def
        split: option.split_asm)
  let ?cf = "getColumnFamilyHandleByRecordType s ty"
  obtain rs t' where p: "rd_delete R (ks_db s) t ?cf k = (rs, t')" by force
  let ?s1 = "put_txn tid (tx\<lparr>tx_txn := Some t'\<rparr>) s"
  have "RocksTxn_del R tid ?cf k s = (Inr rs, ?s1)"
    by (simp add: RocksTxn_del_def with_txn_def tx t p)
  with assms tx r ty have w: "sbind (checked rs) (\<lambda>_. log_write tid REPL_OP_DEL ts k []) ?s1 = (Inr u, s')"
    by (simp add: RocksTxn_delKV_def with_txn_def sbind_def)
  then have rs: "rs = ROk" by (auto simp: sbind_def checked_def handleRocksdbError_def split: if_split_asm)
  with w have "log_write tid REPL_OP_DEL ts k [] ?s1 = (Inr u, s')" by (simp add: checked_def)
  from log_write_ok [OF this, of "tx\<lparr>tx_txn := Some t'\<rparr>" t']
  obtain tx' where "ks_txns s' tid = Some tx'"
    "wrote tx t' (ks_enableRepllog s) REPL_OP_DEL k [] tx'"
    by (auto simp: put_txn_def)
  with tx t r p rs ty that show ?thesis by (simp add: open_txn_def)
qed

subsection \<open>Commit\<close>

lemma markCommitted_db:
  "markCommitted tid b s = (r, s') \<Longrightarrow> ks_db s' = ks_db s \<and> ks_txns s' = ks_txns s"
  by (auto simp: markCommitted_def markCommittedInLock_def Let_def
      split: if_split_asm option.split_asm prod.split_asm)

lemma finish_txn_db:
  assumes "finish_txn tid b s = (r, s')"
  shows "ks_db s' = ks_db s"
  using assms markCommitted_db
  by (fastforce simp: finish_txn_def mod_txn_def with_txn_def sbind_def put_txn_def
      split: option.split_asm)

lemma link_binlog_fields:
  assumes "link_binlog tid b s = (r, s')"
  shows "ks_db s' = ks_db s" "ks_txns s' = ks_txns s"
    "ks_binlogUsingDefaultCF s' = ks_binlogUsingDefaultCF s"
    "ks_forceRecovery s' = ks_forceRecovery s"
  using assms by (auto simp: link_binlog_def Let_def split: option.split_asm prod.split_asm)

text \<open>The id of the binlog record of a commit.\<close>

definition binlog_id_of :: "('d, 't) RocksKVStore \<Rightarrow> 't RocksTxn \<Rightarrow> u64" where
  "binlog_id_of s tx = (if tx_binlogId tx = TXNID_UNINITED then ks_nextBinlogSeq s else tx_binlogId tx)"

lemma assign_fields:
  assumes "assignBinlogIdIfNeeded tid s = (r, s')" "ks_txns s tid = Some tx"
  shows "ks_db s' = ks_db s" "ks_binlogUsingDefaultCF s' = ks_binlogUsingDefaultCF s"
    "ks_forceRecovery s' = ks_forceRecovery s"
    "ks_txns s' tid = Some (tx\<lparr>tx_binlogId := binlog_id_of s tx\<rparr>)"
proof -
  have "ks_db s' = ks_db s \<and> ks_binlogUsingDefaultCF s' = ks_binlogUsingDefaultCF s \<and>
    ks_forceRecovery s' = ks_forceRecovery s \<and>
    ks_txns s' tid = Some (tx\<lparr>tx_binlogId := binlog_id_of s tx\<rparr>)"
  proof (cases "tx_binlogId tx = TXNID_UNINITED")
    case True
    then have "link_binlog tid (ks_nextBinlogSeq s)
        (put_txn tid (tx\<lparr>tx_binlogId := ks_nextBinlogSeq s\<rparr>)
          (s\<lparr>ks_nextBinlogSeq := ks_nextBinlogSeq s + 1\<rparr>)) = (r, s')"
      using assms by (simp add: assignBinlogIdIfNeeded_def with_txn_def mod_txn_def sbind_def Let_def)
    from link_binlog_fields [OF this] True show ?thesis by (simp add: put_txn_def binlog_id_of_def)
  next
    case False
    then show ?thesis using assms
      by (auto simp: assignBinlogIdIfNeeded_def with_txn_def binlog_id_of_def)
  qed
  then show "ks_db s' = ks_db s" "ks_binlogUsingDefaultCF s' = ks_binlogUsingDefaultCF s"
    "ks_forceRecovery s' = ks_forceRecovery s"
    "ks_txns s' tid = Some (tx\<lparr>tx_binlogId := binlog_id_of s tx\<rparr>)" by simp_all
qed

lemma put_txn_fields [simp]:
  "ks_db (put_txn tid tx s) = ks_db s" "ks_txns (put_txn tid tx s) = (ks_txns s)(tid \<mapsto> tx)"
  "getBinlogColumnFamilyHandle (put_txn tid tx s) = getBinlogColumnFamilyHandle s"
  "binlog_id_of (put_txn tid tx s) = binlog_id_of s"
  "binlog_id_of s (tx'\<lparr>tx_done := b\<rparr>) = binlog_id_of s tx'"
  by (simp_all add: put_txn_def getBinlogColumnFamilyHandle_def binlog_id_of_def fun_eq_iff)

lemma binlog_value_upd [simp]:
  "binlog_value sess (tx\<lparr>tx_binlogId := b\<rparr>) = binlog_value sess tx"
  "binlog_value sess (tx\<lparr>tx_done := d\<rparr>) = binlog_value sess tx"
  "binlog_value sess (tx\<lparr>tx_txn := x\<rparr>) = binlog_value sess tx"
  by (simp_all add: binlog_value_def)

lemma put_binlog_ok:
  assumes "put_binlog R sess tid s = (Inr u, s')" "open_txn s tid tx t"
  obtains k v t' where "ReplLogKeyV2_encode (tx_binlogId tx) = Inr k"
    "ReplLogValueV2_encode (binlog_value sess tx) (tx_replLogValues tx) = Inr v"
    "rd_put R (ks_db s) t (getBinlogColumnFamilyHandle s) k v = (ROk, t')"
    "s' = put_txn tid (tx\<lparr>tx_txn := Some t'\<rparr>) s"
proof -
  have tx: "ks_txns s tid = Some tx" "tx_txn tx = Some t" using assms(2) by (auto simp: open_txn_def)
  obtain k where k: "ReplLogKeyV2_encode (tx_binlogId tx) = Inr k"
    using assms(1) tx
    by (cases "ReplLogKeyV2_encode (tx_binlogId tx)") (auto simp: put_binlog_def with_txn_def)
  obtain v where v: "ReplLogValueV2_encode (binlog_value sess tx) (tx_replLogValues tx) = Inr v"
    using assms(1) tx k
    by (cases "ReplLogValueV2_encode (binlog_value sess tx) (tx_replLogValues tx)")
      (auto simp: put_binlog_def with_txn_def)
  obtain rs t' where p: "rd_put R (ks_db s) t (getBinlogColumnFamilyHandle s) k v = (rs, t')" by force
  have "checked rs (put_txn tid (tx\<lparr>tx_txn := Some t'\<rparr>) s) = (Inr u, s')"
    using assms(1) tx k v p by (simp add: put_binlog_def with_txn_def RocksTxn_put_def sbind_def)
  then have "rs = ROk" "s' = put_txn tid (tx\<lparr>tx_txn := Some t'\<rparr>) s"
    by (auto simp: checked_def handleRocksdbError_def split: if_split_asm)
  with k v p that show ?thesis by simp
qed

lemma commit_log_ok:
  assumes "commit_log R sess tid s = (Inr u, s')" "open_txn s tid tx t" "tx_replLogValues tx \<noteq> []"
  obtains k v t' where "ReplLogKeyV2_encode (binlog_id_of s tx) = Inr k"
    "ReplLogValueV2_encode (binlog_value sess tx) (tx_replLogValues tx) = Inr v"
    "rd_put R (ks_db s) t (getBinlogColumnFamilyHandle s) k v = (ROk, t')"
    "ks_txns s' tid = Some (tx\<lparr>tx_binlogId := binlog_id_of s tx, tx_txn := Some t'\<rparr>)"
    "ks_db s' = ks_db s"
proof -
  have tx: "ks_txns s tid = Some tx" "tx_txn tx = Some t" using assms(2) by (auto simp: open_txn_def)
  obtain s1 where a: "assignBinlogIdIfNeeded tid s = (Inr (), s1)"
    and p: "put_binlog R sess tid s1 = (Inr u, s')"
    using assms(1,3) tx by (auto simp: commit_log_def with_txn_def sbind_eq_Inr)
  let ?tx = "tx\<lparr>tx_binlogId := binlog_id_of s tx\<rparr>"
  note f = assign_fields [OF a tx(1)]
  have "open_txn s1 tid ?tx t" using f(4) tx(2) by (simp add: open_txn_def)
  from put_binlog_ok [OF p this] obtain k v t' where
    "ReplLogKeyV2_encode (binlog_id_of s tx) = Inr k"
    "ReplLogValueV2_encode (binlog_value sess tx) (tx_replLogValues tx) = Inr v"
    "rd_put R (ks_db s1) t (getBinlogColumnFamilyHandle s1) k v = (ROk, t')"
    "s' = put_txn tid (?tx\<lparr>tx_txn := Some t'\<rparr>) s1"
    by auto
  with f that show ?thesis by (simp add: getBinlogColumnFamilyHandle_def put_txn_def)
qed

lemma commit_write_ok:
  assumes "commit_write R tid s = (Inr b, s')" "open_txn s tid tx t"
  obtains d where "rd_commit R (ks_db s) t = (ROk, d)" "s' = s\<lparr>ks_db := d\<rparr>"
    "b = (if tx_replLogValues tx \<noteq> [] \<or> tx_replOnly tx \<and> tx_binlogId tx \<noteq> TXNID_UNINITED
          then tx_txnId tx else TXNID_UNINITED)"
proof -
  obtain rs d where c: "rd_commit R (ks_db s) t = (rs, d)" by force
  have "rs = ROk"
    using assms c by (auto simp: commit_write_def with_txn_def open_txn_def handleRocksdbError_def Let_def
        split: if_split_asm)
  with assms c that show thesis by (auto simp: commit_write_def with_txn_def open_txn_def Let_def)
qed

lemma commit_ok:
  assumes "RocksTxn_commit R sess tid s = (Inr n, s')" "open_txn s tid tx t"
  obtains (quiet) d where "tx_replLogValues tx = []" "rd_commit R (ks_db s) t = (ROk, d)"
      "ks_db s' = d"
    | (logged) k v t' d where "tx_replLogValues tx \<noteq> []"
      "ReplLogKeyV2_encode (binlog_id_of s tx) = Inr k"
      "ReplLogValueV2_encode (binlog_value sess tx) (tx_replLogValues tx) = Inr v"
      "rd_put R (ks_db s) t (getBinlogColumnFamilyHandle s) k v = (ROk, t')"
      "rd_commit R (ks_db s) t' = (ROk, d)" "ks_db s' = d"
proof -
  have tx: "ks_txns s tid = Some tx" "tx_txn tx = Some t" using assms(2) by (auto simp: open_txn_def)
  let ?s0 = "put_txn tid (tx\<lparr>tx_done := True\<rparr>) s"
  have o0: "open_txn ?s0 tid (tx\<lparr>tx_done := True\<rparr>) t" using tx by (simp add: open_txn_def put_txn_def)
  obtain s1 s2 b where l: "commit_log R sess tid ?s0 = (Inr (), s1)"
    and w: "commit_write R tid s1 = (Inr b, s2)" and db: "ks_db s' = ks_db s2"
    using assms(1) tx
    by (auto simp: RocksTxn_commit_def with_txn_def mod_txn_def sbind_def stry_def
        split: prod.split_asm sum.split_asm fault.split_asm dest!: finish_txn_db)
  show thesis
  proof (cases "tx_replLogValues tx = []")
    case True
    then have "s1 = ?s0" using l tx by (simp add: commit_log_def with_txn_def put_txn_def)
    with w have "commit_write R tid ?s0 = (Inr b, s2)" by simp
    from commit_write_ok [OF this o0] obtain d where "rd_commit R (ks_db ?s0) t = (ROk, d)"
      "s2 = ?s0\<lparr>ks_db := d\<rparr>" by blast
    with True db quiet show ?thesis by simp
  next
    case False
    have "tx_replLogValues (tx\<lparr>tx_done := True\<rparr>) \<noteq> []" using False by simp
    from commit_log_ok [OF l o0 this, simplified] obtain k v t' where
      kv: "ReplLogKeyV2_encode (binlog_id_of s tx) = Inr k"
      "ReplLogValueV2_encode (binlog_value sess tx) (tx_replLogValues tx) = Inr v"
      "rd_put R (ks_db s) t (getBinlogColumnFamilyHandle s) k v = (ROk, t')"
      and s1: "ks_db s1 = ks_db s" "ks_txns s1 tid =
        Some (tx\<lparr>tx_done := True, tx_binlogId := binlog_id_of s tx, tx_txn := Some t'\<rparr>)"
      by blast
    have "open_txn s1 tid (tx\<lparr>tx_done := True, tx_binlogId := binlog_id_of s tx, tx_txn := Some t'\<rparr>) t'"
      using s1 by (simp add: open_txn_def)
    from commit_write_ok [OF w this] obtain d where "rd_commit R (ks_db s1) t' = (ROk, d)"
      "s2 = s1\<lparr>ks_db := d\<rparr>" by blast
    with s1 False db kv logged show ?thesis by simp
  qed
qed

subsection \<open>Sequences of writes and their replay\<close>

datatype kvwrite = WSet bytes bytes | WDel bytes

primrec do_write :: "('d, 't) rocks \<Rightarrow> u64 \<Rightarrow> kvwrite \<Rightarrow> ('d, 't, unit) kst" where
  "do_write R tid (WSet k v) = RocksTxn_setKV R tid k v 0"
| "do_write R tid (WDel k) = RocksTxn_delKV R tid k 0"

primrec do_writes :: "('d, 't) rocks \<Rightarrow> u64 \<Rightarrow> kvwrite list \<Rightarrow> ('d, 't, unit) kst" where
  "do_writes R tid [] = sret ()"
| "do_writes R tid (w # ws) = sthen (do_write R tid w) (do_writes R tid ws)"

primrec replay :: "('d, 't) rocks \<Rightarrow> u64 \<Rightarrow> ReplLogValueEntryV2 list \<Rightarrow> ('d, 't, unit) kst" where
  "replay R tid [] = sret ()"
| "replay R tid (e # es) = sthen (applyBinlog R tid e) (replay R tid es)"

primrec apply_write :: "kvwrite \<Rightarrow> (bytes \<rightharpoonup> bytes) \<Rightarrow> (bytes \<rightharpoonup> bytes)" where
  "apply_write (WSet k v) m = m(k \<mapsto> v)"
| "apply_write (WDel k) m = m(k := None)"

primrec write_wf :: "kvwrite \<Rightarrow> bool" where
  "write_wf (WSet k v) \<longleftrightarrow> length k < 2 ^ 64 \<and> length v < 2 ^ 64"
| "write_wf (WDel k) \<longleftrightarrow> length k < 2 ^ 64 \<and> RecordKey_decodeType k \<noteq> ok RT_BINLOG"

definition entry_of :: "u64 \<Rightarrow> kvwrite \<Rightarrow> ReplLogValueEntryV2" where
  "entry_of ts w = (case w of
      WSet k v \<Rightarrow> log_entry REPL_OP_SET ts k v
    | WDel k \<Rightarrow> log_entry REPL_OP_DEL ts k [])"

definition entries_of :: "kvwrite list \<Rightarrow> ReplLogValueEntryV2 list \<Rightarrow> bool" where
  "entries_of ws es \<longleftrightarrow> list_all2 (\<lambda>w e. \<exists>ts. e = entry_of ts w) ws es"

lemma local_do_writes [local_intros]: "local_op tid (do_writes R tid ws)"
proof (induction ws)
  case (Cons w ws)
  have "local_op tid (do_write R tid w)" by (cases w) (simp_all add: local_intros)
  with Cons show ?case by (simp add: local_sbind)
qed (simp only: do_writes.simps local_sret)

lemma overlay_pend:
  "overlay m (pend w cf k x) cf' = (if cf' = cf then (overlay m w cf)(k := x) else overlay m w cf')"
  by (auto simp: overlay_def pend_def fun_eq_iff split: option.split)

lemma overlay_empty [simp]: "overlay m (\<lambda>_ _. None) = m"
  by (simp add: overlay_def fun_eq_iff)

context rocksdb
begin

lemma do_write_ok:
  assumes "do_write R tid w s = (Inr u, s')" "write_wf w"
  obtains tx t tx' t' where "open_txn s tid tx t" "\<not> tx_replOnly tx" "open_txn s' tid tx' t'"
    "tx_txnId tx' = tx_txnId tx" "tx_binlogId tx' = tx_binlogId tx" "tx_replOnly tx' = tx_replOnly tx"
    "overlay m (wr t') 0 = apply_write w (overlay m (wr t) 0)" "\<And>cf. cf \<noteq> 0 \<Longrightarrow> wr t' cf = wr t cf"
    "if ks_enableRepllog s
     then \<exists>ts. tx_replLogValues tx' = tx_replLogValues tx @ [entry_of ts w]
     else tx_replLogValues tx' = tx_replLogValues tx"
proof (cases w)
  case (WSet k v)
  with assms(1) have "RocksTxn_setKV R tid k v 0 s = (Inr u, s')" by simp
  then obtain tx t t' tx' where *: "open_txn s tid tx t" "\<not> tx_replOnly tx"
    "rd_put R (ks_db s) t getDataColumnFamilyHandle k v = (ROk, t')" "ks_txns s' tid = Some tx'"
    "wrote tx t' (ks_enableRepllog s) REPL_OP_SET k v tx'" by (rule setKV_ok)
  have "wr t' = pend (wr t) 0 k (Some v)"
    using put_wr [OF *(3)] by (simp add: getDataColumnFamilyHandle_def)
  then have "overlay m (wr t') 0 = apply_write w (overlay m (wr t) 0)"
    "\<And>cf. cf \<noteq> 0 \<Longrightarrow> wr t' cf = wr t cf"
    by (simp_all add: WSet overlay_pend) (simp add: pend_def)
  with * that show thesis by (simp add: WSet wrote_def open_txn_def entry_of_def)
next
  case (WDel k)
  with assms(1) have "RocksTxn_delKV R tid k 0 s = (Inr u, s')" by simp
  then obtain tx t t' tx' ty where *: "open_txn s tid tx t" "\<not> tx_replOnly tx"
    "RecordKey_decodeType k = Inr ty"
    "rd_delete R (ks_db s) t (getColumnFamilyHandleByRecordType s ty) k = (ROk, t')"
    "ks_txns s' tid = Some tx'" "wrote tx t' (ks_enableRepllog s) REPL_OP_DEL k [] tx'"
    by (rule delKV_ok)
  have "getColumnFamilyHandleByRecordType s ty = 0"
    using *(3) assms(2) by (auto simp: WDel getColumnFamilyHandleByRecordType_def
        getDataColumnFamilyHandle_def)
  with delete_wr [OF *(4)] have "wr t' = pend (wr t) 0 k None" by simp
  then have "overlay m (wr t') 0 = apply_write w (overlay m (wr t) 0)"
    "\<And>cf. cf \<noteq> 0 \<Longrightarrow> wr t' cf = wr t cf"
    by (simp_all add: WDel overlay_pend) (simp add: pend_def)
  with * that show thesis by (simp add: WDel wrote_def open_txn_def entry_of_def)
qed

lemma do_writes_ok:
  assumes "do_writes R tid ws s = (Inr u, s')" "list_all write_wf ws" "open_txn s tid tx t"
    and "ks_enableRepllog s"
  shows "\<exists>tx' t' es. open_txn s' tid tx' t' \<and> tx_txnId tx' = tx_txnId tx \<and>
    tx_binlogId tx' = tx_binlogId tx \<and> tx_replOnly tx' = tx_replOnly tx \<and>
    overlay m (wr t') 0 = fold apply_write ws (overlay m (wr t) 0) \<and>
    (\<forall>cf. cf \<noteq> 0 \<longrightarrow> wr t' cf = wr t cf) \<and>
    tx_replLogValues tx' = tx_replLogValues tx @ es \<and> entries_of ws es"
  using assms
proof (induction ws arbitrary: s tx t)
  case Nil
  then show ?case by (auto simp: entries_of_def)
next
  case (Cons w ws)
  then obtain s1 where w: "do_write R tid w s = (Inr (), s1)"
    and ws: "do_writes R tid ws s1 = (Inr u, s')" by (auto simp: sbind_eq_Inr)
  have wf: "write_wf w" "list_all write_wf ws" using Cons.prems(2) by simp_all
  have "local_op tid (do_write R tid w)" by (cases w) (simp_all add: local_intros)
  from touchesD(2) [OF local_opD [OF this w]] have log: "ks_enableRepllog s1"
    using Cons.prems(4) by simp
  obtain tx1 t1 where 1: "open_txn s1 tid tx1 t1"
    "tx_txnId tx1 = tx_txnId tx" "tx_binlogId tx1 = tx_binlogId tx" "tx_replOnly tx1 = tx_replOnly tx"
    "overlay m (wr t1) 0 = apply_write w (overlay m (wr t) 0)"
    "\<And>cf. cf \<noteq> 0 \<Longrightarrow> wr t1 cf = wr t cf"
    "\<exists>ts. tx_replLogValues tx1 = tx_replLogValues tx @ [entry_of ts w]"
  proof (rule do_write_ok [OF w wf(1), of m])
    fix txa ta tx' t'
    assume "open_txn s tid txa ta"
    with Cons.prems(3) have [simp]: "txa = tx" "ta = t" by (auto simp: open_txn_def)
    assume "open_txn s1 tid tx' t'" "tx_txnId tx' = tx_txnId txa" "tx_binlogId tx' = tx_binlogId txa"
      "tx_replOnly tx' = tx_replOnly txa" "overlay m (wr t') 0 = apply_write w (overlay m (wr ta) 0)"
      "\<And>cf. cf \<noteq> 0 \<Longrightarrow> wr t' cf = wr ta cf"
      "if ks_enableRepllog s then \<exists>ts. tx_replLogValues tx' = tx_replLogValues txa @ [entry_of ts w]
       else tx_replLogValues tx' = tx_replLogValues txa"
    with Cons.prems(4) that show thesis by simp
  qed
  from 1(7) obtain ts where ts: "tx_replLogValues tx1 = tx_replLogValues tx @ [entry_of ts w]" ..
  obtain tx' t' es where "open_txn s' tid tx' t' \<and> tx_txnId tx' = tx_txnId tx1 \<and>
    tx_binlogId tx' = tx_binlogId tx1 \<and> tx_replOnly tx' = tx_replOnly tx1 \<and>
    overlay m (wr t') 0 = fold apply_write ws (overlay m (wr t1) 0) \<and>
    (\<forall>cf. cf \<noteq> 0 \<longrightarrow> wr t' cf = wr t1 cf) \<and>
    tx_replLogValues tx' = tx_replLogValues tx1 @ es \<and> entries_of ws es"
    using Cons.IH [OF ws wf(2) 1(1) log] by blast
  then show ?case
    using 1 ts
    by (intro exI [of _ tx'] exI [of _ t'] exI [of _ "entry_of ts w # es"])
      (auto simp: entries_of_def)
qed

lemma applyBinlog_ok:
  assumes "applyBinlog R tid (entry_of ts w) s = (Inr u, s')" "open_txn s tid tx t"
  obtains t' where "s' = put_txn tid (tx\<lparr>tx_txn := Some t'\<rparr>) s"
    "overlay m (wr t') 0 = apply_write w (overlay m (wr t) 0)"
proof -
  have tx: "ks_txns s tid = Some tx" "tx_txn tx = Some t" using assms(2) by (auto simp: open_txn_def)
  have r: "tx_replOnly tx" using assms(1) tx by (auto simp: applyBinlog_def with_txn_def split: if_split_asm)
  show thesis
  proof (cases w)
    case (WSet k v)
    obtain rs t' where p: "rd_put R (ks_db s) t 0 k v = (rs, t')" by force
    have "checked rs (put_txn tid (tx\<lparr>tx_txn := Some t'\<rparr>) s) = (Inr u, s')"
      using assms(1) tx r p
      by (simp add: WSet entry_of_def log_entry_def applyBinlog_def with_txn_def RocksTxn_put_def
          sbind_def getDataColumnFamilyHandle_def Let_def)
    then have "rs = ROk" "s' = put_txn tid (tx\<lparr>tx_txn := Some t'\<rparr>) s"
      by (auto simp: checked_def handleRocksdbError_def split: if_split_asm)
    with put_wr [OF p] that show ?thesis by (simp add: WSet overlay_pend)
  next
    case (WDel k)
    obtain rs t' where p: "rd_delete R (ks_db s) t 0 k = (rs, t')" by force
    have "checked rs (put_txn tid (tx\<lparr>tx_txn := Some t'\<rparr>) s) = (Inr u, s')"
      using assms(1) tx r p
      by (simp add: WDel entry_of_def log_entry_def applyBinlog_def with_txn_def RocksTxn_del_def
          sbind_def getDataColumnFamilyHandle_def Let_def REPL_OP_SET_def REPL_OP_DEL_def)
    then have "rs = ROk" "s' = put_txn tid (tx\<lparr>tx_txn := Some t'\<rparr>) s"
      by (auto simp: checked_def handleRocksdbError_def split: if_split_asm)
    with delete_wr [OF p] that show ?thesis by (simp add: WDel overlay_pend)
  qed
qed

lemma replay_ok:
  assumes "replay R tid es s = (Inr u, s')" "entries_of ws es" "open_txn s tid tx t"
  shows "\<exists>t'. open_txn s' tid (tx\<lparr>tx_txn := Some t'\<rparr>) t' \<and> ks_db s' = ks_db s \<and>
    overlay m (wr t') 0 = fold apply_write ws (overlay m (wr t) 0)"
  using assms
proof (induction es arbitrary: ws s tx t)
  case Nil
  then have tx: "tx\<lparr>tx_txn := Some t\<rparr> = tx" by (auto simp: open_txn_def)
  from Nil show ?case by (auto simp: entries_of_def tx intro!: exI [of _ t])
next
  case (Cons e es)
  then obtain w ws' ts where ws: "ws = w # ws'" "e = entry_of ts w" "entries_of ws' es"
    by (auto simp: entries_of_def list_all2_Cons2)
  obtain s1 where a: "applyBinlog R tid (entry_of ts w) s = (Inr (), s1)"
    and rest: "replay R tid es s1 = (Inr u, s')" using Cons.prems(1) ws by (auto simp: sbind_eq_Inr)
  from applyBinlog_ok [OF a Cons.prems(3), of m] obtain t1 where
    s1: "s1 = put_txn tid (tx\<lparr>tx_txn := Some t1\<rparr>) s"
    and t1: "overlay m (wr t1) 0 = apply_write w (overlay m (wr t) 0)" by blast
  have "open_txn s1 tid (tx\<lparr>tx_txn := Some t1\<rparr>) t1" by (simp add: s1 open_txn_def)
  from Cons.IH [OF rest ws(3) this] s1 t1 ws show ?case by auto
qed

end

lemma createTransaction_ok:
  assumes "createTransaction R sess s = (Inr tid, s')"
  shows "tid = ks_nextTxnSeq s" "ks_isRunning s"
    "open_txn s' tid
      (RocksTxn_new tid (case sess of None \<Rightarrow> ks_mode s = REPLICATE_ONLY | Some c \<Rightarrow> ts_replOnly c)
        (rd_begin R (ks_db s))) (rd_begin R (ks_db s))"
    "ks_db s' = ks_db s" "ks_nextBinlogSeq s' = ks_nextBinlogSeq s"
    "ks_enableRepllog s' = ks_enableRepllog s"
    "ks_binlogUsingDefaultCF s' = ks_binlogUsingDefaultCF s"
    "ks_aliveBinlogs s' = ks_aliveBinlogs s" "ks_highestVisible s' = ks_highestVisible s"
    "ks_txns s' = (ks_txns s)(tid \<mapsto> RocksTxn_new tid
      (case sess of None \<Rightarrow> ks_mode s = REPLICATE_ONLY | Some c \<Rightarrow> ts_replOnly c)
        (rd_begin R (ks_db s)))"
    "ks_nextTxnSeq s' = ks_nextTxnSeq s + 1" "ks_aliveTxns s tid = None" "ks_isRunning s' = ks_isRunning s"
    "ks_aliveTxns s' = (ks_aliveTxns s)(tid \<mapsto> (False, TXNID_UNINITED))"
    "ks_mode s' = ks_mode s" "ks_forceRecovery s' = ks_forceRecovery s"
  using assms
  by (auto simp: createTransaction_def Let_def addUnCommitedTxnInLock_def sbind_def put_txn_def
      open_txn_def RocksTxn_new_def split: if_split_asm)
    (metis not_Some_eq surj_pair)

lemma RocksTxn_new_fields [simp]:
  "tx_txnId (RocksTxn_new i r t) = i" "tx_binlogId (RocksTxn_new i r t) = TXNID_UNINITED"
  "tx_txn (RocksTxn_new i r t) = Some t" "tx_done (RocksTxn_new i r t) = False"
  "tx_replOnly (RocksTxn_new i r t) = r" "tx_replLogValues (RocksTxn_new i r t) = []"
  by (simp_all add: RocksTxn_new_def)

text \<open>One command on the master: its transaction, the writes in order, the commit.\<close>

definition write_txn ::
  "('d, 't) rocks \<Rightarrow> TxnSession option \<Rightarrow> kvwrite list \<Rightarrow> ('d, 't, u64) kst" where
  "write_txn R sess ws =
     sbind (createTransaction R sess) (\<lambda>tid.
     sbind (do_writes R tid ws) (\<lambda>_. RocksTxn_commit R sess tid))"

text \<open>One binlog record on a replica: a transaction, the entries in order, the commit.\<close>

definition replay_txn ::
  "('d, 't) rocks \<Rightarrow> TxnSession option \<Rightarrow> ReplLogValueEntryV2 list \<Rightarrow> ('d, 't, u64) kst" where
  "replay_txn R sess es =
     sbind (createTransaction R sess) (\<lambda>tid.
     sbind (replay R tid es) (\<lambda>_. RocksTxn_commit R sess tid))"

lemma entries_of_wf:
  assumes "entries_of ws es" "list_all write_wf ws"
  shows "list_all entry_wf es"
proof -
  have "entry_wf (entry_of ts w)" if "write_wf w" for ts w
    using that by (cases w) (simp_all add: entry_of_def entry_wf_def log_entry_def)
  with assms show ?thesis
    unfolding entries_of_def by (induction rule: list_all2_induct) auto
qed

context rocksdb
begin

lemma replay_txn_ok:
  assumes "replay_txn R sess es s = (Inr n, s')" "entries_of ws es"
  shows "dbv (ks_db s') 0 = fold apply_write ws (dbv (ks_db s) 0)"
proof -
  obtain tid s1 s2 where c: "createTransaction R sess s = (Inr tid, s1)"
    and r: "replay R tid es s1 = (Inr (), s2)" and m: "RocksTxn_commit R sess tid s2 = (Inr n, s')"
    using assms(1) by (auto simp: replay_txn_def sbind_eq_Inr)
  note C = createTransaction_ok [OF c]
  let ?b = "case sess of None \<Rightarrow> ks_mode s = REPLICATE_ONLY | Some c \<Rightarrow> ts_replOnly c"
  let ?tx = "RocksTxn_new tid ?b (rd_begin R (ks_db s))"
  obtain t' where o2: "open_txn s2 tid (?tx\<lparr>tx_txn := Some t'\<rparr>) t'" and db: "ks_db s2 = ks_db s1"
    and v: "overlay (dbv (ks_db s)) (wr t') 0 =
        fold apply_write ws (overlay (dbv (ks_db s)) (wr (rd_begin R (ks_db s))) 0)"
    using replay_ok [OF r assms(2) C(3), of "dbv (ks_db s)"] by blast
  from m o2 show ?thesis
  proof (cases rule: commit_ok)
    case (quiet d)
    then show ?thesis using commit_db [OF quiet(2)] v db C(4) by (simp add: begin_wr)
  qed simp
qed

lemma write_txn_ok:
  assumes "write_txn R sess ws s = (Inr n, s')" "list_all write_wf ws" "ws \<noteq> []"
    and "ks_enableRepllog s" "\<not> ks_binlogUsingDefaultCF s"
    and "\<And>c. sess = Some c \<Longrightarrow> length (ts_sessionCmd c) < 2 ^ 64 \<and>
        list_all (\<lambda>a. length a < 2 ^ 64) (ts_args c)"
  shows "\<exists>k v log. dbv (ks_db s') 0 = fold apply_write ws (dbv (ks_db s) 0) \<and>
    ReplLogKeyV2_encode (ks_nextBinlogSeq s) = ok k \<and>
    dbv (ks_db s') 1 = (dbv (ks_db s) 1)(k \<mapsto> v) \<and>
    ReplLogV2_decode k v = ok log \<and> rl_key log = ks_nextBinlogSeq s \<and> entries_of ws (rl_entrys log)"
proof -
  obtain tid s1 s2 where c: "createTransaction R sess s = (Inr tid, s1)"
    and w: "do_writes R tid ws s1 = (Inr (), s2)" and m: "RocksTxn_commit R sess tid s2 = (Inr n, s')"
    using assms(1) by (auto simp: write_txn_def sbind_eq_Inr)
  note C = createTransaction_ok [OF c] and T = touchesD [OF local_opD [OF local_do_writes w]]
  let ?m = "dbv (ks_db s)" and ?b = "case sess of None \<Rightarrow> ks_mode s = REPLICATE_ONLY | Some c \<Rightarrow> ts_replOnly c"
  have log: "ks_enableRepllog s1" using assms(4) C(6) by simp
  obtain tx t es where o2: "open_txn s2 tid tx t" and tx: "tx_binlogId tx = TXNID_UNINITED"
    and v0: "overlay ?m (wr t) 0 = fold apply_write ws (overlay ?m (wr (rd_begin R (ks_db s))) 0)"
    and v1: "\<forall>cf. cf \<noteq> 0 \<longrightarrow> wr t cf = wr (rd_begin R (ks_db s)) cf"
    and es: "tx_replLogValues tx = es" "entries_of ws es"
    using do_writes_ok [OF w assms(2) C(3) log, of ?m] by auto
  have ne: "es \<noteq> []" using es(2) assms(3) by (auto simp: entries_of_def)
  from m o2 show ?thesis
  proof (cases rule: commit_ok)
    case (quiet d)
    then show ?thesis using ne es by simp
  next
    case (logged k v t' d)
    have cf: "getBinlogColumnFamilyHandle s2 = 1"
      using assms(5) T(5) C(7) by (simp add: getBinlogColumnFamilyHandle_def)
    have id: "binlog_id_of s2 tx = ks_nextBinlogSeq s" using tx T(7) C(5) by (simp add: binlog_id_of_def)
    have db: "ks_db s2 = ks_db s" using T(11) C(4) by simp
    have wr': "wr t' = pend (wr t) 1 k (Some v)" using put_wr [OF logged(4)] cf by simp
    have d: "dbv (ks_db s') = overlay ?m (wr t')"
      using commit_db [OF logged(5)] logged(6) db by simp
    have "dbv (ks_db s') 0 = fold apply_write ws (?m 0)"
      using v0 by (simp add: d wr' overlay_pend begin_wr)
    moreover have "dbv (ks_db s') 1 = (?m 1)(k \<mapsto> v)"
    proof -
      have "overlay ?m (wr t) 1 = ?m 1" using v1 by (simp add: overlay_def begin_wr fun_eq_iff)
      then show ?thesis by (simp add: d wr' overlay_pend)
    qed
    moreover have "length (lv_cmdStr (binlog_value sess tx)) < 2 ^ 64"
      using assms(6) by (cases sess) (auto simp: binlog_value_def list_all_iff)
    from ReplLogV2_decode_encode [OF logged(2,3) this] entries_of_wf [OF es(2) assms(2)] es
    obtain log where "ReplLogV2_decode k v = ok log" "rl_key log = binlog_id_of s2 tx" "rl_entrys log = es"
      by auto
    ultimately show ?thesis using logged(2) id es by auto
  qed
qed

end

subsection \<open>Replicas\<close>


definition sample_store :: "(memdb, memtxn) RocksKVStore" where
  "sample_store =
     \<lparr>ks_isRunning = True, ks_isPaused = False, ks_enableRepllog = True, ks_mode = READ_WRITE, ks_forceRecovery = 0,
      ks_binlogUsingDefaultCF = False, ks_nextTxnSeq = 1, ks_nextBinlogSeq = 1,
      ks_aliveTxns = Map.empty, ks_aliveBinlogs = [], ks_highestVisible = 0, ks_db = (\<lambda>_. []),
      ks_txns = Map.empty, ks_clock = (\<lambda>_. 1600000000000), ks_binlogTime = 0\<rparr>"

definition sample_writes :: "kvwrite list" where
  "sample_writes = [WSet [0, 0, 0, 7, 97] [1, 2], WDel [0, 0, 0, 8, 97]]"

lemma sample_write_txn: "\<exists>s'. write_txn mem_rocks None sample_writes sample_store = (ok 1, s')"
proof -
  have "fst (write_txn mem_rocks None sample_writes sample_store) = ok 1" by code_simp
  then show ?thesis by (metis prod.collapse)
qed


end
