(* ===== verification/BinlogVisible.thy ===== *)
theory BinlogVisible
  imports Transactions
begin

section \<open>Visibility of the binlog under concurrent commits\<close>

text \<open>
  Transactions of many threads run \<open>commit\<close> at the same time: binlog ids are given out in one order
  (\<open>assignBinlogIdIfNeeded\<close>), the underlying commits happen in another, and \<open>markCommitted\<close> in a
  third. Replicas read the binlog up to \<open>_highestVisible\<close> only. The step relation interleaves the
  atomic parts of the operations; the control state of each open transaction is explicit.
\<close>

datatype txn_pc = Active | Logged | Written u64

type_synonym ('d, 't) config = "('d, 't) RocksKVStore \<times> (u64 \<rightharpoonup> txn_pc)"

definition next_pc :: "'a expected \<Rightarrow> ('a \<Rightarrow> txn_pc) \<Rightarrow> txn_pc option" where
  "next_pc r f = (case r of
      Inr x \<Rightarrow> Some (f x)
    | Inl (Status _ _) \<Rightarrow> Some (Written TXNID_UNINITED)
    | Inl _ \<Rightarrow> None)"

text \<open>
  \<open>step_log\<close> is \<open>commit\<close> up to the record in the transaction, \<open>step_write\<close> the commit of the
  underlying transaction, \<open>step_finish\<close> the guard of \<open>commit\<close>, \<open>step_abort\<close> a rollback or the
  destruction of an unfinished transaction. The counters do not wrap around.
\<close>

inductive txn_step ::
  "('d, 't) rocks \<Rightarrow> ('d, 't) config \<Rightarrow> ('d, 't) config \<Rightarrow> bool" for R :: "('d, 't) rocks" where
  step_create: "createTransaction R sess s = (ok tid, s') \<Longrightarrow> ks_nextTxnSeq s + 1 \<noteq> 0 \<Longrightarrow>
    txn_step R (s, pc) (s', pc(tid \<mapsto> Active))"
| step_set: "pc tid = Some Active \<Longrightarrow> RocksTxn_setKV R tid k v ts s = (r, s') \<Longrightarrow>
    txn_step R (s, pc) (s', pc)"
| step_del: "pc tid = Some Active \<Longrightarrow> RecordKey_decodeType k \<noteq> ok RT_BINLOG \<Longrightarrow>
    RocksTxn_delKV R tid k ts s = (r, s') \<Longrightarrow> txn_step R (s, pc) (s', pc)"
| step_log: "pc tid = Some Active \<Longrightarrow> ks_nextBinlogSeq s + 1 \<noteq> 0 \<Longrightarrow>
    sthen (mod_txn tid (\<lambda>tx. tx\<lparr>tx_done := True\<rparr>)) (commit_log R sess tid) s = (r, s') \<Longrightarrow>
    next_pc r (\<lambda>_. Logged) = Some p \<Longrightarrow> txn_step R (s, pc) (s', pc(tid \<mapsto> p))"
| step_write: "pc tid = Some Logged \<Longrightarrow> commit_write R tid s = (r, s') \<Longrightarrow>
    next_pc r Written = Some p \<Longrightarrow> txn_step R (s, pc) (s', pc(tid \<mapsto> p))"
| step_finish: "pc tid = Some (Written b) \<Longrightarrow> finish_txn tid b s = (ok (), s') \<Longrightarrow>
    txn_step R (s, pc) (s', pc(tid := None))"
| step_abort: "pc tid = Some Active \<Longrightarrow>
    sthen (mod_txn tid (\<lambda>tx. tx\<lparr>tx_done := True\<rparr>)) (finish_txn tid TXNID_UNINITED) s = (ok (), s') \<Longrightarrow>
    txn_step R (s, pc) (s', pc(tid := None))"

text \<open>The state after \<open>restart\<close>: no transaction is open and the binlog in the store is visible.\<close>

definition binlog_key :: "u64 \<Rightarrow> bytes" where
  "binlog_key i = (case ReplLogKeyV2_encode i of Inr k \<Rightarrow> k | Inl _ \<Rightarrow> [])"

lemma binlog_key_encode: "ReplLogKeyV2_encode i = ok (binlog_key i)"
  using ReplLogKeyV2_encode_total [of i] by (auto simp: binlog_key_def)

lemma binlog_key_inj [simp]: "binlog_key i = binlog_key j \<longleftrightarrow> i = j"
proof
  assume "binlog_key i = binlog_key j"
  then have "ReplLogKeyV2_decode (binlog_key i) = ReplLogKeyV2_decode (binlog_key j)" by (rule arg_cong)
  then show "i = j"
    unfolding ReplLogKeyV2_decode_encode [OF binlog_key_encode] by (rule Inr_inject)
qed simp

definition started :: "('d \<Rightarrow> contents) \<Rightarrow> ('d, 't) RocksKVStore \<Rightarrow> bool" where
  "started dbv s \<longleftrightarrow>
     ks_isRunning s \<and> \<not> ks_binlogUsingDefaultCF s \<and> ks_aliveTxns s = Map.empty \<and>
     ks_aliveBinlogs s = [] \<and> 0 < ks_nextTxnSeq s \<and> ks_highestVisible s < ks_nextBinlogSeq s \<and>
     (\<forall>i. dbv (ks_db s) 1 (binlog_key i) \<noteq> None \<longrightarrow> i \<le> ks_highestVisible s)"

subsection \<open>The list of live binlogs\<close>

definition ids :: "(u64 \<times> bool \<times> u64) list \<Rightarrow> u64 set" where
  "ids bs = fst ` set bs"

definition asc :: "(u64 \<times> bool \<times> u64) list \<Rightarrow> bool" where
  "asc bs \<longleftrightarrow> sorted_wrt (<) (map fst bs)"

definition head_live :: "(u64 \<times> bool \<times> u64) list \<Rightarrow> bool" where
  "head_live bs \<longleftrightarrow> (\<forall>b c t r. bs = (b, c, t) # r \<longrightarrow> \<not> c)"

lemma map_insert_last:
  "\<forall>x\<in>set bs. fst x < k \<Longrightarrow> map_insert k v bs = bs @ [(k, v)]"
  by (induction bs) (auto simp: not_less_iff_gr_or_eq)

lemma asc_append: "asc bs \<Longrightarrow> \<forall>x\<in>ids bs. x < k \<Longrightarrow> asc (bs @ [(k, v)])"
  by (auto simp: asc_def ids_def sorted_wrt_append)

lemma asc_unique: "asc bs \<Longrightarrow> (b, e) \<in> set bs \<Longrightarrow> (b, e') \<in> set bs \<Longrightarrow> e = e'"
  using eq_key_imp_eq_value [of bs b e e'] by (simp add: asc_def strict_sorted_iff)

lemma head_live_append: "head_live bs \<Longrightarrow> head_live (bs @ [(k, False, t)])"
  by (cases bs) (auto simp: head_live_def)

lemma map_fst_mark: "map fst (mark_binlog b t bs) = map fst bs"
  by (auto simp: mark_binlog_def)

lemma ids_map: "ids bs = set (map fst bs)"
  by (simp add: ids_def)

lemma ids_mark [simp]: "ids (mark_binlog b t bs) = ids bs"
  by (simp only: ids_map map_fst_mark)

lemma asc_mark [simp]: "asc (mark_binlog b t bs) = asc bs"
  by (simp only: asc_def map_fst_mark)

lemma set_mark:
  "(i, c, u) \<in> set (mark_binlog b t bs) \<longleftrightarrow>
     (if i = b then c \<and> u = t \<and> b \<in> ids bs else (i, c, u) \<in> set bs)"
proof (induction bs)
  case (Cons x bs)
  obtain i' c' u' where x: "x = (i', c', u')" by (cases x)
  have m: "mark_binlog b t (x # bs) = (if i' = b then (i', True, t) else x) # mark_binlog b t bs"
    by (simp add: x mark_binlog_def)
  have i: "ids (x # bs) = insert i' (ids bs)" by (simp add: x ids_def)
  show ?case unfolding m i using Cons.IH by (auto simp: x)
qed (simp add: mark_binlog_def ids_def)

lemma pop_committed_spec:
  assumes "pop_committed hv bs = (hv', bs')" "asc bs" "\<forall>i\<in>ids bs. hv < i"
  shows "\<exists>ds. bs = ds @ bs' \<and> (\<forall>(b, c, t)\<in>set ds. c) \<and> head_live bs' \<and> hv \<le> hv' \<and>
    (\<forall>i\<in>ids bs'. hv' < i) \<and> (hv' = hv \<or> hv' \<in> ids ds) \<and>
    (\<forall>(b, c, t)\<in>set ds. t \<noteq> TXNID_UNINITED \<longrightarrow> b \<le> hv')"
  using assms
proof (induction hv bs rule: pop_committed.induct)
  case (1 hv)
  then show ?case by (simp add: head_live_def ids_def)
next
  case (2 hv b c t xs)
  show ?case
  proof (cases c)
    case False
    then have "hv' = hv" "bs' = (b, c, t) # xs" using 2(2) by simp_all
    then show ?thesis using 2(4) False by (intro exI [of _ "[]"]) (simp add: head_live_def ids_def)
  next
    case True
    let ?h = "if t \<noteq> TXNID_UNINITED then b else hv"
    have p: "pop_committed ?h xs = (hv', bs')" using 2(2) True by simp
    have a: "asc xs" and l: "\<forall>i\<in>ids xs. b < i" using 2(3) by (auto simp: asc_def ids_def)
    have h: "hv < b" using 2(4) by (simp add: ids_def)
    have "\<forall>i\<in>ids xs. ?h < i" using l 2(4) by (simp add: ids_def)
    from 2(1) [OF _ p a this] True obtain ds where d: "xs = ds @ bs'" "\<forall>(b, c, t)\<in>set ds. c"
      "head_live bs'" "?h \<le> hv'" "\<forall>i\<in>ids bs'. hv' < i" "hv' = ?h \<or> hv' \<in> ids ds"
      "\<forall>(b, c, t)\<in>set ds. t \<noteq> TXNID_UNINITED \<longrightarrow> b \<le> hv'" by auto
    have bh: "t \<noteq> TXNID_UNINITED \<Longrightarrow> b \<le> hv'" using d(4) by simp
    have "hv \<le> ?h" using h by (cases "t = TXNID_UNINITED") simp_all
    with d(4) have hv: "hv \<le> hv'" by (rule order_trans [rotated])
    have in_ds: "hv' = hv \<or> hv' \<in> ids ((b, c, t) # ds)"
      using d(6) by (cases "t = TXNID_UNINITED") (auto simp: ids_def)
    have 1: "\<forall>(b, c, t)\<in>set ((b, c, t) # ds). c" using d(2) True by simp
    have 2: "\<forall>(b, c, t)\<in>set ((b, c, t) # ds). t \<noteq> TXNID_UNINITED \<longrightarrow> b \<le> hv'"
      using d(7) bh by simp
    have "(b, c, t) # xs = ((b, c, t) # ds) @ bs'" using d(1) by simp
    with 1 2 d(3,5) hv in_ds show ?thesis by blast
  qed
qed

subsection \<open>The invariant\<close>

definition rec_at :: "('d \<Rightarrow> contents) \<Rightarrow> ('d, 't) RocksKVStore \<Rightarrow> u64 \<Rightarrow> bytes option" where
  "rec_at dbv s i = dbv (ks_db s) 1 (binlog_key i)"

text \<open>What holds of an open transaction at each point of its life.\<close>

definition txn_inv ::
  "('d \<Rightarrow> contents) \<Rightarrow> ('t \<Rightarrow> pending) \<Rightarrow> ('d, 't) RocksKVStore \<Rightarrow> u64 \<Rightarrow> txn_pc \<Rightarrow> bool" where
  "txn_inv dbv wr s t p \<longleftrightarrow>
    (\<exists>tx. ks_txns s t = Some tx \<and> tx_txnId tx = t \<and> t \<noteq> TXNID_UNINITED \<and>
      ks_aliveTxns s t = Some (False, tx_binlogId tx) \<and>
      (case p of
         Active \<Rightarrow> \<exists>x. tx_txn tx = Some x \<and> tx_binlogId tx = TXNID_UNINITED \<and> wr x 1 = Map.empty
       | Logged \<Rightarrow> \<exists>x. tx_txn tx = Some x \<and>
          (if tx_replLogValues tx = []
           then tx_binlogId tx = TXNID_UNINITED \<and> wr x 1 = Map.empty
           else tx_binlogId tx \<noteq> TXNID_UNINITED \<and> rec_at dbv s (tx_binlogId tx) = None \<and>
             (\<exists>v. wr x 1 = [binlog_key (tx_binlogId tx) \<mapsto> Some v]))
       | Written b \<Rightarrow> (b = TXNID_UNINITED \<and>
            (tx_binlogId tx \<noteq> TXNID_UNINITED \<longrightarrow> rec_at dbv s (tx_binlogId tx) = None)) \<or> b = t))"

definition live_inv :: "('d, 't) RocksKVStore \<Rightarrow> bool" where
  "live_inv s \<longleftrightarrow>
     ks_isRunning s \<and> \<not> ks_binlogUsingDefaultCF s \<and> ks_nextTxnSeq s \<noteq> 0 \<and>
     asc (ks_aliveBinlogs s) \<and> head_live (ks_aliveBinlogs s) \<and>
     ks_highestVisible s < ks_nextBinlogSeq s \<and>
     (\<forall>i\<in>ids (ks_aliveBinlogs s). ks_highestVisible s < i \<and> i < ks_nextBinlogSeq s)"

definition link_inv :: "('d, 't) RocksKVStore \<Rightarrow> bool" where
  "link_inv s \<longleftrightarrow>
     (\<forall>t c b. ks_aliveTxns s t = Some (c, b) \<longrightarrow> b \<noteq> TXNID_UNINITED \<longrightarrow>
        (b, False, t) \<in> set (ks_aliveBinlogs s)) \<and>
     (\<forall>b t. (b, False, t) \<in> set (ks_aliveBinlogs s) \<longrightarrow> ks_aliveTxns s t = Some (False, b))"

definition rec_inv :: "('d \<Rightarrow> contents) \<Rightarrow> ('d, 't) RocksKVStore \<Rightarrow> bool" where
  "rec_inv dbv s \<longleftrightarrow>
     (\<forall>b. (b, True, TXNID_UNINITED) \<in> set (ks_aliveBinlogs s) \<longrightarrow> rec_at dbv s b = None) \<and>
     (\<forall>i. rec_at dbv s i \<noteq> None \<longrightarrow> i \<le> ks_highestVisible s \<or> i \<in> ids (ks_aliveBinlogs s))"

definition binlog_inv ::
  "('d \<Rightarrow> contents) \<Rightarrow> ('t \<Rightarrow> pending) \<Rightarrow> ('d, 't) config \<Rightarrow> bool" where
  "binlog_inv dbv wr c \<longleftrightarrow> (case c of (s, pc) \<Rightarrow>
     live_inv s \<and> link_inv s \<and> rec_inv dbv s \<and>
     (\<forall>t. ks_aliveTxns s t = None \<longleftrightarrow> pc t = None) \<and>
     (\<forall>t p. pc t = Some p \<longrightarrow> txn_inv dbv wr s t p))"

lemma binlog_invI:
  assumes "live_inv s" "link_inv s" "rec_inv dbv s" "\<And>t. ks_aliveTxns s t = None \<longleftrightarrow> pc t = None"
    and "\<And>t p. pc t = Some p \<Longrightarrow> txn_inv dbv wr s t p"
  shows "binlog_inv dbv wr (s, pc)"
  using assms by (simp add: binlog_inv_def)

lemma binlog_invD:
  assumes "binlog_inv dbv wr (s, pc)"
  shows "live_inv s" "link_inv s" "rec_inv dbv s" "ks_aliveTxns s t = None \<longleftrightarrow> pc t = None"
    "pc t = Some p \<Longrightarrow> txn_inv dbv wr s t p"
  using assms by (simp_all add: binlog_inv_def)

lemma started_inv: "started dbv s \<Longrightarrow> binlog_inv dbv wr (s, Map.empty)"
  by (rule binlog_invI)
    (auto simp: started_def live_inv_def link_inv_def rec_inv_def asc_def head_live_def ids_def
      rec_at_def)

text \<open>A step makes nothing that is visible change.\<close>

definition visible_kept ::
  "('d \<Rightarrow> contents) \<Rightarrow> ('d, 't) RocksKVStore \<Rightarrow> ('d, 't) RocksKVStore \<Rightarrow> bool" where
  "visible_kept dbv s s' \<longleftrightarrow> ks_highestVisible s \<le> ks_highestVisible s' \<and>
     (\<forall>i\<le>ks_highestVisible s. rec_at dbv s' i = rec_at dbv s i)"

lemma visible_kept_refl [simp]: "visible_kept dbv s s"
  by (simp add: visible_kept_def)

lemma visible_kept_trans:
  assumes "visible_kept dbv a b" "visible_kept dbv b c"
  shows "visible_kept dbv a c"
  unfolding visible_kept_def
proof (intro conjI allI impI)
  show "ks_highestVisible a \<le> ks_highestVisible c"
    using assms by (auto simp: visible_kept_def intro: order_trans)
  fix i assume i: "i \<le> ks_highestVisible a"
  moreover have "i \<le> ks_highestVisible b"
    using assms(1) i order_trans [of i "ks_highestVisible a" "ks_highestVisible b"]
    by (simp add: visible_kept_def)
  ultimately show "rec_at dbv c i = rec_at dbv a i" using assms by (simp add: visible_kept_def)
qed

lemma txn_inv_frame:
  assumes "txn_inv dbv wr s t p" "ks_txns s' t = ks_txns s t" "ks_aliveTxns s' t = ks_aliveTxns s t"
    and "\<And>i. (\<exists>c. ks_aliveTxns s t = Some (c, i)) \<Longrightarrow> i \<noteq> TXNID_UNINITED \<Longrightarrow> rec_at dbv s' i = rec_at dbv s i"
  shows "txn_inv dbv wr s' t p"
proof -
  from assms(1) obtain tx where tx: "ks_txns s t = Some tx" "ks_aliveTxns s t = Some (False, tx_binlogId tx)"
    by (auto simp: txn_inv_def)
  have "rec_at dbv s' (tx_binlogId tx) = rec_at dbv s (tx_binlogId tx)"
    if "tx_binlogId tx \<noteq> TXNID_UNINITED" using assms(4) tx(2) that by blast
  then show ?thesis using assms(1-3) tx by (cases p) (auto simp: txn_inv_def)
qed

subsection \<open>Writes keep the binlog part of their transaction\<close>

definition kept ::
  "('t \<Rightarrow> pending) \<Rightarrow> u64 \<Rightarrow> ('d, 't) RocksKVStore \<Rightarrow> ('d, 't) RocksKVStore \<Rightarrow> bool" where
  "kept wr tid s s' \<longleftrightarrow> touches tid s s' \<and> (\<forall>tx x. open_txn s tid tx x \<longrightarrow>
     (\<exists>tx' x'. open_txn s' tid tx' x' \<and> tx_txnId tx' = tx_txnId tx \<and>
        tx_binlogId tx' = tx_binlogId tx \<and> wr x' 1 = wr x 1))"

definition keeps :: "('t \<Rightarrow> pending) \<Rightarrow> u64 \<Rightarrow> ('d, 't, 'a) kst \<Rightarrow> bool" where
  "keeps wr tid m \<longleftrightarrow> (\<forall>s r s'. m s = (r, s') \<longrightarrow> kept wr tid s s')"

lemma kept_refl [simp]: "kept wr tid s s"
  by (auto simp: kept_def)

lemma kept_trans:
  assumes "kept wr tid a b" "kept wr tid b c"
  shows "kept wr tid a c"
  unfolding kept_def
proof (intro conjI allI impI)
  show "touches tid a c" using assms by (auto simp: kept_def intro: touches_trans)
  fix tx x assume "open_txn a tid tx x"
  with assms(1) obtain tx1 x1 where 1: "open_txn b tid tx1 x1" "tx_txnId tx1 = tx_txnId tx"
    "tx_binlogId tx1 = tx_binlogId tx" "wr x1 1 = wr x 1" unfolding kept_def by blast
  with assms(2) obtain tx2 x2 where "open_txn c tid tx2 x2" "tx_txnId tx2 = tx_txnId tx1"
    "tx_binlogId tx2 = tx_binlogId tx1" "wr x2 1 = wr x1 1" unfolding kept_def by blast
  with 1 show "\<exists>tx' x'. open_txn c tid tx' x' \<and> tx_txnId tx' = tx_txnId tx \<and>
      tx_binlogId tx' = tx_binlogId tx \<and> wr x' 1 = wr x 1" by auto
qed

lemma keeps_sbind:
  assumes "keeps wr tid m" "\<And>x. keeps wr tid (f x)"
  shows "keeps wr tid (sbind m f)"
  unfolding keeps_def
proof (intro allI impI)
  fix s r s' assume "sbind m f s = (r, s')"
  then show "kept wr tid s s'"
  proof (cases rule: sbind_eqE)
    case (fail e)
    then show ?thesis using assms(1) unfolding keeps_def by blast
  next
    case (cont x t)
    then have "kept wr tid s t" "kept wr tid t s'" using assms unfolding keeps_def by blast+
    then show ?thesis by (rule kept_trans)
  qed
qed

lemma keeps_basic:
  "keeps wr tid (sret x)" "keeps wr tid (sfail e)" "keeps wr tid (slift r)"
  "keeps wr tid (checked rs)" "keeps wr tid msSinceEpoch"
proof -
  show "keeps wr tid (sret x)" "keeps wr tid (sfail e)" "keeps wr tid (slift r)"
    by (simp_all add: keeps_def)
  show "keeps wr tid (checked rs)"
    by (auto simp: keeps_def checked_def handleRocksdbError_def)
  show "keeps wr tid msSinceEpoch"
    using local_msSinceEpoch [of tid]
    by (auto simp: keeps_def kept_def local_op_def msSinceEpoch_def open_txn_def)
qed

lemma keeps_with_txn: "(\<And>tx. keeps wr tid (f tx)) \<Longrightarrow> keeps wr tid (with_txn i f)"
  by (auto simp: keeps_def with_txn_def split: option.split_asm)

lemma keeps_sget: "(\<And>s. keeps wr tid (f s)) \<Longrightarrow> keeps wr tid (sget f)"
  by (auto simp: keeps_def)

lemma keeps_if: "keeps wr tid m \<Longrightarrow> keeps wr tid n \<Longrightarrow> keeps wr tid (if b then m else n)"
  by simp

lemma keeps_mod_txn:
  assumes "\<And>tx. tx_txn (f tx) = tx_txn tx" "\<And>tx. tx_txnId (f tx) = tx_txnId tx"
    "\<And>tx. tx_binlogId (f tx) = tx_binlogId tx"
  shows "keeps wr tid (mod_txn tid f)"
  using assms
  by (auto simp: keeps_def kept_def mod_txn_def with_txn_def open_txn_def split: option.split_asm)

lemma keeps_log_write: "keeps wr tid (log_write tid op ts k v)"
  unfolding log_write_def add_log_def
  by (intro keeps_sget keeps_if keeps_sbind keeps_basic keeps_mod_txn) simp_all

context rocksdb
begin

lemma keeps_put: "cf \<noteq> 1 \<Longrightarrow> keeps wr tid (RocksTxn_put R tid cf k v)"
  unfolding keeps_def
proof (intro allI impI)
  fix s r s'
  assume cf: "cf \<noteq> 1" and p: "RocksTxn_put R tid cf k v s = (r, s')"
  have "touches tid s s'" by (rule local_opD [OF local_RocksTxn_put p])
  moreover have "\<exists>tx' x'. open_txn s' tid tx' x' \<and> tx_txnId tx' = tx_txnId tx \<and>
      tx_binlogId tx' = tx_binlogId tx \<and> wr x' 1 = wr x 1" if "open_txn s tid tx x" for tx x
  proof -
    obtain rs x' where q: "rd_put R (ks_db s) x cf k v = (rs, x')" by force
    with p that have "s' = put_txn tid (tx\<lparr>tx_txn := Some x'\<rparr>) s"
      by (auto simp: RocksTxn_put_def with_txn_def open_txn_def)
    moreover have "wr x' 1 = wr x 1" using put_wr [OF q] cf by (simp add: pend_def)
    ultimately show ?thesis
      by (intro exI [of _ "tx\<lparr>tx_txn := Some x'\<rparr>"] exI [of _ x']) (simp add: open_txn_def)
  qed
  ultimately show "kept wr tid s s'" by (simp add: kept_def)
qed

lemma keeps_del: "cf \<noteq> 1 \<Longrightarrow> keeps wr tid (RocksTxn_del R tid cf k)"
  unfolding keeps_def
proof (intro allI impI)
  fix s r s'
  assume cf: "cf \<noteq> 1" and p: "RocksTxn_del R tid cf k s = (r, s')"
  have "touches tid s s'" by (rule local_opD [OF local_RocksTxn_del p])
  moreover have "\<exists>tx' x'. open_txn s' tid tx' x' \<and> tx_txnId tx' = tx_txnId tx \<and>
      tx_binlogId tx' = tx_binlogId tx \<and> wr x' 1 = wr x 1" if "open_txn s tid tx x" for tx x
  proof -
    obtain rs x' where q: "rd_delete R (ks_db s) x cf k = (rs, x')" by force
    with p that have "s' = put_txn tid (tx\<lparr>tx_txn := Some x'\<rparr>) s"
      by (auto simp: RocksTxn_del_def with_txn_def open_txn_def)
    moreover have "wr x' 1 = wr x 1" using delete_wr [OF q] cf by (simp add: pend_def)
    ultimately show ?thesis
      by (intro exI [of _ "tx\<lparr>tx_txn := Some x'\<rparr>"] exI [of _ x']) (simp add: open_txn_def)
  qed
  ultimately show "kept wr tid s s'" by (simp add: kept_def)
qed

lemma keeps_setKV: "keeps wr tid (RocksTxn_setKV R tid k v ts)"
  unfolding RocksTxn_setKV_def
  by (intro keeps_with_txn keeps_if keeps_sbind keeps_basic keeps_log_write keeps_put)
    (simp add: getDataColumnFamilyHandle_def)

lemma keeps_delKV:
  assumes "RecordKey_decodeType k \<noteq> ok RT_BINLOG"
  shows "keeps wr tid (RocksTxn_delKV R tid k ts)"
proof (cases "RecordKey_decodeType k")
  case (Inl e)
  then show ?thesis
    unfolding RocksTxn_delKV_def Inl sbind_simps by (intro keeps_with_txn keeps_sget keeps_if keeps_basic)
next
  case (Inr ty)
  with assms have "getColumnFamilyHandleByRecordType s ty \<noteq> 1" for s :: "('d, 't) RocksKVStore"
    by (simp add: getColumnFamilyHandleByRecordType_def getDataColumnFamilyHandle_def)
  then show ?thesis
    unfolding RocksTxn_delKV_def Inr sbind_simps
    by (intro keeps_with_txn keeps_sget keeps_if keeps_sbind keeps_basic keeps_log_write keeps_del) simp
qed

end

subsection \<open>Every step keeps the invariant and what is visible\<close>

lemma inv_same_seq:
  assumes "ks_isRunning s' = ks_isRunning s" "ks_binlogUsingDefaultCF s' = ks_binlogUsingDefaultCF s"
    and "ks_nextTxnSeq s' \<noteq> 0" "ks_nextBinlogSeq s' = ks_nextBinlogSeq s"
    and "ks_aliveBinlogs s' = ks_aliveBinlogs s" "ks_highestVisible s' = ks_highestVisible s"
  shows "live_inv s \<Longrightarrow> live_inv s'"
    and "(\<And>i. rec_at dbv s' i = rec_at dbv s i) \<Longrightarrow> rec_inv dbv s \<Longrightarrow> rec_inv dbv s'"
    and "ks_aliveTxns s' = ks_aliveTxns s \<Longrightarrow> link_inv s \<Longrightarrow> link_inv s'"
  using assms by (simp_all add: live_inv_def rec_inv_def link_inv_def)

lemma inv_create:
  assumes "binlog_inv dbv wr (s, pc)" "createTransaction R sess s = (ok tid, s')"
    and "ks_nextTxnSeq s + 1 \<noteq> 0" "rocksdb R dbv wr"
  shows "binlog_inv dbv wr (s', pc(tid \<mapsto> Active)) \<and> visible_kept dbv s s'"
proof -
  note D = binlog_invD [OF assms(1)] and C = createTransaction_ok [OF assms(2)]
  have rec: "rec_at dbv s' i = rec_at dbv s i" for i by (simp add: rec_at_def C(4))
  have t0: "tid \<noteq> TXNID_UNINITED" using D(1) C(1) by (simp add: live_inv_def TXNID_UNINITED_def)
  have "txn_inv dbv wr s' t p" if "(pc(tid \<mapsto> Active)) t = Some p" for t p
  proof (cases "t = tid")
    case True
    then show ?thesis
      using that C t0 rocksdb.begin_wr [OF assms(4)] by (simp add: txn_inv_def)
  next
    case False
    then show ?thesis using that D(5) [of t p] C rec by (auto intro: txn_inv_frame)
  qed
  moreover have "link_inv s'"
    using D(2) C(8,12,14) by (auto simp: link_inv_def)
  moreover have "live_inv s'" "rec_inv dbv s'"
    using D(1,3) C assms(3) rec by (simp_all add: live_inv_def rec_inv_def)
  moreover have "ks_aliveTxns s' t = None \<longleftrightarrow> (pc(tid \<mapsto> Active)) t = None" for t
    using D(4) [of t] C(14) by simp
  ultimately have "binlog_inv dbv wr (s', pc(tid \<mapsto> Active))" by (intro binlog_invI)
  moreover have "visible_kept dbv s s'" by (simp add: visible_kept_def rec C(9))
  ultimately show ?thesis ..
qed

lemma inv_kept:
  assumes "binlog_inv dbv wr (s, pc)" "pc tid = Some Active" "kept wr tid s s'"
  shows "binlog_inv dbv wr (s', pc) \<and> visible_kept dbv s s'"
proof -
  note D = binlog_invD [OF assms(1)]
  have t: "touches tid s s'" using assms(3) by (simp add: kept_def)
  note T = touchesD [OF t]
  have rec: "rec_at dbv s' i = rec_at dbv s i" for i by (simp add: rec_at_def T(11))
  have "txn_inv dbv wr s' t p" if "pc t = Some p" for t p
  proof (cases "t = tid")
    case True
    then have p: "p = Active" using that assms(2) by simp
    from D(5) [OF that] obtain tx x where tx: "open_txn s t tx x" "tx_txnId tx = t"
      "t \<noteq> TXNID_UNINITED" "ks_aliveTxns s t = Some (False, tx_binlogId tx)"
      "tx_binlogId tx = TXNID_UNINITED" "wr x 1 = Map.empty"
      by (auto simp: txn_inv_def p open_txn_def)
    with assms(3) True obtain tx' x' where "open_txn s' t tx' x'" "tx_txnId tx' = tx_txnId tx"
      "tx_binlogId tx' = tx_binlogId tx" "wr x' 1 = wr x 1" unfolding kept_def by blast
    with tx T(8) show ?thesis by (auto simp: txn_inv_def p open_txn_def)
  next
    case False
    then show ?thesis using D(5) [OF that] T(8) T(12) [OF False] rec by (auto intro: txn_inv_frame)
  qed
  moreover have "ks_nextTxnSeq s' \<noteq> 0" using D(1) T(6) by (simp add: live_inv_def)
  moreover note inv_same_seq [OF T(1) T(5) this T(7) T(9) T(10)]
  ultimately have "binlog_inv dbv wr (s', pc)"
    using D T(8) rec by (intro binlog_invI) auto
  moreover have "visible_kept dbv s s'" by (simp add: visible_kept_def rec T(10))
  ultimately show ?thesis ..
qed

lemma link_unique:
  assumes "live_inv s" "link_inv s" "ks_aliveTxns s t = Some (c, b)" "ks_aliveTxns s t' = Some (c', b)"
    and "b \<noteq> TXNID_UNINITED"
  shows "t = t'"
proof -
  have "(b, False, t) \<in> set (ks_aliveBinlogs s)" "(b, False, t') \<in> set (ks_aliveBinlogs s)"
    using assms(2-5) by (auto simp: link_inv_def)
  from asc_unique [OF _ this] show ?thesis using assms(1) by (simp add: live_inv_def)
qed

context rocksdb
begin

lemma inv_write:
  assumes "binlog_inv dbv wr (s, pc)" "pc tid = Some Logged" "commit_write R tid s = (r, s')"
    and "next_pc r Written = Some p"
  shows "binlog_inv dbv wr (s', pc(tid \<mapsto> p)) \<and> visible_kept dbv s s'"
proof -
  note D = binlog_invD [OF assms(1)]
  from D(5) [OF assms(2)] obtain tx x where tx: "ks_txns s tid = Some tx" "tx_txn tx = Some x"
    "tx_txnId tx = tid" "tid \<noteq> TXNID_UNINITED" "ks_aliveTxns s tid = Some (False, tx_binlogId tx)"
    and w: "if tx_replLogValues tx = []
       then tx_binlogId tx = TXNID_UNINITED \<and> wr x 1 = Map.empty
       else tx_binlogId tx \<noteq> TXNID_UNINITED \<and> rec_at dbv s (tx_binlogId tx) = None \<and>
         (\<exists>v. wr x 1 = [binlog_key (tx_binlogId tx) \<mapsto> Some v])"
    by (auto simp: txn_inv_def)
  obtain rs d where c: "rd_commit R (ks_db s) x = (rs, d)" by force
  have s': "s' = s\<lparr>ks_db := d\<rparr>"
    using assms(3) tx c by (auto simp: commit_write_def with_txn_def Let_def handleRocksdbError_def
        split: if_split_asm)
  let ?b = "tx_binlogId tx"
  have p: "p = (if rs = ROk \<and> tx_replLogValues tx \<noteq> [] then Written tid else Written TXNID_UNINITED)"
    using assms(3,4) tx c w
    by (auto simp: commit_write_def with_txn_def Let_def handleRocksdbError_def next_pc_def
        split: if_split_asm)
  have rec: "rec_at dbv s' i = rec_at dbv s i" if "tx_replLogValues tx = [] \<or> i \<noteq> ?b \<or> rs \<noteq> ROk" for i
    using that w commit_db [OF c]
    by (auto simp: rec_at_def s' overlay_def split: if_split_asm)
  have live: "?b \<in> ids (ks_aliveBinlogs s)" "(?b, False, tid) \<in> set (ks_aliveBinlogs s)"
    if "tx_replLogValues tx \<noteq> []"
    using that w D(2) tx(5) by (force simp: link_inv_def ids_def image_iff)+
  have "txn_inv dbv wr s' t q" if "(pc(tid \<mapsto> p)) t = Some q" for t q
  proof (cases "t = tid")
    case True
    then show ?thesis
      using that tx w rec [of ?b] p by (auto simp: txn_inv_def s' split: if_split_asm)
  next
    case False
    have "rec_at dbv s' i = rec_at dbv s i"
      if "\<exists>c. ks_aliveTxns s t = Some (c, i)" "i \<noteq> TXNID_UNINITED" for i
      using that rec [of i] link_unique [OF D(1,2) _ tx(5)] False by metis
    then show ?thesis using that False D(5) [of t q] by (auto intro!: txn_inv_frame [of dbv wr s t q] simp: s')
  qed
  moreover have "live_inv s'" "link_inv s'" using D(1,2) by (simp_all add: live_inv_def link_inv_def s')
  moreover have "rec_inv dbv s'"
    unfolding rec_inv_def
  proof (intro conjI allI impI)
    fix b assume "(b, True, TXNID_UNINITED) \<in> set (ks_aliveBinlogs s')"
    then have b: "(b, True, TXNID_UNINITED) \<in> set (ks_aliveBinlogs s)" by (simp add: s')
    have "b \<noteq> ?b" if "tx_replLogValues tx \<noteq> []"
      using asc_unique [OF _ b] live(2) [OF that] D(1) by (auto simp: live_inv_def)
    with b D(3) rec [of b] show "rec_at dbv s' b = None" by (auto simp: rec_inv_def)
  next
    fix i assume i: "rec_at dbv s' i \<noteq> None"
    show "i \<le> ks_highestVisible s' \<or> i \<in> ids (ks_aliveBinlogs s')"
    proof (cases "tx_replLogValues tx = [] \<or> i \<noteq> ?b")
      case True
      then have "rec_at dbv s i \<noteq> None" using i rec [of i] by metis
      with D(3) show ?thesis unfolding rec_inv_def by (simp add: s')
    next
      case False
      then show ?thesis using live(1) by (simp add: s')
    qed
  qed
  moreover have "ks_aliveTxns s' t = None \<longleftrightarrow> (pc(tid \<mapsto> p)) t = None" for t
    using D(4) [of t] D(4) [of tid] assms(2) by (auto simp: s')
  ultimately have "binlog_inv dbv wr (s', pc(tid \<mapsto> p))" by (intro binlog_invI)
  moreover have "visible_kept dbv s s'"
    unfolding visible_kept_def
  proof (intro conjI allI impI)
    show "ks_highestVisible s \<le> ks_highestVisible s'" by (simp add: s')
    fix i assume i: "i \<le> ks_highestVisible s"
    have "i \<noteq> ?b" if "tx_replLogValues tx \<noteq> []"
      using live(1) [OF that] D(1) i by (auto simp: live_inv_def)
    then show "rec_at dbv s' i = rec_at dbv s i" using rec [of i] by blast
  qed
  ultimately show ?thesis ..
qed

end

text \<open>The state after the logging part of \<open>commit\<close> on a transaction with entries.\<close>

definition logged_state ::
  "u64 \<Rightarrow> 't RocksTxn \<Rightarrow> ('d, 't) RocksKVStore \<Rightarrow> ('d, 't) RocksKVStore" where
  "logged_state tid tx s =
     s\<lparr>ks_nextBinlogSeq := ks_nextBinlogSeq s + 1,
       ks_aliveBinlogs := map_insert (ks_nextBinlogSeq s) (False, tid) (ks_aliveBinlogs s),
       ks_aliveTxns := (ks_aliveTxns s)(tid \<mapsto> (False, ks_nextBinlogSeq s)),
       ks_txns := (ks_txns s)(tid \<mapsto> tx)\<rparr>"

lemma assign_eq:
  assumes "ks_txns s tid = Some tx" "tx_binlogId tx = TXNID_UNINITED"
    and "ks_aliveTxns s tid = Some (False, b)"
  shows "assignBinlogIdIfNeeded tid s =
    (ok (), logged_state tid (tx\<lparr>tx_binlogId := ks_nextBinlogSeq s\<rparr>) s)"
  using assms
  by (simp add: assignBinlogIdIfNeeded_def with_txn_def mod_txn_def sbind_def Let_def put_txn_def
      link_binlog_def logged_state_def)

lemma inv_log_quiet:
  assumes "binlog_inv dbv wr (s, pc)" "pc tid = Some Active"
    and "ks_txns s tid = Some tx" "tx_replLogValues tx = []"
    and "s' = put_txn tid (tx\<lparr>tx_done := True\<rparr>) s"
  shows "binlog_inv dbv wr (s', pc(tid \<mapsto> Logged)) \<and> visible_kept dbv s s'"
proof -
  note D = binlog_invD [OF assms(1)]
  have rec: "rec_at dbv s' i = rec_at dbv s i" for i by (simp add: rec_at_def assms(5))
  have f: "ks_aliveTxns s' = ks_aliveTxns s" by (simp add: assms(5) put_txn_def)
  have "txn_inv dbv wr s' t p" if "(pc(tid \<mapsto> Logged)) t = Some p" for t p
  proof (cases "t = tid")
    case True
    then show ?thesis
      using that D(5) [OF assms(2)] assms(3-5) f by (auto simp: txn_inv_def)
  next
    case False
    then show ?thesis
      using that D(5) [of t p] rec f by (auto intro!: txn_inv_frame [of dbv wr s t p] simp: assms(5))
  qed
  moreover have "live_inv s'" "link_inv s'" "rec_inv dbv s'"
    using D(1-3) rec by (simp_all add: live_inv_def link_inv_def rec_inv_def assms(5) put_txn_def)
  moreover have "ks_aliveTxns s' t = None \<longleftrightarrow> (pc(tid \<mapsto> Logged)) t = None" for t
    using D(4) [of t] D(4) [of tid] assms(2) f by auto
  ultimately have "binlog_inv dbv wr (s', pc(tid \<mapsto> Logged))" by (intro binlog_invI)
  moreover have "visible_kept dbv s s'" using rec by (simp add: visible_kept_def assms(5) put_txn_def)
  ultimately show ?thesis ..
qed

lemma inv_logged_state:
  assumes "binlog_inv dbv wr (s, pc)" "pc tid = Some Active" "ks_nextBinlogSeq s + 1 \<noteq> 0"
    and "tx_txnId tx = tid" "tx_binlogId tx = ks_nextBinlogSeq s" "tx_txn tx = Some x"
    and "p = Written TXNID_UNINITED \<or>
      p = Logged \<and> tx_replLogValues tx \<noteq> [] \<and>
        (\<exists>v. wr x 1 = [binlog_key (ks_nextBinlogSeq s) \<mapsto> Some v])"
  shows "binlog_inv dbv wr (logged_state tid tx s, pc(tid \<mapsto> p)) \<and>
    visible_kept dbv s (logged_state tid tx s)"
proof -
  note D = binlog_invD [OF assms(1)]
  let ?s' = "logged_state tid tx s" and ?b = "ks_nextBinlogSeq s"
  have live: "asc (ks_aliveBinlogs s)" "head_live (ks_aliveBinlogs s)" "ks_highestVisible s < ?b"
    "\<And>i. i \<in> ids (ks_aliveBinlogs s) \<Longrightarrow> ks_highestVisible s < i \<and> i < ?b" "ks_isRunning s"
    "\<not> ks_binlogUsingDefaultCF s" "ks_nextTxnSeq s \<noteq> 0"
    using D(1) by (auto simp: live_inv_def)
  have bs: "ks_aliveBinlogs ?s' = ks_aliveBinlogs s @ [(?b, False, tid)]"
    unfolding logged_state_def by (simp add: map_insert_last live(4) ids_def)
  have b0: "?b \<noteq> TXNID_UNINITED" using live(3) by (auto simp: TXNID_UNINITED_def)
  have lt: "?b < ?b + 1"
    using assms(3) unatSuc [of ?b] by (simp add: word_less_nat_alt add.commute)
  have z: "(TXNID_UNINITED, False, u) \<notin> set (ks_aliveBinlogs s)" for u
    using live(4) [of TXNID_UNINITED] by (force simp: ids_def TXNID_UNINITED_def)
  have rec: "rec_at dbv ?s' i = rec_at dbv s i" for i by (simp add: rec_at_def logged_state_def)
  have none: "rec_at dbv s ?b = None"
  proof (rule ccontr)
    assume "rec_at dbv s ?b \<noteq> None"
    then have "?b \<le> ks_highestVisible s \<or> ?b \<in> ids (ks_aliveBinlogs s)"
      using D(3) unfolding rec_inv_def by blast
    with live(3,4) show False by auto
  qed
  from D(5) [OF assms(2)] have t: "tid \<noteq> TXNID_UNINITED"
    "ks_aliveTxns s tid = Some (False, TXNID_UNINITED)" by (auto simp: txn_inv_def)
  have al: "ks_aliveTxns ?s' = (ks_aliveTxns s)(tid \<mapsto> (False, ?b))" by (simp add: logged_state_def)
  have "txn_inv dbv wr ?s' t q" if "(pc(tid \<mapsto> p)) t = Some q" for t q
  proof (cases "t = tid")
    case True
    then have [simp]: "q = p" using that by simp
    have tx: "ks_txns ?s' tid = Some tx" by (simp add: logged_state_def)
    from assms(7) show ?thesis
      unfolding txn_inv_def True using tx assms(4-6) t(1) al none rec b0 by auto
  next
    case False
    then show ?thesis
      using that D(5) [of t q] rec al
      by (auto intro!: txn_inv_frame [of dbv wr s t q] simp: logged_state_def)
  qed
  moreover have "live_inv ?s'"
    unfolding live_inv_def bs
  proof (intro conjI ballI)
    show "asc (ks_aliveBinlogs s @ [(?b, False, tid)])" by (intro asc_append live(1)) (simp add: live(4))
    show "head_live (ks_aliveBinlogs s @ [(?b, False, tid)])" by (rule head_live_append [OF live(2)])
    fix i assume "i \<in> ids (ks_aliveBinlogs s @ [(?b, False, tid)])"
    then have "i = ?b \<or> i \<in> ids (ks_aliveBinlogs s)" by (auto simp: ids_def)
    then show "ks_highestVisible ?s' < i" "i < ks_nextBinlogSeq ?s'"
      using live(3,4) lt less_trans [of i ?b "?b + 1"] by (auto simp: logged_state_def)
  next
    show "ks_highestVisible ?s' < ks_nextBinlogSeq ?s'"
      using less_trans [OF live(3) lt] by (simp add: logged_state_def)
  qed (use live in \<open>simp_all add: logged_state_def\<close>)
  moreover have "link_inv ?s'"
    using D(2) t(2) b0 z unfolding link_inv_def bs al by auto
  moreover have "rec_inv dbv ?s'"
    using D(3) unfolding rec_inv_def bs rec by (auto simp: logged_state_def ids_def)
  moreover have "ks_aliveTxns ?s' t = None \<longleftrightarrow> (pc(tid \<mapsto> p)) t = None" for t
    using D(4) [of t] al by simp
  ultimately have "binlog_inv dbv wr (?s', pc(tid \<mapsto> p))" by (intro binlog_invI)
  moreover have "visible_kept dbv s ?s'" using rec by (simp add: visible_kept_def logged_state_def)
  ultimately show ?thesis ..
qed

lemma logged_state_put [simp]:
  "logged_state tid tx (put_txn tid tx' s) = logged_state tid tx s"
  "put_txn tid tx (logged_state tid tx' s) = logged_state tid tx s"
  "ks_db (logged_state tid tx s) = ks_db s" "ks_txns (logged_state tid tx s) tid = Some tx"
  "ks_binlogUsingDefaultCF (logged_state tid tx s) = ks_binlogUsingDefaultCF s"
  "ks_forceRecovery (logged_state tid tx s) = ks_forceRecovery s"
  by (simp_all add: logged_state_def put_txn_def)

lemma ReplLogValueV2_encode_total: "\<exists>val. ReplLogValueV2_encode v vec = ok val"
  by (simp add: ReplLogValueV2_encode_eq)

context rocksdb
begin

lemma inv_log:
  assumes "binlog_inv dbv wr (s, pc)" "pc tid = Some Active" "ks_nextBinlogSeq s + 1 \<noteq> 0"
    and "sthen (mod_txn tid (\<lambda>tx. tx\<lparr>tx_done := True\<rparr>)) (commit_log R sess tid) s = (r, s')"
    and "next_pc r (\<lambda>_. Logged) = Some p"
  shows "binlog_inv dbv wr (s', pc(tid \<mapsto> p)) \<and> visible_kept dbv s s'"
proof -
  note D = binlog_invD [OF assms(1)]
  from D(5) [OF assms(2)] obtain tx x where tx: "ks_txns s tid = Some tx" "tx_txn tx = Some x"
    "tx_txnId tx = tid" "tx_binlogId tx = TXNID_UNINITED" "wr x 1 = Map.empty"
    and al: "ks_aliveTxns s tid = Some (False, TXNID_UNINITED)"
    by (auto simp: txn_inv_def)
  let ?tx = "tx\<lparr>tx_done := True\<rparr>"
  let ?s0 = "put_txn tid ?tx s"
  have l: "commit_log R sess tid ?s0 = (r, s')"
    using assms(4) tx(1) by (simp add: mod_txn_def with_txn_def sbind_def)
  show ?thesis
  proof (cases "tx_replLogValues tx = []")
    case True
    then have "s' = ?s0" "p = Logged"
      using l assms(5) by (auto simp: commit_log_def with_txn_def next_pc_def)
    with inv_log_quiet [OF assms(1,2) tx(1) True] show ?thesis by simp
  next
    case False
    let ?b = "ks_nextBinlogSeq s" and ?tx1 = "tx\<lparr>tx_done := True, tx_binlogId := ks_nextBinlogSeq s\<rparr>"
    have as: "assignBinlogIdIfNeeded tid ?s0 = (ok (), logged_state tid ?tx1 s)"
      using assign_eq [of ?s0 tid ?tx TXNID_UNINITED] tx al by (simp add: put_txn_def [of tid ?tx s])
        (simp add: logged_state_def)
    have pb: "put_binlog R sess tid (logged_state tid ?tx1 s) = (r, s')"
      using l as False by (simp add: commit_log_def with_txn_def sbind_def)
    obtain v where v: "ReplLogValueV2_encode (binlog_value sess ?tx1) (tx_replLogValues ?tx1) = ok v"
      using ReplLogValueV2_encode_total by blast
    have cf: "getBinlogColumnFamilyHandle (logged_state tid ?tx1 s) = 1"
      using D(1) by (simp add: live_inv_def getBinlogColumnFamilyHandle_def)
    obtain rs x' where q: "rd_put R (ks_db s) x 1 (binlog_key ?b) v = (rs, x')" by force
    let ?tx2 = "?tx1\<lparr>tx_txn := Some x'\<rparr>"
    have "checked rs (logged_state tid ?tx2 s) = (r, s')"
      using pb v cf q tx(2) binlog_key_encode [of ?b]
      by (simp add: put_binlog_def with_txn_def RocksTxn_put_def sbind_def)
    then have s': "s' = logged_state tid ?tx2 s"
      and p: "p = (if rs = ROk then Logged else Written TXNID_UNINITED)"
      using assms(5) by (auto simp: checked_def handleRocksdbError_def next_pc_def split: if_split_asm)
    have "wr x' 1 = [binlog_key ?b \<mapsto> Some v]" if "rs = ROk"
      using put_wr [OF q] that tx(5) by (simp add: pend_def)
    with p False have "p = Written TXNID_UNINITED \<or> p = Logged \<and> tx_replLogValues ?tx2 \<noteq> [] \<and>
        (\<exists>v. wr x' 1 = [binlog_key ?b \<mapsto> Some v])" by auto
    from inv_logged_state [OF assms(1-3) _ _ _ this] tx(3) show ?thesis by (simp add: s')
  qed
qed

end

lemma finish_eq:
  assumes "finish_txn tid b s = (ok (), s')" "ks_txns s tid = Some tx"
    and "ks_aliveTxns s tid = Some (c, bid)"
  shows "s' =
    (let s1 = put_txn tid (tx\<lparr>tx_txn := None\<rparr>) s;
         s1 = s1\<lparr>ks_aliveTxns := (ks_aliveTxns s)(tid := None)\<rparr> in
     if bid = TXNID_UNINITED then s1
     else
       let bs = mark_binlog bid b (ks_aliveBinlogs s);
           (hv, bs) = (if fst (hd bs) = bid then pop_committed (ks_highestVisible s) bs
                       else (ks_highestVisible s, bs)) in
       s1\<lparr>ks_highestVisible := hv, ks_aliveBinlogs := bs\<rparr>)"
  using assms
  by (auto simp: finish_txn_def mod_txn_def with_txn_def sbind_def put_txn_def markCommitted_def
      markCommittedInLock_def Let_def split: if_split_asm prod.split prod.split_asm)

text \<open>A finished transaction without a binlog id leaves the list of live binlogs alone.\<close>

lemma inv_finish_quiet:
  assumes "binlog_inv dbv wr (s, pc)" "ks_aliveTxns s tid = Some (c, TXNID_UNINITED)"
    and "s' = s\<lparr>ks_txns := (ks_txns s)(tid \<mapsto> tx), ks_aliveTxns := (ks_aliveTxns s)(tid := None)\<rparr>"
  shows "binlog_inv dbv wr (s', pc(tid := None)) \<and> visible_kept dbv s s'"
proof -
  note D = binlog_invD [OF assms(1)]
  have rec: "rec_at dbv s' i = rec_at dbv s i" for i by (simp add: rec_at_def assms(3))
  have "txn_inv dbv wr s' t p" if "(pc(tid := None)) t = Some p" for t p
  proof (cases "t = tid")
    case False
    then show ?thesis
      using that D(5) [of t p] rec by (auto intro!: txn_inv_frame [of dbv wr s t p] simp: assms(3))
  qed (use that in simp)
  moreover have "live_inv s'" "rec_inv dbv s'"
    using D(1,3) rec by (simp_all add: live_inv_def rec_inv_def assms(3))
  moreover have "link_inv s'"
  proof -
    have "t \<noteq> tid" if "(b, False, t) \<in> set (ks_aliveBinlogs s)" for b t
    proof -
      have "ks_aliveTxns s t = Some (False, b)" using D(2) that by (simp add: link_inv_def)
      moreover have "b \<noteq> TXNID_UNINITED"
        using D(1) that by (force simp: live_inv_def ids_def TXNID_UNINITED_def)
      ultimately show ?thesis using assms(2) by auto
    qed
    then show ?thesis using D(2) by (auto simp: link_inv_def assms(3))
  qed
  moreover have "ks_aliveTxns s' t = None \<longleftrightarrow> (pc(tid := None)) t = None" for t
    using D(4) [of t] by (simp add: assms(3))
  ultimately have "binlog_inv dbv wr (s', pc(tid := None))" by (intro binlog_invI)
  moreover have "visible_kept dbv s s'" using rec by (simp add: visible_kept_def assms(3))
  ultimately show ?thesis ..
qed

lemma head_live_mark:
  assumes "head_live bs" "fst (hd (mark_binlog b t bs)) \<noteq> b"
  shows "head_live (mark_binlog b t bs)"
proof (cases bs)
  case (Cons x xs)
  obtain i c u where "x = (i, c, u)" by (cases x)
  then show ?thesis using assms Cons by (auto simp: head_live_def mark_binlog_def)
qed (simp add: head_live_def mark_binlog_def)

lemma mark_pop_spec:
  assumes "(hv', bs') = (if fst (hd (mark_binlog bid b bs)) = bid
      then pop_committed hv (mark_binlog bid b bs) else (hv, mark_binlog bid b bs))"
    and "asc bs" "head_live bs" "\<forall>i\<in>ids bs. hv < i"
  shows "\<exists>ds. mark_binlog bid b bs = ds @ bs' \<and> (\<forall>(b, c, t)\<in>set ds. c) \<and> head_live bs' \<and> hv \<le> hv' \<and>
    (\<forall>i\<in>ids bs'. hv' < i) \<and> (hv' = hv \<or> hv' \<in> ids ds) \<and>
    (\<forall>(b, c, t)\<in>set ds. t \<noteq> TXNID_UNINITED \<longrightarrow> b \<le> hv')"
proof (cases "fst (hd (mark_binlog bid b bs)) = bid")
  case True
  then have "pop_committed hv (mark_binlog bid b bs) = (hv', bs')" using assms(1) by simp
  from pop_committed_spec [OF this] assms(2,4) show ?thesis by simp
next
  case False
  then have "hv' = hv" "bs' = mark_binlog bid b bs" using assms(1) by simp_all
  then show ?thesis using head_live_mark [OF assms(3) False] assms(4) by (intro exI [of _ "[]"]) simp
qed

lemma inv_finish_marked:
  assumes "binlog_inv dbv wr (s, pc)" "ks_aliveTxns s tid = Some (c, bid)" "bid \<noteq> TXNID_UNINITED"
    and "b = TXNID_UNINITED \<Longrightarrow> rec_at dbv s bid = None"
    and "(hv', bs') = (if fst (hd (mark_binlog bid b (ks_aliveBinlogs s))) = bid
      then pop_committed (ks_highestVisible s) (mark_binlog bid b (ks_aliveBinlogs s))
      else (ks_highestVisible s, mark_binlog bid b (ks_aliveBinlogs s)))"
    and "s' = s\<lparr>ks_txns := (ks_txns s)(tid \<mapsto> tx), ks_aliveTxns := (ks_aliveTxns s)(tid := None),
      ks_highestVisible := hv', ks_aliveBinlogs := bs'\<rparr>"
  shows "binlog_inv dbv wr (s', pc(tid := None)) \<and> visible_kept dbv s s'"
proof -
  note D = binlog_invD [OF assms(1)]
  let ?bs = "ks_aliveBinlogs s" and ?ms = "mark_binlog bid b (ks_aliveBinlogs s)"
  have live: "asc ?bs" "head_live ?bs" "\<forall>i\<in>ids ?bs. ks_highestVisible s < i"
    "ks_highestVisible s < ks_nextBinlogSeq s" "\<And>i. i \<in> ids ?bs \<Longrightarrow> i < ks_nextBinlogSeq s"
    using D(1) by (auto simp: live_inv_def)
  from mark_pop_spec [OF assms(5) live(1-3)] obtain ds where
    ms: "?ms = ds @ bs'" and dc: "\<And>b c t. (b, c, t) \<in> set ds \<Longrightarrow> c" and hl: "head_live bs'"
    and le: "ks_highestVisible s \<le> hv'" and gt: "\<forall>i\<in>ids bs'. hv' < i"
    and hv: "hv' = ks_highestVisible s \<or> hv' \<in> ids ds"
    and vis: "\<And>b c t. (b, c, t) \<in> set ds \<Longrightarrow> t \<noteq> TXNID_UNINITED \<Longrightarrow> b \<le> hv'"
    by blast
  have sub: "set bs' \<subseteq> set ?ms" "set ds \<subseteq> set ?ms" using ms by auto
  have idm: "ids ds \<union> ids bs' = ids ?bs"
    using ids_mark [of bid b ?bs] unfolding ms by (auto simp: ids_def)
  have rec: "rec_at dbv s' i = rec_at dbv s i" for i by (simp add: rec_at_def assms(6))
  have own: "(bid, False, tid) \<in> set ?bs" using D(2) assms(2,3) by (auto simp: link_inv_def)
  have rolled: "rec_at dbv s i = None" if "(i, True, TXNID_UNINITED) \<in> set ?ms" for i
    using that D(3) assms(4) by (cases "i = bid") (auto simp: set_mark rec_inv_def)
  have "txn_inv dbv wr s' t p" if "(pc(tid := None)) t = Some p" for t p
  proof (cases "t = tid")
    case False
    then show ?thesis
      using that D(5) [of t p] rec by (auto intro!: txn_inv_frame [of dbv wr s t p] simp: assms(6))
  qed (use that in simp)
  moreover have "live_inv s'"
  proof -
    have "asc bs'" using live(1) asc_mark [of bid b ?bs] unfolding ms asc_def by (simp add: sorted_wrt_append)
    moreover have "hv' < ks_nextBinlogSeq s" using hv live(4,5) idm by auto
    ultimately show ?thesis using D(1) hl gt live(5) idm by (auto simp: live_inv_def assms(6))
  qed
  moreover have "link_inv s'"
    unfolding link_inv_def
  proof (intro conjI allI impI)
    fix t e i assume a: "ks_aliveTxns s' t = Some (e, i)" "i \<noteq> TXNID_UNINITED"
    then have t: "t \<noteq> tid" "ks_aliveTxns s t = Some (e, i)" by (auto simp: assms(6) split: if_split_asm)
    with D(2) a(2) have i: "(i, False, t) \<in> set ?bs" by (auto simp: link_inv_def)
    have "i \<noteq> bid" using link_unique [OF D(1,2) t(2) _ a(2), of tid c] assms(2) t(1) by auto
    with i have "(i, False, t) \<in> set ?ms" by (simp add: set_mark)
    with dc show "(i, False, t) \<in> set (ks_aliveBinlogs s')" unfolding ms by (auto simp: assms(6))
  next
    fix i t assume "(i, False, t) \<in> set (ks_aliveBinlogs s')"
    then have "(i, False, t) \<in> set ?ms" using sub(1) by (auto simp: assms(6))
    then have i: "i \<noteq> bid" "(i, False, t) \<in> set ?bs" by (auto simp: set_mark split: if_split_asm)
    then have "ks_aliveTxns s t = Some (False, i)" using D(2) by (auto simp: link_inv_def)
    with i(1) assms(2) show "ks_aliveTxns s' t = Some (False, i)" by (auto simp: assms(6))
  qed
  moreover have "rec_inv dbv s'"
    unfolding rec_inv_def rec
  proof (intro conjI allI impI)
    fix i assume "(i, True, TXNID_UNINITED) \<in> set (ks_aliveBinlogs s')"
    then show "rec_at dbv s i = None" using rolled sub(1) by (auto simp: assms(6))
  next
    fix i assume r: "rec_at dbv s i \<noteq> None"
    then consider "i \<le> ks_highestVisible s" | "i \<in> ids ds" | "i \<in> ids bs'"
      using D(3) idm unfolding rec_inv_def by blast
    then show "i \<le> ks_highestVisible s' \<or> i \<in> ids (ks_aliveBinlogs s')"
    proof cases
      case 1
      then show ?thesis using le order_trans by (auto simp: assms(6))
    next
      case 2
      then obtain e u where e: "(i, e, u) \<in> set ds" by (auto simp: ids_def)
      then have "u \<noteq> TXNID_UNINITED" using rolled [of i] dc [OF e] sub(2) r by auto
      then show ?thesis using vis [OF e] by (simp add: assms(6))
    qed (simp add: assms(6))
  qed
  moreover have "ks_aliveTxns s' t = None \<longleftrightarrow> (pc(tid := None)) t = None" for t
    using D(4) [of t] by (simp add: assms(6))
  ultimately have "binlog_inv dbv wr (s', pc(tid := None))" by (intro binlog_invI)
  moreover have "visible_kept dbv s s'" using rec le by (simp add: visible_kept_def assms(6))
  ultimately show ?thesis ..
qed

lemma inv_finish:
  assumes "binlog_inv dbv wr (s, pc)" "pc tid = Some p" "finish_txn tid b s = (ok (), s')"
    and "p = Written b \<or> p = Active \<and> b = TXNID_UNINITED"
  shows "binlog_inv dbv wr (s', pc(tid := None)) \<and> visible_kept dbv s s'"
proof -
  from binlog_invD(5) [OF assms(1,2)] obtain tx where tx: "ks_txns s tid = Some tx"
    "ks_aliveTxns s tid = Some (False, tx_binlogId tx)" "tid \<noteq> TXNID_UNINITED"
    and none: "b = TXNID_UNINITED \<Longrightarrow> tx_binlogId tx \<noteq> TXNID_UNINITED \<Longrightarrow>
      rec_at dbv s (tx_binlogId tx) = None"
    using assms(4) by (auto simp: txn_inv_def)
  note e = finish_eq [OF assms(3) tx(1,2)]
  show ?thesis
  proof (cases "tx_binlogId tx = TXNID_UNINITED")
    case True
    with inv_finish_quiet [OF assms(1), of tid False] tx(2) e show ?thesis
      by (simp add: put_txn_def)
  next
    case False
    obtain hv' bs' where p: "(hv', bs') =
      (if fst (hd (mark_binlog (tx_binlogId tx) b (ks_aliveBinlogs s))) = tx_binlogId tx
       then pop_committed (ks_highestVisible s) (mark_binlog (tx_binlogId tx) b (ks_aliveBinlogs s))
       else (ks_highestVisible s, mark_binlog (tx_binlogId tx) b (ks_aliveBinlogs s)))"
      by (metis surj_pair)
    from e False have "s' = s\<lparr>ks_txns := (ks_txns s)(tid \<mapsto> tx\<lparr>tx_txn := None\<rparr>),
        ks_aliveTxns := (ks_aliveTxns s)(tid := None), ks_highestVisible := hv', ks_aliveBinlogs := bs'\<rparr>"
      by (simp add: put_txn_def Let_def p [symmetric])
    from inv_finish_marked [OF assms(1) tx(2) False none [OF _ False] p this] show ?thesis .
  qed
qed

lemma inv_step:
  assumes "rocksdb R dbv wr" "txn_step R c c'" "binlog_inv dbv wr c"
  shows "binlog_inv dbv wr c' \<and> visible_kept dbv (fst c) (fst c')"
  using assms(2,3)
proof (cases rule: txn_step.cases)
  case (step_create sess s tid s' pc)
  then show ?thesis using inv_create [OF _ _ _ assms(1)] assms(3) by auto
next
  case (step_set pc tid k v ts s r s')
  have "kept wr tid s s'"
    using rocksdb.keeps_setKV [OF assms(1)] step_set(4) unfolding keeps_def by blast
  with inv_kept [of dbv wr s pc tid s'] assms(3) step_set show ?thesis by simp
next
  case (step_del pc tid k ts s r s')
  have "kept wr tid s s'"
    using rocksdb.keeps_delKV [OF assms(1) step_del(4)] step_del(5) unfolding keeps_def by blast
  with inv_kept [of dbv wr s pc tid s'] assms(3) step_del show ?thesis by simp
next
  case (step_log pc tid s sess r s' p)
  then show ?thesis using rocksdb.inv_log [OF assms(1)] assms(3) by auto
next
  case (step_write pc tid s r s' p)
  then show ?thesis using rocksdb.inv_write [OF assms(1)] assms(3) by auto
next
  case (step_finish pc tid b s s')
  then show ?thesis using inv_finish [of dbv wr s pc tid "Written b" b s'] assms(3) by auto
next
  case (step_abort pc tid s s')
  have inv: "binlog_inv dbv wr (s, pc)" using assms(3) step_abort(1) by simp
  from binlog_invD(5) [OF inv step_abort(3)] obtain tx where tx: "ks_txns s tid = Some tx"
    by (auto simp: txn_inv_def)
  have k: "kept wr tid s (put_txn tid (tx\<lparr>tx_done := True\<rparr>) s)"
    using tx by (auto simp: kept_def open_txn_def)
  have f: "finish_txn tid TXNID_UNINITED (put_txn tid (tx\<lparr>tx_done := True\<rparr>) s) = (ok (), s')"
    using step_abort(4) tx by (simp add: mod_txn_def with_txn_def sbind_def)
  note i = inv_kept [OF inv step_abort(3) k]
  have "binlog_inv dbv wr (s', pc(tid := None)) \<and>
      visible_kept dbv (put_txn tid (tx\<lparr>tx_done := True\<rparr>) s) s'"
    using inv_finish [of dbv wr _ pc tid Active TXNID_UNINITED s'] i f step_abort(3) by blast
  with i show ?thesis
    unfolding step_abort(1,2) using visible_kept_trans [of dbv s _ s'] by auto
qed

lemma inv_steps:
  assumes "(txn_step R)\<^sup>*\<^sup>* c c'" "rocksdb R dbv wr" "binlog_inv dbv wr c"
  shows "binlog_inv dbv wr c' \<and> visible_kept dbv (fst c) (fst c')"
  using assms(1)
proof induction
  case base
  then show ?case using assms(3) by simp
next
  case (step c1 c2)
  then show ?case using inv_step [OF assms(2) step(2)] visible_kept_trans by blast
qed

text \<open>C8: in every interleaving of transactions that begin, write, commit, fail and abort, the binlog
  up to the highest visible id never changes again and the highest visible id never decreases; and
  every committed binlog record whose id is below those of all commits in progress is visible.\<close>

theorem binlog_visible_prefix_stable:
  assumes "rocksdb R dbv wr" "started dbv s0"
    and "(txn_step R)\<^sup>*\<^sup>* (s0, Map.empty) (s, pc)" "(txn_step R)\<^sup>*\<^sup>* (s, pc) (s', pc')"
  shows "ks_highestVisible s \<le> ks_highestVisible s' \<and>
    (\<forall>i\<le>ks_highestVisible s.
       dbv (ks_db s') 1 (binlog_key i) = dbv (ks_db s) 1 (binlog_key i)) \<and>
    (\<forall>i. dbv (ks_db s) 1 (binlog_key i) \<noteq> None \<longrightarrow> (\<forall>j\<in>fst ` set (ks_aliveBinlogs s). i < j) \<longrightarrow>
       i \<le> ks_highestVisible s)"
proof -
  have inv: "binlog_inv dbv wr (s, pc)"
    using inv_steps [OF assms(3,1) started_inv [OF assms(2)]] by simp
  have "visible_kept dbv s s'" using inv_steps [OF assms(4,1) inv] by simp
  moreover have "rec_inv dbv s" using inv by (rule binlog_invD)
  ultimately show ?thesis by (auto simp: visible_kept_def rec_inv_def rec_at_def ids_def)
qed

definition race_0 :: "(memdb, memtxn) RocksKVStore" where
  "race_0 = snd (createTransaction mem_rocks None (snd (createTransaction mem_rocks None sample_store)))"
definition race_1 :: "(memdb, memtxn) RocksKVStore" where
  "race_1 = snd (RocksTxn_setKV mem_rocks 2 [0, 0, 0, 8, 97] [3] 0
     (snd (RocksTxn_setKV mem_rocks 1 [0, 0, 0, 7, 97] [1, 2] 0 race_0)))"
definition race_log :: "u64 \<Rightarrow> (memdb, memtxn, unit) kst" where
  "race_log tid = sthen (mod_txn tid (\<lambda>tx. tx\<lparr>tx_done := True\<rparr>)) (commit_log mem_rocks None tid)"
definition race_2 :: "(memdb, memtxn) RocksKVStore" where
  "race_2 = snd (race_log 2 (snd (race_log 1 race_1)))"
definition race_3 :: "(memdb, memtxn) RocksKVStore" where
  "race_3 = snd (finish_txn 2 2 (snd (commit_write mem_rocks 2 race_2)))"
definition race_4 :: "(memdb, memtxn) RocksKVStore" where
  "race_4 = snd (finish_txn 1 1 (snd (commit_write mem_rocks 1 race_3)))"

lemma race_results:
  "fst (createTransaction mem_rocks None sample_store) = ok 1"
  "fst (createTransaction mem_rocks None (snd (createTransaction mem_rocks None sample_store))) = ok 2"
  "ks_nextTxnSeq (snd (createTransaction mem_rocks None sample_store)) + 1 \<noteq> 0"
  "fst (race_log 1 race_1) = ok ()" "fst (race_log 2 (snd (race_log 1 race_1))) = ok ()"
  "ks_nextBinlogSeq race_1 + 1 \<noteq> 0" "ks_nextBinlogSeq (snd (race_log 1 race_1)) + 1 \<noteq> 0"
  "fst (commit_write mem_rocks 2 race_2) = ok 2"
  "fst (finish_txn 2 2 (snd (commit_write mem_rocks 2 race_2))) = ok ()"
  "fst (commit_write mem_rocks 1 race_3) = ok 1"
  "fst (finish_txn 1 1 (snd (commit_write mem_rocks 1 race_3))) = ok ()"
  "ks_highestVisible race_3 = 0" "map fst (ks_aliveBinlogs race_3) = [1, 2]"
  "ks_highestVisible race_4 = 2"
  by code_simp+

lemma race_log_step:
  assumes "pc tid = Some Active" "ks_nextBinlogSeq s + 1 \<noteq> 0" "fst (race_log tid s) = ok ()"
  shows "txn_step mem_rocks (s, pc) (snd (race_log tid s), pc(tid \<mapsto> Logged))"
  using step_log [of pc tid s mem_rocks None "ok ()" "snd (race_log tid s)" Logged] assms
    pair_fst [OF assms(3)]
  by (simp add: race_log_def next_pc_def)

lemma race_steps:
  "(txn_step mem_rocks)\<^sup>*\<^sup>* (sample_store, Map.empty) (race_3, [1 \<mapsto> Logged])"
  "(txn_step mem_rocks)\<^sup>*\<^sup>* (race_3, [1 \<mapsto> Logged]) (race_4, Map.empty)"
proof -
  let ?st = "txn_step mem_rocks" and ?r = "race_results"
  let ?a = "snd (createTransaction mem_rocks None sample_store)"
  let ?b = "snd (RocksTxn_setKV mem_rocks 1 [0, 0, 0, 7, 97] [1, 2] 0 race_0)"
  have 1: "?st (sample_store, Map.empty) (?a, [1 \<mapsto> Active])"
    by (rule step_create [OF pair_fst [OF race_results(1)]]) (simp add: sample_store_def)
  have 2: "?st (?a, [1 \<mapsto> Active]) (race_0, [1 \<mapsto> Active, 2 \<mapsto> Active])"
    unfolding race_0_def by (rule step_create [OF pair_fst [OF race_results(2)] race_results(3)])
  have 3: "?st (race_0, [1 \<mapsto> Active, 2 \<mapsto> Active]) (?b, [1 \<mapsto> Active, 2 \<mapsto> Active])"
    by (rule step_set [where tid = 1, OF _ pair_fst [OF refl]]) simp
  have 4: "?st (?b, [1 \<mapsto> Active, 2 \<mapsto> Active]) (race_1, [1 \<mapsto> Active, 2 \<mapsto> Active])"
    unfolding race_1_def by (rule step_set [where tid = 2, OF _ pair_fst [OF refl]]) simp
  have 5: "?st (race_1, [1 \<mapsto> Active, 2 \<mapsto> Active])
      (snd (race_log 1 race_1), [1 \<mapsto> Active, 2 \<mapsto> Active, 1 \<mapsto> Logged])"
    by (rule race_log_step [OF _ race_results(6,4)]) simp
  have 6: "?st (snd (race_log 1 race_1), [1 \<mapsto> Active, 2 \<mapsto> Active, 1 \<mapsto> Logged])
      (race_2, [1 \<mapsto> Active, 2 \<mapsto> Active, 1 \<mapsto> Logged, 2 \<mapsto> Logged])"
    unfolding race_2_def
    by (rule race_log_step [OF _ race_results(7,5)]) simp
  have 7: "?st (race_2, [1 \<mapsto> Active, 2 \<mapsto> Active, 1 \<mapsto> Logged, 2 \<mapsto> Logged])
      (snd (commit_write mem_rocks 2 race_2),
       [1 \<mapsto> Active, 2 \<mapsto> Active, 1 \<mapsto> Logged, 2 \<mapsto> Logged, 2 \<mapsto> Written 2])"
    by (rule step_write [OF _ pair_fst [OF race_results(8)]]) (simp_all add: next_pc_def)
  have e: "[1 :: u64 \<mapsto> Active, 2 \<mapsto> Active, 1 \<mapsto> Logged, 2 \<mapsto> Logged, 2 \<mapsto> Written 2](2 := None) = [1 \<mapsto> Logged]"
    by (simp add: fun_eq_iff)
  have 8: "?st (snd (commit_write mem_rocks 2 race_2),
       [1 \<mapsto> Active, 2 \<mapsto> Active, 1 \<mapsto> Logged, 2 \<mapsto> Logged, 2 \<mapsto> Written 2]) (race_3, [1 \<mapsto> Logged])"
    unfolding race_3_def
    by (rule step_finish [OF _ pair_fst [OF race_results(9)], where pc = "[1 \<mapsto> Active, 2 \<mapsto> Active,
          1 \<mapsto> Logged, 2 \<mapsto> Logged, 2 \<mapsto> Written 2]", unfolded e]) simp
  show "?st\<^sup>*\<^sup>* (sample_store, Map.empty) (race_3, [1 \<mapsto> Logged])"
    using 1 2 3 4 5 6 7 8 by (meson rtranclp.rtrancl_into_rtrancl rtranclp.rtrancl_refl)
  have 9: "?st (race_3, [1 \<mapsto> Logged])
      (snd (commit_write mem_rocks 1 race_3), [1 \<mapsto> Logged, 1 \<mapsto> Written 1])"
    by (rule step_write [OF _ pair_fst [OF race_results(10)]]) (simp_all add: next_pc_def)
  have e: "[1 :: u64 \<mapsto> Logged, 1 \<mapsto> Written 1](1 := None) = Map.empty" by (simp add: fun_eq_iff)
  have 10: "?st (snd (commit_write mem_rocks 1 race_3), [1 \<mapsto> Logged, 1 \<mapsto> Written 1]) (race_4, Map.empty)"
    unfolding race_4_def
    by (rule step_finish [OF _ pair_fst [OF race_results(11)],
          where pc = "[1 \<mapsto> Logged, 1 \<mapsto> Written 1]", unfolded e]) simp
  show "?st\<^sup>*\<^sup>* (race_3, [1 \<mapsto> Logged]) (race_4, Map.empty)"
    using 9 10 by (meson rtranclp.rtrancl_into_rtrancl rtranclp.rtrancl_refl)
qed

text \<open>Transaction 2 commits first but stays invisible until transaction 1, with the smaller binlog id,
  has finished.\<close>

theorem binlog_visible_prefix_stable_witness:
  "ks_highestVisible race_3 = 0 \<and> ks_highestVisible race_4 = 2 \<and>
   mem_lookup (ks_db race_4) 1 (binlog_key 0) = mem_lookup (ks_db race_3) 1 (binlog_key 0)"
proof -
  have "started mem_lookup sample_store"
    by (simp add: started_def sample_store_def mem_lookup_def)
  from binlog_visible_prefix_stable [OF mem.rocksdb_axioms this race_steps] race_results(12,14)
  show ?thesis by simp
qed

end
