(* ===== verification/KVStore.thy ===== *)
theory KVStore
  imports Transactions
begin

section \<open>The store interface (storage/kvstore.h) and the stores of a server\<close>

text \<open>
  \<open>KVStore\<close> and \<open>Transaction\<close> are abstract classes; commands call their virtual functions. \<open>kvops\<close> is
  the table of the functions the modelled commands use, over the state \<open>'s\<close> of all stores; the
  first \<open>nat\<close> is the store, \<open>u64\<close> the transaction. \<open>rocks_ops\<close> is the table of \<open>RocksKVStore\<close> and
  \<open>RocksTxn\<close>.
\<close>

record 's kvops =
  kv_createTransaction :: "TxnSession option \<Rightarrow> nat \<Rightarrow> ('s, u64) st"
  kv_getKV :: "nat \<Rightarrow> u64 \<Rightarrow> RecordKey \<Rightarrow> ('s, RecordValue) st"
  kv_setKV :: "nat \<Rightarrow> u64 \<Rightarrow> RecordKey \<Rightarrow> RecordValue \<Rightarrow> ('s, unit) st"
  kv_delKV :: "nat \<Rightarrow> u64 \<Rightarrow> RecordKey \<Rightarrow> ('s, unit) st"
  kv_deleteRange :: "nat \<Rightarrow> bytes \<Rightarrow> bytes \<Rightarrow> ('s, unit) st"
  kv_getMode :: "nat \<Rightarrow> ('s, StoreMode) st"
  kv_isPaused :: "nat \<Rightarrow> ('s, bool) st"
  txn_delKV :: "nat \<Rightarrow> u64 \<Rightarrow> bytes \<Rightarrow> ('s, unit) st"
  txn_createDataCursor :: "nat \<Rightarrow> u64 \<Rightarrow> ('s, BasicDataCursor) st"
  txn_commit :: "TxnSession option \<Rightarrow> nat \<Rightarrow> u64 \<Rightarrow> ('s, u64) st"
  txn_rollback :: "nat \<Rightarrow> u64 \<Rightarrow> ('s, unit) st"
  txn_destroy :: "nat \<Rightarrow> u64 \<Rightarrow> ('s, unit) st"
  txn_isReplOnly :: "nat \<Rightarrow> u64 \<Rightarrow> ('s, bool) st"
  clock_ms :: "nat \<Rightarrow> ('s, u64) st"

subsection \<open>The functions of RocksKVStore\<close>

type_synonym ('d, 't) stores = "('d, 't) RocksKVStore list"

text \<open>\<open>_instances[sid]\<close>: undefined outside the vector.\<close>

definition on_store :: "nat \<Rightarrow> ('d, 't, 'a) kst \<Rightarrow> (('d, 't) stores, 'a) st" where
  "on_store sid m ss =
    (if sid < length ss then (case m (ss ! sid) of (r, s') \<Rightarrow> (r, ss[sid := s']))
     else (Inl Undef, ss))"

definition rocks_ops :: "('d, 't) rocks \<Rightarrow> ('d, 't) stores kvops" where
  "rocks_ops R =
     \<lparr>kv_createTransaction = (\<lambda>sess sid. on_store sid (createTransaction R sess)),
      kv_getKV = (\<lambda>sid tid k. on_store sid (RocksKVStore_getKV R tid k)),
      kv_setKV = (\<lambda>sid tid k v. on_store sid (RocksKVStore_setKV R tid k v)),
      kv_delKV = (\<lambda>sid tid k. on_store sid (RocksKVStore_delKV R tid k)),
      kv_deleteRange = (\<lambda>sid b e. on_store sid (RocksKVStore_deleteRange R b e False False)),
      kv_getMode = (\<lambda>sid. on_store sid (sget (\<lambda>s. sret (ks_mode s)))),
      kv_isPaused = (\<lambda>sid. on_store sid (sget (\<lambda>s. sret (ks_isPaused s)))),
      txn_delKV = (\<lambda>sid tid k. on_store sid (RocksTxn_delKV R tid k 0)),
      txn_createDataCursor = (\<lambda>sid tid. on_store sid (createDataCursor R tid)),
      txn_commit = (\<lambda>sess sid tid. on_store sid (RocksTxn_commit R sess tid)),
      txn_rollback = (\<lambda>sid tid. on_store sid (RocksTxn_rollback R tid)),
      txn_destroy = (\<lambda>sid tid. on_store sid (RocksTxn_destroy tid)),
      txn_isReplOnly = (\<lambda>sid tid. on_store sid (with_txn tid (\<lambda>tx. sret (tx_replOnly tx)))),
      clock_ms = (\<lambda>sid. on_store sid msSinceEpoch)\<rparr>"

subsection \<open>What a command relies on\<close>

text \<open>
  \<open>cv s sid\<close> is the committed data of a store, \<open>tv s sid tid\<close> what an open transaction reads, and
  \<open>dead s sid tid\<close> says that the transaction object is finished. Operations may fail with an error;
  only a successful commit changes the committed data.
\<close>

locale kv_store =
  fixes ops :: "'s kvops" and inv :: "'s \<Rightarrow> bool"
    and cv :: "'s \<Rightarrow> nat \<Rightarrow> bytes \<rightharpoonup> bytes"
    and tv :: "'s \<Rightarrow> nat \<Rightarrow> u64 \<Rightarrow> (bytes \<rightharpoonup> bytes) option"
    and dead :: "'s \<Rightarrow> nat \<Rightarrow> u64 \<Rightarrow> bool"
  assumes create_law: "inv s \<Longrightarrow> kv_createTransaction ops sess sid s = (rc, s') \<Longrightarrow>
      inv s' \<and> cv s' = cv s \<and> (\<forall>tid. rc = ok tid \<longrightarrow> tv s' sid tid = Some (cv s sid))"
    and get_law: "inv s \<Longrightarrow> tv s sid tid = Some v \<Longrightarrow> rk_type k \<noteq> RT_BINLOG \<Longrightarrow>
      kv_getKV ops sid tid k s = (rg, s') \<Longrightarrow>
      inv s' \<and> cv s' = cv s \<and> tv s' sid tid = Some v \<and>
      (\<forall>rv. rg = ok rv \<longrightarrow> (\<exists>kb b. RecordKey_encode k = ok kb \<and> v kb = Some b \<and> RecordValue_decode b = ok rv)) \<and>
      (\<forall>m. rg = err ERR_NOTFOUND m \<longrightarrow> (\<exists>kb. RecordKey_encode k = ok kb \<and> v kb = None))"
    and set_law: "inv s \<Longrightarrow> tv s sid tid = Some v \<Longrightarrow> kv_setKV ops sid tid k x s = (rs, s') \<Longrightarrow>
      inv s' \<and> cv s' = cv s \<and> (\<forall>u. rs = ok u \<longrightarrow>
        (\<exists>kb b. RecordKey_encode k = ok kb \<and> RecordValue_encode x = ok b \<and> tv s' sid tid = Some (v(kb \<mapsto> b)))) \<and>
      (\<forall>m. rs \<noteq> err ERR_NOTFOUND m \<and> rs \<noteq> err ERR_COMMIT_RETRY m)"
    and del_law: "inv s \<Longrightarrow> tv s sid tid = Some v \<Longrightarrow> rk_type k \<noteq> RT_BINLOG \<Longrightarrow>
      kv_delKV ops sid tid k s = (rd, s') \<Longrightarrow>
      inv s' \<and> cv s' = cv s \<and> (\<forall>u. rd = ok u \<longrightarrow>
        (\<exists>kb. RecordKey_encode k = ok kb \<and> tv s' sid tid = Some (v(kb := None)))) \<and>
      (\<forall>m. rd \<noteq> err ERR_NOTFOUND m \<and> rd \<noteq> err ERR_COMMIT_RETRY m)"
    and rawdel_law: "inv s \<Longrightarrow> tv s sid tid = Some v \<Longrightarrow> RecordKey_decodeType kb \<noteq> ok RT_BINLOG \<Longrightarrow>
      txn_delKV ops sid tid kb s = (rw, s') \<Longrightarrow>
      inv s' \<and> cv s' = cv s \<and> (\<forall>u. rw = ok u \<longrightarrow> tv s' sid tid = Some (v(kb := None))) \<and>
      (\<forall>m. rw \<noteq> err ERR_NOTFOUND m \<and> rw \<noteq> err ERR_COMMIT_RETRY m)"
    and commit_law: "inv s \<Longrightarrow> tv s sid tid = Some v \<Longrightarrow> txn_commit ops sess sid tid s = (rm, s') \<Longrightarrow>
      inv s' \<and> (cv s' = cv s \<or> cv s' = (cv s)(sid := v)) \<and>
      (\<forall>n. rm = ok n \<longrightarrow> cv s' = (cv s)(sid := v)) \<and>
      (\<forall>c m. rm = err c m \<longrightarrow> cv s' = cv s \<and> dead s' sid tid)"
    and dead_law: "dead s sid tid \<Longrightarrow> rk_type k \<noteq> RT_INVALID \<Longrightarrow> rv_type x \<noteq> RT_INVALID \<Longrightarrow>
      kv_getKV ops sid tid k s = (Inl Undef, s) \<and>
      ((\<exists>m. kv_setKV ops sid tid k x s = (err ERR_INTERNAL m, s)) \<or>
       kv_setKV ops sid tid k x s = (Inl Undef, s))"
    and destroy_law: "inv s \<Longrightarrow> txn_destroy ops sid tid s = (ry, s') \<Longrightarrow> inv s' \<and> cv s' = cv s"

subsection \<open>The stores of the server keep these promises\<close>

definition stores_inv :: "('d, 't) stores \<Rightarrow> bool" where
  "stores_inv ss \<longleftrightarrow> (\<forall>s\<in>set ss. \<not> ks_binlogUsingDefaultCF s)"

definition committed :: "('d \<Rightarrow> contents) \<Rightarrow> ('d, 't) stores \<Rightarrow> nat \<Rightarrow> bytes \<rightharpoonup> bytes" where
  "committed dbv ss sid = (if sid < length ss then dbv (ks_db (ss ! sid)) 0 else Map.empty)"

definition txn_view ::
  "('d \<Rightarrow> contents) \<Rightarrow> ('t \<Rightarrow> pending) \<Rightarrow> ('d, 't) stores \<Rightarrow> nat \<Rightarrow> u64 \<Rightarrow> (bytes \<rightharpoonup> bytes) option" where
  "txn_view dbv wr ss sid tid =
    (if sid < length ss
     then (case ks_txns (ss ! sid) tid of
             None \<Rightarrow> None
           | Some tx \<Rightarrow> map_option (\<lambda>t. overlay (dbv (ks_db (ss ! sid))) (wr t) 0) (tx_txn tx))
     else None)"

definition txn_dead :: "('d, 't) stores \<Rightarrow> nat \<Rightarrow> u64 \<Rightarrow> bool" where
  "txn_dead ss sid tid \<longleftrightarrow>
     sid < length ss \<and> (\<exists>tx. ks_txns (ss ! sid) tid = Some tx \<and> tx_txn tx = None)"

lemma txn_view_Some:
  "txn_view dbv wr ss sid tid = Some v \<longleftrightarrow> sid < length ss \<and>
     (\<exists>tx t. open_txn (ss ! sid) tid tx t \<and> v = overlay (dbv (ks_db (ss ! sid))) (wr t) 0)"
  by (auto simp: txn_view_def open_txn_def split: option.split)

lemma on_store_eqE:
  assumes "on_store sid m ss = (r, ss')" "sid < length ss"
  obtains s' where "m (ss ! sid) = (r, s')" "ss' = ss[sid := s']"
  using assms by (auto simp: on_store_def split: prod.split_asm)

lemma committed_update:
  assumes "sid < length ss"
  shows "committed dbv (ss[sid := s']) = (committed dbv ss)(sid := dbv (ks_db s') 0)"
  using assms by (auto simp: committed_def fun_eq_iff nth_list_update)

lemma committed_same:
  assumes "sid < length ss" "ks_db s' = ks_db (ss ! sid)"
  shows "committed dbv (ss[sid := s']) = committed dbv ss"
  using assms by (auto simp: committed_def fun_eq_iff nth_list_update)

lemma stores_inv_update:
  "stores_inv ss \<Longrightarrow> ks_binlogUsingDefaultCF s' = ks_binlogUsingDefaultCF (ss ! sid) \<Longrightarrow>
   sid < length ss \<Longrightarrow> stores_inv (ss[sid := s'])"
  unfolding stores_inv_def by (metis (no_types, lifting) in_set_conv_nth length_list_update nth_list_update)

lemma stores_invD: "stores_inv ss \<Longrightarrow> sid < length ss \<Longrightarrow> \<not> ks_binlogUsingDefaultCF (ss ! sid)"
  by (simp add: stores_inv_def)

text \<open>An operation that only touches its transaction.\<close>

lemma on_store_local:
  assumes "local_op tid m" "stores_inv ss" "on_store sid m ss = (r, ss')"
  shows "stores_inv ss' \<and> committed dbv ss' = committed dbv ss"
proof (cases "sid < length ss")
  case True
  with assms(3) obtain s' where m: "m (ss ! sid) = (r, s')" and ss': "ss' = ss[sid := s']"
    by (rule on_store_eqE)
  note T = touchesD [OF local_opD [OF assms(1) m]]
  show ?thesis unfolding ss'
    using stores_inv_update [OF assms(2) T(5) True] committed_same [OF True T(11)] by simp
next
  case False
  then show ?thesis using assms by (simp add: on_store_def)
qed

lemma RocksTxn_getKV_cases:
  assumes "RocksTxn_getKV R tid kb s = (r, s')" "open_txn s tid tx t"
    and "RecordKey_decodeType kb = ok ty" "ty \<noteq> RT_BINLOG"
  obtains (found) b where "rd_get R (ks_db s) t 0 kb = (ROk, b)" "r = ok b"
    | (missing) b m where "rd_get R (ks_db s) t 0 kb = (RNotFound, b)" "r = err ERR_NOTFOUND m"
    | (failed) "\<And>b. r \<noteq> ok b" "\<And>m. r \<noteq> err ERR_NOTFOUND m"
proof -
  obtain rs b where g: "rd_get R (ks_db s) t 0 kb = (rs, b)" by force
  have "RocksTxn_getKV R tid kb s = (if rs = ROk then sret b else
      if rs = RNotFound then serr ERR_NOTFOUND ''NotFound: '' else handleRocksdbError rs) s"
    using assms(2-4) g
    by (simp add: RocksTxn_getKV_def RocksTxn_get_def with_txn_def open_txn_def sbind_def
        getColumnFamilyHandleByRecordType_def getDataColumnFamilyHandle_def)
  with assms(1) g found missing failed show thesis
    by (auto simp: handleRocksdbError_def split: if_split_asm)
qed

text \<open>The decoders report nothing but \<open>ERR_DECODE\<close>.\<close>

definition decode_errs :: "'a expected \<Rightarrow> bool" where
  "decode_errs e \<longleftrightarrow> (\<forall>c m. e = err c m \<longrightarrow> c = ERR_DECODE)"

lemma decode_errs_simps [simp]:
  "decode_errs (Inr x)" "decode_errs (err ERR_DECODE m)" "decode_errs (Inl Undef)" "decode_errs (Inl Fatal)"
  by (simp_all add: decode_errs_def)

lemma decode_errs_ebind:
  "decode_errs m \<Longrightarrow> (\<And>x. m = Inr x \<Longrightarrow> decode_errs (f x)) \<Longrightarrow> decode_errs (ebind m f)"
  by (cases m) (auto simp: decode_errs_def)

lemma decode_errs_if:
  "(c \<Longrightarrow> decode_errs a) \<Longrightarrow> (\<not> c \<Longrightarrow> decode_errs b) \<Longrightarrow> decode_errs (if c then a else b)"
  by simp

lemma decode_errs_reads: "decode_errs (rd8 b i)" "decode_errs (rdstr b i n)" "decode_errs (shl64 v k)"
  by (simp_all add: rd8_def rdstr_def shl64_def)

lemma decode_errs_loop: "decode_errs (varintDecodeFwd_loop input maxSize i ret)"
proof (induction input maxSize i ret rule: varintDecodeFwd_loop.induct)
  case (1 input maxSize i ret)
  show ?case
    by (subst varintDecodeFwd_loop.simps)
      (auto intro!: decode_errs_ebind decode_errs_reads decode_errs_if 1 split: if_split)
qed

lemma decode_errs_varintAt: "decode_errs (varintAt b i)"
  unfolding varintAt_def varintDecodeFwd_def varintDecodeFwd_last_def
  by (auto intro!: decode_errs_ebind decode_errs_loop decode_errs_reads split: prod.split)

lemma decode_errs_RecordValue: "decode_errs (RecordValue_decode b)"
  unfolding RecordValue_decode_def Let_def
  by (auto intro!: decode_errs_ebind decode_errs_reads decode_errs_varintAt split: prod.split)

lemma RecordKey_encode_fault: "RecordKey_encode k = Inl e \<Longrightarrow> e = Fatal"
  by (cases "rk_type k") (auto simp: RecordKey_encode_def encodePrefixPk_def)

lemma RecordValue_encode_fault:
  assumes "RecordValue_encode v = Inl e"
  shows "e = Fatal"
proof (cases "rv_type v = RT_INVALID")
  case True
  then show ?thesis using assms by (simp add: RecordValue_encode_def)
next
  case False
  then show ?thesis using RecordValue_encode_total [of v] assms by auto
qed

lemma RecordKey_encode_type:
  assumes "RecordKey_encode k = ok kb"
  shows "RecordKey_decodeType kb = ok (rk_type k)"
  using RecordKey_decode_fields [OF assms] by simp

lemma local_put_binlog: "local_op tid (put_binlog R sess tid)"
  unfolding put_binlog_def by (intro local_intros)

lemma finish_txn_fields:
  assumes "finish_txn tid b s = (r, s')" "ks_txns s tid = Some tx"
  shows "ks_txns s' tid = Some (tx\<lparr>tx_txn := None\<rparr>)"
    "ks_binlogUsingDefaultCF s' = ks_binlogUsingDefaultCF s"
proof -
  let ?s1 = "put_txn tid (tx\<lparr>tx_txn := None\<rparr>) s"
  have m: "markCommitted tid b ?s1 = (r, s')"
    using assms by (simp add: finish_txn_def mod_txn_def with_txn_def sbind_def)
  from markCommitted_db [OF this] show "ks_txns s' tid = Some (tx\<lparr>tx_txn := None\<rparr>)" by simp
  from m show "ks_binlogUsingDefaultCF s' = ks_binlogUsingDefaultCF s"
    by (auto simp: markCommitted_def markCommittedInLock_def Let_def put_txn_def
        split: if_split_asm option.split_asm prod.split_asm)
qed

lemma finish_txn_no_status: "finish_txn tid b s \<noteq> (err c m, s')"
  by (auto simp: finish_txn_def mod_txn_def with_txn_def sbind_def markCommitted_def
      markCommittedInLock_def Let_def split: if_split_asm option.split_asm prod.split_asm)

context rocksdb
begin

lemma put_binlog_any:
  assumes "put_binlog R sess tid s = (r, s')" "open_txn s tid tx t" "\<not> ks_binlogUsingDefaultCF s"
  shows "\<exists>tx' t'. open_txn s' tid tx' t' \<and> wr t' 0 = wr t 0"
proof -
  have tx: "ks_txns s tid = Some tx" "tx_txn tx = Some t" using assms(2) by (auto simp: open_txn_def)
  obtain k where k: "ReplLogKeyV2_encode (tx_binlogId tx) = ok k" using ReplLogKeyV2_encode_total by blast
  obtain v where v: "ReplLogValueV2_encode (binlog_value sess tx) (tx_replLogValues tx) = ok v"
    by (simp add: ReplLogValueV2_encode_eq)
  obtain rs t' where p: "rd_put R (ks_db s) t 1 k v = (rs, t')" by force
  have "checked rs (put_txn tid (tx\<lparr>tx_txn := Some t'\<rparr>) s) = (r, s')"
    using assms(1,3) tx k v p
    by (simp add: put_binlog_def with_txn_def RocksTxn_put_def sbind_def getBinlogColumnFamilyHandle_def)
  then have "s' = put_txn tid (tx\<lparr>tx_txn := Some t'\<rparr>) s"
    by (auto simp: checked_def handleRocksdbError_def split: if_split_asm)
  moreover have "wr t' 0 = wr t 0" using put_wr [OF p] by (simp add: pend_def)
  ultimately show ?thesis
    by (intro exI [of _ "tx\<lparr>tx_txn := Some t'\<rparr>"] exI [of _ t']) (simp add: open_txn_def)
qed

lemma commit_log_any:
  assumes "commit_log R sess tid s = (r, s')" "open_txn s tid tx t" "\<not> ks_binlogUsingDefaultCF s"
  shows "ks_db s' = ks_db s \<and> \<not> ks_binlogUsingDefaultCF s' \<and>
    (\<exists>tx' t'. open_txn s' tid tx' t' \<and> wr t' 0 = wr t 0)"
proof -
  have tx: "ks_txns s tid = Some tx" "tx_txn tx = Some t" using assms(2) by (auto simp: open_txn_def)
  show ?thesis
  proof (cases "tx_replLogValues tx = []")
    case True
    then show ?thesis using assms tx by (auto simp: commit_log_def with_txn_def)
  next
    case False
    then have "sthen (assignBinlogIdIfNeeded tid) (put_binlog R sess tid) s = (r, s')"
      using assms(1) tx by (simp add: commit_log_def with_txn_def)
    then show ?thesis
    proof (cases rule: sbind_eqE)
      case (fail e)
      note f = assign_fields [OF fail(1) tx(1)]
      then show ?thesis using tx assms(3) by (auto simp: open_txn_def)
    next
      case (cont u s1)
      note f = assign_fields [OF cont(1) tx(1)]
      have o: "open_txn s1 tid (tx\<lparr>tx_binlogId := binlog_id_of s tx\<rparr>) t" "\<not> ks_binlogUsingDefaultCF s1"
        using f tx assms(3) by (auto simp: open_txn_def)
      from put_binlog_any [OF cont(2) o] touchesD(5,11) [OF local_opD [OF local_put_binlog cont(2)]] f o
      show ?thesis by simp
    qed
  qed
qed

lemma commit_write_any:
  assumes "commit_write R tid s = (r, s')" "open_txn s tid tx t"
  shows "ks_txns s' = ks_txns s \<and> ks_binlogUsingDefaultCF s' = ks_binlogUsingDefaultCF s \<and>
    dbv (ks_db s') = (if isl r then dbv (ks_db s) else overlay (dbv (ks_db s)) (wr t))"
proof -
  obtain rs d where c: "rd_commit R (ks_db s) t = (rs, d)" by force
  have "s' = s\<lparr>ks_db := d\<rparr>" "isl r \<longleftrightarrow> rs \<noteq> ROk"
    using assms c by (auto simp: commit_write_def with_txn_def open_txn_def Let_def handleRocksdbError_def
        split: if_split_asm)
  then show ?thesis using commit_db [OF c] by simp
qed

lemma commit_any:
  assumes "RocksTxn_commit R sess tid s = (r, s')" "open_txn s tid tx t" "\<not> ks_binlogUsingDefaultCF s"
  shows "\<not> ks_binlogUsingDefaultCF s' \<and>
    (dbv (ks_db s') 0 = dbv (ks_db s) 0 \<or> dbv (ks_db s') 0 = overlay (dbv (ks_db s)) (wr t) 0) \<and>
    (\<forall>n. r = ok n \<longrightarrow> dbv (ks_db s') 0 = overlay (dbv (ks_db s)) (wr t) 0) \<and>
    (\<forall>c m. r = err c m \<longrightarrow> dbv (ks_db s') 0 = dbv (ks_db s) 0 \<and>
       (\<exists>tx'. ks_txns s' tid = Some tx' \<and> tx_txn tx' = None))"
proof -
  have tx: "ks_txns s tid = Some tx" "tx_txn tx = Some t" using assms(2) by (auto simp: open_txn_def)
  let ?s0 = "put_txn tid (tx\<lparr>tx_done := True\<rparr>) s"
  let ?body = "sthen (commit_log R sess tid) (commit_write R tid)"
  have o0: "open_txn ?s0 tid (tx\<lparr>tx_done := True\<rparr>) t" "\<not> ks_binlogUsingDefaultCF ?s0"
    using tx assms(3) by (simp_all add: open_txn_def put_txn_def)
  obtain rb s2 where b: "?body ?s0 = (rb, s2)" by force
  have B: "\<not> ks_binlogUsingDefaultCF s2 \<and> (\<exists>tx2. ks_txns s2 tid = Some tx2) \<and>
      dbv (ks_db s2) 0 = (if isl rb then dbv (ks_db s) 0 else overlay (dbv (ks_db s)) (wr t) 0)"
    using b
  proof (cases rule: sbind_eqE)
    case (fail e)
    from commit_log_any [OF fail(1) o0] fail(2) show ?thesis by (auto simp: open_txn_def)
  next
    case (cont u s1)
    from commit_log_any [OF cont(1) o0] obtain tx1 t1 where 1: "ks_db s1 = ks_db s"
      "\<not> ks_binlogUsingDefaultCF s1" "open_txn s1 tid tx1 t1" "wr t1 0 = wr t 0" by auto
    then have "overlay m (wr t1) 0 = overlay m (wr t) 0" for m by (simp add: overlay_def fun_eq_iff)
    with commit_write_any [OF cont(2) 1(3)] 1 show ?thesis by (auto simp: open_txn_def)
  qed
  then obtain tx2 where tx2: "ks_txns s2 tid = Some tx2" by blast
  have c: "RocksTxn_commit R sess tid s = stry ?body (\<lambda>r. case r of
         Inr b \<Rightarrow> sthen (finish_txn tid b) (sret (tx_txnId tx))
       | Inl e \<Rightarrow> sthen (finish_txn tid TXNID_UNINITED) (sfail e)) ?s0"
    using tx by (simp add: RocksTxn_commit_def with_txn_def mod_txn_def sbind_def)
  have fin: "ks_db s3 = ks_db s2" "ks_txns s3 tid = Some (tx2\<lparr>tx_txn := None\<rparr>)"
    "ks_binlogUsingDefaultCF s3 = ks_binlogUsingDefaultCF s2" if "finish_txn tid b s2 = (q, s3)" for b q s3
    using finish_txn_db [OF that] finish_txn_fields [OF that tx2] by auto
  show ?thesis
  proof (cases rb)
    case (Inr n)
    then have "sthen (finish_txn tid n) (sret (tx_txnId tx)) s2 = (r, s')"
      using assms(1) c b by (simp add: stry_def)
    then show ?thesis
      using B Inr fin [of n] by (cases rule: sbind_eqE) (auto simp: sret_def finish_txn_no_status)
  next
    case (Inl e)
    show ?thesis
    proof (cases "\<exists>c m. e = Status c m")
      case True
      then have "sthen (finish_txn tid TXNID_UNINITED) (sfail e) s2 = (r, s')"
        using assms(1) c b Inl by (auto simp: stry_def)
      then show ?thesis
        using B Inl fin [of TXNID_UNINITED] by (cases rule: sbind_eqE) (auto simp: sfail_def)
    next
      case False
      then have "r = Inl e" "s' = s2"
        using assms(1) c b Inl by (auto simp: stry_def split: fault.split_asm)
      then show ?thesis using B Inl False by auto
    qed
  qed
qed

end

lemma decode_no_status:
  "RecordKey_decodeChunkId k \<noteq> err c m" "RecordKey_decodeType k \<noteq> err c m"
  by (simp_all add: RecordKey_decodeChunkId_def RecordKey_decodeType_def int32Decode_def rdstr_def rd8_def)

lemma log_write_no_status: "log_write tid op ts k v s \<noteq> (err c m, s')"
  by (cases "RecordKey_decodeChunkId k")
    (auto simp: log_write_def sbind_def mod_txn_def with_txn_def add_log_def msSinceEpoch_def
      decode_no_status split: option.split_asm prod.split_asm sum.split_asm if_split_asm)

lemma RocksTxn_setKV_errors:
  assumes "RocksTxn_setKV R tid k v ts s = (err c m, s')"
  shows "c = ERR_INTERNAL"
  using assms
  by (auto simp: RocksTxn_setKV_def RocksTxn_put_def with_txn_def sbind_def checked_def
      handleRocksdbError_def log_write_no_status
      split: option.split_asm prod.split_asm sum.split_asm if_split_asm)

lemma RocksTxn_delKV_errors:
  assumes "RocksTxn_delKV R tid k ts s = (err c m, s')"
  shows "c = ERR_INTERNAL"
  using assms
  by (cases "RecordKey_decodeType k")
    (auto simp: RocksTxn_delKV_def RocksTxn_del_def with_txn_def sbind_def checked_def
      handleRocksdbError_def log_write_no_status decode_no_status
      split: option.split_asm prod.split_asm sum.split_asm if_split_asm)

lemma local_getKV: "local_op tid (RocksKVStore_getKV R tid k)"
  unfolding RocksKVStore_getKV_def by (intro local_intros)

lemma local_setKV: "local_op tid (RocksKVStore_setKV R tid k v)"
  unfolding RocksKVStore_setKV_def by (intro local_intros)

lemma local_delKV: "local_op tid (RocksKVStore_delKV R tid k)"
  unfolding RocksKVStore_delKV_def by (intro local_intros)

lemma destroy_db:
  assumes "RocksTxn_destroy tid s = (r, s')"
  shows "ks_db s' = ks_db s \<and> ks_binlogUsingDefaultCF s' = ks_binlogUsingDefaultCF s"
proof (cases "ks_txns s tid")
  case None
  then show ?thesis using assms by (simp add: RocksTxn_destroy_def with_txn_def)
next
  case (Some tx)
  then show ?thesis
    using assms finish_txn_db [of tid TXNID_UNINITED s] finish_txn_fields [of tid TXNID_UNINITED s _ _ tx]
    by (auto simp: RocksTxn_destroy_def with_txn_def sbind_def split: if_split_asm prod.split_asm sum.split_asm)
qed

lemma create_any:
  assumes "createTransaction R sess s = (r, s')"
  shows "ks_db s' = ks_db s \<and> ks_binlogUsingDefaultCF s' = ks_binlogUsingDefaultCF s"
  using assms
  by (auto simp: createTransaction_def Let_def addUnCommitedTxnInLock_def sbind_def put_txn_def
      split: if_split_asm)

context rocksdb
begin

lemma view_setKV:
  assumes "RocksTxn_setKV R tid kb vb ts s = (Inr u, s')" "open_txn s tid tx t"
  shows "\<exists>tx' t'. open_txn s' tid tx' t' \<and>
    overlay (dbv (ks_db s')) (wr t') 0 = (overlay (dbv (ks_db s)) (wr t) 0)(kb \<mapsto> vb)"
  using assms(1)
proof (rule setKV_ok)
  fix tx1 t1 t' tx'
  assume *: "open_txn s tid tx1 t1" "rd_put R (ks_db s) t1 getDataColumnFamilyHandle kb vb = (ROk, t')"
    "ks_txns s' tid = Some tx'" "wrote tx1 t' (ks_enableRepllog s) REPL_OP_SET kb vb tx'"
  have "t1 = t" using *(1) assms(2) by (simp add: open_txn_def)
  moreover have "ks_db s' = ks_db s"
    using touchesD(11) [OF local_opD [OF local_RocksTxn_setKV assms(1)]] .
  ultimately show ?thesis
    using * put_wr [OF *(2)]
    by (intro exI [of _ tx'] exI [of _ t'])
      (simp add: open_txn_def wrote_def overlay_pend getDataColumnFamilyHandle_def)
qed

lemma view_delKV:
  assumes "RocksTxn_delKV R tid kb ts s = (Inr u, s')" "open_txn s tid tx t"
    and "RecordKey_decodeType kb \<noteq> ok RT_BINLOG"
  shows "\<exists>tx' t'. open_txn s' tid tx' t' \<and>
    overlay (dbv (ks_db s')) (wr t') 0 = (overlay (dbv (ks_db s)) (wr t) 0)(kb := None)"
  using assms(1)
proof (rule delKV_ok)
  fix tx1 t1 t' tx' ty
  assume *: "open_txn s tid tx1 t1" "RecordKey_decodeType kb = Inr ty"
    "rd_delete R (ks_db s) t1 (getColumnFamilyHandleByRecordType s ty) kb = (ROk, t')"
    "ks_txns s' tid = Some tx'" "wrote tx1 t' (ks_enableRepllog s) REPL_OP_DEL kb [] tx'"
  have "t1 = t" using *(1) assms(2) by (simp add: open_txn_def)
  moreover have "ks_db s' = ks_db s"
    using touchesD(11) [OF local_opD [OF local_RocksTxn_delKV assms(1)]] .
  moreover have "getColumnFamilyHandleByRecordType s ty = 0"
    using *(2) assms(3) by (auto simp: getColumnFamilyHandleByRecordType_def getDataColumnFamilyHandle_def)
  ultimately show ?thesis
    using * delete_wr [OF *(3)]
    by (intro exI [of _ tx'] exI [of _ t']) (simp add: open_txn_def wrote_def overlay_pend)
qed

lemma view_getKV:
  assumes "RocksKVStore_getKV R tid k s = (r, s')" "open_txn s tid tx t" "rk_type k \<noteq> RT_BINLOG"
  shows "s' = s" 
    "r = ok rv \<Longrightarrow> \<exists>kb b. RecordKey_encode k = ok kb \<and>
       overlay (dbv (ks_db s)) (wr t) 0 kb = Some b \<and> RecordValue_decode b = ok rv"
    "r = err ERR_NOTFOUND m \<Longrightarrow> \<exists>kb. RecordKey_encode k = ok kb \<and>
       overlay (dbv (ks_db s)) (wr t) 0 kb = None"
proof -
  show "s' = s"
    using assms(1,2)
    by (auto simp: RocksKVStore_getKV_def RocksTxn_getKV_def RocksTxn_get_def with_txn_def open_txn_def
        sbind_def handleRocksdbError_def
        split: prod.split_asm sum.split_asm if_split_asm)
  show "\<exists>kb b. RecordKey_encode k = ok kb \<and>
       overlay (dbv (ks_db s)) (wr t) 0 kb = Some b \<and> RecordValue_decode b = ok rv" if r: "r = ok rv"
  proof -
    obtain kb b s1 where k: "RecordKey_encode k = ok kb" and g: "RocksTxn_getKV R tid kb s = (Inr b, s1)"
      and d: "RecordValue_decode b = ok rv"
      using assms(1) unfolding r RocksKVStore_getKV_def by (auto simp: sbind_eq_Inr)
    from g assms(2) RecordKey_encode_type [OF k] assms(3) show ?thesis
      by (cases rule: RocksTxn_getKV_cases) (use k d get_found in auto)
  qed
  show "\<exists>kb. RecordKey_encode k = ok kb \<and> overlay (dbv (ks_db s)) (wr t) 0 kb = None"
    if "r = err ERR_NOTFOUND m"
  proof (cases "RecordKey_encode k")
    case (Inl e)
    then show ?thesis using RecordKey_encode_fault [OF Inl] assms(1) that
      by (simp add: RocksKVStore_getKV_def)
  next
    case (Inr kb)
    obtain rg s1 where g: "RocksTxn_getKV R tid kb s = (rg, s1)" by force
    have rg: "(case rg of Inl e \<Rightarrow> Inl e | Inr b \<Rightarrow> RecordValue_decode b) = r"
      using assms(1) g Inr by (auto simp: RocksKVStore_getKV_def sbind_def split: sum.split_asm)
    from g assms(2) RecordKey_encode_type [OF Inr] assms(3) show ?thesis
    proof (cases rule: RocksTxn_getKV_cases)
      case (found b)
      then show ?thesis using rg that decode_errs_RecordValue [of b] by (auto simp: decode_errs_def)
    next
      case (missing b m')
      then show ?thesis using Inr get_missing by blast
    next
      case failed
      then show ?thesis using rg that by (cases rg) auto
    qed
  qed
qed

end

lemma txn_view_update:
  assumes "sid < length ss" "open_txn s' tid tx t"
  shows "txn_view dbv wr (ss[sid := s']) sid tid = Some (overlay (dbv (ks_db s')) (wr t) 0)"
  using assms by (auto simp: txn_view_Some)

lemma kv_setKV_errors:
  "RocksKVStore_setKV R tid k x s \<noteq> (err ERR_NOTFOUND m, s')"
  "RocksKVStore_setKV R tid k x s \<noteq> (err ERR_COMMIT_RETRY m, s')"
  "RocksKVStore_delKV R tid k s \<noteq> (err ERR_NOTFOUND m, s')"
  "RocksKVStore_delKV R tid k s \<noteq> (err ERR_COMMIT_RETRY m, s')"
  using RecordKey_encode_fault [of k] RecordValue_encode_fault [of x]
  by (auto simp: RocksKVStore_setKV_def RocksKVStore_delKV_def elim!: sbind_eqE
      dest: RocksTxn_setKV_errors RocksTxn_delKV_errors)

sublocale rocksdb \<subseteq> rk: kv_store "rocks_ops R" stores_inv "committed dbv" "txn_view dbv wr" txn_dead
proof unfold_locales
  fix ss ss' sess sid r
  assume i: "stores_inv ss" and c: "kv_createTransaction (rocks_ops R) sess sid ss = (r, ss')"
  show "stores_inv ss' \<and> committed dbv ss' = committed dbv ss \<and>
      (\<forall>tid. r = ok tid \<longrightarrow> txn_view dbv wr ss' sid tid = Some (committed dbv ss sid))"
  proof (cases "sid < length ss")
    case True
    have "on_store sid (createTransaction R sess) ss = (r, ss')" using c by (simp add: rocks_ops_def)
    then obtain s' where m: "createTransaction R sess (ss ! sid) = (r, s')" and ss': "ss' = ss[sid := s']"
      using True by (rule on_store_eqE)
    note C = create_any [OF m]
    have "txn_view dbv wr ss' sid tid = Some (committed dbv ss sid)" if "r = ok tid" for tid
    proof -
      note O = createTransaction_ok [OF m [unfolded that]]
      from txn_view_update [OF True O(3), of dbv wr] O(4) True show ?thesis
        by (simp add: ss' begin_wr committed_def)
    qed
    then show ?thesis
      using stores_inv_update [OF i _ True, of s'] committed_same [OF True, of s' dbv] C by (simp add: ss')
  qed (use i c in \<open>auto simp: rocks_ops_def on_store_def\<close>)
next
  fix ss ss' sid tid v k r
  assume i: "stores_inv ss" and v: "txn_view dbv wr ss sid tid = Some v" and k: "rk_type k \<noteq> RT_BINLOG"
    and g: "kv_getKV (rocks_ops R) sid tid k ss = (r, ss')"
  from v obtain tx t where sid: "sid < length ss" and o: "open_txn (ss ! sid) tid tx t"
    and v: "v = overlay (dbv (ks_db (ss ! sid))) (wr t) 0" by (auto simp: txn_view_Some)
  have "on_store sid (RocksKVStore_getKV R tid k) ss = (r, ss')" using g by (simp add: rocks_ops_def)
  then obtain s' where m: "RocksKVStore_getKV R tid k (ss ! sid) = (r, s')" and ss': "ss' = ss[sid := s']"
    using sid by (rule on_store_eqE)
  note G = view_getKV [OF m o k]
  have "ss' = ss" using ss' G(1) by simp
  then show "stores_inv ss' \<and> committed dbv ss' = committed dbv ss \<and> txn_view dbv wr ss' sid tid = Some v \<and>
      (\<forall>rv. r = ok rv \<longrightarrow> (\<exists>kb b. RecordKey_encode k = ok kb \<and> v kb = Some b \<and> RecordValue_decode b = ok rv)) \<and>
      (\<forall>m. r = err ERR_NOTFOUND m \<longrightarrow> (\<exists>kb. RecordKey_encode k = ok kb \<and> v kb = None))"
    using i sid o v G(2,3) by (auto simp: txn_view_Some)
next
  fix ss ss' sid tid v k x r
  assume i: "stores_inv ss" and v: "txn_view dbv wr ss sid tid = Some v"
    and g: "kv_setKV (rocks_ops R) sid tid k x ss = (r, ss')"
  from v obtain tx t where sid: "sid < length ss" and o: "open_txn (ss ! sid) tid tx t"
    and v: "v = overlay (dbv (ks_db (ss ! sid))) (wr t) 0" by (auto simp: txn_view_Some)
  have os: "on_store sid (RocksKVStore_setKV R tid k x) ss = (r, ss')" using g by (simp add: rocks_ops_def)
  then obtain s' where m: "RocksKVStore_setKV R tid k x (ss ! sid) = (r, s')" and ss': "ss' = ss[sid := s']"
    using sid by (rule on_store_eqE)
  have "\<exists>kb b. RecordKey_encode k = ok kb \<and> RecordValue_encode x = ok b \<and>
      txn_view dbv wr ss' sid tid = Some (v(kb \<mapsto> b))" if r: "r = ok u" for u
  proof -
    obtain kb b where e: "RecordKey_encode k = ok kb" "RecordValue_encode x = ok b"
      and w: "RocksTxn_setKV R tid kb b 0 (ss ! sid) = (ok u, s')"
      using m unfolding r RocksKVStore_setKV_def by (auto simp: sbind_eq_Inr)
    from view_setKV [OF w o] obtain tx' t' where "open_txn s' tid tx' t'"
      "overlay (dbv (ks_db s')) (wr t') 0 = v(kb \<mapsto> b)" unfolding v by blast
    with txn_view_update [OF sid, of s' tid tx' t' dbv wr] e show ?thesis unfolding ss' by auto
  qed
  moreover have "r \<noteq> err ERR_NOTFOUND m \<and> r \<noteq> err ERR_COMMIT_RETRY m" for m
    using m kv_setKV_errors(1,2) by metis
  ultimately show "stores_inv ss' \<and> committed dbv ss' = committed dbv ss \<and> (\<forall>u. r = ok u \<longrightarrow>
        (\<exists>kb b. RecordKey_encode k = ok kb \<and> RecordValue_encode x = ok b \<and>
          txn_view dbv wr ss' sid tid = Some (v(kb \<mapsto> b)))) \<and>
      (\<forall>m. r \<noteq> err ERR_NOTFOUND m \<and> r \<noteq> err ERR_COMMIT_RETRY m)"
    using on_store_local [OF local_setKV i os] by blast
next
  fix ss ss' sid tid v k r
  assume i: "stores_inv ss" and v: "txn_view dbv wr ss sid tid = Some v" and k: "rk_type k \<noteq> RT_BINLOG"
    and g: "kv_delKV (rocks_ops R) sid tid k ss = (r, ss')"
  from v obtain tx t where sid: "sid < length ss" and o: "open_txn (ss ! sid) tid tx t"
    and v: "v = overlay (dbv (ks_db (ss ! sid))) (wr t) 0" by (auto simp: txn_view_Some)
  have os: "on_store sid (RocksKVStore_delKV R tid k) ss = (r, ss')" using g by (simp add: rocks_ops_def)
  then obtain s' where m: "RocksKVStore_delKV R tid k (ss ! sid) = (r, s')" and ss': "ss' = ss[sid := s']"
    using sid by (rule on_store_eqE)
  have "\<exists>kb. RecordKey_encode k = ok kb \<and> txn_view dbv wr ss' sid tid = Some (v(kb := None))"
    if r: "r = ok u" for u
  proof -
    obtain kb where e: "RecordKey_encode k = ok kb" and w: "RocksTxn_delKV R tid kb 0 (ss ! sid) = (ok u, s')"
      using m unfolding r RocksKVStore_delKV_def by (auto simp: sbind_eq_Inr)
    have "RecordKey_decodeType kb \<noteq> ok RT_BINLOG" using RecordKey_encode_type [OF e] k by simp
    from view_delKV [OF w o this] obtain tx' t' where "open_txn s' tid tx' t'"
      "overlay (dbv (ks_db s')) (wr t') 0 = v(kb := None)" unfolding v by blast
    with txn_view_update [OF sid, of s' tid tx' t' dbv wr] e show ?thesis unfolding ss' by auto
  qed
  moreover have "r \<noteq> err ERR_NOTFOUND m \<and> r \<noteq> err ERR_COMMIT_RETRY m" for m
    using m kv_setKV_errors(3,4) by metis
  ultimately show "stores_inv ss' \<and> committed dbv ss' = committed dbv ss \<and> (\<forall>u. r = ok u \<longrightarrow>
        (\<exists>kb. RecordKey_encode k = ok kb \<and> txn_view dbv wr ss' sid tid = Some (v(kb := None)))) \<and>
      (\<forall>m. r \<noteq> err ERR_NOTFOUND m \<and> r \<noteq> err ERR_COMMIT_RETRY m)"
    using on_store_local [OF local_delKV i os] by blast
next
  fix ss ss' sid tid v kb r
  assume i: "stores_inv ss" and v: "txn_view dbv wr ss sid tid = Some v"
    and k: "RecordKey_decodeType kb \<noteq> ok RT_BINLOG"
    and g: "txn_delKV (rocks_ops R) sid tid kb ss = (r, ss')"
  from v obtain tx t where sid: "sid < length ss" and o: "open_txn (ss ! sid) tid tx t"
    and v: "v = overlay (dbv (ks_db (ss ! sid))) (wr t) 0" by (auto simp: txn_view_Some)
  have os: "on_store sid (RocksTxn_delKV R tid kb 0) ss = (r, ss')" using g by (simp add: rocks_ops_def)
  then obtain s' where m: "RocksTxn_delKV R tid kb 0 (ss ! sid) = (r, s')" and ss': "ss' = ss[sid := s']"
    using sid by (rule on_store_eqE)
  have "txn_view dbv wr ss' sid tid = Some (v(kb := None))" if "r = ok u" for u
  proof -
    from view_delKV [OF m [unfolded that] o k] obtain tx' t' where "open_txn s' tid tx' t'"
      "overlay (dbv (ks_db s')) (wr t') 0 = v(kb := None)" unfolding v by blast
    with txn_view_update [OF sid, of s' tid tx' t' dbv wr] show ?thesis unfolding ss' by auto
  qed
  moreover have "r \<noteq> err ERR_NOTFOUND m \<and> r \<noteq> err ERR_COMMIT_RETRY m" for m
    using m RocksTxn_delKV_errors by blast
  ultimately show "stores_inv ss' \<and> committed dbv ss' = committed dbv ss \<and>
      (\<forall>u. r = ok u \<longrightarrow> txn_view dbv wr ss' sid tid = Some (v(kb := None))) \<and>
      (\<forall>m. r \<noteq> err ERR_NOTFOUND m \<and> r \<noteq> err ERR_COMMIT_RETRY m)"
    using on_store_local [OF local_RocksTxn_delKV i os] by blast
next
  fix ss ss' sid tid v sess r
  assume i: "stores_inv ss" and v: "txn_view dbv wr ss sid tid = Some v"
    and g: "txn_commit (rocks_ops R) sess sid tid ss = (r, ss')"
  from v obtain tx t where sid: "sid < length ss" and o: "open_txn (ss ! sid) tid tx t"
    and v: "v = overlay (dbv (ks_db (ss ! sid))) (wr t) 0" by (auto simp: txn_view_Some)
  have "on_store sid (RocksTxn_commit R sess tid) ss = (r, ss')" using g by (simp add: rocks_ops_def)
  then obtain s' where m: "RocksTxn_commit R sess tid (ss ! sid) = (r, s')" and ss': "ss' = ss[sid := s']"
    using sid by (rule on_store_eqE)
  note C = commit_any [OF m o stores_invD [OF i sid]]
  have u: "committed dbv ss' = (committed dbv ss)(sid := dbv (ks_db s') 0)"
    unfolding ss' by (rule committed_update [OF sid])
  have same: "(committed dbv ss)(sid := dbv (ks_db (ss ! sid)) 0) = committed dbv ss"
    using sid by (auto simp: committed_def fun_eq_iff)
  have "stores_inv ss'"
    unfolding ss' using stores_inv_update [OF i _ sid, of s'] stores_invD [OF i sid] C by simp
  with C u same sid show "stores_inv ss' \<and>
      (committed dbv ss' = committed dbv ss \<or> committed dbv ss' = (committed dbv ss)(sid := v)) \<and>
      (\<forall>n. r = ok n \<longrightarrow> committed dbv ss' = (committed dbv ss)(sid := v)) \<and>
      (\<forall>c m. r = err c m \<longrightarrow> committed dbv ss' = committed dbv ss \<and> txn_dead ss' sid tid)"
    unfolding v by (auto simp: txn_dead_def ss')
next
  fix ss :: "('d, 't) stores" and sid tid and k :: RecordKey and x :: RecordValue
  assume d: "txn_dead ss sid tid" and k: "rk_type k \<noteq> RT_INVALID" and x: "rv_type x \<noteq> RT_INVALID"
  then obtain tx where sid: "sid < length ss" and tx: "ks_txns (ss ! sid) tid = Some tx" "tx_txn tx = None"
    by (auto simp: txn_dead_def)
  obtain kb where kb: "RecordKey_encode k = ok kb" using RecordKey_encode_total [OF k] by blast
  obtain b where b: "RecordValue_encode x = ok b" using RecordValue_encode_total [OF x] by blast
  have "RocksKVStore_getKV R tid k (ss ! sid) = (Inl Undef, ss ! sid)"
    using tx kb RecordKey_encode_type [OF kb]
    by (simp add: RocksKVStore_getKV_def RocksTxn_getKV_def RocksTxn_get_def with_txn_def sbind_def)
  moreover have "RocksKVStore_setKV R tid k x (ss ! sid) =
      ((if tx_replOnly tx then err ERR_INTERNAL ''txn is replOnly'' else Inl Undef), ss ! sid)"
    using tx kb b
    by (simp add: RocksKVStore_setKV_def RocksTxn_setKV_def RocksTxn_put_def with_txn_def sbind_def)
  ultimately show "kv_getKV (rocks_ops R) sid tid k ss = (Inl Undef, ss) \<and>
      ((\<exists>m. kv_setKV (rocks_ops R) sid tid k x ss = (err ERR_INTERNAL m, ss)) \<or>
       kv_setKV (rocks_ops R) sid tid k x ss = (Inl Undef, ss))"
    using sid by (auto simp: rocks_ops_def on_store_def)
next
  fix ss ss' sid tid r
  assume i: "stores_inv ss" and g: "txn_destroy (rocks_ops R) sid tid ss = (r, ss')"
  show "stores_inv ss' \<and> committed dbv ss' = committed dbv ss"
  proof (cases "sid < length ss")
    case True
    have "on_store sid (RocksTxn_destroy tid) ss = (r, ss')" using g by (simp add: rocks_ops_def)
    then obtain s' where m: "RocksTxn_destroy tid (ss ! sid) = (r, s')" and ss': "ss' = ss[sid := s']"
      using True by (rule on_store_eqE)
    note D = destroy_db [OF m]
    then show ?thesis
      using stores_inv_update [OF i _ True, of s'] committed_same [OF True, of s' dbv] by (simp add: ss')
  qed (use i g in \<open>simp add: rocks_ops_def on_store_def\<close>)
qed

end
