(* ===== verification/NumText.thy ===== *)
theory NumText
  imports StringUtil
begin

section \<open>Numbers and text (utils/string.cpp)\<close>

text \<open>
  Decimal notation as \<open>std::to_string\<close>, \<open>snprintf\<close> and string streams write it and as the functions
  \<open>std::stol\<close>, \<open>stoul\<close>, \<open>stoll\<close> and \<open>stoull\<close> of the library read it (base 10, 64-bit \<open>long\<close>), the
  wrappers of the code over them, case conversion in the C locale, trimming and splitting.
\<close>

definition str :: "string \<Rightarrow> bytes" where
  "str = map of_char"

subsection \<open>Printing\<close>

definition digit :: "nat \<Rightarrow> byte" where
  "digit d = of_nat (48 + d)"

function dec_of_nat :: "nat \<Rightarrow> bytes" where
  "dec_of_nat n = (if n < 10 then [digit n] else dec_of_nat (n div 10) @ [digit (n mod 10)])"
  by auto
termination by (relation "measure id") auto

declare dec_of_nat.simps [simp del]

definition dec_of_int :: "int \<Rightarrow> bytes" where
  "dec_of_int i = (if i < 0 then of_char CHR ''-'' # dec_of_nat (nat (- i)) else dec_of_nat (nat i))"

definition itos :: "int \<Rightarrow> bytes" where "itos d = dec_of_int d"
definition uitos :: "u32 \<Rightarrow> bytes" where "uitos d = dec_of_nat (unat d)"
definition ultos :: "u64 \<Rightarrow> bytes" where "ultos d = dec_of_nat (unat d)"

text \<open>\<open>std::to_string\<close> of an unsigned 64-bit number.\<close>

definition to_string :: "u64 \<Rightarrow> bytes" where "to_string d = dec_of_nat (unat d)"

subsection \<open>Parsing\<close>

definition isdigit :: "byte \<Rightarrow> bool" where
  "isdigit b \<longleftrightarrow> 48 \<le> b \<and> b \<le> 57"

definition isspace :: "byte \<Rightarrow> bool" where
  "isspace b \<longleftrightarrow> b = 32 \<or> 9 \<le> b \<and> b \<le> 13"

definition nat_of_digits :: "bytes \<Rightarrow> nat" where
  "nat_of_digits = foldl (\<lambda>n b. 10 * n + (unat b - 48)) 0"

text \<open>
  \<open>strtol\<close> and its relatives: leading white space, an optional sign, then as many digits as there
  are; what follows is ignored. The result is the sign and the magnitude.
\<close>

definition strto :: "bytes \<Rightarrow> (bool \<times> nat) option" where
  "strto s =
    (let s = dropWhile isspace s;
         neg = (s \<noteq> [] \<and> hd s = 45);
         s = (if s \<noteq> [] \<and> (hd s = 45 \<or> hd s = 43) then tl s else s);
         ds = takeWhile isdigit s in
     if ds = [] then None else Some (neg, nat_of_digits ds))"

datatype std_exception = invalid_argument | out_of_range

definition std_stoll :: "bytes \<Rightarrow> std_exception + int" where
  "std_stoll s =
    (case strto s of
       None \<Rightarrow> Inl invalid_argument
     | Some (neg, n) \<Rightarrow>
        (let i = (if neg then - int n else int n) in
         if - (2 ^ 63) \<le> i \<and> i < 2 ^ 63 then Inr i else Inl out_of_range))"

definition std_stoull :: "bytes \<Rightarrow> std_exception + u64" where
  "std_stoull s =
    (case strto s of
       None \<Rightarrow> Inl invalid_argument
     | Some (neg, n) \<Rightarrow>
        (if n < 2 ^ 64 then Inr (if neg then - of_nat n else of_nat n) else Inl out_of_range))"

definition space_around :: "bytes \<Rightarrow> bool" where
  "space_around s \<longleftrightarrow> s \<noteq> [] \<and> (hd s = 32 \<or> last s = 32)"

definition as_integer :: "bytes \<Rightarrow> (std_exception + 'a) \<Rightarrow> 'a expected" where
  "as_integer s r =
    (if space_around s then err ERR_INTERGER ''''
     else case r of Inl _ \<Rightarrow> err ERR_INTERGER '''' | Inr i \<Rightarrow> ok i)"

definition stoll :: "bytes \<Rightarrow> int expected" where
  "stoll s = as_integer s (std_stoll s)"

definition stol :: "bytes \<Rightarrow> int expected" where
  "stol s = ebind (as_integer s (std_stoll s)) (\<lambda>i. ok (sint (word_of_int i :: 32 word)))"

definition stoull :: "bytes \<Rightarrow> u64 expected" where
  "stoull s = as_integer s (std_stoull s)"

definition stoul :: "bytes \<Rightarrow> u64 expected" where
  "stoul s = as_integer s (std_stoull s)"

subsection \<open>Case, trimming, splitting\<close>

definition toLower :: "bytes \<Rightarrow> bytes" where
  "toLower = map (\<lambda>b. if 65 \<le> b \<and> b \<le> 90 then b + 32 else b)"

definition toUpper :: "bytes \<Rightarrow> bytes" where
  "toUpper = map (\<lambda>b. if 97 \<le> b \<and> b \<le> 122 then b - 32 else b)"

text \<open>\<open>strchr(cset, ch)\<close> also finds the terminator of \<open>cset\<close>.\<close>

definition sdstrim :: "bytes \<Rightarrow> bytes \<Rightarrow> bytes" where
  "sdstrim cset s =
    (let drops = (\<lambda>b. b = 0 \<or> b \<in> set cset);
         s = dropWhile drops s in
     rev (dropWhile drops (rev s)))"

definition trim_left :: "bytes \<Rightarrow> bytes" where
  "trim_left = dropWhile (\<lambda>b. b \<in> {32, 12, 10, 13, 9, 11})"

definition trim_right :: "bytes \<Rightarrow> bytes" where
  "trim_right s = rev (dropWhile (\<lambda>b. b \<in> {32, 12, 10, 13, 9, 11}) (rev s))"

definition trim :: "bytes \<Rightarrow> bytes" where
  "trim s = trim_left (trim_right s)"

text \<open>\<open>s.find(delim)\<close>: the part before the first occurrence and the part after it.\<close>

fun break_on :: "bytes \<Rightarrow> bytes \<Rightarrow> (bytes \<times> bytes) option" where
  "break_on d [] = (if d = [] then Some ([], []) else None)"
| "break_on d (b # s) =
    (if take (length d) (b # s) = d then Some ([], drop (length d) (b # s))
     else map_option (\<lambda>(p, q). (b # p, q)) (break_on d s))"

lemma break_on_length: "break_on d s = Some (p, q) \<Longrightarrow> length q + length d + length p = length s"
  by (induction d s arbitrary: p q rule: break_on.induct)
    (fastforce split: if_split_asm dest: arg_cong [where f = length])+

function stringSplit :: "bytes \<Rightarrow> bytes \<Rightarrow> bytes list" where
  "stringSplit s d =
    (if d = [] \<or> s = [] then []
     else case break_on d s of
       None \<Rightarrow> [s]
     | Some (p, q) \<Rightarrow> p # stringSplit q d)"
  by auto
termination
proof (relation "measure (length \<circ> fst)")
  fix s d :: bytes and pq p q
  assume "\<not> (d = [] \<or> s = [])" "break_on d s = Some pq" "(p, q) = pq"
  then show "((q, d), s, d) \<in> measure (length \<circ> fst)"
    using break_on_length [of d s p q] by (cases d) auto
qed simp

declare stringSplit.simps [simp del]

subsection \<open>Numbers are read back\<close>

lemma unat_digit: "d < 10 \<Longrightarrow> unat (digit d) = 48 + d"
  unfolding digit_def by (simp add: unat_of_nat del: of_nat_add)

lemma isdigit_digit: "d < 10 \<Longrightarrow> isdigit (digit d)"
  by (simp add: isdigit_def word_le_nat_alt unat_digit)

lemma nat_of_digits_snoc: "nat_of_digits (ds @ [b]) = 10 * nat_of_digits ds + (unat b - 48)"
  by (simp add: nat_of_digits_def)

lemma dec_of_nat_digits: "dec_of_nat n \<noteq> [] \<and> (\<forall>b\<in>set (dec_of_nat n). isdigit b)"
proof (induction n rule: dec_of_nat.induct)
  case (1 n)
  then show ?case by (subst (1 2) dec_of_nat.simps) (auto simp: isdigit_digit)
qed

lemma nat_of_digits_dec [simp]: "nat_of_digits (dec_of_nat n) = n"
proof (induction n rule: dec_of_nat.induct)
  case (1 n)
  show ?case
  proof (cases "n < 10")
    case True
    then show ?thesis by (subst dec_of_nat.simps) (simp add: nat_of_digits_def unat_digit)
  next
    case False
    with 1 have "nat_of_digits (dec_of_nat n) = 10 * (n div 10) + n mod 10"
      by (subst dec_of_nat.simps) (simp add: nat_of_digits_snoc unat_digit)
    then show ?thesis by simp
  qed
qed

lemma dec_of_nat_inject [simp]: "dec_of_nat m = dec_of_nat n \<longleftrightarrow> m = n"
  using nat_of_digits_dec by metis

lemma to_string_inject [simp]: "to_string m = to_string n \<longleftrightarrow> m = n"
  by (auto simp: to_string_def dest: unsigned_word_eqI)

lemma isdigit_not: "isdigit b \<Longrightarrow> \<not> isspace b \<and> b \<noteq> 45 \<and> b \<noteq> 43 \<and> b \<noteq> 32"
  by (auto simp: isdigit_def isspace_def word_le_nat_alt)

lemma takeWhile_digits: "\<forall>b\<in>set ds. isdigit b \<Longrightarrow> takeWhile isdigit ds = ds"
  by (simp add: takeWhile_eq_all_conv)

lemma strto_dec [simp]: "strto (dec_of_nat n) = Some (False, n)"
proof -
  obtain b ds where d: "dec_of_nat n = b # ds" "isdigit b"
    using dec_of_nat_digits [of n] by (cases "dec_of_nat n") auto
  have "dropWhile isspace (dec_of_nat n) = dec_of_nat n" "hd (dec_of_nat n) \<noteq> 45"
    "hd (dec_of_nat n) \<noteq> 43"
    using isdigit_not [OF d(2)] by (simp_all add: d(1))
  with dec_of_nat_digits [of n] show ?thesis by (simp add: strto_def Let_def takeWhile_digits)
qed

lemma strto_neg_dec [simp]: "strto (45 # dec_of_nat n) = Some (True, n)"
  using dec_of_nat_digits [of n]
  by (simp add: strto_def Let_def isspace_def takeWhile_digits)

lemma space_around_dec: "\<not> space_around (dec_of_int i)"
proof -
  have d: "dec_of_nat n \<noteq> []" "hd (dec_of_nat n) \<noteq> 32" "last (dec_of_nat n) \<noteq> 32" for n
    using dec_of_nat_digits [of n] isdigit_not hd_in_set [of "dec_of_nat n"]
      last_in_set [of "dec_of_nat n"] by blast+
  show ?thesis using d by (auto simp: space_around_def dec_of_int_def)
qed

lemma std_stoll_dec: "- (2 ^ 63) \<le> i \<Longrightarrow> i < 2 ^ 63 \<Longrightarrow> std_stoll (dec_of_int i) = Inr i"
  by (auto simp: std_stoll_def dec_of_int_def Let_def)

lemma stoll_dec: "- (2 ^ 63) \<le> i \<Longrightarrow> i < 2 ^ 63 \<Longrightarrow> stoll (dec_of_int i) = ok i"
  by (simp add: stoll_def as_integer_def space_around_dec std_stoll_dec)

lemma stoull_to_string: "stoull (to_string d) = ok d"
proof -
  have "dec_of_nat (unat d) = dec_of_int (int (unat d))" by (simp add: dec_of_int_def)
  with space_around_dec [of "int (unat d)"] have "\<not> space_around (dec_of_nat (unat d))" by simp
  then show ?thesis
    using unsigned_less [of d]
    by (simp add: stoull_def as_integer_def to_string_def std_stoull_def)
qed

end
