(* ===== verification/SlotHash.thy ===== *)
theory SlotHash
  imports Prelude
begin

section \<open>Hash slots of keys (utils/redis_port.cpp)\<close>

text \<open>
  The CRC16 of a key or of its hash tag selects the slot (chunk) of the key, and the slot the store.
\<close>

definition crc16tab :: "u16 list" where
  "crc16tab =
    [0x0000, 0x1021, 0x2042, 0x3063, 0x4084, 0x50a5, 0x60c6, 0x70e7, 0x8108, 0x9129, 0xa14a, 0xb16b,
     0xc18c, 0xd1ad, 0xe1ce, 0xf1ef, 0x1231, 0x0210, 0x3273, 0x2252, 0x52b5, 0x4294, 0x72f7, 0x62d6,
     0x9339, 0x8318, 0xb37b, 0xa35a, 0xd3bd, 0xc39c, 0xf3ff, 0xe3de, 0x2462, 0x3443, 0x0420, 0x1401,
     0x64e6, 0x74c7, 0x44a4, 0x5485, 0xa56a, 0xb54b, 0x8528, 0x9509, 0xe5ee, 0xf5cf, 0xc5ac, 0xd58d,
     0x3653, 0x2672, 0x1611, 0x0630, 0x76d7, 0x66f6, 0x5695, 0x46b4, 0xb75b, 0xa77a, 0x9719, 0x8738,
     0xf7df, 0xe7fe, 0xd79d, 0xc7bc, 0x48c4, 0x58e5, 0x6886, 0x78a7, 0x0840, 0x1861, 0x2802, 0x3823,
     0xc9cc, 0xd9ed, 0xe98e, 0xf9af, 0x8948, 0x9969, 0xa90a, 0xb92b, 0x5af5, 0x4ad4, 0x7ab7, 0x6a96,
     0x1a71, 0x0a50, 0x3a33, 0x2a12, 0xdbfd, 0xcbdc, 0xfbbf, 0xeb9e, 0x9b79, 0x8b58, 0xbb3b, 0xab1a,
     0x6ca6, 0x7c87, 0x4ce4, 0x5cc5, 0x2c22, 0x3c03, 0x0c60, 0x1c41, 0xedae, 0xfd8f, 0xcdec, 0xddcd,
     0xad2a, 0xbd0b, 0x8d68, 0x9d49, 0x7e97, 0x6eb6, 0x5ed5, 0x4ef4, 0x3e13, 0x2e32, 0x1e51, 0x0e70,
     0xff9f, 0xefbe, 0xdfdd, 0xcffc, 0xbf1b, 0xaf3a, 0x9f59, 0x8f78, 0x9188, 0x81a9, 0xb1ca, 0xa1eb,
     0xd10c, 0xc12d, 0xf14e, 0xe16f, 0x1080, 0x00a1, 0x30c2, 0x20e3, 0x5004, 0x4025, 0x7046, 0x6067,
     0x83b9, 0x9398, 0xa3fb, 0xb3da, 0xc33d, 0xd31c, 0xe37f, 0xf35e, 0x02b1, 0x1290, 0x22f3, 0x32d2,
     0x4235, 0x5214, 0x6277, 0x7256, 0xb5ea, 0xa5cb, 0x95a8, 0x8589, 0xf56e, 0xe54f, 0xd52c, 0xc50d,
     0x34e2, 0x24c3, 0x14a0, 0x0481, 0x7466, 0x6447, 0x5424, 0x4405, 0xa7db, 0xb7fa, 0x8799, 0x97b8,
     0xe75f, 0xf77e, 0xc71d, 0xd73c, 0x26d3, 0x36f2, 0x0691, 0x16b0, 0x6657, 0x7676, 0x4615, 0x5634,
     0xd94c, 0xc96d, 0xf90e, 0xe92f, 0x99c8, 0x89e9, 0xb98a, 0xa9ab, 0x5844, 0x4865, 0x7806, 0x6827,
     0x18c0, 0x08e1, 0x3882, 0x28a3, 0xcb7d, 0xdb5c, 0xeb3f, 0xfb1e, 0x8bf9, 0x9bd8, 0xabbb, 0xbb9a,
     0x4a75, 0x5a54, 0x6a37, 0x7a16, 0x0af1, 0x1ad0, 0x2ab3, 0x3a92, 0xfd2e, 0xed0f, 0xdd6c, 0xcd4d,
     0xbdaa, 0xad8b, 0x9de8, 0x8dc9, 0x7c26, 0x6c07, 0x5c64, 0x4c45, 0x3ca2, 0x2c83, 0x1ce0, 0x0cc1,
     0xef1f, 0xff3e, 0xcf5d, 0xdf7c, 0xaf9b, 0xbfba, 0x8fd9, 0x9ff8, 0x6e17, 0x7e36, 0x4e55, 0x5e74,
     0x2e93, 0x3eb2, 0x0ed1, 0x1ef0]"

text \<open>One round of the loop: \<open>*buf\<close> is sign-extended, the mask keeps its eight bits.\<close>

definition crc16_step :: "u16 \<Rightarrow> byte \<Rightarrow> u16" where
  "crc16_step crc b =
     push_bit 8 crc XOR crc16tab ! unat ((drop_bit 8 crc XOR scast b) AND 0xFF)"

definition crc16 :: "bytes \<Rightarrow> u16" where
  "crc16 buf = foldl crc16_step 0 buf"

definition keyHashSlot :: "bytes \<Rightarrow> u32" where
  "keyHashSlot key =
    (let s = length (takeWhile (\<lambda>c. c \<noteq> 123) key) in
     if s = length key then ucast (crc16 key) AND 0x3FFF
     else
       let rest = drop (s + 1) key;
           n = length (takeWhile (\<lambda>c. c \<noteq> 125) rest) in
       if n = length rest \<or> n = 0 then ucast (crc16 key) AND 0x3FFF
       else ucast (crc16 (take n rest)) AND 0x3FFF)"

definition FNV_64_INIT :: u64 where "FNV_64_INIT = 0xcbf29ce484222325"
definition FNV_64_PRIME :: u64 where "FNV_64_PRIME = 0x100000001b3"

definition keyHashTwemproxy :: "bytes \<Rightarrow> u32" where
  "keyHashTwemproxy key =
     foldl (\<lambda>hash v. (hash XOR scast v) * ucast FNV_64_PRIME) (ucast FNV_64_INIT) key"

definition getKvStoreID :: "u32 \<Rightarrow> u32 \<Rightarrow> u32 expected" where
  "getKvStoreID chunkid kvstoreCount =
    (if kvstoreCount = 0 then Inl Undef else ok (chunkid mod kvstoreCount))"

subsection \<open>The table is the CRC16 of the polynomial 0x1021\<close>

text \<open>The reference: bit by bit, most significant first, as the XMODEM variant defines it.\<close>

definition crc16_bit :: "u16 \<Rightarrow> u16" where
  "crc16_bit crc = (if bit crc 15 then push_bit 1 crc XOR 0x1021 else push_bit 1 crc)"

definition crc16_byte :: "u16 \<Rightarrow> byte \<Rightarrow> u16" where
  "crc16_byte crc b = (crc16_bit ^^ 8) (crc XOR push_bit 8 (ucast b))"

definition crc16_spec :: "bytes \<Rightarrow> u16" where
  "crc16_spec = foldl crc16_byte 0"

lemma crc16_bit_xor: "crc16_bit (a XOR b) = crc16_bit a XOR crc16_bit b"
  by (auto simp: crc16_bit_def bit_simps push_bit_xor ac_simps intro!: bit_word_eqI)

lemma crc16_bits_xor: "(crc16_bit ^^ n) (a XOR b) = (crc16_bit ^^ n) a XOR (crc16_bit ^^ n) b"
  by (induction n arbitrary: a b) (simp_all add: crc16_bit_xor)

lemma crc16_bits_low:
  assumes "\<And>i. bit a i \<Longrightarrow> i + n \<le> 15"
  shows "(crc16_bit ^^ n) a = push_bit n a"
  using assms
proof (induction n arbitrary: a)
  case (Suc n)
  have "\<not> bit a 15" using Suc.prems [of 15] by auto
  then have "crc16_bit a = push_bit 1 a" by (simp add: crc16_bit_def)
  moreover have "(crc16_bit ^^ n) (push_bit 1 a) = push_bit n (push_bit 1 a)"
  proof (rule Suc.IH)
    fix i
    assume "bit (push_bit 1 a) i"
    then have "0 < i" "bit a (i - 1)" by (simp_all only: bit_push_bit_iff) simp_all
    then show "i + n \<le> 15" using Suc.prems [of "i - 1"] by simp
  qed
  ultimately show ?case by (simp add: funpow_swap1 push_bit_push_bit)
qed simp

lemma crc16tab_doubles:
  "concat (map (\<lambda>x. [crc16_bit x, crc16_bit x XOR 0x1021]) (take 128 crc16tab)) = crc16tab"
  by (simp add: crc16tab_def crc16_bit_def)
lemma nth_concat_pairs:
  "i < length xs \<Longrightarrow> concat (map (\<lambda>x. [f x, g x]) xs) ! (2 * i) = f (xs ! i) \<and>
   concat (map (\<lambda>x. [f x, g x]) xs) ! (2 * i + 1) = g (xs ! i)"
proof (induction xs arbitrary: i)
  case (Cons x xs)
  then show ?case by (cases i) auto
qed simp

lemma crc16tab_double:
  assumes "j < 128"
  shows "crc16tab ! (2 * j) = crc16_bit (crc16tab ! j)"
    "crc16tab ! (2 * j + 1) = crc16_bit (crc16tab ! j) XOR 0x1021"
proof -
  have "j < length (take 128 crc16tab)" using assms by (simp add: crc16tab_def)
  from nth_concat_pairs [OF this, of crc16_bit "\<lambda>x. crc16_bit x XOR 0x1021"] assms
  show "crc16tab ! (2 * j) = crc16_bit (crc16tab ! j)"
    "crc16tab ! (2 * j + 1) = crc16_bit (crc16tab ! j) XOR 0x1021"
    by (simp_all only: crc16tab_doubles) simp_all
qed

lemma crc16_bit_high:
  assumes "j < 128"
  shows "crc16_bit (push_bit 8 (of_nat j)) = push_bit 8 (of_nat (2 * j))"
proof -
  have "\<not> bit (push_bit 8 (of_nat j :: u16)) 15"
    using assms by (simp add: bit_push_bit_iff bit_of_nat_iff bit_nat_def)
  then show ?thesis by (simp add: crc16_bit_def push_bit_eq_mult algebra_simps)
qed

lemma crc16_bits8: "(crc16_bit ^^ 8) x = crc16_bit (crc16_bit (crc16_bit (crc16_bit
    (crc16_bit (crc16_bit (crc16_bit (crc16_bit x)))))))"
  by (simp add: eval_nat_numeral)

lemma crc16tab_entry: "i < 256 \<Longrightarrow> crc16tab ! i = (crc16_bit ^^ 8) (push_bit 8 (of_nat i))"
proof (induction i rule: less_induct)
  case (less i)
  have one: "(crc16_bit ^^ 8) 0x100 = 0x1021" by (simp only: crc16_bits8) (simp add: crc16_bit_def)
  show ?case
  proof (cases "i = 0")
    case True
    then show ?thesis by (simp only: crc16_bits8) (simp add: crc16tab_def crc16_bit_def)
  next
    case False
    define j where "j = i div 2"
    have j: "j < i" "j < 128" "i = 2 * j \<or> i = 2 * j + 1" using False less.prems by (auto simp: j_def)
    have IH: "crc16tab ! j = (crc16_bit ^^ 8) (push_bit 8 (of_nat j))" using less.IH [OF j(1)] j(2) by simp
    have even: "crc16_bit (crc16tab ! j) = (crc16_bit ^^ 8) (push_bit 8 (of_nat (2 * j)))"
      unfolding crc16_bit_high [OF j(2), symmetric] IH by (rule funpow_swap1)
    have odd: "push_bit 8 (of_nat (2 * j + 1) :: u16) = push_bit 8 (of_nat (2 * j)) XOR 0x100"
    proof -
      have "(of_nat (2 * j + 1) :: u16) = of_nat (2 * j) XOR 1"
        by (rule bit_word_eqI) (auto simp: bit_simps bit_1_iff even_bit_succ_iff)
      then show ?thesis by (simp only: push_bit_xor) simp
    qed
    from j(3) show ?thesis
    proof
      assume "i = 2 * j"
      then show ?thesis using crc16tab_double(1) [OF j(2)] even by simp
    next
      assume "i = 2 * j + 1"
      then show ?thesis
        by (simp only: odd crc16_bits_xor one crc16tab_double(2) [OF j(2)] even)
    qed
  qed
qed


lemma crc16_step_byte: "crc16_step crc b = crc16_byte crc b"
proof -
  define i where "i = unat ((drop_bit 8 crc XOR scast b) AND 0xFF)"
  have mask: "(0xFF :: u16) = mask 8" by (simp add: mask_eq_exp_minus_1)
  have i: "i < 256"
    unfolding i_def mask take_bit_eq_mask [symmetric] unsigned_take_bit_eq
    using take_bit_nat_less_exp [of 8 "unat (drop_bit 8 crc XOR scast b :: u16)"] by simp
  have of_i: "of_nat i = (drop_bit 8 crc XOR scast b) AND (mask 8 :: u16)"
    by (simp only: i_def mask) simp
  have "crc XOR push_bit 8 (ucast b) = (crc AND mask 8) XOR push_bit 8 (of_nat i)"
    unfolding of_i
    by (rule bit_word_eqI) (auto simp: bit_simps bit_mask_iff)
  then have "crc16_byte crc b =
      (crc16_bit ^^ 8) (crc AND mask 8) XOR (crc16_bit ^^ 8) (push_bit 8 (of_nat i))"
    by (simp only: crc16_byte_def crc16_bits_xor)
  also have "(crc16_bit ^^ 8) (crc AND mask 8) = push_bit 8 (crc AND mask 8)"
    by (rule crc16_bits_low) (auto simp: bit_simps bit_mask_iff)
  also have "push_bit 8 (crc AND mask 8) = push_bit 8 crc"
    by (rule bit_word_eqI) (auto simp: bit_simps bit_mask_iff)
  finally show ?thesis
    by (simp only: crc16_step_def i_def [symmetric] crc16tab_entry [OF i, symmetric])
qed

lemma crc16_eq_spec: "crc16 buf = crc16_spec buf"
proof -
  have "crc16_step = crc16_byte" by (intro ext crc16_step_byte)
  then show ?thesis by (simp add: crc16_def crc16_spec_def)
qed

lemma keyHashSlot_less: "keyHashSlot key < 0x4000"
proof -
  have "x AND 0x3FFF < 0x4000" for x :: u32
  proof -
    have "(0x3FFF :: u32) = mask 14" by (simp add: mask_eq_exp_minus_1)
    then have "unat (x AND 0x3FFF) = take_bit 14 (unat x)"
      by (simp only: take_bit_eq_mask [symmetric] unsigned_take_bit_eq)
    then show ?thesis
      using take_bit_nat_less_exp [of 14 "unat x"] by (simp add: word_less_nat_alt)
  qed
  then show ?thesis by (simp add: keyHashSlot_def Let_def)
qed


subsection \<open>Properties\<close>

lemma takeWhile_before: "c \<notin> set p \<Longrightarrow> takeWhile (\<lambda>x. x \<noteq> c) (p @ c # q) = p"
  by (induction p) auto

text \<open>C18: the table-driven checksum is the CRC16 of the polynomial 0x1021 computed bit by bit, so a
  key with a non-empty hash tag in braces gets the slot of its tag whatever surrounds it, a key
  without braces the slot of its whole name, and every slot is below 16384.\<close>

theorem hash_tag_selects_slot:
  assumes "123 \<notin> set p" "125 \<notin> set tag" "tag \<noteq> []"
  shows "keyHashSlot (p @ [123] @ tag @ [125] @ q) = ucast (crc16_spec tag) AND 0x3FFF \<and>
    keyHashSlot p = ucast (crc16_spec p) AND 0x3FFF \<and> keyHashSlot key < 0x4000"
proof (intro conjI keyHashSlot_less)
  have "takeWhile (\<lambda>c. c \<noteq> 123) (p @ 123 # tag @ 125 # q) = p"
    "takeWhile (\<lambda>c. c \<noteq> 125) (tag @ 125 # q) = tag"
    using assms by (simp_all add: takeWhile_before)
  then show "keyHashSlot (p @ [123] @ tag @ [125] @ q) = ucast (crc16_spec tag) AND 0x3FFF"
    using assms(3) by (simp add: keyHashSlot_def Let_def crc16_eq_spec)
  have "length (takeWhile (\<lambda>c. c \<noteq> 123) p) = length p"
    using assms(1) by (subst takeWhile_eq_all_conv [THEN iffD2]) auto
  then show "keyHashSlot p = ucast (crc16_spec p) AND 0x3FFF"
    by (simp add: keyHashSlot_def crc16_eq_spec)
qed

theorem hash_tag_selects_slot_witness:
  "keyHashSlot [97, 123, 117, 49, 125, 98] = ucast (crc16_spec [117, 49]) AND 0x3FFF"
  using hash_tag_selects_slot [of "[97]" "[117, 49]" "[98]" "[]"] by simp

end
