(* ===== verification/Session.thy ===== *)
theory Session
  imports KVStore Mgl NumText SlotHash
begin

section \<open>Sessions, key locks and the segment manager\<close>

text \<open>
  A command runs in a session (server/session.cpp, network/session_ctx.cpp). The state of a command is
  the record \<open>Session\<close>: the stores of the server and the members of \<open>Session\<close> and \<open>SessionCtx\<close> the
  commands use. \<open>Server\<close> holds what stays fixed during a command: the functions of the stores, the
  configuration and the cluster state. Whether a wait for a lock succeeds depends on the other
  sessions: \<open>se_lockRes\<close> is the sequence of the results, and \<open>se_lockTrace\<close> the locks asked for.
  \<open>getSessionCmd\<close>, the text of the command for the AOF, is an input.
\<close>

subsection \<open>State\<close>

record MemLimit =
  ml_net :: bool
  ml_hardMemoryLimit :: u64
  ml_softMemoryLimit :: u64
  ml_softMemoryLimitSeconds :: nat
  ml_haveExceedHardLimit :: bool
  ml_haveExceedSoftLimit :: bool
  ml_softLimitReachedTime :: "nat option"
  ml_commandUsedMemory :: u64
  ml_sclock :: "nat \<Rightarrow> nat"

record 's Session =
  se_stores :: 's
  se_args :: "bytes list"
  se_sessionCmd :: bytes
  se_dbId :: u32
  se_version :: u64
  se_txnVersion :: u64
  se_multi :: bool
  se_master :: bool
  se_readonly :: bool
  se_replOnly :: bool
  se_txnMap :: "(nat \<times> u64) list"
  se_keylockmap :: "bytes \<rightharpoonup> LockMode"
  se_lockRes :: "nat \<Rightarrow> LockRes"
  se_lockTrace :: "(bytes \<times> LockMode) list"
  se_mem :: MemLimit
  se_extendProtocol :: bool
  se_timestamp :: u64
  se_authed :: bool
  se_tsFromExtendedProtocol :: u64

record ClusterState =
  cs_fail :: bool
  cs_nodeBySlot :: "u32 \<Rightarrow> nat option"
  cs_myself :: nat
  cs_master :: "nat \<Rightarrow> nat option"
  cs_addr :: "nat \<Rightarrow> bytes"

record 's Server =
  sv_ops :: "'s kvops"
  sv_kvstoreCount :: nat
  sv_chunkSize :: u32
  sv_noexpire :: bool
  sv_aofEnabled :: bool
  sv_psyncEnabled :: bool
  sv_ignoreKeyLock :: bool
  sv_clusterEnabled :: bool
  sv_clusterSingleNode :: bool
  sv_allowCrossSlot :: bool
  sv_elementLimitForSingleDelete :: u64
  sv_elementLimitForSingleDeleteZset :: u64
  sv_cluster :: ClusterState
  sv_isReadonlyCmd :: "bytes list \<Rightarrow> bool"
  sv_setOrder :: "u32 list \<Rightarrow> u32 list"
  sv_requirepass :: bytes

type_synonym ('s, 'a) cmd = "('s Session, 'a) st"

definition in_stores :: "('s, 'a) st \<Rightarrow> ('s, 'a) cmd" where
  "in_stores m \<sigma> = (case m (se_stores \<sigma>) of (r, s) \<Rightarrow> (r, \<sigma>\<lparr>se_stores := s\<rparr>))"

definition smod :: "('a \<Rightarrow> 'a) \<Rightarrow> ('a, unit) st" where
  "smod f s = (ok (), f s)"

definition sreads :: "('s \<Rightarrow> 'a) \<Rightarrow> ('s, 'a) st" where
  "sreads f s = (ok (f s), s)"

subsection \<open>Command text\<close>

definition getCmdStr :: "bytes list \<Rightarrow> nat \<Rightarrow> bytes" where
  "getCmdStr args lengthLimit =
    (if args = [] then []
     else
       let plain = (\<lambda>a. if a \<noteq> [] then a else str [CHR 0x22, CHR 0x22]);
           shown = (if hd args \<in> {str ''applybinlogsv2'', str ''migratebinlogs''}
                    then map (\<lambda>(i, a). if i = 2 then [91] @ dec_of_nat (length a) @ [93] else plain a)
                           (enumerate 0 args)
                    else map plain args);
           s = concat (map (\<lambda>a. a @ [32]) (butlast shown)) @ last shown in
       if lengthLimit \<noteq> 0 \<and> length s > lengthLimit then take lengthLimit s else s)"

definition txn_session :: "'s Server \<Rightarrow> 's Session \<Rightarrow> TxnSession" where
  "txn_session sv \<sigma> =
     \<lparr>ts_args = se_args \<sigma>, ts_sessionCmd = se_sessionCmd \<sigma>, ts_cmdStr = getCmdStr (se_args \<sigma>) 0,
      ts_aofEnabled = sv_aofEnabled sv, ts_versionEP = se_version \<sigma>, ts_replOnly = se_replOnly \<sigma>\<rparr>"

subsection \<open>Memory of a command (network/network.cpp)\<close>

definition sclock_now :: "(MemLimit, nat) st" where
  "sclock_now m = (ok (ml_sclock m 0), m\<lparr>ml_sclock := (\<lambda>n. ml_sclock m (Suc n))\<rparr>)"

definition checkMemLimit :: "(MemLimit, unit) st" where
  "checkMemLimit = sget (\<lambda>m.
    if ml_hardMemoryLimit m \<noteq> 0 \<and> \<not> ml_haveExceedHardLimit m \<and>
       ml_commandUsedMemory m \<ge> ml_hardMemoryLimit m
    then sthen (smod (\<lambda>m. m\<lparr>ml_haveExceedHardLimit := True\<rparr>)) (serr ERR_MEMORY_LIMIT '''')
    else if ml_softMemoryLimit m \<noteq> 0 \<and> \<not> ml_haveExceedSoftLimit m \<and>
       ml_commandUsedMemory m \<ge> ml_softMemoryLimit m
    then
      sbind (smod (\<lambda>m. m\<lparr>ml_haveExceedSoftLimit := True\<rparr>)) (\<lambda>_.
      case ml_softLimitReachedTime m of
        None \<Rightarrow> sbind sclock_now (\<lambda>t. smod (\<lambda>m. m\<lparr>ml_softLimitReachedTime := Some t\<rparr>))
      | Some t0 \<Rightarrow>
          if ml_softMemoryLimitSeconds m = 0 then sret ()
          else sbind sclock_now (\<lambda>t.
            if int t - int t0 > int (ml_softMemoryLimitSeconds m) * 1000000000
            then serr ERR_MEMORY_LIMIT '''' else sret ()))
    else sret ())"

definition memLimitRequest :: "nat \<Rightarrow> ('s, unit) cmd" where
  "memLimitRequest sizeUsed \<sigma> =
    (if \<not> ml_net (se_mem \<sigma>) then (ok (), \<sigma>)
     else
       let m = se_mem \<sigma>; m = m\<lparr>ml_commandUsedMemory := ml_commandUsedMemory m + of_nat sizeUsed\<rparr> in
       case checkMemLimit m of (r, m) \<Rightarrow> (r, \<sigma>\<lparr>se_mem := m\<rparr>))"

subsection \<open>Transactions of a session (network/session_ctx.cpp)\<close>

definition SessionCtx_createTransaction :: "'s Server \<Rightarrow> nat \<Rightarrow> ('s, u64) cmd" where
  "SessionCtx_createTransaction sv sid = sget (\<lambda>\<sigma>.
     case map_of (se_txnMap \<sigma>) sid of
       Some tid \<Rightarrow> sret tid
     | None \<Rightarrow>
         sbind (in_stores (kv_createTransaction (sv_ops sv) (Some (txn_session sv \<sigma>)) sid)) (\<lambda>tid.
         sbind (smod (\<lambda>\<sigma>. \<sigma>\<lparr>se_txnMap := (sid, tid) # se_txnMap \<sigma>\<rparr>)) (\<lambda>_.
         sret tid)))"

text \<open>Erasing an entry of \<open>_txnMap\<close> destroys the transaction.\<close>

definition erase_txn :: "'s Server \<Rightarrow> nat \<Rightarrow> u64 \<Rightarrow> ('s, unit) cmd" where
  "erase_txn sv sid tid =
     sthen (in_stores (txn_destroy (sv_ops sv) sid tid))
      (smod (\<lambda>\<sigma>. \<sigma>\<lparr>se_txnMap := filter (\<lambda>e. fst e \<noteq> sid) (se_txnMap \<sigma>)\<rparr>))"

definition SessionCtx_commitTransaction :: "'s Server \<Rightarrow> nat \<Rightarrow> u64 \<Rightarrow> ('s, u64) cmd" where
  "SessionCtx_commitTransaction sv sid tid = sget (\<lambda>\<sigma>.
     sbind (in_stores (txn_commit (sv_ops sv) (Some (txn_session sv \<sigma>)) sid tid)) (\<lambda>n.
     sbind (if map_of (se_txnMap \<sigma>) sid = Some tid then erase_txn sv sid tid else sret ()) (\<lambda>_.
     sret n)))"

text \<open>\<open>_txnMap.clear()\<close>\<close>

primrec clear_txns :: "'s Server \<Rightarrow> (nat \<times> u64) list \<Rightarrow> ('s, unit) cmd" where
  "clear_txns sv [] = smod (\<lambda>\<sigma>. \<sigma>\<lparr>se_txnMap := []\<rparr>)"
| "clear_txns sv (e # es) =
     sthen (in_stores (txn_destroy (sv_ops sv) (fst e) (snd e))) (clear_txns sv es)"

text \<open>The loops of \<open>commitAll\<close> and \<open>rollbackAll\<close>: the status of the last failure, of the last call.\<close>

primrec commit_txns ::
  "'s Server \<Rightarrow> unit expected \<Rightarrow> (nat \<times> u64) list \<Rightarrow> ('s, unit expected) cmd" where
  "commit_txns sv st [] = sret st"
| "commit_txns sv st (e # es) = sget (\<lambda>\<sigma>.
     stry (in_stores (txn_commit (sv_ops sv) (Some (txn_session sv \<sigma>)) (fst e) (snd e))) (\<lambda>r.
     commit_txns sv (case r of Inl f \<Rightarrow> Inl f | Inr _ \<Rightarrow> st) es))"

primrec rollback_txns ::
  "'s Server \<Rightarrow> unit expected \<Rightarrow> (nat \<times> u64) list \<Rightarrow> ('s, unit expected) cmd" where
  "rollback_txns sv st [] = sret st"
| "rollback_txns sv st (e # es) =
     stry (in_stores (txn_rollback (sv_ops sv) (fst e) (snd e))) (\<lambda>r. rollback_txns sv r es)"

definition commitAll :: "'s Server \<Rightarrow> ('s, unit) cmd" where
  "commitAll sv = sget (\<lambda>\<sigma>.
     sbind (commit_txns sv (ok ()) (se_txnMap \<sigma>)) (\<lambda>st.
     sbind (clear_txns sv (se_txnMap \<sigma>)) (\<lambda>_.
     slift st)))"

definition rollbackAll :: "'s Server \<Rightarrow> ('s, unit) cmd" where
  "rollbackAll sv = sget (\<lambda>\<sigma>.
     sbind (rollback_txns sv (ok ()) (se_txnMap \<sigma>)) (\<lambda>st.
     sbind (clear_txns sv (se_txnMap \<sigma>)) (\<lambda>_.
     slift st)))"

definition clearRequestCtx :: "'s Server \<Rightarrow> ('s, unit) cmd" where
  "clearRequestCtx sv = sget (\<lambda>\<sigma>.
     sthen (clear_txns sv (se_txnMap \<sigma>))
      (smod (\<lambda>\<sigma>. \<sigma>\<lparr>se_timestamp := -1, se_version := VERSIONEP_UNINITED, se_replOnly := False\<rparr>)))"

definition setExtendProtocolValue :: "u64 \<Rightarrow> u64 \<Rightarrow> 's Session \<Rightarrow> 's Session" where
  "setExtendProtocolValue ts version \<sigma> = \<sigma>\<lparr>se_timestamp := ts, se_version := version\<rparr>"

text \<open>The last three arguments of a client that uses the extended protocol: timestamp, version, \<open>v1\<close>.\<close>

definition processExtendProtocol :: "('s, unit) cmd" where
  "processExtendProtocol = sget (\<lambda>\<sigma>.
     let args = se_args \<sigma>; n = length args in
     if \<not> se_extendProtocol \<sigma> then sret ()
     else if n < 4 then serr ERR_EXTENDED_PROTOCOL ''''
     else if toLower (args ! (n - 1)) = str ''v1''
     then
       sbind (slift (stoull (args ! (n - 2)))) (\<lambda>version.
       sbind (slift (stoull (args ! (n - 3)))) (\<lambda>timestamp.
       smod (\<lambda>\<sigma>. (setExtendProtocolValue timestamp version \<sigma>)\<lparr>se_args := take (n - 3) args\<rparr>)))
     else serr ERR_EXTENDED_PROTOCOL '''')"

definition verifyVersion :: "'s Session \<Rightarrow> u64 \<Rightarrow> bool" where
  "verifyVersion \<sigma> keyVersion \<longleftrightarrow>
    (if se_multi \<sigma>
     then se_txnVersion \<sigma> = se_version \<sigma> \<and> \<not> (se_txnVersion \<sigma> < keyVersion \<and> keyVersion \<noteq> -1)
     else se_version \<sigma> = -1 \<or> \<not> (se_version \<sigma> \<le> keyVersion \<and> keyVersion \<noteq> -1))"

definition setMulti :: "'s Session \<Rightarrow> 's Session" where
  "setMulti \<sigma> = \<sigma>\<lparr>se_multi := True, se_txnVersion := se_version \<sigma>\<rparr>"

definition resetMulti :: "'s Session \<Rightarrow> 's Session" where
  "resetMulti \<sigma> = \<sigma>\<lparr>se_multi := False, se_txnVersion := -1\<rparr>"

subsection \<open>Locks of a command (lock/lock.cpp)\<close>

primrec getParentMode :: "LockMode \<Rightarrow> LockMode" where
  "getParentMode LOCK_IS = LOCK_IS"
| "getParentMode LOCK_S = LOCK_IS"
| "getParentMode LOCK_IX = LOCK_IX"
| "getParentMode LOCK_X = LOCK_IX"
| "getParentMode LOCK_NONE = LOCK_NONE"

definition mgl_lock :: "bytes \<Rightarrow> LockMode \<Rightarrow> ('s, LockRes) cmd" where
  "mgl_lock target mode \<sigma> =
    (ok (se_lockRes \<sigma> 0),
     \<sigma>\<lparr>se_lockRes := (\<lambda>n. se_lockRes \<sigma> (Suc n)),
       se_lockTrace := se_lockTrace \<sigma> @ [(target, mode)]\<rparr>)"

definition StoreLock_new :: "u32 \<Rightarrow> LockMode \<Rightarrow> ('s, LockRes) cmd" where
  "StoreLock_new storeId mode = mgl_lock (str ''store_'' @ uitos storeId) mode"

definition ChunkLock_new :: "u32 \<Rightarrow> u32 \<Rightarrow> LockMode \<Rightarrow> ('s, LockRes) cmd" where
  "ChunkLock_new storeId chunkId mode =
     sbind (StoreLock_new storeId (getParentMode mode)) (\<lambda>r.
     if r \<noteq> LOCKRES_OK then sret r
     else mgl_lock (str ''chunk_'' @ uitos chunkId) mode)"

definition KeyLock_new :: "u32 \<Rightarrow> u32 \<Rightarrow> bytes \<Rightarrow> LockMode \<Rightarrow> ('s, LockRes) cmd" where
  "KeyLock_new storeId chunkId key mode =
     sbind (ChunkLock_new storeId chunkId (getParentMode mode)) (\<lambda>r.
     if r \<noteq> LOCKRES_OK then sret r
     else
       sbind (mgl_lock (str ''key_'' @ key) mode) (\<lambda>r.
       sbind (if r = LOCKRES_OK
              then smod (\<lambda>\<sigma>. \<sigma>\<lparr>se_keylockmap := (se_keylockmap \<sigma>)(key \<mapsto> mode)\<rparr>)
              else sret ()) (\<lambda>_.
       sret r)))"

text \<open>The value is the key of the lock object, or none for the null pointer.\<close>

definition AquireKeyLock :: "u32 \<Rightarrow> u32 \<Rightarrow> bytes \<Rightarrow> LockMode \<Rightarrow> ('s, bytes option) cmd" where
  "AquireKeyLock storeId chunkId key mode = sget (\<lambda>\<sigma>.
     if se_keylockmap \<sigma> key \<noteq> None then sret None
     else
       sbind (KeyLock_new storeId chunkId key mode) (\<lambda>r.
       if r = LOCKRES_OK then sret (Some key)
       else if r = LOCKRES_TIMEOUT then serr ERR_LOCK_TIMEOUT ''Lock wait timeout''
       else serr ERR_UNKNOWN ''unknown error''))"

text \<open>The destructor.\<close>

definition KeyLock_destroy :: "bytes option \<Rightarrow> ('s, unit) cmd" where
  "KeyLock_destroy lk = (case lk of
      None \<Rightarrow> sret ()
    | Some key \<Rightarrow> smod (\<lambda>\<sigma>. \<sigma>\<lparr>se_keylockmap := (se_keylockmap \<sigma>)(key := None)\<rparr>))"

end
