(* ===== verification/SegmentMgr.thy ===== *)
theory SegmentMgr
  imports Session
begin

section \<open>The segment manager (server/segment_manager.cpp)\<close>

text \<open>
  \<open>SegmentMgrFnvHash64\<close> finds the store and the chunk of a key and takes the lock of the key. The value
  \<open>dw_keyLock\<close> of a \<open>DbWithLock\<close> is the lock object it owns; the object is destroyed, and the key
  unlocked, when the \<open>DbWithLock\<close> goes out of scope.
\<close>

record DbWithLock =
  dw_dbId :: nat
  dw_chunkId :: u32
  dw_keyLock :: "bytes option"

text \<open>
  \<open>ClusterState::clusterHandleRedirect\<close> (cluster/cluster_manager.cpp): nodes are numbered, \<open>cs_master\<close> is
  the master of a node that is a replica.
\<close>

definition clusterHandleRedirect :: "'s Server \<Rightarrow> 's Session \<Rightarrow> u32 \<Rightarrow> nat expected" where
  "clusterHandleRedirect sv \<sigma> slot =
    (let cs = sv_cluster sv in
     if cs_fail cs then err ERR_CLUSTER_REDIR_DOWN_STATE ''''
     else case cs_nodeBySlot cs slot of
       None \<Rightarrow> err ERR_CLUSTER_REDIR_DOWN_UNBOUND ''''
     | Some node \<Rightarrow>
        if se_readonly \<sigma> \<and> cs_master cs (cs_myself cs) = Some node \<and> sv_isReadonlyCmd sv (se_args \<sigma>)
        then ok (cs_myself cs)
        else if node \<noteq> cs_myself cs
        then err ERR_MOVED (''-MOVED '' @ map (char_of \<circ> unat) (uitos slot) @ '' '' @ map (char_of \<circ> unat) (cs_addr cs node)
               @ [CHR 0x0D, CHR 0x0A])
        else ok node)"

definition getStoreid :: "'s Server \<Rightarrow> u32 \<Rightarrow> u32 expected" where
  "getStoreid sv chunkid = getKvStoreID chunkid (of_nat (sv_kvstoreCount sv))"

definition isSessionReplOnly :: "'s Server \<Rightarrow> 's Session \<Rightarrow> bool" where
  "isSessionReplOnly sv \<sigma> \<longleftrightarrow> \<not> (sv_psyncEnabled sv \<and> se_master \<sigma>)"

text \<open>The chunk of a key and its store.\<close>

definition locate :: "'s Server \<Rightarrow> bytes \<Rightarrow> (u32 \<times> u32) expected" where
  "locate sv key =
    (let chunkId = keyHashSlot key mod sv_chunkSize sv in
     if sv_chunkSize sv \<noteq> CLUSTER_SLOTS then Inl Fatal
     else ebind (getStoreid sv chunkId) (\<lambda>segId. ok (chunkId, segId)))"

definition check_store :: "'s Server \<Rightarrow> nat \<Rightarrow> ('s, unit) cmd" where
  "check_store sv segId =
     sbind (in_stores (kv_getMode (sv_ops sv) segId)) (\<lambda>mode.
     if mode = STORE_NONE then serr ERR_INTERNAL ''store is not opened''
     else
       sbind (in_stores (kv_isPaused (sv_ops sv) segId)) (\<lambda>p.
       if p then serr ERR_INTERNAL ''store is paused'' else sret ()))"

definition set_replOnly_of :: "'s Server \<Rightarrow> nat \<Rightarrow> bool \<Rightarrow> ('s, unit) cmd" where
  "set_replOnly_of sv segId v =
     sbind (in_stores (kv_getMode (sv_ops sv) segId)) (\<lambda>mode.
     if mode = REPLICATE_ONLY then smod (\<lambda>\<sigma>. \<sigma>\<lparr>se_replOnly := v\<rparr>) else sret ())"

text \<open>A lock object that is a local variable: destroyed when the function fails.\<close>

definition lock_unless_ok :: "bytes option \<Rightarrow> ('s, 'a) cmd \<Rightarrow> ('s, 'a) cmd" where
  "lock_unless_ok lk m =
     stry m (\<lambda>r. case r of
         Inr x \<Rightarrow> sret x
       | Inl e \<Rightarrow> sthen (KeyLock_destroy lk) (sfail e))"

definition redirect_check :: "'s Server \<Rightarrow> u32 \<Rightarrow> ('s, unit) cmd" where
  "redirect_check sv chunkId = sget (\<lambda>\<sigma>.
     if sv_clusterEnabled sv \<and> isSessionReplOnly sv \<sigma>
     then sbind (slift (clusterHandleRedirect sv \<sigma> chunkId)) (\<lambda>_. sret ())
     else sret ())"

definition getDbWithKeyLock :: "'s Server \<Rightarrow> bytes \<Rightarrow> LockMode \<Rightarrow> ('s, DbWithLock) cmd" where
  "getDbWithKeyLock sv key mode =
     sbind (slift (locate sv key)) (\<lambda>(chunkId, segId).
     sbind (check_store sv (unat segId)) (\<lambda>_.
     let mode = (if sv_ignoreKeyLock sv then LOCK_NONE else mode) in
     sbind (sget (\<lambda>\<sigma>. set_replOnly_of sv (unat segId) (isSessionReplOnly sv \<sigma>))) (\<lambda>_.
     if mode \<noteq> LOCK_NONE
     then
       sbind (AquireKeyLock segId chunkId key mode) (\<lambda>elk.
       lock_unless_ok elk
        (sbind (redirect_check sv chunkId) (\<lambda>_.
         sret \<lparr>dw_dbId = unat segId, dw_chunkId = chunkId, dw_keyLock = elk\<rparr>)))
     else
       sbind (redirect_check sv chunkId) (\<lambda>_.
       sret \<lparr>dw_dbId = unat segId, dw_chunkId = chunkId, dw_keyLock = None\<rparr>))))"

definition getDbHasLocked :: "'s Server \<Rightarrow> bytes \<Rightarrow> ('s, DbWithLock) cmd" where
  "getDbHasLocked sv key =
     sbind (slift (locate sv key)) (\<lambda>(chunkId, segId).
     sbind (check_store sv (unat segId)) (\<lambda>_.
     sbind (sget (\<lambda>\<sigma>. set_replOnly_of sv (unat segId) (isSessionReplOnly sv \<sigma>))) (\<lambda>_.
     sret \<lparr>dw_dbId = unat segId, dw_chunkId = chunkId, dw_keyLock = None\<rparr>)))"

text \<open>\<open>getDb\<close> without a lock, as the commands below call it.\<close>

definition getDb_nolock :: "'s Server \<Rightarrow> nat \<Rightarrow> ('s, DbWithLock) cmd" where
  "getDb_nolock sv insId =
    (if insId \<ge> sv_kvstoreCount sv then serr ERR_INTERNAL ''invalid instance id''
     else
       sbind (in_stores (kv_getMode (sv_ops sv) insId)) (\<lambda>mode.
       if mode = STORE_NONE then serr ERR_INTERNAL ''store is not opened''
       else
         sbind (set_replOnly_of sv insId True) (\<lambda>_.
         sret \<lparr>dw_dbId = insId, dw_chunkId = 0, dw_keyLock = None\<rparr>)))"

text \<open>The scope of a \<open>DbWithLock\<close> variable.\<close>

definition with_db :: "DbWithLock \<Rightarrow> ('s, 'a) cmd \<Rightarrow> ('s, 'a) cmd" where
  "with_db db m = stry m (\<lambda>r. sthen (KeyLock_destroy (dw_keyLock db)) (slift r))"

subsection \<open>Several keys\<close>

text \<open>
  \<open>segList\<close> is a \<open>std::map\<close> from the stores to their keys: ascending store ids, the keys in the
  order of the arguments. \<open>sv_setOrder\<close> is the order in which the \<open>unordered_set\<close> of the chunks is
  traversed.
\<close>

definition chunk_key_less :: "u32 \<times> bytes \<Rightarrow> u32 \<times> bytes \<Rightarrow> bool" where
  "chunk_key_less a b \<longleftrightarrow>
     fst a < fst b \<or> fst a = fst b \<and> ord_class.lexordp (snd a) (snd b)"

primrec sort_ins :: "('a \<Rightarrow> 'a \<Rightarrow> bool) \<Rightarrow> 'a \<Rightarrow> 'a list \<Rightarrow> 'a list" where
  "sort_ins lt x [] = [x]"
| "sort_ins lt x (y # ys) = (if lt y x then y # sort_ins lt x ys else x # y # ys)"

definition std_sort :: "('a \<Rightarrow> 'a \<Rightarrow> bool) \<Rightarrow> 'a list \<Rightarrow> 'a list" where
  "std_sort lt xs = foldr (sort_ins lt) xs []"

fun seg_add :: "u32 \<Rightarrow> 'a \<Rightarrow> (u32 \<times> 'a list) list \<Rightarrow> (u32 \<times> 'a list) list" where
  "seg_add k x [] = [(k, [x])]"
| "seg_add k x ((k', xs) # m) =
    (if k < k' then (k, [x]) # (k', xs) # m
     else if k = k' then (k', xs @ [x]) # m
     else (k', xs) # seg_add k x m)"

primrec locate_all :: "'s Server \<Rightarrow> bytes list \<Rightarrow> nat list \<Rightarrow> (u32 \<times> u32 \<times> bytes) list expected" where
  "locate_all sv args [] = ok []"
| "locate_all sv args (i # is) =
    (if i \<ge> length args then Inl Undef
     else
       ebind (locate sv (args ! i)) (\<lambda>(chunkId, segId).
       ebind (locate_all sv args is) (\<lambda>ls.
       ok ((segId, chunkId, args ! i) # ls))))"

definition segList :: "(u32 \<times> u32 \<times> bytes) list \<Rightarrow> (u32 \<times> (u32 \<times> bytes) list) list" where
  "segList ls = foldl (\<lambda>m (segId, chunkId, key). seg_add segId (chunkId, key) m) [] ls"

text \<open>The order in which the keys are locked.\<close>

definition lock_order :: "(u32 \<times> u32 \<times> bytes) list \<Rightarrow> (u32 \<times> u32 \<times> bytes) list" where
  "lock_order ls =
     concat (map (\<lambda>(segId, ks). map (\<lambda>k. (segId, k)) (std_sort chunk_key_less ks)) (segList ls))"

primrec unlock_all :: "bytes option list \<Rightarrow> ('s, unit) cmd" where
  "unlock_all [] = sret ()"
| "unlock_all (l # ls) = sthen (KeyLock_destroy l) (unlock_all ls)"

primrec lock_all ::
  "LockMode \<Rightarrow> bytes option list \<Rightarrow> (u32 \<times> u32 \<times> bytes) list \<Rightarrow> ('s, bytes option list) cmd" where
  "lock_all mode locklist [] = sret locklist"
| "lock_all mode locklist (e # es) =
     stry (AquireKeyLock (fst e) (fst (snd e)) (snd (snd e)) mode) (\<lambda>r. case r of
       Inl f \<Rightarrow> sthen (unlock_all locklist) (sfail f)
     | Inr elk \<Rightarrow> lock_all mode (locklist @ [elk]) es)"

primrec redirect_all :: "'s Server \<Rightarrow> u32 list \<Rightarrow> ('s, unit) cmd" where
  "redirect_all sv [] = sret ()"
| "redirect_all sv (c # cs) = sget (\<lambda>\<sigma>.
     sbind (slift (clusterHandleRedirect sv \<sigma> c)) (\<lambda>_. redirect_all sv cs))"

definition getAllKeysLocked ::
  "'s Server \<Rightarrow> bytes list \<Rightarrow> nat list \<Rightarrow> LockMode \<Rightarrow> bool \<Rightarrow> ('s, bytes option list) cmd" where
  "getAllKeysLocked sv args index mode allowCrossSlotFlag =
    (if mode = LOCK_NONE then sret []
     else sget (\<lambda>\<sigma>.
       let cmdAllowCrossSlot = (sv_allowCrossSlot sv \<and> allowCrossSlotFlag);
           replOnly = isSessionReplOnly sv \<sigma>;
           clusterHasMultiNodes = (sv_clusterEnabled sv \<and> \<not> sv_clusterSingleNode sv) in
       sbind (slift (locate_all sv args index)) (\<lambda>ls.
       let chunkSet = sv_setOrder sv (remdups (map (fst \<circ> snd) ls));
           nodes = map (\<lambda>l. cs_nodeBySlot (sv_cluster sv) (fst (snd l))) ls in
       if clusterHasMultiNodes \<and> cmdAllowCrossSlot \<and> None \<in> set nodes
       then serr ERR_CLUSTER_REDIR_DOWN_UNBOUND ''''
       else
         sbind (if chunkSet \<noteq> []
                then sbind (slift (getStoreid sv (hd chunkSet))) (\<lambda>segId.
                  set_replOnly_of sv (unat segId) replOnly)
                else sret ()) (\<lambda>_.
         if clusterHasMultiNodes \<and>
            (if cmdAllowCrossSlot then length (remdups nodes) > 1 else length chunkSet > 1)
         then serr ERR_CLUSTER_REDIR_CROSS_SLOT ''''
         else
           sbind (lock_all mode [] (lock_order ls)) (\<lambda>locklist.
           stry (if clusterHasMultiNodes \<and> replOnly then redirect_all sv chunkSet else sret ()) (\<lambda>r.
           case r of
             Inl f \<Rightarrow> sthen (unlock_all locklist) (sfail f)
           | Inr _ \<Rightarrow> sret locklist))))))"

text \<open>The scope of the list of locks.\<close>

definition with_locks :: "bytes option list \<Rightarrow> ('s, 'a) cmd \<Rightarrow> ('s, 'a) cmd" where
  "with_locks ls m = stry m (\<lambda>r. sthen (unlock_all ls) (slift r))"

end
