(* ===== verification/Command.thy ===== *)
theory Command
  imports SegmentMgr
begin

section \<open>What all commands share (commands/command.cpp)\<close>

text \<open>
  Replies in the Redis protocol, expiry, deletion and scanning of keys. A command that fails ends with
  an error status, which the server prints. The counters of hits and misses are left out.
\<close>

subsection \<open>Replies\<close>

definition crlf :: bytes where "crlf = [13, 10]"

definition fmtErr :: "bytes \<Rightarrow> bytes" where
  "fmtErr s = (if s \<noteq> [] \<and> hd s = 45 then s else str ''-ERR '' @ s @ crlf)"

definition fmtNull :: bytes where "fmtNull = str ''$-1'' @ crlf"
definition fmtOK :: bytes where "fmtOK = str ''+OK'' @ crlf"
definition fmtOne :: bytes where "fmtOne = str '':1'' @ crlf"
definition fmtZero :: bytes where "fmtZero = str '':0'' @ crlf"
definition fmtBusyKey :: bytes where
  "fmtBusyKey = str ''-BUSYKEY Target key name already exists.'' @ crlf"
definition fmtZeroBulkLen :: bytes where "fmtZeroBulkLen = str ''*0'' @ crlf"

definition fmtLongLong :: "int \<Rightarrow> bytes" where
  "fmtLongLong v = str '':'' @ dec_of_int v @ crlf"

definition fmtMultiBulkLen :: "u64 \<Rightarrow> bytes" where
  "fmtMultiBulkLen l = str ''*'' @ dec_of_nat (unat l) @ crlf"

definition fmtBulk :: "bytes \<Rightarrow> bytes" where
  "fmtBulk s = str ''$'' @ dec_of_nat (length s) @ crlf @ s @ crlf"

definition fmtStatus :: "bytes \<Rightarrow> bytes" where
  "fmtStatus s = str ''+'' @ s @ crlf"

definition getInt64FromFmtLongLong :: "bytes \<Rightarrow> u64 expected" where
  "getInt64FromFmtLongLong s =
    (if s = [] \<or> hd s \<noteq> 58 then err ERR_INTERGER ''not a fmtLongLong''
     else if 13 \<notin> set s then err ERR_INTERGER ''not a fmtLongLong''
     else stoull (tl (takeWhile (\<lambda>b. b \<noteq> 13) s)))"

text \<open>
  The keys of a command, from the positions its class declares. The step is positive in every class; a
  loop with another step would not end.
\<close>

function key_positions :: "int \<Rightarrow> int \<Rightarrow> int \<Rightarrow> nat list" where
  "key_positions i l step =
    (if step \<le> 0 \<or> l < i then [] else nat i # key_positions (i + step) l step)"
  by auto
termination by (relation "measure (\<lambda>(i, l, step). nat (l + 1 - i))") auto

declare key_positions.simps [simp del]

definition getKeysFromCommand :: "int \<Rightarrow> int \<Rightarrow> int \<Rightarrow> bytes list \<Rightarrow> nat list" where
  "getKeysFromCommand firstkey lastkey keystep argv =
    (if firstkey = 0 then []
     else
       let argc = int (length argv); lastkey = (if lastkey < 0 then argc + lastkey else lastkey) in
       key_positions firstkey lastkey keystep)"

subsection \<open>Store access\<close>

definition RETRY_CNT :: nat where "RETRY_CNT = 3"
definition RdLock :: LockMode where "RdLock = LOCK_X"

definition getKV :: "'s Server \<Rightarrow> nat \<Rightarrow> u64 \<Rightarrow> RecordKey \<Rightarrow> ('s, RecordValue) cmd" where
  "getKV sv sid tid k = in_stores (kv_getKV (sv_ops sv) sid tid k)"

definition setKV :: "'s Server \<Rightarrow> nat \<Rightarrow> u64 \<Rightarrow> RecordKey \<Rightarrow> RecordValue \<Rightarrow> ('s, unit) cmd" where
  "setKV sv sid tid k v = in_stores (kv_setKV (sv_ops sv) sid tid k v)"

definition delKV :: "'s Server \<Rightarrow> nat \<Rightarrow> u64 \<Rightarrow> RecordKey \<Rightarrow> ('s, unit) cmd" where
  "delKV sv sid tid k = in_stores (kv_delKV (sv_ops sv) sid tid k)"

definition delTTLIndex :: "'s Server \<Rightarrow> nat \<Rightarrow> u64 \<Rightarrow> TTLIndex \<Rightarrow> ('s, unit) cmd" where
  "delTTLIndex sv sid tid ictx =
     sbind (slift (TTLIndex_encode ictx)) (\<lambda>k. in_stores (txn_delKV (sv_ops sv) sid tid k))"

text \<open>A transaction held by a local \<open>unique_ptr\<close>.\<close>

definition own_txn :: "'s Server \<Rightarrow> nat \<Rightarrow> u64 \<Rightarrow> ('s, 'a) cmd \<Rightarrow> ('s, 'a) cmd" where
  "own_txn sv sid tid m =
     stry m (\<lambda>r. sthen (in_stores (txn_destroy (sv_ops sv) sid tid)) (slift r))"

text \<open>
  \<open>LocalSessionGuard\<close>: a new session without a connection. The part of the state that is the server's
  stays; the members of the caller's session are back afterwards.
\<close>

definition local_session :: "bytes list \<Rightarrow> 's Session \<Rightarrow> 's Session" where
  "local_session args \<sigma> =
     \<sigma>\<lparr>se_args := args,
       se_sessionCmd := fmtMultiBulkLen (of_nat (length args)) @ concat (map fmtBulk args),
       se_dbId := 0, se_version := VERSIONEP_UNINITED, se_txnVersion := -1, se_multi := False,
       se_master := False, se_readonly := False, se_replOnly := False, se_txnMap := [],
       se_keylockmap := Map.empty, se_mem := (se_mem \<sigma>)\<lparr>ml_net := False\<rparr>,
       se_extendProtocol := False, se_timestamp := -1, se_authed := False\<rparr>"

definition with_local :: "bytes list \<Rightarrow> ('s, 'a) cmd \<Rightarrow> ('s, 'a) cmd" where
  "with_local args m \<sigma> =
    (case m (local_session args \<sigma>) of
       (r, \<tau>) \<Rightarrow> (r, \<sigma>\<lparr>se_stores := se_stores \<tau>, se_lockRes := se_lockRes \<tau>,
                       se_lockTrace := se_lockTrace \<tau>\<rparr>))"

subsection \<open>Deleting the parts of a key\<close>

definition useDeleteRange :: "'s Server \<Rightarrow> u64 \<Rightarrow> RecordType \<Rightarrow> bool" where
  "useDeleteRange sv eleCount valueType =
    (if valueType = RT_KV then False
     else if valueType = RT_ZSET_META then eleCount \<ge> sv_elementLimitForSingleDeleteZset sv
     else eleCount \<ge> sv_elementLimitForSingleDelete sv)"

text \<open>The types of the records below a key, by the type of its meta value.\<close>

definition ele_types :: "RecordType \<Rightarrow> RecordType list" where
  "ele_types valueType =
    (case valueType of
       RT_HASH_META \<Rightarrow> [RT_HASH_ELE]
     | RT_LIST_META \<Rightarrow> [RT_LIST_ELE]
     | RT_SET_META \<Rightarrow> [RT_SET_ELE]
     | RT_ZSET_META \<Rightarrow> [RT_ZSET_S_ELE, RT_ZSET_H_ELE]
     | RT_TBITMAP_META \<Rightarrow> [RT_TBITMAP_ELE]
     | _ \<Rightarrow> [])"

definition fakeEle :: "RecordKey \<Rightarrow> RecordType \<Rightarrow> u64 \<Rightarrow> RecordKey" where
  "fakeEle mk t version = RecordKey_new (rk_chunkId mk) (rk_dbId mk) t (rk_pk mk) [] version"

primrec deleteRanges :: "'s Server \<Rightarrow> nat \<Rightarrow> RecordKey \<Rightarrow> RecordType list \<Rightarrow> ('s, unit) cmd" where
  "deleteRanges sv sid mk [] = sret ()"
| "deleteRanges sv sid mk (t # ts) =
     sbind (slift (prefixPk (fakeEle mk t 0))) (\<lambda>start.
     sbind (slift (prefixPk (fakeEle mk t (-1)))) (\<lambda>end.
     sbind (in_stores (kv_deleteRange (sv_ops sv) sid start end)) (\<lambda>_.
     deleteRanges sv sid mk ts)))"

definition delSubkeysRange ::
  "'s Server \<Rightarrow> nat \<Rightarrow> RecordKey \<Rightarrow> RecordType \<Rightarrow> ('s, unit) cmd" where
  "delSubkeysRange sv storeId mk valueType =
     sbind (getDb_nolock sv storeId) (\<lambda>db.
     if valueType = RT_KV then serr ERR_INTERNAL ''it can not be a KV string''
     else deleteRanges sv storeId mk (ele_types valueType))"

lemma BasicDataCursor_next_shrinks:
  assumes "BasicDataCursor_next c = (Inr r, c')"
  shows "bc_seeked c' \<and> (bc_seeked c \<longrightarrow>
    length (cu_rest (bc_baseCursor c')) < length (cu_rest (bc_baseCursor c)))"
  using assms
  by (auto simp: BasicDataCursor_next_def RocksKVCursor_next_def BasicDataCursor_seek_def Let_def
      split: if_split_asm list.split_asm sum.split_asm prod.split_asm)

definition cursor_rank :: "BasicDataCursor \<Rightarrow> nat \<times> nat" where
  "cursor_rank c = (if bc_seeked c then 0 else 1, length (cu_rest (bc_baseCursor c)))"

lemma cursor_rank_next:
  "BasicDataCursor_next c = (Inr r, c') \<Longrightarrow> (cursor_rank c', cursor_rank c) \<in> less_than <*lex*> less_than"
  by (drule BasicDataCursor_next_shrinks) (auto simp: cursor_rank_def)

text \<open>The loop that collects the keys with a prefix, at most \<open>subCount\<close> in total.\<close>

function collect :: "bytes \<Rightarrow> nat \<Rightarrow> RecordKey list \<Rightarrow> BasicDataCursor \<Rightarrow> RecordKey list expected" where
  "collect pfx subCount pds c =
    (if length pds \<ge> subCount then ok pds
     else case BasicDataCursor_next c of
       (Inl e, c') \<Rightarrow> (case e of Status ERR_EXHAUST _ \<Rightarrow> ok pds | _ \<Rightarrow> Inl e)
     | (Inr rcd, c') \<Rightarrow>
        (case prefixPk (rc_key rcd) of
           Inl e \<Rightarrow> Inl e
         | Inr p \<Rightarrow> if p \<noteq> pfx then ok pds else collect pfx subCount (pds @ [rc_key rcd]) c'))"
  by pat_completeness auto
termination
  by (relation "inv_image (less_than <*lex*> less_than) (\<lambda>(pfx, n, pds, c). cursor_rank c)")
    (auto simp del: in_lex_prod intro!: cursor_rank_next [OF sym])

declare collect.simps [simp del]

primrec collectAll ::
  "'s Server \<Rightarrow> nat \<Rightarrow> u64 \<Rightarrow> nat \<Rightarrow> RecordKey \<Rightarrow> RecordKey list \<Rightarrow> RecordType list \<Rightarrow> ('s, RecordKey list) cmd" where
  "collectAll sv sid tid subCount mk pds [] = sret pds"
| "collectAll sv sid tid subCount mk pds (t # ts) =
     sbind (slift (prefixPk (fakeEle mk t 0))) (\<lambda>pfx.
     sbind (in_stores (txn_createDataCursor (sv_ops sv) sid tid)) (\<lambda>cursor.
     sbind (slift (collect pfx subCount pds (BasicDataCursor_seek pfx cursor))) (\<lambda>pds.
     collectAll sv sid tid subCount mk pds ts)))"

primrec delKVs :: "'s Server \<Rightarrow> nat \<Rightarrow> u64 \<Rightarrow> RecordKey list \<Rightarrow> ('s, unit) cmd" where
  "delKVs sv sid tid [] = sret ()"
| "delKVs sv sid tid (k # ks) = sthen (delKV sv sid tid k) (delKVs sv sid tid ks)"

text \<open>\<open>if (ictx && ictx->getType() != RecordType::RT_KV)\<close>\<close>

definition del_ictx :: "'s Server \<Rightarrow> nat \<Rightarrow> u64 \<Rightarrow> TTLIndex option \<Rightarrow> ('s, unit) cmd" where
  "del_ictx sv sid tid ictx = (case ictx of
      None \<Rightarrow> sret ()
    | Some i \<Rightarrow> if ti_type i \<noteq> RT_KV then delTTLIndex sv sid tid i else sret ())"

definition UINT32_MAX :: nat where "UINT32_MAX = 2 ^ 32 - 1"

definition partialDelSubKeys ::
  "'s Server \<Rightarrow> nat \<Rightarrow> nat \<Rightarrow> RecordKey \<Rightarrow> RecordType \<Rightarrow> bool \<Rightarrow> u64 \<Rightarrow> TTLIndex option \<Rightarrow> ('s, u32) cmd" where
  "partialDelSubKeys sv storeId subCount mk valueType deleteMeta tid ictx =
    (if deleteMeta \<and> subCount \<noteq> UINT32_MAX then serr ERR_PARSEOPT ''delmeta with limited subcount''
     else
       sbind (getDb_nolock sv storeId) (\<lambda>db.
       if valueType = RT_KV then sthen (delKV sv storeId tid mk) (sret 1)
       else
         sbind (collectAll sv storeId tid subCount mk [] (ele_types valueType)) (\<lambda>pds.
         let pds = (if deleteMeta then pds @ [mk] else pds) in
         sbind (delKVs sv storeId tid pds) (\<lambda>_.
         sbind (del_ictx sv storeId tid ictx) (\<lambda>_.
         sret (of_nat (length pds)))))))"

definition delKeyOptimismInLock ::
  "'s Server \<Rightarrow> nat \<Rightarrow> RecordKey \<Rightarrow> RecordType \<Rightarrow> u64 \<Rightarrow> TTLIndex option \<Rightarrow> ('s, unit) cmd" where
  "delKeyOptimismInLock sv storeId rk valueType tid ictx =
     sthen (partialDelSubKeys sv storeId UINT32_MAX rk valueType True tid ictx) (sret ())"

definition delKeyPessimisticInLock ::
  "'s Server \<Rightarrow> nat \<Rightarrow> RecordKey \<Rightarrow> RecordType \<Rightarrow> TTLIndex option \<Rightarrow> ('s, unit) cmd" where
  "delKeyPessimisticInLock sv storeId mk valueType ictx =
     sbind (slift (RecordKey_encode mk)) (\<lambda>_.
     sbind (getDb_nolock sv storeId) (\<lambda>db. sget (\<lambda>\<sigma>.
     sbind (in_stores (kv_createTransaction (sv_ops sv) (Some (txn_session sv \<sigma>)) storeId)) (\<lambda>tid.
     own_txn sv storeId tid
      (sbind (delSubkeysRange sv storeId mk valueType) (\<lambda>_.
       sbind (delKV sv storeId tid mk) (\<lambda>_.
       sbind (del_ictx sv storeId tid ictx) (\<lambda>_. sget (\<lambda>\<sigma>.
       sthen (in_stores (txn_commit (sv_ops sv) (Some (txn_session sv \<sigma>)) storeId tid)) (sret ()))))))))))"

subsection \<open>Expiry and deletion of keys\<close>

definition wrong_type :: "bytes \<Rightarrow> string" where
  "wrong_type key =
     ''-WRONGTYPE Operation against a key holding the wrong kind of value('' @
     map (char_of \<circ> unat) key @ '')'' @ [CHR 0x0D, CHR 0x0A]"

text \<open>
  The body of the retry loop of \<open>expireKeyIfNeeded\<close>, in the local session; every path returns, so
  the loop runs once. \<open>\<sigma>0\<close> is the caller's session.
\<close>

definition expire_in_txn ::
  "'s Server \<Rightarrow> 's Session \<Rightarrow> nat \<Rightarrow> RecordKey \<Rightarrow> bytes \<Rightarrow> RecordType \<Rightarrow> bool \<Rightarrow> u64 \<Rightarrow> ('s, RecordValue) cmd" where
  "expire_in_txn sv \<sigma>0 sid mk key tp hasVersion tid =
     sbind (getKV sv sid tid mk) (\<lambda>v.
     sbind (in_stores (clock_ms (sv_ops sv) sid)) (\<lambda>currentTs.
     if sv_noexpire sv \<or> rv_ttl v = 0 \<or> currentTs < rv_ttl v
     then
       if rv_type v \<noteq> tp \<and> tp \<noteq> RT_DATA_META then serr ERR_WRONG_TYPE (wrong_type key)
       else if hasVersion \<and> \<not> verifyVersion \<sigma>0 (rv_versionEP v) then serr ERR_WRONG_VERSION_EP ''''
       else sret v
     else
       sbind (in_stores (txn_isReplOnly (sv_ops sv) sid tid)) (\<lambda>ro.
       if ro then serr ERR_EXPIRED ''''
       else
         sbind (slift (getSubKeyCount mk v)) (\<lambda>cnt.
         let ictx = \<lparr>ti_priKey = key, ti_type = rv_type v, ti_dbId = se_dbId \<sigma>0, ti_ttl = rv_ttl v\<rparr> in
         if useDeleteRange sv cnt (rv_type v)
         then sthen (delKeyPessimisticInLock sv sid mk (rv_type v) (Some ictx)) (serr ERR_EXPIRED '''')
         else
           sbind (delKeyOptimismInLock sv sid mk (rv_type v) tid (Some ictx)) (\<lambda>_. sget (\<lambda>\<tau>.
           sthen (in_stores (txn_commit (sv_ops sv) (Some (txn_session sv \<tau>)) sid tid))
             (serr ERR_EXPIRED '''')))))))"

definition expire_body ::
  "'s Server \<Rightarrow> 's Session \<Rightarrow> nat \<Rightarrow> RecordKey \<Rightarrow> bytes \<Rightarrow> RecordType \<Rightarrow> bool \<Rightarrow> ('s, RecordValue) cmd" where
  "expire_body sv \<sigma>0 sid mk key tp hasVersion = sget (\<lambda>\<tau>.
     sbind (in_stores (kv_createTransaction (sv_ops sv) (Some (txn_session sv \<tau>)) sid)) (\<lambda>tid.
     own_txn sv sid tid (expire_in_txn sv \<sigma>0 sid mk key tp hasVersion tid)))"

definition expireKeyIfNeeded ::
  "'s Server \<Rightarrow> bytes \<Rightarrow> RecordType \<Rightarrow> bool \<Rightarrow> ('s, RecordValue) cmd" where
  "expireKeyIfNeeded sv key tp hasVersion =
     sbind (getDbWithKeyLock sv key RdLock) (\<lambda>db.
     with_db db (sget (\<lambda>\<sigma>.
       let args = (if length (se_args \<sigma>) \<ge> 2 then [str ''del'', key] else []);
           mk = RecordKey_new (dw_chunkId db) (se_dbId \<sigma>) tp key [] 0 in
       sbind (in_stores (kv_getMode (sv_ops sv) (dw_dbId db))) (\<lambda>mode.
       with_local args
        (sthen (smod (\<lambda>\<tau>. \<tau>\<lparr>se_replOnly := (mode = REPLICATE_ONLY)\<rparr>))
          (expire_body sv \<sigma> (dw_dbId db) mk key tp hasVersion))))))"

definition delKeyAndTTL ::
  "'s Server \<Rightarrow> RecordKey \<Rightarrow> RecordValue \<Rightarrow> nat \<Rightarrow> u64 \<Rightarrow> ('s, unit) cmd" where
  "delKeyAndTTL sv mk val sid tid =
     sbind (delKV sv sid tid mk) (\<lambda>_. sget (\<lambda>\<sigma>.
     if rv_ttl val > 0 \<and> rv_type val \<noteq> RT_KV
     then delTTLIndex sv sid tid
       \<lparr>ti_priKey = rk_pk mk, ti_type = rv_type val, ti_dbId = se_dbId \<sigma>, ti_ttl = rv_ttl val\<rparr>
     else sret ()))"

primrec delKey_retry ::
  "'s Server \<Rightarrow> nat \<Rightarrow> RecordKey \<Rightarrow> bytes \<Rightarrow> u64 \<Rightarrow> nat \<Rightarrow> ('s, unit) cmd" where
  "delKey_retry sv sid mk key tid 0 = serr ERR_INTERNAL ''not reachable''"
| "delKey_retry sv sid mk key tid (Suc left) = sget (\<lambda>\<sigma>.
     stry (getKV sv sid tid mk) (\<lambda>ev. case ev of
       Inl e \<Rightarrow> if code_of ev = ERR_NOTFOUND then sret () else sfail e
     | Inr v \<Rightarrow>
         sbind (slift (getSubKeyCount mk v)) (\<lambda>cnt.
         let ictx = \<lparr>ti_priKey = key, ti_type = rv_type v, ti_dbId = se_dbId \<sigma>, ti_ttl = rv_ttl v\<rparr>;
             ictx = (if rv_ttl v > 0 then Some ictx else None) in
         if useDeleteRange sv cnt (rv_type v)
         then delKeyPessimisticInLock sv sid mk (rv_type v) ictx
         else
           stry (delKeyOptimismInLock sv sid mk (rv_type v) tid ictx) (\<lambda>s.
           if code_of s = ERR_COMMIT_RETRY \<and> left \<noteq> 0 then delKey_retry sv sid mk key tid left
           else slift s))))"

definition delKey :: "'s Server \<Rightarrow> bytes \<Rightarrow> RecordType \<Rightarrow> u64 \<Rightarrow> ('s, unit) cmd" where
  "delKey sv key tp tid =
     sbind (getDbWithKeyLock sv key LOCK_X) (\<lambda>db.
     with_db db (sget (\<lambda>\<sigma>.
       let mk = RecordKey_new (dw_chunkId db) (se_dbId \<sigma>) tp key [] 0 in
       delKey_retry sv (dw_dbId db) mk key tid RETRY_CNT)))"

definition delKeyChkExpire :: "'s Server \<Rightarrow> bytes \<Rightarrow> RecordType \<Rightarrow> u64 \<Rightarrow> ('s, bool) cmd" where
  "delKeyChkExpire sv key tp tid =
     stry (expireKeyIfNeeded sv key tp True) (\<lambda>rv. case rv of
       Inl e \<Rightarrow> if code_of rv \<in> {ERR_EXPIRED, ERR_NOTFOUND} then sret False else sfail e
     | Inr _ \<Rightarrow>
         stry (delKey sv key tp tid) (\<lambda>s. case s of
           Inl e \<Rightarrow> if code_of s = ERR_NOTFOUND then sret False else sfail e
         | Inr _ \<Rightarrow> sret True))"

subsection \<open>Scanning\<close>

text \<open>Sizes with four-byte enumerations and strings of 32 bytes.\<close>

definition MEMORY_USED_BESIDES_KEY :: nat where "MEMORY_USED_BESIDES_KEY = 89"
definition MEMORY_USED_BESIDES_VALUE :: nat where "MEMORY_USED_BESIDES_VALUE = 84"

definition record_memory :: "Record \<Rightarrow> nat" where
  "record_memory r =
     MEMORY_USED_BESIDES_KEY + length (rk_pk (rc_key r)) + length (rk_sk (rc_key r)) +
     MEMORY_USED_BESIDES_VALUE + length (rv_value (rc_value r))"

function scan_loop :: "bytes \<Rightarrow> nat \<Rightarrow> Record list \<Rightarrow> BasicDataCursor \<Rightarrow> ('s, Record list) cmd" where
  "scan_loop pk limit result c =
    (if length result \<ge> limit then sret result
     else case BasicDataCursor_next c of
       (Inl e, c') \<Rightarrow> (case e of Status ERR_EXHAUST _ \<Rightarrow> sret result | _ \<Rightarrow> sfail e)
     | (Inr rcd, c') \<Rightarrow>
        (case prefixPk (rc_key rcd) of
           Inl e \<Rightarrow> sfail e
         | Inr p \<Rightarrow>
            if p \<noteq> pk then sret result
            else sthen (memLimitRequest (record_memory rcd)) (scan_loop pk limit (result @ [rcd]) c')))"
  by pat_completeness auto
termination
  by (relation "inv_image (less_than <*lex*> less_than) (\<lambda>(pk, n, result, c). cursor_rank c)")
    (auto simp del: in_lex_prod intro!: cursor_rank_next [OF sym])

declare scan_loop.simps [simp del]

definition scan ::
  "'s Server \<Rightarrow> nat \<Rightarrow> bytes \<Rightarrow> bytes \<Rightarrow> u64 \<Rightarrow> u64 \<Rightarrow> ('s, bytes \<times> Record list) cmd" where
  "scan sv sid pk from cnt tid =
     sbind (in_stores (txn_createDataCursor (sv_ops sv) sid tid)) (\<lambda>cursor.
     sbind (if from = str ''0'' then sret (BasicDataCursor_seek pk cursor)
            else sbind (slift (unhexlify from)) (\<lambda>f. sret (BasicDataCursor_seek f cursor))) (\<lambda>cursor.
     sbind (scan_loop pk (unat (cnt + 1)) [] cursor) (\<lambda>result.
     if length result = unat (cnt + 1) \<and> result \<noteq> []
     then sbind (slift (RecordKey_encode (rc_key (last result)))) (\<lambda>k.
       sret (hexlify k, butlast result))
     else if length result = unat (cnt + 1) then sfail Undef
     else sret (str ''0'', result))))"

definition scanSimple ::
  "'s Server \<Rightarrow> nat \<Rightarrow> bytes \<Rightarrow> bytes \<Rightarrow> u64 \<Rightarrow> u64 \<Rightarrow> ('s, Record list) cmd" where
  "scanSimple sv sid pk from cnt tid =
     sbind (in_stores (txn_createDataCursor (sv_ops sv) sid tid)) (\<lambda>cursor.
     scan_loop pk (unat cnt) []
       (BasicDataCursor_seek (if from = str ''0'' then pk else from) cursor))"

end
