(* ===== verification/Request.thy ===== *)
theory Request
  imports Command
begin

section \<open>Requests (commands/command.cpp, server/server_entry.cpp)\<close>

text \<open>
  The way of a request through the server: \<open>precheck\<close> finds the command and checks the number of its
  arguments, \<open>runSessionCmd\<close> runs it and clears what belongs to the request, and \<open>processRequest\<close> turns
  the result into a reply. Commands that take over the connection (\<open>isBgCmd\<close>), the counters, the slow log
  and the monitors are left out.
\<close>

subsection \<open>Text of an error (utils/status.cpp)\<close>

definition code_num :: "ErrorCodes \<Rightarrow> nat" where
  "code_num c = (case c of
      ERR_OK \<Rightarrow> 0 | ERR_NETWORK \<Rightarrow> 1 | ERR_TIMEOUT \<Rightarrow> 2 | ERR_INTERNAL \<Rightarrow> 3 | ERR_MANUAL \<Rightarrow> 4
    | ERR_COMMIT_RETRY \<Rightarrow> 5 | ERR_NOTFOUND \<Rightarrow> 6 | ERR_DECODE \<Rightarrow> 7 | ERR_BUSY \<Rightarrow> 8 | ERR_EXHAUST \<Rightarrow> 9
    | ERR_EXPIRED \<Rightarrow> 10 | ERR_OVERFLOW \<Rightarrow> 11 | ERR_CAS \<Rightarrow> 12 | ERR_NOT_EXPIRED \<Rightarrow> 13
    | ERR_EXTENDED_PROTOCOL \<Rightarrow> 14 | ERR_STORE_NOT_OPEN \<Rightarrow> 15 | ERR_LOCK_TIMEOUT \<Rightarrow> 16 | ERR_UNKNOWN \<Rightarrow> 17
    | ERR_CLUSTER \<Rightarrow> 18 | ERR_CONNECT_TRY \<Rightarrow> 19 | ERR_MEMORY_LIMIT \<Rightarrow> 20 | ERR_READY_MIGRATE \<Rightarrow> 21
    | ERR_BINLOG_DISABLED \<Rightarrow> 22
    | ERR_AUTH \<Rightarrow> 100 | ERR_PARSEOPT \<Rightarrow> 101 | ERR_PARSEPKT \<Rightarrow> 102 | ERR_NAN \<Rightarrow> 103 | ERR_FLOAT \<Rightarrow> 104
    | ERR_INTERGER \<Rightarrow> 105 | ERR_ZSLPARSERANGE \<Rightarrow> 106 | ERR_ZSLPARSELEXRANGE \<Rightarrow> 107 | ERR_WRONG_TYPE \<Rightarrow> 108
    | ERR_WRONG_ARGS_SIZE \<Rightarrow> 109 | ERR_INVALID_HLL \<Rightarrow> 110 | ERR_NO_KEY \<Rightarrow> 111 | ERR_OUT_OF_RANGE \<Rightarrow> 112
    | ERR_WRONG_VERSION_EP \<Rightarrow> 113 | ERR_CLUSTER_ERR \<Rightarrow> 114 | ERR_MOVED \<Rightarrow> 115
    | ERR_CLUSTER_REDIR_CROSS_SLOT \<Rightarrow> 116 | ERR_CLUSTER_REDIR_DOWN_STATE \<Rightarrow> 117
    | ERR_CLUSTER_REDIR_DOWN_UNBOUND \<Rightarrow> 118 | ERR_LUA \<Rightarrow> 119 | ERR_LUA_NOSCRIPT \<Rightarrow> 120)"

definition getErrStr :: "ErrorCodes \<Rightarrow> bytes" where
  "getErrStr c = (case c of
      ERR_NAN \<Rightarrow> str ''-ERR resulting score is not a number (NaN)'' @ crlf
    | ERR_FLOAT \<Rightarrow> str ''-ERR value is not a valid float'' @ crlf
    | ERR_INTERGER \<Rightarrow> str ''-ERR value is not an integer or out of range'' @ crlf
    | ERR_PARSEOPT \<Rightarrow> str ''-ERR syntax error'' @ crlf
    | ERR_ZSLPARSERANGE \<Rightarrow> str ''-ERR min or max is not a float'' @ crlf
    | ERR_ZSLPARSELEXRANGE \<Rightarrow> str ''-ERR min or max not valid string range item'' @ crlf
    | ERR_EXTENDED_PROTOCOL \<Rightarrow> str ''-ERR invalid extended protocol input'' @ crlf
    | ERR_WRONG_TYPE \<Rightarrow> str ''-WRONGTYPE Operation against a key holding the wrong kind of value'' @ crlf
    | ERR_WRONG_ARGS_SIZE \<Rightarrow> str ''-ERR wrong number of arguments'' @ crlf
    | ERR_INVALID_HLL \<Rightarrow> str ''-INVALIDOBJ Corrupted HLL object detected'' @ crlf
    | ERR_NO_KEY \<Rightarrow> str ''-ERR no such key'' @ crlf
    | ERR_OUT_OF_RANGE \<Rightarrow> str ''-ERR index out of range'' @ crlf
    | ERR_WRONG_VERSION_EP \<Rightarrow> str ''-WRONGVERSION'' @ crlf
    | ERR_CLUSTER_REDIR_CROSS_SLOT \<Rightarrow> str ''-CROSSSLOT Keys in request don'' @ [39] @ str ''t hash to the same slot'' @ crlf
    | ERR_CLUSTER_REDIR_DOWN_STATE \<Rightarrow> str ''-CLUSTERDOWN The cluster is down'' @ crlf
    | ERR_CLUSTER_REDIR_DOWN_UNBOUND \<Rightarrow> str ''-CLUSTERDOWN Hash slot not served'' @ crlf
    | ERR_LUA_NOSCRIPT \<Rightarrow> str ''-NOSCRIPT No matching script. Please use EVAL.'' @ crlf
    | ERR_BINLOG_DISABLED \<Rightarrow> str ''-ERR binlog is disabled'' @ crlf
    | ERR_MEMORY_LIMIT \<Rightarrow> str ''-ERR memory exceed client-output-buffer-limit'' @ crlf
    | _ \<Rightarrow> [])"

definition Status_toString :: "ErrorCodes \<Rightarrow> string \<Rightarrow> bytes" where
  "Status_toString c errmsg =
    (if errmsg = [] then getErrStr c
     else if code_num c < code_num ERR_AUTH
     then str ''-ERR:'' @ dec_of_nat (code_num c) @ str '',msg:'' @ str errmsg @ crlf
     else if hd errmsg = CHR ''-'' then str errmsg
     else str ''-ERR '' @ str errmsg @ crlf)"

text \<open>\<open>redis_port::errorReply\<close>; \<open>s[0]\<close> of an empty string is the terminator.\<close>

definition errorReply :: "bytes \<Rightarrow> bytes" where
  "errorReply s = (if s \<noteq> [] \<and> hd s = 45 then s else str ''-ERR '' @ s @ crlf)"

subsection \<open>Commands\<close>

record 's Command =
  co_name :: bytes
  co_arity :: int
  co_admin :: bool
  co_isBgCmd :: bool
  co_run :: "'s Server \<Rightarrow> ('s, bytes) cmd"

text \<open>\<open>commandMap()\<close>: the last command registered under a name counts.\<close>

definition find_command :: "'s Command list \<Rightarrow> bytes \<Rightarrow> 's Command option" where
  "find_command cs name = find (\<lambda>c. co_name c = name) (rev cs)"

definition isAdminCmd :: "'s Command list \<Rightarrow> bytes \<Rightarrow> bool" where
  "isAdminCmd cs name \<longleftrightarrow> (\<exists>c\<in>set cs. co_name c = name \<and> co_admin c)"

definition str_of :: "bytes \<Rightarrow> string" where
  "str_of s = map (char_of \<circ> unat) s"

definition precheck :: "'s Command list \<Rightarrow> 's Server \<Rightarrow> ('s, 's Command) cmd" where
  "precheck cs sv = sget (\<lambda>\<sigma>.
     if se_args \<sigma> = [] then sfail Fatal
     else
       let name = toLower (hd (se_args \<sigma>)) in
       case find_command cs name of
         None \<Rightarrow> serr ERR_PARSEPKT (''unknown command '' @ [CHR 0x27] @ str_of (hd (se_args \<sigma>)) @ [CHR 0x27])
       | Some c \<Rightarrow>
           sbind (if isAdminCmd cs name then sret () else processExtendProtocol) (\<lambda>_. sget (\<lambda>\<sigma>.
           let argc = int (length (se_args \<sigma>)) in
           if 0 < co_arity c \<and> co_arity c \<noteq> argc \<or> argc < - co_arity c
           then serr ERR_WRONG_ARGS_SIZE
             (''wrong number of arguments for '' @ [CHR 0x27] @ str_of (hd (se_args \<sigma>)) @ [CHR 0x27] @ '' command'')
           else if \<not> se_authed \<sigma> \<and> sv_requirepass sv \<noteq> [] \<and> co_name c \<noteq> str ''auth''
           then serr ERR_AUTH (''-NOAUTH Authentication required.'' @ [CHR 0x0D, CHR 0x0A])
           else sret c)))"

text \<open>The guard clears the context of the request after the command; what it counts is left out.\<close>

definition runSessionCmd :: "'s Command list \<Rightarrow> 's Server \<Rightarrow> ('s, bytes) cmd" where
  "runSessionCmd cs sv = sget (\<lambda>\<sigma>.
     if se_args \<sigma> = [] then sfail Undef
     else case find_command cs (toLower (hd (se_args \<sigma>))) of
       None \<Rightarrow> sfail Fatal
     | Some c \<Rightarrow>
         stry (co_run c sv) (\<lambda>v.
         sbind (if \<not> isl v
                then smod (\<lambda>\<sigma>. if se_extendProtocol \<sigma>
                               then \<sigma>\<lparr>se_tsFromExtendedProtocol := se_timestamp \<sigma>\<rparr> else \<sigma>)
                else sret ()) (\<lambda>_.
         sthen (clearRequestCtx sv) (slift v))))"

text \<open>The reply to a request of a command that does not take over the connection.\<close>

definition processRequest :: "'s Command list \<Rightarrow> 's Server \<Rightarrow> ('s, bytes) cmd" where
  "processRequest cs sv =
     stry (precheck cs sv) (\<lambda>p. case p of
       Inl e \<Rightarrow> (case e of Status c m \<Rightarrow> sret (errorReply (Status_toString c m)) | _ \<Rightarrow> sfail e)
     | Inr _ \<Rightarrow>
         stry (runSessionCmd cs sv) (\<lambda>r. case r of
           Inl e \<Rightarrow> (case e of Status c m \<Rightarrow> sret (fmtErr (Status_toString c m)) | _ \<Rightarrow> sfail e)
         | Inr v \<Rightarrow> sret v))"

end
