(* ===== verification/ListCmd.thy ===== *)
theory ListCmd
  imports Request
begin

section \<open>List commands (commands/list.cpp)\<close>

text \<open>
  A list is a meta record with the indices \<open>head\<close> and \<open>tail\<close> and one record per element, whose
  secondary key is the index in decimal. Each command is its \<open>run\<close> function; the arguments are
  \<open>se_args\<close>, whose number the server has checked against the arity.
\<close>

definition MAXSEQ :: u64 where "MAXSEQ = 9223372036854775807"
definition INITSEQ :: u64 where "INITSEQ = MAXSEQ div 2"
definition MINSEQ :: u64 where "MINSEQ = 1024"

datatype ListPos = LP_HEAD | LP_TAIL

definition arg :: "nat \<Rightarrow> ('s, bytes) cmd" where
  "arg i \<sigma> = (if i < length (se_args \<sigma>) then ok (se_args \<sigma> ! i) else Inl Undef, \<sigma>)"

definition list_ele :: "RecordKey \<Rightarrow> u64 \<Rightarrow> RecordKey" where
  "list_ele metaRk idx =
     RecordKey_new (rk_chunkId metaRk) (rk_dbId metaRk) RT_LIST_ELE (rk_pk metaRk) (to_string idx) 0"

definition ele_value :: "bytes \<Rightarrow> RecordValue" where
  "ele_value v = RecordValue_new v RT_LIST_ELE (-1) 0 (-1) 0 (-1)"

definition list_meta :: "DbWithLock \<Rightarrow> 's Session \<Rightarrow> bytes \<Rightarrow> RecordKey" where
  "list_meta db \<sigma> key = RecordKey_new (dw_chunkId db) (se_dbId \<sigma>) RT_LIST_META key [] 0"

text \<open>Writing the meta record back.\<close>

definition set_meta ::
  "'s Server \<Rightarrow> nat \<Rightarrow> u64 \<Rightarrow> RecordKey \<Rightarrow> ListMetaValue \<Rightarrow> u64 \<Rightarrow> RecordValue expected \<Rightarrow> ('s, unit) cmd" where
  "set_meta sv sid tid metaRk lm ttl rv = sget (\<lambda>\<sigma>.
     setKV sv sid tid metaRk
       (RecordValue_inherit (ListMetaValue_encode lm) RT_LIST_META (se_version \<sigma>) ttl rv))"

definition genericPop ::
  "'s Server \<Rightarrow> nat \<Rightarrow> u64 \<Rightarrow> RecordKey \<Rightarrow> RecordValue expected \<Rightarrow> ListPos \<Rightarrow> ('s, bytes) cmd" where
  "genericPop sv sid tid metaRk rv pos =
     sbind (slift rv) (\<lambda>val.
     let ttl = rv_ttl val in
     sbind (slift (ListMetaValue_decode (rv_value val))) (\<lambda>lm.
     let head = lm_head lm; tail = lm_tail lm in
     if head = tail then serr ERR_INTERNAL ''invalid head or tail of list''
     else
       let (idx, head, tail) = (case pos of
             LP_HEAD \<Rightarrow> (head, head + 1, tail)
           | LP_TAIL \<Rightarrow> (tail - 1, head, tail - 1)) in
       sbind (getKV sv sid tid (list_ele metaRk idx)) (\<lambda>subRv.
       sbind (delKV sv sid tid (list_ele metaRk idx)) (\<lambda>_.
       sbind (if head = tail then delKeyAndTTL sv metaRk val sid tid
              else set_meta sv sid tid metaRk \<lparr>lm_head = head, lm_tail = tail\<rparr> ttl rv) (\<lambda>_.
       sret (rv_value subRv))))))"

primrec push_loop ::
  "'s Server \<Rightarrow> nat \<Rightarrow> u64 \<Rightarrow> RecordKey \<Rightarrow> ListPos \<Rightarrow> u64 \<Rightarrow> u64 \<Rightarrow> bytes list \<Rightarrow> ('s, u64 \<times> u64) cmd" where
  "push_loop sv sid tid metaRk pos head tail [] = sret (head, tail)"
| "push_loop sv sid tid metaRk pos head tail (a # as) =
    (let (idx, head, tail) = (case pos of
           LP_HEAD \<Rightarrow> (head - 1, head - 1, tail)
         | LP_TAIL \<Rightarrow> (tail, head, tail + 1)) in
     sbind (setKV sv sid tid (list_ele metaRk idx) (ele_value a)) (\<lambda>_.
     push_loop sv sid tid metaRk pos head tail as))"

definition push_write ::
  "'s Server \<Rightarrow> nat \<Rightarrow> u64 \<Rightarrow> RecordKey \<Rightarrow> RecordValue expected \<Rightarrow> ListMetaValue \<Rightarrow> u64 \<Rightarrow> bytes list \<Rightarrow>
   ListPos \<Rightarrow> ('s, bytes) cmd" where
  "push_write sv sid tid metaRk rv lm ttl args pos =
     sbind (push_loop sv sid tid metaRk pos (lm_head lm) (lm_tail lm) args) (\<lambda>(head, tail).
     sbind (set_meta sv sid tid metaRk \<lparr>lm_head = head, lm_tail = tail\<rparr> ttl rv) (\<lambda>_.
     sret (fmtLongLong (sint (tail - head)))))"

definition genericPush ::
  "'s Server \<Rightarrow> nat \<Rightarrow> u64 \<Rightarrow> RecordKey \<Rightarrow> RecordValue expected \<Rightarrow> bytes list \<Rightarrow> ListPos \<Rightarrow> bool \<Rightarrow>
   ('s, bytes) cmd" where
  "genericPush sv sid tid metaRk rv args pos needExist =
    (case rv of
       Inr val \<Rightarrow>
         sbind (slift (ListMetaValue_decode (rv_value val))) (\<lambda>lm.
         push_write sv sid tid metaRk rv lm (rv_ttl val) args pos)
     | Inl e \<Rightarrow>
         if code_of rv \<noteq> ERR_NOTFOUND \<and> code_of rv \<noteq> ERR_EXPIRED then sfail e
         else if needExist then sret fmtZero
         else push_write sv sid tid metaRk rv \<lparr>lm_head = INITSEQ, lm_tail = INITSEQ\<rparr> 0 args pos)"

definition LLen_run :: "'s Server \<Rightarrow> ('s, bytes) cmd" where
  "LLen_run sv =
     sbind (arg 1) (\<lambda>key.
     stry (expireKeyIfNeeded sv key RT_LIST_META True) (\<lambda>rv. case rv of
       Inl e \<Rightarrow> if code_of rv \<in> {ERR_EXPIRED, ERR_NOTFOUND} then sret fmtZero else sfail e
     | Inr v \<Rightarrow>
         sbind (slift (ListMetaValue_decode (rv_value v))) (\<lambda>lm.
         sret (fmtLongLong (sint (lm_tail lm - lm_head lm))))))"

text \<open>
  What the other commands start with: the lock of the key and the check of its expiry. Errors other than
  the absence or the expiry of the key end the command.
\<close>

definition locked_list ::
  "'s Server \<Rightarrow> LockMode \<Rightarrow> bytes \<Rightarrow> (DbWithLock \<Rightarrow> RecordValue expected \<Rightarrow> ('s, bytes) cmd) \<Rightarrow> ('s, bytes) cmd" where
  "locked_list sv mode key f =
     sbind (getDbWithKeyLock sv key mode) (\<lambda>db. with_db db
      (stry (expireKeyIfNeeded sv key RT_LIST_META True) (\<lambda>rv.
         if code_of rv \<in> {ERR_OK, ERR_EXPIRED, ERR_NOTFOUND} then f db rv
         else sthen (slift rv) (sret []))))"

definition if_there ::
  "('s, bytes) cmd \<Rightarrow> RecordValue expected \<Rightarrow> (RecordValue \<Rightarrow> ('s, bytes) cmd) \<Rightarrow> ('s, bytes) cmd" where
  "if_there gone rv f = (case rv of Inl _ \<Rightarrow> gone | Inr v \<Rightarrow> f v)"

text \<open>
  The retry loops: \<open>left\<close> counts the attempts that remain. The body says whether to commit; a commit
  that fails with \<open>ERR_COMMIT_RETRY\<close> is tried again from the creation of the transaction on.
\<close>

primrec retry_commit ::
  "'s Server \<Rightarrow> nat \<Rightarrow> (u64 \<Rightarrow> ('s, bool \<times> bytes) cmd) \<Rightarrow> nat \<Rightarrow> ('s, bytes) cmd" where
  "retry_commit sv sid body 0 = serr ERR_INTERNAL ''not reachable''"
| "retry_commit sv sid body (Suc left) =
     sbind (SessionCtx_createTransaction sv sid) (\<lambda>tid.
     sbind (body tid) (\<lambda>(commit, reply).
     if \<not> commit then sret reply
     else
       stry (SessionCtx_commitTransaction sv sid tid) (\<lambda>s. case s of
         Inr _ \<Rightarrow> sret reply
       | Inl e \<Rightarrow>
           if code_of s \<noteq> ERR_COMMIT_RETRY \<or> left = 0 then sfail e
           else retry_commit sv sid body left)))"

definition pop_body ::
  "'s Server \<Rightarrow> nat \<Rightarrow> RecordKey \<Rightarrow> RecordValue expected \<Rightarrow> ListPos \<Rightarrow> u64 \<Rightarrow> ('s, bool \<times> bytes) cmd" where
  "pop_body sv sid metaRk rv pos tid =
     stry (genericPop sv sid tid metaRk rv pos) (\<lambda>s1. case s1 of
       Inr v \<Rightarrow> sret (True, fmtBulk v)
     | Inl e \<Rightarrow> if code_of s1 = ERR_NOTFOUND then sret (False, fmtNull) else sfail e)"

definition ListPop_run :: "'s Server \<Rightarrow> ListPos \<Rightarrow> ('s, bytes) cmd" where
  "ListPop_run sv pos =
     sbind (arg 1) (\<lambda>key.
     locked_list sv LOCK_X key (\<lambda>db rv. if_there (sret fmtNull) rv (\<lambda>_. sget (\<lambda>\<sigma>.
       retry_commit sv (dw_dbId db)
         (pop_body sv (dw_dbId db) (list_meta db \<sigma> key) rv pos) RETRY_CNT))))"

definition push_body ::
  "'s Server \<Rightarrow> nat \<Rightarrow> RecordKey \<Rightarrow> RecordValue expected \<Rightarrow> bytes list \<Rightarrow> ListPos \<Rightarrow> bool \<Rightarrow> u64 \<Rightarrow>
   ('s, bool \<times> bytes) cmd" where
  "push_body sv sid metaRk rv args pos needExist tid =
     sbind (genericPush sv sid tid metaRk rv args pos needExist) (\<lambda>reply. sret (True, reply))"

definition ListPush_run :: "'s Server \<Rightarrow> ListPos \<Rightarrow> bool \<Rightarrow> ('s, bytes) cmd" where
  "ListPush_run sv pos needExist =
     sbind (arg 1) (\<lambda>key.
     locked_list sv LOCK_X key (\<lambda>db rv.
       if isl rv \<and> needExist then sret fmtZero
       else sget (\<lambda>\<sigma>.
         retry_commit sv (dw_dbId db)
           (push_body sv (dw_dbId db) (list_meta db \<sigma> key) rv (drop 2 (se_args \<sigma>)) pos needExist)
           RETRY_CNT)))"

subsection \<open>RPOPLPUSH\<close>

text \<open>A loop that repeats a call while it reports \<open>ERR_COMMIT_RETRY\<close>.\<close>

primrec retry_op :: "('s, 'a) cmd \<Rightarrow> nat \<Rightarrow> ('s, 'a) cmd" where
  "retry_op m 0 = serr ERR_INTERNAL ''not reachable''"
| "retry_op m (Suc left) =
     stry m (\<lambda>r. if code_of r = ERR_COMMIT_RETRY \<and> left \<noteq> 0 then retry_op m left else slift r)"

text \<open>
  The guard that rolls back unless \<open>rollback\<close> was reset: the flag of the result says that it was. The
  status of \<open>rollbackAll\<close> is ignored.
\<close>

definition rollback_guard :: "'s Server \<Rightarrow> ('s, bool \<times> bytes) cmd \<Rightarrow> ('s, bytes) cmd" where
  "rollback_guard sv m =
     stry m (\<lambda>r. case r of
       Inr (True, reply) \<Rightarrow> sret reply
     | Inr (False, reply) \<Rightarrow> stry (rollbackAll sv) (\<lambda>_. sret reply)
     | Inl e \<Rightarrow> stry (rollbackAll sv) (\<lambda>_. sfail e))"

text \<open>Push and commit; the status of \<open>commitAll\<close> is ignored.\<close>

definition push_and_commit ::
  "'s Server \<Rightarrow> nat \<Rightarrow> u64 \<Rightarrow> RecordKey \<Rightarrow> RecordValue expected \<Rightarrow> bytes \<Rightarrow> ('s, bool \<times> bytes) cmd" where
  "push_and_commit sv sid tid metaRk rv val =
     sbind (retry_op (genericPush sv sid tid metaRk rv [val] LP_HEAD False) RETRY_CNT) (\<lambda>_.
     stry (commitAll sv) (\<lambda>_. sret (True, fmtBulk val)))"

definition rpoplpush_body ::
  "'s Server \<Rightarrow> bytes \<Rightarrow> bytes \<Rightarrow> RecordValue expected \<Rightarrow> DbWithLock \<Rightarrow> RecordKey \<Rightarrow> u64 \<Rightarrow> ('s, bool \<times> bytes) cmd" where
  "rpoplpush_body sv key1 key2 rv db1 metaRk1 tid =
     stry (retry_op (genericPop sv (dw_dbId db1) tid metaRk1 rv LP_TAIL) RETRY_CNT) (\<lambda>s. case s of
       Inl e \<Rightarrow> if code_of s = ERR_NOTFOUND then sret (False, fmtNull) else sfail e
     | Inr val \<Rightarrow>
         if key1 = key2
         then
           stry (getKV sv (dw_dbId db1) tid metaRk1) (\<lambda>rv2.
           push_and_commit sv (dw_dbId db1) tid metaRk1 rv2 val)
         else
           sbind (getDbHasLocked sv key2) (\<lambda>db2. sget (\<lambda>\<sigma>.
           let metaRk2 = list_meta db2 \<sigma> key2 in
           sbind (SessionCtx_createTransaction sv (dw_dbId db2)) (\<lambda>tid2.
           stry (expireKeyIfNeeded sv key2 RT_LIST_META True) (\<lambda>rv2.
           if code_of rv2 \<notin> {ERR_OK, ERR_EXPIRED, ERR_NOTFOUND}
           then sthen (slift rv2) (sret (False, []))
           else push_and_commit sv (dw_dbId db2) tid2 metaRk2 rv2 val)))))"

definition RPopLPush_run :: "'s Server \<Rightarrow> ('s, bytes) cmd" where
  "RPopLPush_run sv =
     sbind (arg 1) (\<lambda>key1. sbind (arg 2) (\<lambda>key2. sget (\<lambda>\<sigma>.
     sbind (getAllKeysLocked sv (se_args \<sigma>) (getKeysFromCommand 1 2 1 (se_args \<sigma>)) LOCK_X False) (\<lambda>ls.
     with_locks ls
      (stry (expireKeyIfNeeded sv key1 RT_LIST_META True) (\<lambda>rv. case rv of
         Inl e \<Rightarrow> if code_of rv \<in> {ERR_EXPIRED, ERR_NOTFOUND} then sret fmtNull else sfail e
       | Inr _ \<Rightarrow>
           sbind (getDbHasLocked sv key1) (\<lambda>db1. sget (\<lambda>\<sigma>.
           sbind (SessionCtx_createTransaction sv (dw_dbId db1)) (\<lambda>tid.
           rollback_guard sv
             (rpoplpush_body sv key1 key2 rv db1 (list_meta db1 \<sigma> key1) tid))))))))))"

subsection \<open>LTRIM, LRANGE, LINDEX, LSET\<close>

text \<open>An element whose index is an \<open>int64_t\<close>.\<close>

definition list_ele_at :: "u32 \<Rightarrow> u32 \<Rightarrow> bytes \<Rightarrow> int \<Rightarrow> RecordKey" where
  "list_ele_at chunkId dbId key i = RecordKey_new chunkId dbId RT_LIST_ELE key (dec_of_int i) 0"

function trim_dels ::
  "'s Server \<Rightarrow> nat \<Rightarrow> RecordKey \<Rightarrow> int \<Rightarrow> int \<Rightarrow> u64 \<Rightarrow> u64 \<Rightarrow> ('s, u64 \<times> u64) cmd" where
  "trim_dels sv sid mk i end cnt tid =
    (if i < end
     then sget (\<lambda>\<sigma>.
       sbind (delKV sv sid tid (list_ele_at (rk_chunkId mk) (se_dbId \<sigma>) (rk_pk mk) i)) (\<lambda>_.
       let cnt = cnt + 1 in
       sbind (if cnt mod 1000 = 0
              then sthen (SessionCtx_commitTransaction sv sid tid) (SessionCtx_createTransaction sv sid)
              else sret tid) (\<lambda>tid.
       trim_dels sv sid mk (i + 1) end cnt tid)))
     else sret (cnt, tid))"
  by pat_completeness auto
termination by (relation "measure (\<lambda>(sv, sid, mk, i, end, cnt, tid). nat (end - i))") auto

declare trim_dels.simps [simp del]

definition trimListPessimistic ::
  "'s Server \<Rightarrow> nat \<Rightarrow> RecordKey \<Rightarrow> ListMetaValue \<Rightarrow> int \<Rightarrow> int \<Rightarrow> RecordValue \<Rightarrow> ('s, unit) cmd" where
  "trimListPessimistic sv sid mk lm start end rv =
     sbind (SessionCtx_createTransaction sv sid) (\<lambda>tid.
     let head = lm_head lm; tail = lm_tail lm;
         first = head + word_of_int start; rest = head + word_of_int end + 1 in
     sbind (trim_dels sv sid mk (sint head) (sint first) 0 tid) (\<lambda>(cnt, tid).
     sbind (trim_dels sv sid mk (sint rest) (sint tail) cnt tid) (\<lambda>(cnt, tid).
     sbind (if cnt \<ge> tail - head then delKeyAndTTL sv mk rv sid tid
            else set_meta sv sid tid mk \<lparr>lm_head = first, lm_tail = rest\<rparr> (rv_ttl rv) (ok rv)) (\<lambda>_.
     sthen (SessionCtx_commitTransaction sv sid tid) (sret ())))))"

text \<open>The adjustment of the bounds of a range; \<open>None\<close> when it is empty.\<close>

definition range_bounds :: "int \<Rightarrow> int \<Rightarrow> int \<Rightarrow> (int \<times> int) option" where
  "range_bounds len start end =
    (let start = (if start < 0 then len + start else start);
         end = (if end < 0 then len + end else end);
         start = (if start < 0 then 0 else start) in
     if start > end \<or> start \<ge> len then None
     else Some (start, if end \<ge> len then len - 1 else end))"

definition trim_list ::
  "'s Server \<Rightarrow> bytes \<Rightarrow> int \<Rightarrow> int \<Rightarrow> DbWithLock \<Rightarrow> RecordValue \<Rightarrow> ('s, bytes) cmd" where
  "trim_list sv key estart eend db v = sget (\<lambda>\<sigma>.
     sbind (slift (ListMetaValue_decode (rv_value v))) (\<lambda>lm.
     let len = sint (lm_tail lm - lm_head lm) in
     if len \<le> 0 then serr ERR_INTERNAL ''invalid list''
     else
       let (start, end) = (case range_bounds len estart eend of
             None \<Rightarrow> (len, len - 1)
           | Some b \<Rightarrow> b) in
       sthen (trimListPessimistic sv (dw_dbId db) (list_meta db \<sigma> key) lm start end v)
         (sret fmtOK)))"

definition Ltrim_run :: "'s Server \<Rightarrow> ('s, bytes) cmd" where
  "Ltrim_run sv =
     sbind (arg 1) (\<lambda>key.
     sbind (sbind (arg 2) (slift \<circ> stoll)) (\<lambda>estart.
     sbind (sbind (arg 3) (slift \<circ> stoll)) (\<lambda>eend.
     locked_list sv LOCK_X key (\<lambda>db rv.
       if_there (sret fmtOK) rv (trim_list sv key estart eend db)))))"

primrec range_loop ::
  "'s Server \<Rightarrow> nat \<Rightarrow> u64 \<Rightarrow> u32 \<Rightarrow> bytes \<Rightarrow> int \<Rightarrow> bytes \<Rightarrow> nat \<Rightarrow> ('s, bytes) cmd" where
  "range_loop sv sid tid chunkId key start ss 0 = sret ss"
| "range_loop sv sid tid chunkId key start ss (Suc n) = sget (\<lambda>\<sigma>.
     sbind (getKV sv sid tid (list_ele_at chunkId (se_dbId \<sigma>) key start)) (\<lambda>v.
     sbind (memLimitRequest (length (rv_value v))) (\<lambda>_.
     range_loop sv sid tid chunkId key (start + 1) (ss @ fmtBulk (rv_value v)) n)))"

definition range_list ::
  "'s Server \<Rightarrow> bytes \<Rightarrow> int \<Rightarrow> int \<Rightarrow> DbWithLock \<Rightarrow> RecordValue \<Rightarrow> ('s, bytes) cmd" where
  "range_list sv key estart eend db v =
     sbind (SessionCtx_createTransaction sv (dw_dbId db)) (\<lambda>tid.
     sbind (slift (ListMetaValue_decode (rv_value v))) (\<lambda>lm.
     let len = sint (lm_tail lm - lm_head lm) in
     if len \<le> 0 then serr ERR_INTERNAL ''invalid list''
     else case range_bounds len estart eend of
       None \<Rightarrow> sret fmtZeroBulkLen
     | Some (start, end) \<Rightarrow>
         range_loop sv (dw_dbId db) tid (dw_chunkId db) key
           (sint (word_of_int start + lm_head lm))
           (fmtMultiBulkLen (word_of_int (end - start + 1)))
           (nat (end - start + 1))))"

definition LRange_run :: "'s Server \<Rightarrow> ('s, bytes) cmd" where
  "LRange_run sv =
     sbind (arg 1) (\<lambda>key.
     sbind (sbind (arg 2) (slift \<circ> stoll)) (\<lambda>estart.
     sbind (sbind (arg 3) (slift \<circ> stoll)) (\<lambda>eend.
     locked_list sv RdLock key (\<lambda>db rv.
       if_there (sret fmtZeroBulkLen) rv (range_list sv key estart eend db)))))"

definition index_list ::
  "'s Server \<Rightarrow> bytes \<Rightarrow> int \<Rightarrow> DbWithLock \<Rightarrow> RecordValue \<Rightarrow> ('s, bytes) cmd" where
  "index_list sv key idx db v = sget (\<lambda>\<sigma>.
     sbind (SessionCtx_createTransaction sv (dw_dbId db)) (\<lambda>tid.
     sbind (slift (ListMetaValue_decode (rv_value v))) (\<lambda>lm.
     let mappingIdx = word_of_int idx + (if idx \<ge> 0 then lm_head lm else lm_tail lm) in
     if mappingIdx < lm_head lm \<or> mappingIdx \<ge> lm_tail lm then sret fmtNull
     else
       sbind (getKV sv (dw_dbId db) tid (list_ele (list_meta db \<sigma> key) mappingIdx)) (\<lambda>sub.
       sret (fmtBulk (rv_value sub))))))"

definition LIndex_run :: "'s Server \<Rightarrow> ('s, bytes) cmd" where
  "LIndex_run sv =
     sbind (arg 1) (\<lambda>key.
     sbind (arg 2) (\<lambda>a.
     case std_stoll a of
       Inl ex \<Rightarrow> serr ERR_PARSEOPT ''stoll''
     | Inr idx \<Rightarrow>
         locked_list sv RdLock key (\<lambda>db rv. if_there (sret fmtNull) rv (index_list sv key idx db))))"

text \<open>\<open>expLm.value()\<close> is read without a check: undefined when the meta value does not decode.\<close>

definition set_list ::
  "'s Server \<Rightarrow> bytes \<Rightarrow> int \<Rightarrow> bytes \<Rightarrow> DbWithLock \<Rightarrow> RecordValue \<Rightarrow> ('s, bytes) cmd" where
  "set_list sv key index val db v = sget (\<lambda>\<sigma>.
     case ListMetaValue_decode (rv_value v) of
       Inl e \<Rightarrow> sfail Undef
     | Inr lm \<Rightarrow>
        (let realIndex = (if index < 0 then lm_tail lm else lm_head lm) + word_of_int index;
             metaRk = list_meta db \<sigma> key in
         if realIndex < lm_head lm \<or> realIndex \<ge> lm_tail lm then serr ERR_OUT_OF_RANGE ''''
         else
           retry_commit sv (dw_dbId db) (\<lambda>tid.
             sbind (setKV sv (dw_dbId db) tid (list_ele metaRk realIndex) (ele_value val)) (\<lambda>_.
             sbind (set_meta sv (dw_dbId db) tid metaRk lm (rv_ttl v) (ok v)) (\<lambda>_.
             sret (True, fmtOK)))) RETRY_CNT))"

definition LSet_run :: "'s Server \<Rightarrow> ('s, bytes) cmd" where
  "LSet_run sv =
     sbind (arg 1) (\<lambda>key.
     sbind (sbind (arg 2) (slift \<circ> stoll)) (\<lambda>index.
     sbind (arg 3) (\<lambda>val.
     locked_list sv LOCK_X key (\<lambda>db rv.
       if_there (serr ERR_NO_KEY '''') rv (set_list sv key index val db)))))"

subsection \<open>LREM\<close>

lemma word_less_pred: "(a :: u64) < b \<Longrightarrow> unat (b - 1) < unat b"
  using unat_minus_one [of b] by (cases "b = 0") (auto simp: unat_gt_0)

lemma word_less_gap:
  fixes a b :: u64
  assumes "a < b"
  shows "unat (b - (a + 1)) < unat (b - a)"
proof -
  have "b - a \<noteq> 0" using assms by simp
  then have "unat (b - a - 1) < unat (b - a)" using unat_minus_one [of "b - a"] by (simp add: unat_gt_0)
  then show ?thesis by (simp add: diff_diff_eq)
qed

primrec lrem_find ::
  "'s Server \<Rightarrow> nat \<Rightarrow> u64 \<Rightarrow> RecordKey \<Rightarrow> bytes \<Rightarrow> ListPos \<Rightarrow> nat \<Rightarrow> u64 \<Rightarrow> u64 list \<Rightarrow> nat \<Rightarrow> ('s, u64 list) cmd" where
  "lrem_find sv sid tid mk val pos count index hole 0 = sret hole"
| "lrem_find sv sid tid mk val pos count index hole (Suc n) =
    (let index' = (case pos of LP_HEAD \<Rightarrow> index + 1 | LP_TAIL \<Rightarrow> index - 1) in
     sbind (getKV sv sid tid (list_ele mk index)) (\<lambda>v.
     if rv_value v = val
     then
       sbind (delKV sv sid tid (list_ele mk index)) (\<lambda>_.
       let hole = hole @ [index] in
       if length hole - 1 = count then sret hole
       else lrem_find sv sid tid mk val pos count index' hole n)
     else lrem_find sv sid tid mk val pos count index' hole n))"

text \<open>The longest stretch between neighbouring holes: \<open>i\<close> is the next hole to look at.\<close>

primrec longest_seg :: "u64 list \<Rightarrow> nat \<Rightarrow> u64 \<Rightarrow> u64 \<Rightarrow> nat \<times> nat \<Rightarrow> nat \<times> nat" where
  "longest_seg [] i lasthole largest seg = seg"
| "longest_seg (h # hs) i lasthole largest seg =
    (if h - lasthole > largest then longest_seg hs (i + 1) h (h - lasthole) (i - 1, i)
     else longest_seg hs (i + 1) h largest seg)"

function move_down :: "'s Server \<Rightarrow> nat \<Rightarrow> u64 \<Rightarrow> RecordKey \<Rightarrow> u64 \<Rightarrow> u64 \<Rightarrow> u64 \<Rightarrow> ('s, u64) cmd" where
  "move_down sv sid tid mk pos nextHole destPos =
    (if pos > nextHole
     then
       sbind (getKV sv sid tid (list_ele mk pos)) (\<lambda>v.
       sbind (setKV sv sid tid (list_ele mk destPos) v) (\<lambda>_.
       move_down sv sid tid mk (pos - 1) nextHole (destPos - 1)))
     else sret destPos)"
  by pat_completeness auto
termination
  by (relation "measure (\<lambda>(sv, sid, tid, mk, pos, nextHole, destPos). unat pos)")
    (auto dest: word_less_pred)

function move_up :: "'s Server \<Rightarrow> nat \<Rightarrow> u64 \<Rightarrow> RecordKey \<Rightarrow> u64 \<Rightarrow> u64 \<Rightarrow> u64 \<Rightarrow> ('s, u64) cmd" where
  "move_up sv sid tid mk pos nextHole destPos =
    (if pos < nextHole
     then
       sbind (getKV sv sid tid (list_ele mk pos)) (\<lambda>v.
       sbind (setKV sv sid tid (list_ele mk destPos) v) (\<lambda>_.
       move_up sv sid tid mk (pos + 1) nextHole (destPos + 1)))
     else sret destPos)"
  by pat_completeness auto
termination
  by (relation "measure (\<lambda>(sv, sid, tid, mk, pos, nextHole, destPos). unat (nextHole - pos))")
    (auto dest: word_less_gap)

declare move_down.simps [simp del] move_up.simps [simp del]

text \<open>
  The elements left of the stretch are moved right, those right of it left: the holes left of it from
  the nearest on, and the holes right of it.
\<close>

fun shift_left_part :: "'s Server \<Rightarrow> nat \<Rightarrow> u64 \<Rightarrow> RecordKey \<Rightarrow> u64 list \<Rightarrow> u64 \<Rightarrow> ('s, u64) cmd" where
  "shift_left_part sv sid tid mk (b # a # hs) destPos =
     sbind (move_down sv sid tid mk (b - 1) a destPos) (\<lambda>destPos.
     shift_left_part sv sid tid mk (a # hs) destPos)"
| "shift_left_part sv sid tid mk hs destPos = sret destPos"

fun shift_right_part :: "'s Server \<Rightarrow> nat \<Rightarrow> u64 \<Rightarrow> RecordKey \<Rightarrow> u64 list \<Rightarrow> u64 \<Rightarrow> ('s, u64) cmd" where
  "shift_right_part sv sid tid mk (a # b # hs) destPos =
     sbind (move_up sv sid tid mk (a + 1) b destPos) (\<lambda>destPos.
     shift_right_part sv sid tid mk (b # hs) destPos)"
| "shift_right_part sv sid tid mk hs destPos = sret destPos"

function del_outside :: "'s Server \<Rightarrow> nat \<Rightarrow> u64 \<Rightarrow> RecordKey \<Rightarrow> u64 \<Rightarrow> u64 \<Rightarrow> u64 \<Rightarrow> u64 \<Rightarrow> ('s, unit) cmd" where
  "del_outside sv sid tid mk oldHead head oldTail tail =
    (if oldHead \<noteq> head
     then sthen (delKV sv sid tid (list_ele mk oldHead))
            (del_outside sv sid tid mk (oldHead + 1) head oldTail tail)
     else if oldTail \<noteq> tail
     then sthen (delKV sv sid tid (list_ele mk (oldTail - 1)))
            (del_outside sv sid tid mk oldHead head (oldTail - 1) tail)
     else sret ())"
  by pat_completeness auto
termination
proof (relation "measure (\<lambda>(sv, sid, tid, mk, oldHead, head, oldTail, tail).
    unat (head - oldHead) + unat (oldTail - tail))", simp_all)
  fix oldHead head oldTail tail :: u64
  show "oldHead \<noteq> head \<Longrightarrow> unat (head - (oldHead + 1)) < unat (head - oldHead)"
    using unat_minus_one [of "head - oldHead"] by (simp add: diff_diff_eq [symmetric] unat_gt_0)
  show "oldTail \<noteq> tail \<Longrightarrow> unat (oldTail - 1 - tail) < unat (oldTail - tail)"
    using unat_minus_one [of "oldTail - tail"] by (simp add: diff_right_commute unat_gt_0)
qed

declare del_outside.simps [simp del]

definition lrem_move ::
  "'s Server \<Rightarrow> nat \<Rightarrow> u64 \<Rightarrow> RecordKey \<Rightarrow> u64 \<Rightarrow> u64 \<Rightarrow> u64 list \<Rightarrow> ('s, u64 \<times> u64) cmd" where
  "lrem_move sv sid tid mk oldHead oldTail hole =
    (let (lBorder, rBorder) = longest_seg (tl hole) 1 (hd hole) 0 (0, 0) in
     if \<not> hole ! rBorder > hole ! lBorder then sfail Fatal
     else
       sbind (shift_left_part sv sid tid mk (rev (take (lBorder + 1) hole)) (hole ! lBorder)) (\<lambda>destPos.
       let head = destPos + 1 in
       sbind (shift_right_part sv sid tid mk (drop rBorder hole) (hole ! rBorder)) (\<lambda>destPos.
       let tail = destPos in
       sbind (del_outside sv sid tid mk oldHead head oldTail tail) (\<lambda>_.
       sret (head, tail)))))"

definition rem_list ::
  "'s Server \<Rightarrow> bytes \<Rightarrow> int \<Rightarrow> bytes \<Rightarrow> DbWithLock \<Rightarrow> RecordValue \<Rightarrow> ('s, bytes) cmd" where
  "rem_list sv key count val db v = sget (\<lambda>\<sigma>.
     if count = - (2 ^ 31) then sfail Undef
     else
       let pos = (if count < 0 then LP_TAIL else LP_HEAD); count = nat \<bar>count\<bar>;
           sid = dw_dbId db; mk = list_meta db \<sigma> key in
       sbind (slift (ListMetaValue_decode (rv_value v))) (\<lambda>lm.
       let head = lm_head lm; tail = lm_tail lm;
           index = (case pos of LP_HEAD \<Rightarrow> head | LP_TAIL \<Rightarrow> tail - 1) in
       sbind (SessionCtx_createTransaction sv sid) (\<lambda>tid.
       sbind (lrem_find sv sid tid mk val pos count index [head - 1] (unat (tail - head))) (\<lambda>hole.
       let hole = hole @ [tail] in
       if length hole = 2 then sret fmtZero
       else
         let hole = (case pos of LP_HEAD \<Rightarrow> hole | LP_TAIL \<Rightarrow> std_sort (<) hole) in
         sbind (lrem_move sv sid tid mk head tail hole) (\<lambda>(head, tail).
         sbind (if head = tail then delKeyAndTTL sv mk v sid tid
                else set_meta sv sid tid mk \<lparr>lm_head = head, lm_tail = tail\<rparr> (rv_ttl v) (ok v)) (\<lambda>_.
         sbind (SessionCtx_commitTransaction sv sid tid) (\<lambda>_.
         sret (fmtLongLong (int (length hole) - 2)))))))))"

definition LRem_run :: "'s Server \<Rightarrow> ('s, bytes) cmd" where
  "LRem_run sv =
     sbind (arg 1) (\<lambda>key.
     sbind (sbind (arg 2) (slift \<circ> stol)) (\<lambda>count.
     sbind (arg 3) (\<lambda>val.
     locked_list sv LOCK_X key (\<lambda>db rv.
       if_there (sret fmtZero) rv (rem_list sv key count val db)))))"

subsection \<open>LINSERT\<close>

text \<open>\<open>strcasecmp\<close> of the C string of an argument.\<close>

definition strcaseeq :: "bytes \<Rightarrow> string \<Rightarrow> bool" where
  "strcaseeq s w \<longleftrightarrow> toLower (takeWhile (\<lambda>b. b \<noteq> 0) s) = str w"

text \<open>The number of elements from the pivot on, and its index.\<close>

primrec linsert_find ::
  "'s Server \<Rightarrow> nat \<Rightarrow> u64 \<Rightarrow> RecordKey \<Rightarrow> bytes \<Rightarrow> u64 \<Rightarrow> nat \<Rightarrow> ('s, nat \<times> u64) cmd" where
  "linsert_find sv sid tid mk pivot index 0 = sret (0, index)"
| "linsert_find sv sid tid mk pivot index (Suc n) =
     sbind (getKV sv sid tid (list_ele mk index)) (\<lambda>v.
     if rv_value v = pivot then sret (Suc n, index)
     else linsert_find sv sid tid mk pivot (index + 1) n)"

primrec linsert_move ::
  "'s Server \<Rightarrow> nat \<Rightarrow> u64 \<Rightarrow> RecordKey \<Rightarrow> u64 \<Rightarrow> u64 \<Rightarrow> nat \<Rightarrow> ('s, u64) cmd" where
  "linsert_move sv sid tid mk step index 0 = sret index"
| "linsert_move sv sid tid mk step index (Suc n) =
     sbind (getKV sv sid tid (list_ele mk (index + step))) (\<lambda>v.
     sbind (setKV sv sid tid (list_ele mk index) v) (\<lambda>_.
     linsert_move sv sid tid mk step (index + step) n))"

definition to_int32 :: "u64 \<Rightarrow> int" where
  "to_int32 w = sint (ucast w :: 32 word)"

definition insert_list ::
  "'s Server \<Rightarrow> bytes \<Rightarrow> bool \<Rightarrow> bytes \<Rightarrow> bytes \<Rightarrow> DbWithLock \<Rightarrow> RecordValue \<Rightarrow> ('s, bytes) cmd" where
  "insert_list sv key before pivot val db v = sget (\<lambda>\<sigma>.
     let sid = dw_dbId db; mk = list_meta db \<sigma> key in
     sbind (slift (ListMetaValue_decode (rv_value v))) (\<lambda>lm.
     let head = lm_head lm; tail = lm_tail lm in
     sbind (SessionCtx_createTransaction sv sid) (\<lambda>tid.
     sbind (linsert_find sv sid tid mk pivot head (unat (tail - head))) (\<lambda>(len, index).
     if len = 0 then sret (fmtLongLong (-1))
     else
       let leftEle = to_int32 (index - head) + (if before then 0 else 1);
           rightEle = to_int32 (tail - index - 1) + (if before then 1 else 0);
           (step, head, tail, index, moveLen) =
             (if leftEle < rightEle then (1, head - 1, tail, head - 1, leftEle)
              else (-1, head, tail + 1, tail, rightEle)) in
       sbind (linsert_move sv sid tid mk step index (nat moveLen)) (\<lambda>index.
       sbind (setKV sv sid tid (list_ele mk index) (ele_value val)) (\<lambda>_.
       sbind (set_meta sv sid tid mk \<lparr>lm_head = head, lm_tail = tail\<rparr> (rv_ttl v) (ok v)) (\<lambda>_.
       sbind (SessionCtx_commitTransaction sv sid tid) (\<lambda>_.
       sret (fmtLongLong (sint (tail - head)))))))))))"

definition LInsert_run :: "'s Server \<Rightarrow> ('s, bytes) cmd" where
  "LInsert_run sv =
     sbind (arg 1) (\<lambda>key.
     sbind (arg 2) (\<lambda>place.
     sbind (arg 3) (\<lambda>pivot.
     sbind (arg 4) (\<lambda>val.
     if \<not> strcaseeq place ''before'' \<and> \<not> strcaseeq place ''after''
     then serr ERR_PARSEOPT ''syntax error''
     else
       locked_list sv LOCK_X key (\<lambda>db rv.
         if_there (sret fmtZero) rv (insert_list sv key (strcaseeq place ''before'') pivot val db))))))"

subsection \<open>The commands of this file\<close>

definition list_command :: "string \<Rightarrow> int \<Rightarrow> ('s Server \<Rightarrow> ('s, bytes) cmd) \<Rightarrow> 's Command" where
  "list_command name arity run = \<lparr>co_name = str name, co_arity = arity, co_admin = False, co_isBgCmd = False, co_run = run\<rparr>"

definition list_commands :: "'s Command list" where
  "list_commands =
    [list_command ''llen'' 2 LLen_run,
     list_command ''lpop'' 2 (\<lambda>sv. ListPop_run sv LP_HEAD),
     list_command ''rpop'' 2 (\<lambda>sv. ListPop_run sv LP_TAIL),
     list_command ''lpush'' (-3) (\<lambda>sv. ListPush_run sv LP_HEAD False),
     list_command ''rpush'' (-3) (\<lambda>sv. ListPush_run sv LP_TAIL False),
     list_command ''lpushx'' (-3) (\<lambda>sv. ListPush_run sv LP_HEAD True),
     list_command ''rpushx'' (-3) (\<lambda>sv. ListPush_run sv LP_TAIL True),
     list_command ''rpoplpush'' 3 RPopLPush_run,
     list_command ''ltrim'' 4 Ltrim_run,
     list_command ''lrange'' 4 LRange_run,
     list_command ''lindex'' 3 LIndex_run,
     list_command ''lset'' 4 LSet_run,
     list_command ''lrem'' 4 LRem_run,
     list_command ''linsert'' 5 LInsert_run]"

end
