(* ===== verification/ReliableStore.thy ===== *)
theory ReliableStore
  imports KVStore
begin

section \<open>A store whose calls succeed\<close>

text \<open>
  The effect of a command when RocksDB reports no error. \<open>reliable_rocksdb\<close> adds that assumption to
  the contract of RocksDB, and \<open>reliable_kv\<close> is what a command may then rely on: every call succeeds
  and its effect on the committed data \<open>cv\<close> and on the pending writes \<open>pv\<close> of each transaction is
  known. The clock \<open>clk\<close> is the sequence of its future readings. The number \<open>n\<close> of \<open>inv n\<close> is that of
  the transactions that can still be created before the 64-bit transaction ids wrap around.
\<close>

subsection \<open>Interface\<close>

definition view :: "(bytes \<rightharpoonup> bytes) \<Rightarrow> (bytes \<rightharpoonup> bytes option) \<Rightarrow> bytes \<rightharpoonup> bytes" where
  "view m p k = (case p k of None \<Rightarrow> m k | Some x \<Rightarrow> x)"

lemma view_empty [simp]: "view m Map.empty = m"
  by (simp add: view_def fun_eq_iff)

lemma view_upd [simp]: "view m (p(k \<mapsto> x)) = (view m p)(k := x)"
  by (simp add: view_def fun_eq_iff)

definition later :: "('i \<Rightarrow> nat \<Rightarrow> 'a) \<Rightarrow> ('i \<Rightarrow> nat \<Rightarrow> 'a) \<Rightarrow> bool" where
  "later c c' \<longleftrightarrow> (\<forall>i. \<exists>d. \<forall>m. c' i m = c i (m + d))"

lemma later_refl [simp]: "later c c"
  unfolding later_def by (metis add.right_neutral)

lemma later_trans: "later a b \<Longrightarrow> later b c \<Longrightarrow> later a c"
  unfolding later_def by (metis add.assoc)

lemma laterD: "later c c' \<Longrightarrow> (\<And>m. P (c i m)) \<Longrightarrow> P (c' i m)"
  unfolding later_def by metis

definition cursor_on :: "(bytes \<rightharpoonup> bytes) \<Rightarrow> BasicDataCursor \<Rightarrow> bool" where
  "cursor_on v c \<longleftrightarrow> \<not> bc_seeked c \<and> (\<forall>p. \<exists>xs. cu_it (bc_baseCursor c) p = (xs, ROk) \<and>
     sorted_wrt ord_class.lexordp (map fst xs) \<and>
     (\<forall>k b. (k, b) \<in> set xs \<longleftrightarrow> v k = Some b \<and> \<not> ord_class.lexordp k p))"

locale reliable_kv =
  fixes ops :: "'s kvops" and inv :: "nat \<Rightarrow> 's \<Rightarrow> bool" and ns :: "'s \<Rightarrow> nat"
    and cv :: "'s \<Rightarrow> nat \<Rightarrow> bytes \<rightharpoonup> bytes"
    and pv :: "'s \<Rightarrow> nat \<Rightarrow> u64 \<Rightarrow> (bytes \<rightharpoonup> bytes option) option"
    and fin :: "'s \<Rightarrow> nat \<Rightarrow> u64 \<Rightarrow> bool"
    and clk :: "'s \<Rightarrow> nat \<Rightarrow> nat \<Rightarrow> u64"
  assumes inv_mono: "inv (Suc n) s \<Longrightarrow> inv n s"
    and create_ok: "inv (Suc n) s \<Longrightarrow> sid < ns s \<Longrightarrow> (\<And>c. sess = Some c \<Longrightarrow> \<not> ts_replOnly c) \<Longrightarrow>
      \<exists>tid s'. kv_createTransaction ops sess sid s = (ok tid, s') \<and> inv n s' \<and> ns s' = ns s \<and>
        cv s' = cv s \<and> later (clk s) (clk s') \<and> pv s sid tid = None \<and> \<not> fin s sid tid \<and>
        pv s' = (pv s)(sid := (pv s sid)(tid \<mapsto> Map.empty)) \<and> fin s' = fin s"
    and get_ok: "inv n s \<Longrightarrow> pv s sid tid = Some p \<Longrightarrow> RecordKey_encode k = ok kb \<Longrightarrow>
      rk_type k \<noteq> RT_BINLOG \<Longrightarrow>
      kv_getKV ops sid tid k s = (case view (cv s sid) p kb of
          None \<Rightarrow> err ERR_NOTFOUND ''NotFound: '' | Some b \<Rightarrow> RecordValue_decode b, s)"
    and set_ok: "inv n s \<Longrightarrow> pv s sid tid = Some p \<Longrightarrow> RecordKey_encode k = ok kb \<Longrightarrow>
      RecordValue_encode x = ok b \<Longrightarrow>
      \<exists>s'. kv_setKV ops sid tid k x s = (ok (), s') \<and> inv n s' \<and> ns s' = ns s \<and> cv s' = cv s \<and>
        later (clk s) (clk s') \<and> pv s' = (pv s)(sid := (pv s sid)(tid \<mapsto> p(kb \<mapsto> Some b))) \<and> fin s' = fin s"
    and del_ok: "inv n s \<Longrightarrow> pv s sid tid = Some p \<Longrightarrow> RecordKey_encode k = ok kb \<Longrightarrow>
      rk_type k \<noteq> RT_BINLOG \<Longrightarrow>
      \<exists>s'. kv_delKV ops sid tid k s = (ok (), s') \<and> inv n s' \<and> ns s' = ns s \<and> cv s' = cv s \<and>
        later (clk s) (clk s') \<and> pv s' = (pv s)(sid := (pv s sid)(tid \<mapsto> p(kb \<mapsto> None))) \<and> fin s' = fin s"
    and rawdel_ok: "inv n s \<Longrightarrow> pv s sid tid = Some p \<Longrightarrow> RecordKey_encode k = ok kb \<Longrightarrow>
      rk_type k \<noteq> RT_BINLOG \<Longrightarrow>
      \<exists>s'. txn_delKV ops sid tid kb s = (ok (), s') \<and> inv n s' \<and> ns s' = ns s \<and> cv s' = cv s \<and>
        later (clk s) (clk s') \<and> pv s' = (pv s)(sid := (pv s sid)(tid \<mapsto> p(kb \<mapsto> None))) \<and> fin s' = fin s"
    and commit_ok: "inv n s \<Longrightarrow> pv s sid tid = Some p \<Longrightarrow>
      \<exists>m s'. txn_commit ops sess sid tid s = (ok m, s') \<and> inv n s' \<and> ns s' = ns s \<and>
        cv s' = (cv s)(sid := view (cv s sid) p) \<and> later (clk s) (clk s') \<and>
        pv s' = (pv s)(sid := (pv s sid)(tid := None)) \<and>
        fin s' = (fin s)(sid := (fin s sid)(tid := True))"
    and rollback_ok: "inv n s \<Longrightarrow> pv s sid tid = Some p \<Longrightarrow>
      \<exists>s'. txn_rollback ops sid tid s = (ok (), s') \<and> inv n s' \<and> ns s' = ns s \<and> cv s' = cv s \<and>
        later (clk s) (clk s') \<and> pv s' = (pv s)(sid := (pv s sid)(tid := None)) \<and>
        fin s' = (fin s)(sid := (fin s sid)(tid := True))"
    and destroy_ok: "inv n s \<Longrightarrow> fin s sid tid \<or> pv s sid tid \<noteq> None \<Longrightarrow>
      \<exists>s'. txn_destroy ops sid tid s = (ok (), s') \<and> inv n s' \<and> ns s' = ns s \<and> cv s' = cv s \<and>
        later (clk s) (clk s') \<and> pv s' = (pv s)(sid := (pv s sid)(tid := None)) \<and>
        fin s' = (fin s)(sid := (fin s sid)(tid := False))"
    and clock_ok: "inv n s \<Longrightarrow> sid < ns s \<Longrightarrow>
      \<exists>s'. clock_ms ops sid s = (ok (clk s sid 0), s') \<and> inv n s' \<and> ns s' = ns s \<and> cv s' = cv s \<and>
        later (clk s) (clk s') \<and> pv s' = pv s \<and> fin s' = fin s"
    and mode_ok: "inv n s \<Longrightarrow> sid < ns s \<Longrightarrow> kv_getMode ops sid s = (ok READ_WRITE, s)"
    and paused_ok: "inv n s \<Longrightarrow> sid < ns s \<Longrightarrow> kv_isPaused ops sid s = (ok False, s)"
    and replOnly_ok: "inv n s \<Longrightarrow> pv s sid tid = Some p \<Longrightarrow> txn_isReplOnly ops sid tid s = (ok False, s)"
    and cursor_ok: "inv n s \<Longrightarrow> pv s sid tid = Some p \<Longrightarrow>
      \<exists>c. txn_createDataCursor ops sid tid s = (ok c, s) \<and> cursor_on (view (cv s sid) p) c"
    and deleteRange_ok: "inv (Suc n) s \<Longrightarrow> sid < ns s \<Longrightarrow>
      \<exists>s'. kv_deleteRange ops sid b e s = (ok (), s') \<and> inv n s' \<and> ns s' = ns s \<and>
        cv s' = (cv s)(sid := (\<lambda>k. if in_range b e k then None else cv s sid k)) \<and>
        later (clk s) (clk s') \<and> pv s' = pv s \<and> fin s' = fin s"
    and pv_valid: "inv n s \<Longrightarrow> pv s sid tid \<noteq> None \<Longrightarrow> sid < ns s"

end
