(* ===== verification/ReliableRocks.thy ===== *)
theory ReliableRocks
  imports ReliableStore
begin

section \<open>The stores of the server are reliable when RocksDB is\<close>

text \<open>
  \<open>reliable_rocksdb\<close> interprets \<open>reliable_kv\<close> by the functions of \<open>RocksKVStore\<close>: the calls succeed on
  stores that are open, running and not replicas, and transactions are numbered apart.
\<close>

locale reliable_rocksdb = rocksdb +
  assumes gets_ok: "fst (rd_get R d t cf k) = ROk \<or> fst (rd_get R d t cf k) = RNotFound"
    and puts_ok: "fst (rd_put R d t cf k v) = ROk"
    and deletes_ok: "fst (rd_delete R d t cf k) = ROk"
    and commits_ok: "fst (rd_commit R d t) = ROk"
    and rollbacks_ok: "rd_rollback R t = ROk"
    and ranges_ok: "fst (rd_deleteRange R d cf b e) = ROk"
    and seeks_ok: "snd (rd_seek R d t cf p) = ROk"

interpretation memr: reliable_rocksdb mem_rocks mem_lookup mem_wr
  by unfold_locales (simp_all add: mem_rocks_def split: option.split)

subsection \<open>State of one store\<close>

definition store_ready :: "nat \<Rightarrow> ('d, 't) RocksKVStore \<Rightarrow> bool" where
  "store_ready n s \<longleftrightarrow> ks_isRunning s \<and> \<not> ks_isPaused s \<and> ks_mode s = READ_WRITE \<and>
     \<not> ks_binlogUsingDefaultCF s \<and> unat (ks_nextTxnSeq s) + n < 2 ^ 64 \<and>
     (\<forall>t\<ge>ks_nextTxnSeq s. ks_txns s t = None \<and> ks_aliveTxns s t = None)"

definition spv :: "('t \<Rightarrow> pending) \<Rightarrow> ('d, 't) RocksKVStore \<Rightarrow> u64 \<Rightarrow> (bytes \<rightharpoonup> bytes option) option" where
  "spv wr s tid = (case ks_txns s tid of
      None \<Rightarrow> None
    | Some tx \<Rightarrow> (case tx_txn tx of
        None \<Rightarrow> None
      | Some t \<Rightarrow>
         if \<not> tx_replOnly tx \<and> \<not> tx_done tx \<and> tx_binlogId tx = TXNID_UNINITED \<and>
            ks_aliveTxns s tid = Some (False, TXNID_UNINITED)
         then Some (wr t 0) else None))"

definition sfin :: "('d, 't) RocksKVStore \<Rightarrow> u64 \<Rightarrow> bool" where
  "sfin s tid \<longleftrightarrow> (\<exists>tx. ks_txns s tid = Some tx \<and> tx_done tx \<and> tx_txn tx = None)"

lemma spv_Some:
  "spv wr s tid = Some p \<longleftrightarrow> (\<exists>tx t. ks_txns s tid = Some tx \<and> tx_txn tx = Some t \<and>
     \<not> tx_replOnly tx \<and> \<not> tx_done tx \<and> tx_binlogId tx = TXNID_UNINITED \<and>
     ks_aliveTxns s tid = Some (False, TXNID_UNINITED) \<and> p = wr t 0)"
  by (auto simp: spv_def split: option.split)

text \<open>
  A step that uses \<open>d\<close> new transaction ids and touches no transaction but \<open>tid\<close>.
\<close>

definition sframe :: "nat \<Rightarrow> u64 \<Rightarrow> ('d, 't) RocksKVStore \<Rightarrow> ('d, 't) RocksKVStore \<Rightarrow> bool" where
  "sframe d tid s s' \<longleftrightarrow> ks_isRunning s' = ks_isRunning s \<and> ks_isPaused s' = ks_isPaused s \<and>
     ks_mode s' = ks_mode s \<and> ks_binlogUsingDefaultCF s' = ks_binlogUsingDefaultCF s \<and>
     ks_nextTxnSeq s' = ks_nextTxnSeq s + of_nat d \<and> (\<exists>k. \<forall>m. ks_clock s' m = ks_clock s (m + k)) \<and>
     (\<forall>t. t \<noteq> tid \<longrightarrow> ks_txns s' t = ks_txns s t \<and> ks_aliveTxns s' t = ks_aliveTxns s t)"

lemma clock_refl: "\<exists>d. \<forall>m. c m = (c :: nat \<Rightarrow> 'a) (m + d)"
  by (rule exI [of _ 0]) simp

lemma sframe_trans:
  assumes "sframe d tid a b" "sframe e tid b c"
  shows "sframe (d + e) tid a c"
proof -
  obtain k where "\<forall>m. ks_clock b m = ks_clock a (m + k)" using assms(1) by (auto simp: sframe_def)
  moreover obtain l where "\<forall>m. ks_clock c m = ks_clock b (m + l)" using assms(2) by (auto simp: sframe_def)
  ultimately have "\<exists>k. \<forall>m. ks_clock c m = ks_clock a (m + k)"
    by (intro exI [of _ "l + k"]) (simp add: add.assoc)
  then show ?thesis using assms by (auto simp: sframe_def add.assoc)
qed

lemma sframe_trans0: "sframe 0 tid a b \<Longrightarrow> sframe 0 tid b c \<Longrightarrow> sframe 0 tid a c"
  using sframe_trans [of 0 tid a b 0 c] by simp

lemma spv_frame: "sframe d tid s s' \<Longrightarrow> spv wr s' = (spv wr s)(tid := spv wr s' tid)"
  by (rule ext) (auto simp: sframe_def spv_def split: option.split)

lemma sfin_frame: "sframe d tid s s' \<Longrightarrow> sfin s' = (sfin s)(tid := sfin s' tid)"
  by (rule ext) (auto simp: sframe_def sfin_def)

lemma next_seq:
  "unat (w :: u64) + (n + d) < 2 ^ 64 \<Longrightarrow> unat (w + of_nat d) = unat w + d"
  by (simp add: unat_word_ariths unat_of_nat take_bit_eq_mod)

lemma store_ready_frame:
  assumes "store_ready (n + d) s" "sframe d tid s s'" "d = 0 \<longrightarrow> ks_txns s tid \<noteq> None"
    and "d \<noteq> 0 \<longrightarrow> tid = ks_nextTxnSeq s"
  shows "store_ready n s'"
proof -
  have u: "unat (ks_nextTxnSeq s') = unat (ks_nextTxnSeq s) + d"
    using assms(1,2) next_seq [of "ks_nextTxnSeq s" n d] by (simp add: store_ready_def sframe_def)
  have "t \<noteq> tid \<and> ks_nextTxnSeq s \<le> t" if "ks_nextTxnSeq s' \<le> t" for t
  proof -
    have "unat (ks_nextTxnSeq s) + d \<le> unat t" using that u by (simp add: word_le_nat_alt)
    then show ?thesis using assms(1,3,4) by (auto simp: store_ready_def word_le_nat_alt)
  qed
  then show ?thesis using assms(1,2) u by (auto simp: store_ready_def sframe_def)
qed

lemma store_ready_mono: "store_ready (n + d) s \<Longrightarrow> store_ready n s"
  by (auto simp: store_ready_def)

subsection \<open>Reads and writes\<close>

lemma log_write_total:
  assumes "ks_txns s tid = Some tx" "RecordKey_decodeChunkId k = ok c"
  shows "\<exists>tx' C d. log_write tid op ts k v s =
      (ok (), s\<lparr>ks_txns := (ks_txns s)(tid \<mapsto> tx'), ks_clock := C\<rparr>) \<and>
    (\<forall>m. C m = ks_clock s (m + d)) \<and> tx_txn tx' = tx_txn tx \<and> tx_replOnly tx' = tx_replOnly tx \<and>
    tx_done tx' = tx_done tx \<and> tx_binlogId tx' = tx_binlogId tx"
proof (cases "ks_enableRepllog s")
  case False
  then show ?thesis using assms(1)
    by (intro exI [of _ tx] exI [of _ "ks_clock s"] exI [of _ 0])
      (simp add: log_write_def fun_upd_idem)
next
  case True
  define tx1 where "tx1 = setChunkId c tx"
  define tm where "tm = (if ts = 0 then ks_clock s 0 else ts)"
  define tx2 where "tx2 = tx1\<lparr>tx_replLogValues := tx_replLogValues tx1 @
      [\<lparr>le_op = op, le_timestamp = tm, le_key = k, le_val = v\<rparr>]\<rparr>"
  have "log_write tid op ts k v s = (ok (), s\<lparr>ks_txns := (ks_txns s)(tid \<mapsto> tx2),
      ks_clock := (if ts = 0 then (\<lambda>m. ks_clock s (m + 1)) else ks_clock s)\<rparr>)"
    using True assms
    by (simp add: log_write_def sbind_def mod_txn_def with_txn_def put_txn_def msSinceEpoch_def
        add_log_def tx2_def tm_def tx1_def)
  then show ?thesis
    by (intro exI [of _ tx2] exI [of _ "if ts = 0 then (\<lambda>m. ks_clock s (m + 1)) else ks_clock s"]
        exI [of _ "if ts = 0 then 1 else 0"]) (simp add: tx2_def tx1_def)
qed

lemma RecordKey_encode_chunk:
  assumes "RecordKey_encode k = ok kb"
  shows "RecordKey_decodeChunkId kb = ok (rk_chunkId k)"
  using RecordKey_decode_fields [OF assms] by simp

context reliable_rocksdb
begin

lemma get_total:
  obtains (found) v where "overlay (dbv d) (wr t) cf k = Some v" "rd_get R d t cf k = (ROk, v)"
    | (missing) v where "overlay (dbv d) (wr t) cf k = None" "rd_get R d t cf k = (RNotFound, v)"
  using get_found [of d t cf k] get_missing [of d t cf k] gets_ok [of d t cf k]
  by (cases "rd_get R d t cf k") auto

lemma put_total: "\<exists>t'. rd_put R d t cf k v = (ROk, t') \<and> wr t' = pend (wr t) cf k (Some v)"
  using puts_ok [of d t cf k v] put_wr [of d t cf k v] by (cases "rd_put R d t cf k v") auto

lemma delete_total: "\<exists>t'. rd_delete R d t cf k = (ROk, t') \<and> wr t' = pend (wr t) cf k None"
  using deletes_ok [of d t cf k] delete_wr [of d t cf k] by (cases "rd_delete R d t cf k") auto

lemma commit_total: "\<exists>d'. rd_commit R d t = (ROk, d') \<and> dbv d' = overlay (dbv d) (wr t)"
  using commits_ok [of d t] commit_db [of d t] by (cases "rd_commit R d t") auto

lemma getKV_total:
  assumes "spv wr s tid = Some p" "RecordKey_encode k = ok kb" "rk_type k \<noteq> RT_BINLOG"
  shows "RocksKVStore_getKV R tid k s = (case view (dbv (ks_db s) 0) p kb of
      None \<Rightarrow> err ERR_NOTFOUND ''NotFound: '' | Some b \<Rightarrow> RecordValue_decode b, s)"
proof -
  obtain tx t where tx: "ks_txns s tid = Some tx" "tx_txn tx = Some t" "p = wr t 0"
    using assms(1) by (auto simp: spv_Some)
  have v: "view (dbv (ks_db s) 0) p = overlay (dbv (ks_db s)) (wr t) 0"
    by (simp add: view_def overlay_def tx(3) fun_eq_iff)
  show ?thesis
    unfolding v using tx(1,2) assms(3) RecordKey_encode_type [OF assms(2)]
    by (cases rule: get_total [of "ks_db s" t 0 kb])
      (simp_all add: RocksKVStore_getKV_def RocksTxn_getKV_def RocksTxn_get_def with_txn_def sbind_def
        assms(2) getColumnFamilyHandleByRecordType_def getDataColumnFamilyHandle_def)
qed

text \<open>The transaction after a write.\<close>

lemma write_step:
  assumes "spv wr s tid = Some p" "ks_txns s tid = Some tx" "wr t' 0 = q"
    and "RecordKey_decodeChunkId kb = ok c"
  shows "\<exists>s'. log_write tid op 0 kb vb (put_txn tid (tx\<lparr>tx_txn := Some t'\<rparr>) s) = (ok (), s') \<and>
    sframe 0 tid s s' \<and> spv wr s' tid = Some q \<and> \<not> sfin s' tid \<and> ks_db s' = ks_db s"
proof -
  let ?s = "put_txn tid (tx\<lparr>tx_txn := Some t'\<rparr>) s"
  have "ks_txns ?s tid = Some (tx\<lparr>tx_txn := Some t'\<rparr>)" by simp
  from log_write_total [OF this assms(4), of op 0 vb] obtain tx' C d where
    w: "log_write tid op 0 kb vb ?s = (ok (), ?s\<lparr>ks_txns := (ks_txns ?s)(tid \<mapsto> tx'), ks_clock := C\<rparr>)"
    and C: "\<forall>m. C m = ks_clock ?s (m + d)" and tx': "tx_txn tx' = Some t'"
      "tx_replOnly tx' = tx_replOnly tx" "tx_done tx' = tx_done tx" "tx_binlogId tx' = tx_binlogId tx"
    by auto
  show ?thesis
    by (intro exI conjI, rule w)
      (use C tx' assms(1-3) in \<open>auto simp: sframe_def spv_Some sfin_def put_txn_def\<close>)
qed

lemma setKV_total:
  assumes "spv wr s tid = Some p" "RecordKey_encode k = ok kb" "RecordValue_encode x = ok b"
  shows "\<exists>s'. RocksKVStore_setKV R tid k x s = (ok (), s') \<and> sframe 0 tid s s' \<and>
    spv wr s' tid = Some (p(kb \<mapsto> Some b)) \<and> \<not> sfin s' tid \<and> ks_db s' = ks_db s"
proof -
  obtain tx t where tx: "ks_txns s tid = Some tx" "tx_txn tx = Some t" "p = wr t 0" "\<not> tx_replOnly tx"
    using assms(1) by (auto simp: spv_Some)
  obtain t' where t': "rd_put R (ks_db s) t 0 kb b = (ROk, t')" "wr t' = pend (wr t) 0 kb (Some b)"
    using put_total by blast
  have "RocksKVStore_setKV R tid k x s =
      log_write tid REPL_OP_SET 0 kb b (put_txn tid (tx\<lparr>tx_txn := Some t'\<rparr>) s)"
    using tx t' assms(2,3)
    by (simp add: RocksKVStore_setKV_def RocksTxn_setKV_def RocksTxn_put_def with_txn_def sbind_def
        checked_def getDataColumnFamilyHandle_def)
  moreover have "wr t' 0 = p(kb \<mapsto> Some b)" using t'(2) tx(3) by (simp add: pend_def)
  ultimately show ?thesis
    using write_step [OF assms(1) tx(1), of t'] RecordKey_encode_chunk [OF assms(2)] by simp
qed

lemma rawdel_total:
  assumes "spv wr s tid = Some p" "RecordKey_encode k = ok kb" "rk_type k \<noteq> RT_BINLOG"
  shows "\<exists>s'. RocksTxn_delKV R tid kb 0 s = (ok (), s') \<and> sframe 0 tid s s' \<and>
    spv wr s' tid = Some (p(kb \<mapsto> None)) \<and> \<not> sfin s' tid \<and> ks_db s' = ks_db s"
proof -
  obtain tx t where tx: "ks_txns s tid = Some tx" "tx_txn tx = Some t" "p = wr t 0" "\<not> tx_replOnly tx"
    using assms(1) by (auto simp: spv_Some)
  obtain t' where t': "rd_delete R (ks_db s) t 0 kb = (ROk, t')" "wr t' = pend (wr t) 0 kb None"
    using delete_total by blast
  have "RocksTxn_delKV R tid kb 0 s =
      log_write tid REPL_OP_DEL 0 kb [] (put_txn tid (tx\<lparr>tx_txn := Some t'\<rparr>) s)"
    using tx t' assms(3) RecordKey_encode_type [OF assms(2)]
    by (simp add: RocksTxn_delKV_def RocksTxn_del_def with_txn_def sbind_def
        checked_def getColumnFamilyHandleByRecordType_def getDataColumnFamilyHandle_def)
  moreover have "wr t' 0 = p(kb \<mapsto> None)" using t'(2) tx(3) by (simp add: pend_def)
  ultimately show ?thesis
    using write_step [OF assms(1) tx(1), of t'] RecordKey_encode_chunk [OF assms(2)] by simp
qed

end

subsection \<open>Ends of transactions\<close>

definition linked :: "('d, 't) RocksKVStore \<Rightarrow> u64 \<Rightarrow> bool" where
  "linked s b \<longleftrightarrow> b = TXNID_UNINITED \<or> b \<in> fst ` set (ks_aliveBinlogs s)"

lemma linked_upd [simp]: "linked (s\<lparr>ks_txns := x\<rparr>) b = linked s b"
  by (simp add: linked_def)

text \<open>An open transaction, whether or not \<open>_done\<close> is set.\<close>

definition at_work ::
  "('t \<Rightarrow> pending) \<Rightarrow> ('d, 't) RocksKVStore \<Rightarrow> u64 \<Rightarrow> (bytes \<rightharpoonup> bytes option) \<Rightarrow> bool" where
  "at_work wr s tid p \<longleftrightarrow> (\<exists>tx t. ks_txns s tid = Some tx \<and> tx_txn tx = Some t \<and> wr t 0 = p) \<and>
     ks_isRunning s \<and> \<not> ks_binlogUsingDefaultCF s \<and>
     (\<exists>c b. ks_aliveTxns s tid = Some (c, b) \<and> linked s b)"

lemma finish_total:
  assumes "ks_txns s tid = Some tx" "ks_isRunning s" "ks_aliveTxns s tid = Some (c, b)"
    and "linked s b"
  shows "\<exists>s'. finish_txn tid n s = (ok (), s') \<and> sframe 0 tid s s' \<and> ks_db s' = ks_db s \<and>
    ks_txns s' tid = Some (tx\<lparr>tx_txn := None\<rparr>) \<and> ks_aliveTxns s' tid = None"
  using assms
  by (auto simp: finish_txn_def mod_txn_def with_txn_def sbind_def markCommitted_def
      markCommittedInLock_def put_txn_def sframe_def Let_def linked_def intro: clock_refl split: prod.split)

lemma map_insert_key: "b \<in> fst ` set (map_insert b e xs)"
  by (induction b e xs rule: map_insert.induct) auto

lemma assign_total:
  assumes "at_work wr s tid p"
  shows "\<exists>s'. assignBinlogIdIfNeeded tid s = (ok (), s') \<and> sframe 0 tid s s' \<and> ks_db s' = ks_db s \<and>
    at_work wr s' tid p \<and>
    (\<exists>tx b. ks_txns s tid = Some tx \<and> ks_txns s' tid = Some (tx\<lparr>tx_binlogId := b\<rparr>))"
proof -
  obtain tx t c b where tx: "ks_txns s tid = Some tx" "tx_txn tx = Some t" "wr t 0 = p" "ks_isRunning s"
    "\<not> ks_binlogUsingDefaultCF s" "ks_aliveTxns s tid = Some (c, b)"
    "linked s b"
    using assms by (auto simp: at_work_def)
  show ?thesis
  proof (cases "tx_binlogId tx = TXNID_UNINITED")
    case True
    let ?b = "ks_nextBinlogSeq s"
    let ?s = "s\<lparr>ks_nextBinlogSeq := ?b + 1, ks_txns := (ks_txns s)(tid \<mapsto> tx\<lparr>tx_binlogId := ?b\<rparr>),
      ks_aliveBinlogs := map_insert ?b (False, tid) (ks_aliveBinlogs s),
      ks_aliveTxns := (ks_aliveTxns s)(tid \<mapsto> (c, ?b))\<rparr>"
    have "assignBinlogIdIfNeeded tid s = (ok (), ?s)"
      using tx True
      by (simp add: assignBinlogIdIfNeeded_def with_txn_def mod_txn_def sbind_def put_txn_def link_binlog_def Let_def)
    then show ?thesis
      using tx by (intro exI [of _ ?s]) (auto simp: sframe_def at_work_def linked_def map_insert_key intro: clock_refl)
  next
    case False
    then have "assignBinlogIdIfNeeded tid s = (ok (), s)"
      using tx by (simp add: assignBinlogIdIfNeeded_def with_txn_def)
    moreover have "\<exists>b. tx = tx\<lparr>tx_binlogId := b\<rparr>" by (rule exI [of _ "tx_binlogId tx"]) simp
    ultimately show ?thesis
      using tx assms by (intro exI [of _ s]) (auto simp: sframe_def intro: clock_refl)
  qed
qed

context reliable_rocksdb
begin

lemma put_binlog_total:
  assumes "at_work wr s tid p"
  shows "\<exists>s'. put_binlog R sess tid s = (ok (), s') \<and> sframe 0 tid s s' \<and> ks_db s' = ks_db s \<and>
    at_work wr s' tid p \<and> (\<exists>tx t'. ks_txns s tid = Some tx \<and> ks_txns s' tid = Some (tx\<lparr>tx_txn := Some t'\<rparr>))"
proof -
  obtain tx t where tx: "ks_txns s tid = Some tx" "tx_txn tx = Some t" "wr t 0 = p"
    "\<not> ks_binlogUsingDefaultCF s"
    using assms by (auto simp: at_work_def)
  obtain k where k: "ReplLogKeyV2_encode (tx_binlogId tx) = ok k" using ReplLogKeyV2_encode_total by blast
  obtain v where v: "ReplLogValueV2_encode (binlog_value sess tx) (tx_replLogValues tx) = ok v"
    by (simp add: ReplLogValueV2_encode_eq)
  obtain t' where p: "rd_put R (ks_db s) t 1 k v = (ROk, t')" "wr t' = pend (wr t) 1 k (Some v)"
    using put_total by blast
  have "put_binlog R sess tid s = (ok (), put_txn tid (tx\<lparr>tx_txn := Some t'\<rparr>) s)"
    using tx k v p
    by (simp add: put_binlog_def with_txn_def RocksTxn_put_def sbind_def getBinlogColumnFamilyHandle_def
        checked_def)
  then show ?thesis
    using tx p(2) assms by (intro exI) (auto simp: sframe_def at_work_def pend_def put_txn_def intro: clock_refl)
qed

lemma commit_log_total:
  assumes "at_work wr s tid p"
  shows "\<exists>s'. commit_log R sess tid s = (ok (), s') \<and> sframe 0 tid s s' \<and> ks_db s' = ks_db s \<and>
    at_work wr s' tid p \<and>
    (\<exists>tx tx'. ks_txns s tid = Some tx \<and> ks_txns s' tid = Some tx' \<and> tx_done tx' = tx_done tx)"
proof -
  obtain tx where tx: "ks_txns s tid = Some tx" using assms by (auto simp: at_work_def)
  show ?thesis
  proof (cases "tx_replLogValues tx = []")
    case True
    then show ?thesis using tx assms
      by (intro exI [of _ s]) (auto simp: commit_log_def with_txn_def sframe_def intro: clock_refl)
  next
    case False
    obtain s1 where 1: "assignBinlogIdIfNeeded tid s = (ok (), s1)" "sframe 0 tid s s1" "ks_db s1 = ks_db s"
      "at_work wr s1 tid p" "\<exists>b. ks_txns s1 tid = Some (tx\<lparr>tx_binlogId := b\<rparr>)"
      using assign_total [OF assms] tx by auto
    obtain s2 where 2: "put_binlog R sess tid s1 = (ok (), s2)" "sframe 0 tid s1 s2" "ks_db s2 = ks_db s1"
      "at_work wr s2 tid p"
      "\<exists>tx t'. ks_txns s1 tid = Some tx \<and> ks_txns s2 tid = Some (tx\<lparr>tx_txn := Some t'\<rparr>)"
      using put_binlog_total [OF 1(4), of sess] by blast
    have "commit_log R sess tid s = (ok (), s2)"
      using False tx 1(1) 2(1) by (simp add: commit_log_def with_txn_def sbind_def)
    then show ?thesis
      using 1 2 tx sframe_trans0 [OF 1(2) 2(2)] by auto
  qed
qed

lemma RocksTxn_commit_total:
  assumes "spv wr s tid = Some p" "store_ready n s"
  shows "\<exists>m s'. RocksTxn_commit R sess tid s = (ok m, s') \<and> sframe 0 tid s s' \<and>
    spv wr s' tid = None \<and> sfin s' tid \<and> dbv (ks_db s') 0 = view (dbv (ks_db s) 0) p"
proof -
  obtain tx t where tx: "ks_txns s tid = Some tx" "tx_txn tx = Some t" "p = wr t 0"
    "ks_aliveTxns s tid = Some (False, TXNID_UNINITED)"
    using assms(1) by (auto simp: spv_Some)
  let ?s = "put_txn tid (tx\<lparr>tx_done := True\<rparr>) s"
  have w: "at_work wr ?s tid p" using tx assms(2) by (auto simp: at_work_def linked_def store_ready_def put_txn_def)
  have f0: "sframe 0 tid s ?s" by (auto simp: sframe_def put_txn_def intro: clock_refl)
  obtain s1 tx1 where 1: "commit_log R sess tid ?s = (ok (), s1)" "sframe 0 tid ?s s1" "ks_db s1 = ks_db ?s"
    "at_work wr s1 tid p" "ks_txns s1 tid = Some tx1" "tx_done tx1"
    using commit_log_total [OF w, of sess] by auto
  obtain t1 c b where t1: "tx_txn tx1 = Some t1" "wr t1 0 = p" "ks_isRunning s1"
    "ks_aliveTxns s1 tid = Some (c, b)" "linked s1 b"
    using 1(4,5) by (auto simp: at_work_def)
  obtain d where d: "rd_commit R (ks_db s1) t1 = (ROk, d)" "dbv d = overlay (dbv (ks_db s1)) (wr t1)"
    using commit_total by blast
  let ?s2 = "s1\<lparr>ks_db := d\<rparr>"
  obtain i where cw: "commit_write R tid s1 = (ok i, ?s2)"
    using 1(5) t1(1) d(1) by (simp add: commit_write_def with_txn_def Let_def)
  have f2: "sframe 0 tid s1 ?s2" by (auto simp: sframe_def intro: clock_refl)
  obtain s3 where 3: "finish_txn tid i ?s2 = (ok (), s3)" "sframe 0 tid ?s2 s3" "ks_db s3 = d"
    "ks_txns s3 tid = Some (tx1\<lparr>tx_txn := None\<rparr>)"
    using finish_total [of ?s2 tid tx1 c b i] 1(5) t1(3-5) by (auto simp: linked_def)
  have "RocksTxn_commit R sess tid s = (ok (tx_txnId tx), s3)"
    using tx 1(1) cw 3(1) by (simp add: RocksTxn_commit_def with_txn_def mod_txn_def sbind_def stry_def)
  moreover have "sframe 0 tid s s3"
    by (rule sframe_trans0 [OF f0 sframe_trans0 [OF 1(2) sframe_trans0 [OF f2 3(2)]]])
  moreover have "dbv (ks_db s3) 0 = view (dbv (ks_db s) 0) p"
    using d(2) 3(3) 1(3) t1(2) by (simp add: view_def overlay_def fun_eq_iff put_txn_def)
  ultimately show ?thesis
    using 3(4) 1(6) by (intro exI [of _ "tx_txnId tx"] exI [of _ s3]) (auto simp: spv_def sfin_def)
qed

lemma RocksTxn_rollback_total:
  assumes "spv wr s tid = Some p" "store_ready n s"
  shows "\<exists>s'. RocksTxn_rollback R tid s = (ok (), s') \<and> sframe 0 tid s s' \<and>
    spv wr s' tid = None \<and> sfin s' tid \<and> ks_db s' = ks_db s"
proof -
  obtain tx t where tx: "ks_txns s tid = Some tx" "tx_txn tx = Some t" "p = wr t 0"
    "ks_aliveTxns s tid = Some (False, TXNID_UNINITED)"
    using assms(1) by (auto simp: spv_Some)
  let ?s = "put_txn tid (tx\<lparr>tx_done := True\<rparr>) s"
  have f0: "sframe 0 tid s ?s" by (auto simp: sframe_def put_txn_def intro: clock_refl)
  obtain s3 where 3: "finish_txn tid TXNID_UNINITED ?s = (ok (), s3)" "sframe 0 tid ?s s3"
    "ks_db s3 = ks_db s" "ks_txns s3 tid = Some (tx\<lparr>tx_done := True, tx_txn := None\<rparr>)"
    using finish_total [of ?s tid _ False TXNID_UNINITED TXNID_UNINITED] tx assms(2)
    by (auto simp: store_ready_def put_txn_def linked_def)
  have "RocksTxn_rollback R tid s = (ok (), s3)"
    using tx 3(1) rollbacks_ok [of t]
    by (simp add: RocksTxn_rollback_def with_txn_def mod_txn_def sbind_def stry_def checked_def)
  then show ?thesis
    using 3(3,4) sframe_trans0 [OF f0 3(2)] by (intro exI [of _ s3]) (auto simp: spv_def sfin_def)
qed

lemma RocksTxn_destroy_total:
  assumes "sfin s tid \<or> spv wr s tid \<noteq> None" "store_ready n s"
  shows "\<exists>s'. RocksTxn_destroy tid s = (ok (), s') \<and> sframe 0 tid s s' \<and>
    spv wr s' tid = None \<and> \<not> sfin s' tid \<and> ks_db s' = ks_db s"
proof -
  obtain tx where tx: "ks_txns s tid = Some tx" using assms(1) by (auto simp: sfin_def spv_Some)
  obtain s1 where 1: "(if tx_done tx then sret () else finish_txn tid TXNID_UNINITED) s = (ok (), s1)"
    "sframe 0 tid s s1" "ks_db s1 = ks_db s"
  proof (cases "tx_done tx")
    case True
    then show ?thesis by (intro that [of s]) (auto simp: sframe_def intro: clock_refl)
  next
    case False
    then have "ks_aliveTxns s tid = Some (False, TXNID_UNINITED)"
      using assms(1) tx by (auto simp: sfin_def spv_Some)
    then show ?thesis
      using that finish_total [OF tx, of False TXNID_UNINITED TXNID_UNINITED] False assms(2)
      by (auto simp: store_ready_def linked_def)
  qed
  let ?s = "s1\<lparr>ks_txns := (ks_txns s1)(tid := None)\<rparr>"
  have "RocksTxn_destroy tid s = (ok (), ?s)"
    using tx 1(1) by (simp add: RocksTxn_destroy_def with_txn_def sbind_def)
  moreover have "sframe 0 tid s1 ?s" by (auto simp: sframe_def intro: clock_refl)
  ultimately show ?thesis
    using 1(3) sframe_trans0 [OF 1(2)] by (intro exI [of _ ?s]) (auto simp: spv_def sfin_def)
qed

lemma create_total:
  assumes "store_ready (Suc n) s" "\<And>c. sess = Some c \<Longrightarrow> \<not> ts_replOnly c"
  shows "\<exists>s'. createTransaction R sess s = (ok (ks_nextTxnSeq s), s') \<and>
    sframe 1 (ks_nextTxnSeq s) s s' \<and> spv wr s' (ks_nextTxnSeq s) = Some Map.empty \<and>
    \<not> sfin s' (ks_nextTxnSeq s) \<and> ks_db s' = ks_db s \<and>
    ks_txns s (ks_nextTxnSeq s) = None \<and> ks_enableRepllog s' = ks_enableRepllog s"
  using assms begin_wr [of "ks_db s"]
  by (auto simp: createTransaction_def Let_def store_ready_def addUnCommitedTxnInLock_def sbind_def
      put_txn_def sframe_def spv_def sfin_def RocksTxn_new_def fun_eq_iff intro: clock_refl split: option.split)

lemma addDeleteRangeBinlog_total:
  assumes "spv wr s tid = Some p"
  shows "\<exists>s'. addDeleteRangeBinlog tid b e s = (ok (), s') \<and> sframe 0 tid s s' \<and>
    spv wr s' tid = Some p \<and> ks_db s' = ks_db s"
proof -
  obtain tx t where tx: "ks_txns s tid = Some tx" "tx_txn tx = Some t" "p = wr t 0" "\<not> tx_replOnly tx"
    "\<not> tx_done tx" "tx_binlogId tx = TXNID_UNINITED" "ks_aliveTxns s tid = Some (False, TXNID_UNINITED)"
    using assms by (auto simp: spv_Some)
  show ?thesis
  proof (cases "ks_enableRepllog s")
    case True
    let ?tx = "setChunkId CHUNKID_DEL_RANGE tx"
    let ?s = "s\<lparr>ks_txns := (ks_txns s)(tid \<mapsto> ?tx\<lparr>tx_replLogValues := tx_replLogValues ?tx @
        [\<lparr>le_op = REPL_OP_DEL_RANGE, le_timestamp = ks_clock s 0, le_key = b, le_val = e\<rparr>]\<rparr>),
      ks_clock := (\<lambda>m. ks_clock s (Suc m))\<rparr>"
    have "addDeleteRangeBinlog tid b e s = (ok (), ?s)"
      using True tx
      by (simp add: addDeleteRangeBinlog_def with_txn_def mod_txn_def sbind_def put_txn_def
          msSinceEpoch_def add_log_def)
    moreover have "sframe 0 tid s ?s" by (auto simp: sframe_def intro: exI [of _ 1])
    ultimately show ?thesis using tx by (intro exI [of _ ?s]) (auto simp: spv_Some)
  next
    case False
    then show ?thesis using tx assms
      by (intro exI [of _ s]) (auto simp: addDeleteRangeBinlog_def with_txn_def sframe_def intro: clock_refl)
  qed
qed

lemma deleteRange_total:
  assumes "store_ready (Suc n) s"
  shows "\<exists>s'. RocksKVStore_deleteRange R b e False False s = (ok (), s') \<and>
    sframe 1 (ks_nextTxnSeq s) s s' \<and> spv wr s' (ks_nextTxnSeq s) = None \<and> \<not> sfin s' (ks_nextTxnSeq s) \<and>
    spv wr s (ks_nextTxnSeq s) = None \<and> \<not> sfin s (ks_nextTxnSeq s) \<and>
    dbv (ks_db s') 0 = (\<lambda>k. if in_range b e k then None else dbv (ks_db s) 0 k)"
proof -
  let ?tid = "ks_nextTxnSeq s"
  obtain d where d: "rd_deleteRange R (ks_db s) 0 b e = (ROk, d)"
    using ranges_ok [of "ks_db s" 0 b e] by (cases "rd_deleteRange R (ks_db s) 0 b e") auto
  let ?s0 = "s\<lparr>ks_db := d\<rparr>"
  have r0: "store_ready (Suc n) ?s0" using assms by (simp add: store_ready_def)
  have f0: "sframe 0 ?tid s ?s0" by (auto simp: sframe_def intro: clock_refl)
  obtain s1 where 1: "createTransaction R None ?s0 = (ok ?tid, s1)" "sframe 1 ?tid ?s0 s1"
    "spv wr s1 ?tid = Some Map.empty" "ks_db s1 = d" "ks_txns s ?tid = None"
    using create_total [OF r0, of None] by auto
  have r1: "store_ready n s1" by (rule store_ready_frame [of n 1, OF _ 1(2)]) (use r0 in simp_all)
  obtain s2 where 2: "addDeleteRangeBinlog ?tid b e s1 = (ok (), s2)" "sframe 0 ?tid s1 s2"
    "spv wr s2 ?tid = Some Map.empty" "ks_db s2 = d"
    using addDeleteRangeBinlog_total [OF 1(3), of b e] 1(4) by auto
  have r2: "store_ready n s2"
    by (rule store_ready_frame [of n 0, OF _ 2(2)]) (use r1 1(3) in \<open>auto simp: spv_Some\<close>)
  obtain m s3 where 3: "RocksTxn_commit R None ?tid s2 = (ok m, s3)" "sframe 0 ?tid s2 s3"
    "sfin s3 ?tid" "dbv (ks_db s3) 0 = dbv d 0"
    using RocksTxn_commit_total [OF 2(3) r2, of None] 2(4) by auto
  have r3: "store_ready n s3"
    by (rule store_ready_frame [of n 0, OF _ 3(2)]) (use r2 2(3) in \<open>auto simp: spv_Some\<close>)
  obtain s4 where 4: "RocksTxn_destroy ?tid s3 = (ok (), s4)" "sframe 0 ?tid s3 s4"
    "spv wr s4 ?tid = None" "\<not> sfin s4 ?tid" "ks_db s4 = ks_db s3"
    using RocksTxn_destroy_total [of s3 ?tid, OF _ r3] 3(3) by auto
  have "RocksKVStore_deleteRange R b e False False s = (ok (), s4)"
    using d 1(1) 2(1) 3(1) 4(1)
    by (simp add: RocksKVStore_deleteRange_def deleteRangeWithoutBinlog_def sbind_def checked_def
        scoped_txn_def stry_def getDataColumnFamilyHandle_def)
  moreover have "sframe 1 ?tid s s4"
    using sframe_trans [OF f0 sframe_trans [OF 1(2) sframe_trans [OF 2(2) sframe_trans [OF 3(2) 4(2)]]]] by simp
  moreover have "dbv (ks_db s4) 0 = (\<lambda>k. if in_range b e k then None else dbv (ks_db s) 0 k)"
    using 4(5) 3(4) deleteRange_db [OF d] by simp
  ultimately show ?thesis using 4(3,4) 1(5) by (intro exI [of _ s4]) (auto simp: spv_def sfin_def)
qed

lemma cursor_total:
  assumes "spv wr s tid = Some p"
  shows "\<exists>c. createDataCursor R tid s = (ok c, s) \<and> cursor_on (view (dbv (ks_db s) 0) p) c"
proof -
  obtain tx t where tx: "ks_txns s tid = Some tx" "tx_txn tx = Some t" "p = wr t 0"
    using assms by (auto simp: spv_Some)
  have v: "view (dbv (ks_db s) 0) p = overlay (dbv (ks_db s)) (wr t) 0"
    by (simp add: view_def overlay_def tx(3) fun_eq_iff)
  have it: "\<exists>xs. rd_seek R (ks_db s) t 0 q = (xs, ROk) \<and> sorted_wrt ord_class.lexordp (map fst xs) \<and>
      (\<forall>k b. (k, b) \<in> set xs \<longleftrightarrow> overlay (dbv (ks_db s)) (wr t) 0 k = Some b \<and> \<not> ord_class.lexordp k q)" for q
  proof -
    obtain xs where "rd_seek R (ks_db s) t 0 q = (xs, ROk)"
      using seeks_ok [of "ks_db s" t 0 q] by (cases "rd_seek R (ks_db s) t 0 q") auto
    note q = this
    have "(k, b) \<in> set xs \<longleftrightarrow> overlay (dbv (ks_db s)) (wr t) 0 k = Some b \<and> \<not> ord_class.lexordp k q" for k b
      using seek_sound [OF q, of k b] seek_complete [OF q, of k b] by blast
    then show ?thesis using q seek_sorted [OF q] by blast
  qed
  let ?c = "\<lparr>bc_baseCursor = RocksKVCursor_new (rd_seek R (ks_db s) t 0), bc_seeked = False\<rparr>"
  have "createDataCursor R tid s = (ok ?c, s)"
    using tx(1,2) by (simp add: createDataCursor_def createCursor_def with_txn_def sbind_def
        getDataColumnFamilyHandle_def)
  moreover have "cursor_on (view (dbv (ks_db s) 0) p) ?c"
    unfolding v cursor_on_def by (simp add: RocksKVCursor_new_def it)
  ultimately show ?thesis by blast
qed

end

subsection \<open>All stores\<close>

definition stores_ready :: "nat \<Rightarrow> ('d, 't) stores \<Rightarrow> bool" where
  "stores_ready n ss \<longleftrightarrow> (\<forall>s\<in>set ss. store_ready n s)"

definition store_pv ::
  "('t \<Rightarrow> pending) \<Rightarrow> ('d, 't) stores \<Rightarrow> nat \<Rightarrow> u64 \<Rightarrow> (bytes \<rightharpoonup> bytes option) option" where
  "store_pv wr ss sid = (if sid < length ss then spv wr (ss ! sid) else Map.empty)"

definition store_fin :: "('d, 't) stores \<Rightarrow> nat \<Rightarrow> u64 \<Rightarrow> bool" where
  "store_fin ss sid = (if sid < length ss then sfin (ss ! sid) else (\<lambda>_. False))"

definition store_clk :: "('d, 't) stores \<Rightarrow> nat \<Rightarrow> nat \<Rightarrow> u64" where
  "store_clk ss sid = (if sid < length ss then ks_clock (ss ! sid) else (\<lambda>_. 0))"

lemma stores_ready_nth: "stores_ready n ss \<Longrightarrow> sid < length ss \<Longrightarrow> store_ready n (ss ! sid)"
  by (simp add: stores_ready_def)

lemma stores_ready_mono: "stores_ready (n + d) ss \<Longrightarrow> stores_ready n ss"
  unfolding stores_ready_def using store_ready_mono by blast

lemma on_store_frame:
  assumes "sid < length ss" "m (ss ! sid) = (r, s')" "sframe d tid (ss ! sid) s'"
    and "stores_ready (n + d) ss" "store_ready n s'"
  shows "\<exists>ss'. on_store sid m ss = (r, ss') \<and> stores_ready n ss' \<and> length ss' = length ss \<and>
    committed dbv ss' = (committed dbv ss)(sid := dbv (ks_db s') 0) \<and>
    later (store_clk ss) (store_clk ss') \<and>
    store_pv wr ss' = (store_pv wr ss)(sid := (store_pv wr ss sid)(tid := spv wr s' tid)) \<and>
    store_fin ss' = (store_fin ss)(sid := (store_fin ss sid)(tid := sfin s' tid))"
proof (intro exI conjI)
  show "on_store sid m ss = (r, ss[sid := s'])" using assms(1,2) by (simp add: on_store_def)
  show "stores_ready n (ss[sid := s'])"
    using stores_ready_mono [OF assms(4)] assms(5) set_update_subset_insert [of ss sid s']
    by (auto simp: stores_ready_def)
  show "committed dbv (ss[sid := s']) = (committed dbv ss)(sid := dbv (ks_db s') 0)"
    by (rule committed_update [OF assms(1)])
  show "later (store_clk ss) (store_clk (ss[sid := s']))"
    using assms(1,3) by (auto simp: later_def store_clk_def sframe_def nth_list_update intro: clock_refl)
  have "store_pv wr ss sid = spv wr (ss ! sid)" "store_fin ss sid = sfin (ss ! sid)"
    using assms(1) by (simp_all add: store_pv_def store_fin_def)
  note f = this spv_frame [OF assms(3), of wr, symmetric] sfin_frame [OF assms(3), symmetric]
  show "store_pv wr (ss[sid := s']) = (store_pv wr ss)(sid := (store_pv wr ss sid)(tid := spv wr s' tid))"
    unfolding f using assms(1) by (simp add: store_pv_def fun_eq_iff)
  show "store_fin (ss[sid := s']) = (store_fin ss)(sid := (store_fin ss sid)(tid := sfin s' tid))"
    unfolding f using assms(1) by (simp add: store_fin_def fun_eq_iff)
qed simp

lemma on_store_read: "sid < length ss \<Longrightarrow> m (ss ! sid) = (r, ss ! sid) \<Longrightarrow> on_store sid m ss = (r, ss)"
  by (simp add: on_store_def)

lemma store_pv_Some: "store_pv wr ss sid tid = Some p \<longleftrightarrow> sid < length ss \<and> spv wr (ss ! sid) tid = Some p"
  by (simp add: store_pv_def)

lemma spv_not_fin: "spv wr s tid = Some p \<Longrightarrow> \<not> sfin s tid"
  by (auto simp: spv_Some sfin_def)

lemma on_sid [simp]:
  "sid < length ss \<Longrightarrow> store_pv wr ss sid = spv wr (ss ! sid)"
  "sid < length ss \<Longrightarrow> store_fin ss sid = sfin (ss ! sid)"
  "sid < length ss \<Longrightarrow> committed dbv ss sid = dbv (ks_db (ss ! sid)) 0"
  "sid < length ss \<Longrightarrow> store_clk ss sid = ks_clock (ss ! sid)"
  by (simp_all add: store_pv_def store_fin_def committed_def store_clk_def)

lemma keep_sid:
  "sid < length ss \<Longrightarrow> (committed dbv ss)(sid := dbv (ks_db (ss ! sid)) 0) = committed dbv ss"
  "sid < length ss \<Longrightarrow> sfin (ss ! sid) tid = x \<Longrightarrow>
     (store_fin ss)(sid := (sfin (ss ! sid))(tid := x)) = store_fin ss"
  "sid < length ss \<Longrightarrow> spv wr (ss ! sid) tid = y \<Longrightarrow>
     (store_pv wr ss)(sid := (spv wr (ss ! sid))(tid := y)) = store_pv wr ss"
  by (auto simp: store_pv_def store_fin_def committed_def fun_eq_iff)

context reliable_rocksdb
begin

lemma stores_create:
  fixes sess :: "TxnSession option"
  assumes "stores_ready (Suc n) ss" "sid < length ss" "\<And>c. sess = Some c \<Longrightarrow> \<not> ts_replOnly c"
  shows "\<exists>tid ss'. kv_createTransaction (rocks_ops R) sess sid ss = (ok tid, ss') \<and> stores_ready n ss' \<and>
      length ss' = length ss \<and> committed dbv ss' = committed dbv ss \<and> later (store_clk ss) (store_clk ss') \<and>
      store_pv wr ss sid tid = None \<and> \<not> store_fin ss sid tid \<and>
      store_pv wr ss' = (store_pv wr ss)(sid := (store_pv wr ss sid)(tid \<mapsto> Map.empty)) \<and>
      store_fin ss' = store_fin ss"
proof -
  have r: "store_ready (n + 1) (ss ! sid)" using stores_ready_nth [OF assms(1,2)] by simp
  let ?tid = "ks_nextTxnSeq (ss ! sid)"
  obtain s' where s': "createTransaction R sess (ss ! sid) = (ok ?tid, s')" "sframe 1 ?tid (ss ! sid) s'"
    "spv wr s' ?tid = Some Map.empty" "\<not> sfin s' ?tid" "ks_db s' = ks_db (ss ! sid)" "ks_txns (ss ! sid) ?tid = None"
    using create_total [of n "ss ! sid" sess] r assms(3) by auto
  have "store_ready n s'" by (rule store_ready_frame [OF r s'(2)]) simp_all
  from on_store_frame [where ss = ss and sid = sid and m = "createTransaction R sess", OF assms(2) s'(1,2) _ this, of dbv wr] assms(1) obtain ss' where
    "on_store sid (createTransaction R sess) ss = (ok ?tid, ss')" "stores_ready n ss'" "length ss' = length ss"
    "later (store_clk ss) (store_clk ss')"
    "committed dbv ss' = (committed dbv ss)(sid := dbv (ks_db s') 0)"
    "store_pv wr ss' = (store_pv wr ss)(sid := (store_pv wr ss sid)(?tid := spv wr s' ?tid))"
    "store_fin ss' = (store_fin ss)(sid := (store_fin ss sid)(?tid := sfin s' ?tid))" by auto
  moreover have "spv wr (ss ! sid) ?tid = None" "sfin (ss ! sid) ?tid = False"
    using s'(6) by (simp_all add: spv_def sfin_def)
  ultimately show ?thesis
    using assms(2) s'(3,4,5)
    by (intro exI [of _ ?tid] exI [of _ ss']) (simp add: rocks_ops_def keep_sid)
qed

text \<open>An operation on an open transaction.\<close>

lemma stores_step:
  assumes "stores_ready n ss" "sid < length ss" "m (ss ! sid) = (r, s')" "sframe 0 tid (ss ! sid) s'"
    and "ks_txns (ss ! sid) tid \<noteq> None"
  shows "\<exists>ss'. on_store sid m ss = (r, ss') \<and> stores_ready n ss' \<and> length ss' = length ss \<and>
    committed dbv ss' = (committed dbv ss)(sid := dbv (ks_db s') 0) \<and> later (store_clk ss) (store_clk ss') \<and>
    store_pv wr ss' = (store_pv wr ss)(sid := (store_pv wr ss sid)(tid := spv wr s' tid)) \<and>
    store_fin ss' = (store_fin ss)(sid := (store_fin ss sid)(tid := sfin s' tid))"
proof -
  have "store_ready n s'"
    by (rule store_ready_frame [of n 0, OF _ assms(4)]) (use assms stores_ready_nth [of n ss sid] in auto)
  from on_store_frame [where ss = ss and sid = sid and m = "m", OF assms(2,3,4) _ this, of dbv wr] assms(1) show ?thesis by simp
qed

lemma stores_write:
  assumes "stores_ready n ss" "store_pv wr ss sid tid = Some p" "m (ss ! sid) = (r, s')"
    and "sframe 0 tid (ss ! sid) s'" "spv wr s' tid = Some q" "\<not> sfin s' tid" "ks_db s' = ks_db (ss ! sid)"
  shows "\<exists>ss'. on_store sid m ss = (r, ss') \<and> stores_ready n ss' \<and> length ss' = length ss \<and>
    committed dbv ss' = committed dbv ss \<and> later (store_clk ss) (store_clk ss') \<and>
    store_pv wr ss' = (store_pv wr ss)(sid := (store_pv wr ss sid)(tid \<mapsto> q)) \<and>
    store_fin ss' = store_fin ss"
proof -
  have sid: "sid < length ss" and p: "spv wr (ss ! sid) tid = Some p" using assms(2) by (simp_all add: store_pv_Some)
  have "ks_txns (ss ! sid) tid \<noteq> None" using p by (auto simp: spv_Some)
  from stores_step [where ss = ss and sid = sid and m = "m", OF assms(1) sid assms(3,4) this] spv_not_fin [OF p] assms(5-7) show ?thesis
    by (auto simp: sid keep_sid)
qed

lemma stores_end:
  assumes "stores_ready n ss" "sid < length ss" "ks_txns (ss ! sid) tid \<noteq> None" "m (ss ! sid) = (r, s')"
    and "sframe 0 tid (ss ! sid) s'" "spv wr s' tid = None" "sfin s' tid = f"
  shows "\<exists>ss'. on_store sid m ss = (r, ss') \<and> stores_ready n ss' \<and> length ss' = length ss \<and>
    committed dbv ss' = (committed dbv ss)(sid := dbv (ks_db s') 0) \<and> later (store_clk ss) (store_clk ss') \<and>
    store_pv wr ss' = (store_pv wr ss)(sid := (store_pv wr ss sid)(tid := None)) \<and>
    store_fin ss' = (store_fin ss)(sid := (store_fin ss sid)(tid := f))"
  using stores_step [where ss = ss and sid = sid and m = "m", OF assms(1,2,4,5,3)] assms(6,7) by simp

lemma stores_commit:
  assumes "stores_ready n ss" "store_pv wr ss sid tid = Some p"
  shows "\<exists>m ss'. txn_commit (rocks_ops R) sess sid tid ss = (ok m, ss') \<and> stores_ready n ss' \<and>
      length ss' = length ss \<and> committed dbv ss' = (committed dbv ss)(sid := view (committed dbv ss sid) p) \<and>
      later (store_clk ss) (store_clk ss') \<and>
      store_pv wr ss' = (store_pv wr ss)(sid := (store_pv wr ss sid)(tid := None)) \<and>
      store_fin ss' = (store_fin ss)(sid := (store_fin ss sid)(tid := True))"
proof -
  have sid: "sid < length ss" and p: "spv wr (ss ! sid) tid = Some p" using assms(2) by (simp_all add: store_pv_Some)
  have tx: "ks_txns (ss ! sid) tid \<noteq> None" using p by (auto simp: spv_Some)
  obtain m s' where s': "RocksTxn_commit R sess tid (ss ! sid) = (ok m, s')" "sframe 0 tid (ss ! sid) s'"
    "spv wr s' tid = None" "sfin s' tid = True" "dbv (ks_db s') 0 = view (dbv (ks_db (ss ! sid)) 0) p"
    using RocksTxn_commit_total [OF p stores_ready_nth [OF assms(1) sid], of sess] by auto
  from stores_end [where ss = ss and sid = sid and m = "RocksTxn_commit R sess tid", OF assms(1) sid tx s'(1-4)] s'(5) show ?thesis
    by (intro exI [of _ m]) (simp add: rocks_ops_def sid)
qed

lemma stores_rollback:
  assumes "stores_ready n ss" "store_pv wr ss sid tid = Some p"
  shows "\<exists>ss'. txn_rollback (rocks_ops R) sid tid ss = (ok (), ss') \<and> stores_ready n ss' \<and>
      length ss' = length ss \<and> committed dbv ss' = committed dbv ss \<and> later (store_clk ss) (store_clk ss') \<and>
      store_pv wr ss' = (store_pv wr ss)(sid := (store_pv wr ss sid)(tid := None)) \<and>
      store_fin ss' = (store_fin ss)(sid := (store_fin ss sid)(tid := True))"
proof -
  have sid: "sid < length ss" and p: "spv wr (ss ! sid) tid = Some p" using assms(2) by (simp_all add: store_pv_Some)
  have tx: "ks_txns (ss ! sid) tid \<noteq> None" using p by (auto simp: spv_Some)
  obtain s' where s': "RocksTxn_rollback R tid (ss ! sid) = (ok (), s')" "sframe 0 tid (ss ! sid) s'"
    "spv wr s' tid = None" "sfin s' tid = True" "ks_db s' = ks_db (ss ! sid)"
    using RocksTxn_rollback_total [OF p stores_ready_nth [OF assms(1) sid]] by auto
  from stores_end [where ss = ss and sid = sid and m = "RocksTxn_rollback R tid", OF assms(1) sid tx s'(1-4)] s'(5) show ?thesis
    by (simp add: rocks_ops_def sid keep_sid)
qed

lemma stores_destroy:
  assumes "stores_ready n ss" "store_fin ss sid tid \<or> store_pv wr ss sid tid \<noteq> None"
  shows "\<exists>ss'. txn_destroy (rocks_ops R) sid tid ss = (ok (), ss') \<and> stores_ready n ss' \<and>
      length ss' = length ss \<and> committed dbv ss' = committed dbv ss \<and> later (store_clk ss) (store_clk ss') \<and>
      store_pv wr ss' = (store_pv wr ss)(sid := (store_pv wr ss sid)(tid := None)) \<and>
      store_fin ss' = (store_fin ss)(sid := (store_fin ss sid)(tid := False))"
proof -
  have sid: "sid < length ss" using assms(2) by (auto simp: store_fin_def store_pv_def split: if_split_asm)
  then have p: "sfin (ss ! sid) tid \<or> spv wr (ss ! sid) tid \<noteq> None" using assms(2) by simp
  then have tx: "ks_txns (ss ! sid) tid \<noteq> None" by (auto simp: sfin_def spv_Some)
  obtain s' where s': "RocksTxn_destroy tid (ss ! sid) = (ok (), s')" "sframe 0 tid (ss ! sid) s'"
    "spv wr s' tid = None" "sfin s' tid = False" "ks_db s' = ks_db (ss ! sid)"
    using RocksTxn_destroy_total [OF p stores_ready_nth [OF assms(1) sid]] by auto
  from stores_end [where ss = ss and sid = sid and m = "RocksTxn_destroy tid", OF assms(1) sid tx s'(1-4)] s'(5) show ?thesis
    by (simp add: rocks_ops_def sid keep_sid)
qed

lemma stores_deleteRange:
  assumes "stores_ready (Suc n) ss" "sid < length ss"
  shows "\<exists>ss'. kv_deleteRange (rocks_ops R) sid b e ss = (ok (), ss') \<and> stores_ready n ss' \<and>
      length ss' = length ss \<and>
      committed dbv ss' = (committed dbv ss)(sid := (\<lambda>k. if in_range b e k then None else committed dbv ss sid k)) \<and>
      later (store_clk ss) (store_clk ss') \<and> store_pv wr ss' = store_pv wr ss \<and> store_fin ss' = store_fin ss"
proof -
  have r: "store_ready (n + 1) (ss ! sid)" using stores_ready_nth [OF assms] by simp
  let ?tid = "ks_nextTxnSeq (ss ! sid)"
  obtain s' where s': "RocksKVStore_deleteRange R b e False False (ss ! sid) = (ok (), s')"
    "sframe 1 ?tid (ss ! sid) s'" "spv wr s' ?tid = None" "\<not> sfin s' ?tid"
    "spv wr (ss ! sid) ?tid = None" "sfin (ss ! sid) ?tid = False"
    "dbv (ks_db s') 0 = (\<lambda>k. if in_range b e k then None else dbv (ks_db (ss ! sid)) 0 k)"
    using deleteRange_total [of n "ss ! sid" b e] r by auto
  have "store_ready n s'" by (rule store_ready_frame [OF r s'(2)]) simp_all
  from on_store_frame [where ss = ss and sid = sid and m = "RocksKVStore_deleteRange R b e False False", OF assms(2) s'(1,2) _ this, of dbv wr] assms(1) s'(3-7) show ?thesis
    unfolding on_sid(3) [OF assms(2)] by (auto simp: rocks_ops_def assms(2) keep_sid)
qed

lemma stores_clock:
  assumes "stores_ready n ss" "sid < length ss"
  shows "\<exists>ss'. clock_ms (rocks_ops R) sid ss = (ok (store_clk ss sid 0), ss') \<and> stores_ready n ss' \<and>
      length ss' = length ss \<and> committed dbv ss' = committed dbv ss \<and> later (store_clk ss) (store_clk ss') \<and>
      store_pv wr ss' = store_pv wr ss \<and> store_fin ss' = store_fin ss"
proof -
  let ?s = "(ss ! sid)\<lparr>ks_clock := (\<lambda>m. ks_clock (ss ! sid) (Suc m))\<rparr>"
  have s: "msSinceEpoch (ss ! sid) = (ok (ks_clock (ss ! sid) 0), ?s)" by (simp add: msSinceEpoch_def)
  have f: "sframe 0 0 (ss ! sid) ?s" by (auto simp: sframe_def intro: exI [of _ 1])
  have "store_ready n ?s" using stores_ready_nth [OF assms] by (simp add: store_ready_def)
  moreover have "spv wr ?s 0 = spv wr (ss ! sid) 0" "sfin ?s 0 = sfin (ss ! sid) 0"
    by (simp_all add: spv_def sfin_def cong: option.case_cong)
  moreover have "(store_pv wr ss)(sid := spv wr (ss ! sid)) = store_pv wr ss"
    "(store_fin ss)(sid := sfin (ss ! sid)) = store_fin ss"
    using assms(2) by (simp_all add: fun_upd_idem_iff)
  ultimately show ?thesis
    using on_store_frame [where ss = ss and sid = sid and m = "msSinceEpoch", OF assms(2) s f, of n dbv wr] assms by (auto simp: rocks_ops_def keep_sid)
qed

end

sublocale reliable_rocksdb \<subseteq> rr: reliable_kv "rocks_ops R" stores_ready length "committed dbv"
  "store_pv wr" store_fin store_clk
proof (unfold_locales, goal_cases)
  case (1 n s)
  then show ?case using stores_ready_mono [of n 1 s] by simp
next
  case (2 n s sid sess)
  then show ?case by (rule stores_create)
next
  case (3 n s sid tid p k kb)
  then show ?case
    using getKV_total [of "s ! sid" tid p k kb]
    by (auto simp: rocks_ops_def store_pv_Some intro!: on_store_read)
next
  case (4 n s sid tid p k kb x b)
  then have p: "spv wr (s ! sid) tid = Some p" by (simp add: store_pv_Some)
  from setKV_total [OF this 4(3,4)] obtain s' where "RocksKVStore_setKV R tid k x (s ! sid) = (ok (), s')"
    "sframe 0 tid (s ! sid) s'" "spv wr s' tid = Some (p(kb \<mapsto> Some b))" "\<not> sfin s' tid" "ks_db s' = ks_db (s ! sid)"
    by blast
  from stores_write [where ss = s and sid = sid and m = "RocksKVStore_setKV R tid k x", OF 4(1,2) this] show ?case by (simp add: rocks_ops_def)
next
  case (5 n s sid tid p k kb)
  then have p: "spv wr (s ! sid) tid = Some p" by (simp add: store_pv_Some)
  from rawdel_total [OF this 5(3,4)] obtain s' where "RocksTxn_delKV R tid kb 0 (s ! sid) = (ok (), s')"
    and s': "sframe 0 tid (s ! sid) s'" "spv wr s' tid = Some (p(kb \<mapsto> None))" "\<not> sfin s' tid" "ks_db s' = ks_db (s ! sid)"
    by blast
  then have "RocksKVStore_delKV R tid k (s ! sid) = (ok (), s')"
    using 5(3) by (simp add: RocksKVStore_delKV_def sbind_def)
  from stores_write [where ss = s and sid = sid and m = "RocksKVStore_delKV R tid k", OF 5(1,2) this s'] show ?case by (simp add: rocks_ops_def)
next
  case (6 n s sid tid p k kb)
  then have p: "spv wr (s ! sid) tid = Some p" by (simp add: store_pv_Some)
  from rawdel_total [OF this 6(3,4)] obtain s' where "RocksTxn_delKV R tid kb 0 (s ! sid) = (ok (), s')"
    "sframe 0 tid (s ! sid) s'" "spv wr s' tid = Some (p(kb \<mapsto> None))" "\<not> sfin s' tid" "ks_db s' = ks_db (s ! sid)"
    by blast
  from stores_write [where ss = s and sid = sid and m = "RocksTxn_delKV R tid kb 0", OF 6(1,2) this] show ?case by (simp add: rocks_ops_def)
next
  case (7 n s sid tid p sess)
  then show ?case by (rule stores_commit)
next
  case (8 n s sid tid p)
  then show ?case by (rule stores_rollback)
next
  case (9 n s sid tid)
  then show ?case by (rule stores_destroy)
next
  case (10 n s sid)
  then show ?case by (rule stores_clock)
next
  case (11 n s sid)
  then show ?case using stores_ready_nth [of n s sid]
    by (auto simp: rocks_ops_def store_ready_def intro!: on_store_read)
next
  case (12 n s sid)
  then show ?case using stores_ready_nth [of n s sid]
    by (auto simp: rocks_ops_def store_ready_def intro!: on_store_read)
next
  case (13 n s sid tid p)
  then show ?case
    by (auto simp: rocks_ops_def store_pv_Some spv_Some with_txn_def intro!: on_store_read)
next
  case (14 n s sid tid p)
  then have sid: "sid < length s" and p: "spv wr (s ! sid) tid = Some p" by (simp_all add: store_pv_Some)
  from cursor_total [OF p] show ?case
    by (auto simp: rocks_ops_def sid intro!: on_store_read)
next
  case (15 n s sid b e)
  then show ?case by (rule stores_deleteRange)
next
  case (16 n s sid tid)
  then show ?case by (simp add: store_pv_def split: if_split_asm)
qed

end
