(* ===== verification/CommandEnv.thy ===== *)
theory CommandEnv
  imports Command ReliableRocks
begin

section \<open>Commands on reliable stores\<close>

text \<open>
  The steps a command is made of, on stores whose calls succeed (\<open>reliable_kv\<close>) and a server without
  cluster and with key locks. Each step is described by what it does to the committed data and to the view
  of the transaction the command works in.
\<close>

subsection \<open>Keys and values as bytes\<close>

definition enc :: "RecordKey \<Rightarrow> bytes" where
  "enc k = (case RecordKey_encode k of Inr b \<Rightarrow> b | Inl _ \<Rightarrow> [])"

definition encv :: "RecordValue \<Rightarrow> bytes" where
  "encv v = (case RecordValue_encode v of Inr b \<Rightarrow> b | Inl _ \<Rightarrow> [])"

lemma enc_ok: "rk_type k \<noteq> RT_INVALID \<Longrightarrow> RecordKey_encode k = ok (enc k)"
  using RecordKey_encode_total [of k] by (auto simp: enc_def)

lemma encv_ok: "rv_type v \<noteq> RT_INVALID \<Longrightarrow> RecordValue_encode v = ok (encv v)"
  using RecordValue_encode_total [of v] by (auto simp: encv_def)

lemma decode_encv: "RecordValue_wf v \<Longrightarrow> RecordValue_decode (encv v) = ok v"
  by (rule RecordValue_decode_encode, assumption, rule encv_ok) (simp add: RecordValue_wf_def)

lemma enc_eq:
  assumes "RecordKey_wf a" "RecordKey_wf b"
  shows "enc a = enc b \<longleftrightarrow> RecordKey_eq a b"
proof
  assume "enc a = enc b"
  with assms have "RecordKey_encode a = RecordKey_encode b"
    using enc_ok [of a] enc_ok [of b] by (auto simp: RecordKey_wf_def)
  then show "RecordKey_eq a b"
    using RecordKey_encode_inj [OF assms] RecordKey_encode_total [of a] assms(1) by (auto simp: RecordKey_wf_def)
next
  assume "RecordKey_eq a b"
  then show "enc a = enc b"
    by (simp add: RecordKey_eq_def enc_def RecordKey_encode_def encodePrefixPk_def)
qed

text \<open>The key of an entry of the TTL index.\<close>

definition ttl_key :: "TTLIndex \<Rightarrow> RecordKey" where
  "ttl_key t = RecordKey_new TTLINDEX_CHUNKID TTLINDEX_DBID RT_TTL_INDEX
     (case ttlIndex t of Inr p \<Rightarrow> p | Inl _ \<Rightarrow> []) [] 0"

lemma ttl_key_type [simp]: "rk_type (ttl_key t) = RT_TTL_INDEX"
  by (simp add: ttl_key_def RecordKey_new_def getRealKeyType_def)

lemma TTLIndex_encode_key:
  assumes "ti_type t \<noteq> RT_INVALID"
  shows "TTLIndex_encode t = ok (enc (ttl_key t))"
proof -
  obtain p where "ttlIndex t = ok p"
    using rt2Char_valid [OF assms] by (auto simp: ttlIndex_def)
  then have "TTLIndex_encode t = RecordKey_encode (ttl_key t)" by (simp add: TTLIndex_encode_def ttl_key_def)
  then show ?thesis using enc_ok [of "ttl_key t"] by simp
qed

subsection \<open>Server and session\<close>

definition store_of :: "'s Server \<Rightarrow> bytes \<Rightarrow> nat" where
  "store_of sv key = unat (keyHashSlot key mod of_nat (sv_kvstoreCount sv))"

definition plain_server :: "'s Server \<Rightarrow> bool" where
  "plain_server sv \<longleftrightarrow> 0 < sv_kvstoreCount sv \<and> sv_kvstoreCount sv < 2 ^ 32 \<and>
     sv_chunkSize sv = CLUSTER_SLOTS \<and> \<not> sv_clusterEnabled sv \<and> \<not> sv_ignoreKeyLock sv"

text \<open>No limit on the memory of a command; equal but for the memory used so far.\<close>

definition unlimited :: "MemLimit \<Rightarrow> bool" where
  "unlimited m \<longleftrightarrow> \<not> ml_net m \<or> ml_hardMemoryLimit m = 0 \<and> ml_softMemoryLimit m = 0"

definition same_mem :: "MemLimit \<Rightarrow> MemLimit \<Rightarrow> bool" where
  "same_mem m m' \<longleftrightarrow> m'\<lparr>ml_commandUsedMemory := ml_commandUsedMemory m\<rparr> = m"

lemma same_mem_refl [simp]: "same_mem m m"
  by (simp add: same_mem_def)

lemma same_mem_trans: "same_mem a b \<Longrightarrow> same_mem b c \<Longrightarrow> same_mem a c"
  by (cases a, cases b, cases c) (auto simp: same_mem_def)

lemma same_mem_unlimited: "same_mem a b \<Longrightarrow> unlimited b = unlimited a"
  by (cases a, cases b) (auto simp: same_mem_def unlimited_def)

definition plain_session :: "'s Session \<Rightarrow> bool" where
  "plain_session \<sigma> \<longleftrightarrow> se_lockRes \<sigma> = (\<lambda>_. LOCKRES_OK) \<and> \<not> se_replOnly \<sigma> \<and> \<not> se_multi \<sigma> \<and> se_version \<sigma> = -1 \<and>
     unlimited (se_mem \<sigma>) \<and> \<not> se_extendProtocol \<sigma> \<and> se_timestamp \<sigma> = -1"

lemma plain_session_upd [simp]:
  "plain_session (\<sigma>\<lparr>se_stores := s\<rparr>) = plain_session \<sigma>"
  "plain_session (\<sigma>\<lparr>se_lockTrace := tr\<rparr>) = plain_session \<sigma>"
  "plain_session (\<sigma>\<lparr>se_txnMap := m\<rparr>) = plain_session \<sigma>"
  "plain_session (\<sigma>\<lparr>se_keylockmap := l\<rparr>) = plain_session \<sigma>"
  by (simp_all add: plain_session_def)

lemma store_of_less: "plain_server sv \<Longrightarrow> store_of sv key < sv_kvstoreCount sv"
proof -
  assume "plain_server sv"
  then have c: "unat (of_nat (sv_kvstoreCount sv) :: u32) = sv_kvstoreCount sv" "0 < sv_kvstoreCount sv"
    by (simp_all add: plain_server_def unat_of_nat take_bit_eq_mod)
  then show ?thesis
    by (simp add: store_of_def unat_mod_distrib)
qed

lemma locate_plain:
  assumes "plain_server sv"
  shows "locate sv key = ok (keyHashSlot key, keyHashSlot key mod of_nat (sv_kvstoreCount sv))"
proof -
  have "unat (keyHashSlot key) < 2 ^ 14" using keyHashSlot_less [of key] by (simp add: word_less_nat_alt)
  then have "keyHashSlot key mod CLUSTER_SLOTS = keyHashSlot key"
    by (simp add: word_arith_nat_mod CLUSTER_SLOTS_def)
  moreover have "(of_nat (sv_kvstoreCount sv) :: u32) \<noteq> 0"
    using assms by (auto simp: plain_server_def word_of_nat_eq_0_iff dest: dvd_imp_le)
  ultimately show ?thesis
    using assms by (simp add: locate_def plain_server_def getStoreid_def getKvStoreID_def Let_def)
qed

text \<open>Equal but for the stores, the trace of locks and the memory used so far.\<close>

definition same_sess :: "'s Session \<Rightarrow> 's Session \<Rightarrow> bool" where
  "same_sess \<sigma> \<sigma>' \<longleftrightarrow> same_mem (se_mem \<sigma>) (se_mem \<sigma>') \<and>
     \<sigma>'\<lparr>se_stores := se_stores \<sigma>, se_lockTrace := se_lockTrace \<sigma>, se_mem := se_mem \<sigma>\<rparr> = \<sigma>"

lemma same_sess_refl [simp]: "same_sess \<sigma> \<sigma>"
  by (simp add: same_sess_def)

lemma same_sess_upd [simp]:
  "same_sess \<sigma> (\<sigma>'\<lparr>se_stores := s\<rparr>) = same_sess \<sigma> \<sigma>'"
  "same_sess \<sigma> (\<sigma>'\<lparr>se_lockTrace := tr\<rparr>) = same_sess \<sigma> \<sigma>'"
  by (simp_all add: same_sess_def)

lemma same_sess_iff:
  "same_sess \<sigma> \<sigma>' \<longleftrightarrow> same_mem (se_mem \<sigma>) (se_mem \<sigma>') \<and>
     \<sigma>' = \<sigma>\<lparr>se_stores := se_stores \<sigma>', se_lockTrace := se_lockTrace \<sigma>', se_mem := se_mem \<sigma>'\<rparr>"
  by (cases \<sigma>, cases \<sigma>') (auto simp: same_sess_def)

lemma same_sess_fields:
  assumes "same_sess \<sigma> \<sigma>'"
  shows "se_args \<sigma>' = se_args \<sigma>" "se_dbId \<sigma>' = se_dbId \<sigma>" "se_txnMap \<sigma>' = se_txnMap \<sigma>"
    "se_keylockmap \<sigma>' = se_keylockmap \<sigma>" "se_version \<sigma>' = se_version \<sigma>" "same_mem (se_mem \<sigma>) (se_mem \<sigma>')"
    "se_replOnly \<sigma>' = se_replOnly \<sigma>" "se_multi \<sigma>' = se_multi \<sigma>" "se_lockRes \<sigma>' = se_lockRes \<sigma>"
    "plain_session \<sigma>' = plain_session \<sigma>" "se_authed \<sigma>' = se_authed \<sigma>"
proof -
  obtain s tr m where m: "same_mem (se_mem \<sigma>) m" "\<sigma>' = \<sigma>\<lparr>se_stores := s, se_lockTrace := tr, se_mem := m\<rparr>"
    using assms unfolding same_sess_iff by blast
  then show "se_args \<sigma>' = se_args \<sigma>" "se_dbId \<sigma>' = se_dbId \<sigma>" "se_txnMap \<sigma>' = se_txnMap \<sigma>"
    "se_keylockmap \<sigma>' = se_keylockmap \<sigma>" "se_version \<sigma>' = se_version \<sigma>" "same_mem (se_mem \<sigma>) (se_mem \<sigma>')"
    "se_replOnly \<sigma>' = se_replOnly \<sigma>" "se_multi \<sigma>' = se_multi \<sigma>" "se_lockRes \<sigma>' = se_lockRes \<sigma>"
    "se_authed \<sigma>' = se_authed \<sigma>"
    by simp_all
  show "plain_session \<sigma>' = plain_session \<sigma>"
    using m same_mem_unlimited [OF m(1)] by (simp add: plain_session_def)
qed

lemma same_sess_trans: "same_sess a b \<Longrightarrow> same_sess b c \<Longrightarrow> same_sess a c"
  by (cases a, cases b, cases c) (auto simp: same_sess_def intro: same_mem_trans)

locale cmd_env = reliable_kv ops inv ns cv pv fin clk
  for ops :: "'s kvops" and inv :: "nat \<Rightarrow> 's \<Rightarrow> bool" and ns :: "'s \<Rightarrow> nat"
    and cv :: "'s \<Rightarrow> nat \<Rightarrow> bytes \<rightharpoonup> bytes"
    and pv :: "'s \<Rightarrow> nat \<Rightarrow> u64 \<Rightarrow> (bytes \<rightharpoonup> bytes option) option"
    and fin :: "'s \<Rightarrow> nat \<Rightarrow> u64 \<Rightarrow> bool"
    and clk :: "'s \<Rightarrow> nat \<Rightarrow> nat \<Rightarrow> u64" +
  fixes sv :: "'s Server"
  assumes sv_ops [simp]: "sv_ops sv = ops"
    and plain: "plain_server sv"
begin

definition live :: "nat \<Rightarrow> 's Session \<Rightarrow> bool" where
  "live n \<sigma> \<longleftrightarrow> inv n (se_stores \<sigma>) \<and> ns (se_stores \<sigma>) = sv_kvstoreCount sv \<and> plain_session \<sigma>"

text \<open>A step that leaves only the committed data \<open>C\<close>, the clock and the trace of locks changed.\<close>

definition quiet ::
  "nat \<Rightarrow> (nat \<Rightarrow> bytes \<rightharpoonup> bytes) \<Rightarrow> 's Session \<Rightarrow> 's Session \<Rightarrow> bool" where
  "quiet n C \<sigma> \<sigma>' \<longleftrightarrow> same_sess \<sigma> \<sigma>' \<and> inv n (se_stores \<sigma>') \<and> ns (se_stores \<sigma>') = ns (se_stores \<sigma>) \<and>
     cv (se_stores \<sigma>') = C \<and> pv (se_stores \<sigma>') = pv (se_stores \<sigma>) \<and> fin (se_stores \<sigma>') = fin (se_stores \<sigma>) \<and>
     later (clk (se_stores \<sigma>)) (clk (se_stores \<sigma>'))"

text \<open>Inside a transaction that was created in \<open>\<sigma>\<close> and reads \<open>v\<close>; after its commit.\<close>

definition in_txn ::
  "nat \<Rightarrow> (nat \<Rightarrow> bytes \<rightharpoonup> bytes) \<Rightarrow> (bytes \<rightharpoonup> bytes) \<Rightarrow> nat \<Rightarrow> u64 \<Rightarrow> 's Session \<Rightarrow> 's Session \<Rightarrow> bool" where
  "in_txn n C v sid tid \<sigma> \<sigma>' \<longleftrightarrow> same_sess \<sigma> \<sigma>' \<and> inv n (se_stores \<sigma>') \<and>
     ns (se_stores \<sigma>') = ns (se_stores \<sigma>) \<and> cv (se_stores \<sigma>') = C \<and>
     (\<exists>p. pv (se_stores \<sigma>') = (pv (se_stores \<sigma>))(sid := (pv (se_stores \<sigma>) sid)(tid \<mapsto> p)) \<and> v = view (C sid) p) \<and>
     fin (se_stores \<sigma>') = fin (se_stores \<sigma>) \<and> later (clk (se_stores \<sigma>)) (clk (se_stores \<sigma>')) \<and>
     pv (se_stores \<sigma>) sid tid = None \<and> \<not> fin (se_stores \<sigma>) sid tid"

definition after_txn ::
  "nat \<Rightarrow> (nat \<Rightarrow> bytes \<rightharpoonup> bytes) \<Rightarrow> nat \<Rightarrow> u64 \<Rightarrow> 's Session \<Rightarrow> 's Session \<Rightarrow> bool" where
  "after_txn n C sid tid \<sigma> \<sigma>' \<longleftrightarrow> same_sess \<sigma> \<sigma>' \<and> inv n (se_stores \<sigma>') \<and>
     ns (se_stores \<sigma>') = ns (se_stores \<sigma>) \<and> cv (se_stores \<sigma>') = C \<and> pv (se_stores \<sigma>') = pv (se_stores \<sigma>) \<and>
     fin (se_stores \<sigma>') = (fin (se_stores \<sigma>))(sid := (fin (se_stores \<sigma>) sid)(tid := True)) \<and>
     later (clk (se_stores \<sigma>)) (clk (se_stores \<sigma>')) \<and>
     pv (se_stores \<sigma>) sid tid = None \<and> \<not> fin (se_stores \<sigma>) sid tid"

lemma inv_le: "inv (n + k) s \<Longrightarrow> inv n s"
  by (induction k) (auto intro: inv_mono)

lemma quiet_refl: "inv n (se_stores \<sigma>) \<Longrightarrow> quiet n (cv (se_stores \<sigma>)) \<sigma> \<sigma>"
  by (simp add: quiet_def)

lemma quiet_trans: "quiet n C a b \<Longrightarrow> quiet m D b c \<Longrightarrow> quiet m D a c"
  unfolding quiet_def by (auto intro: later_trans same_sess_trans)

lemma quiet_in_txn: "quiet n C a b \<Longrightarrow> in_txn m D v sid tid b c \<Longrightarrow> in_txn m D v sid tid a c"
  unfolding quiet_def in_txn_def by (auto intro: later_trans same_sess_trans)

lemma quiet_live: "quiet n C \<sigma> \<sigma>' \<Longrightarrow> live m \<sigma> \<Longrightarrow> live n \<sigma>'"
  by (auto simp: quiet_def live_def same_sess_fields)

lemma in_txn_live: "in_txn n C v sid tid \<sigma> \<sigma>' \<Longrightarrow> live m \<sigma> \<Longrightarrow> live n \<sigma>'"
  by (auto simp: in_txn_def live_def same_sess_fields)

lemma quiet_same: "quiet n C \<sigma> \<sigma>' \<Longrightarrow> same_sess \<sigma> \<sigma>'"
  and in_txn_same: "in_txn n C v sid tid \<sigma> \<sigma>' \<Longrightarrow> same_sess \<sigma> \<sigma>'"
  and after_txn_same: "after_txn n C sid tid \<sigma> \<sigma>' \<Longrightarrow> same_sess \<sigma> \<sigma>'"
  by (simp_all add: quiet_def in_txn_def after_txn_def)

lemmas quiet_fields = same_sess_fields [OF quiet_same]
lemmas in_txn_fields = same_sess_fields [OF in_txn_same]
lemmas after_txn_fields = same_sess_fields [OF after_txn_same]

subsubsection \<open>Transactions\<close>

lemma in_stores_apply: "m (se_stores \<sigma>) = (r, s) \<Longrightarrow> in_stores m \<sigma> = (r, \<sigma>\<lparr>se_stores := s\<rparr>)"
  by (simp add: in_stores_def)

lemma in_stores_read: "m (se_stores \<sigma>) = (r, se_stores \<sigma>) \<Longrightarrow> in_stores m \<sigma> = (r, \<sigma>)"
  by (simp add: in_stores_def)

lemma env_create:
  assumes "live (Suc n) \<sigma>" "sid < sv_kvstoreCount sv"
  shows "\<exists>tid \<sigma>'. in_stores (kv_createTransaction ops (Some (txn_session sv \<sigma>)) sid) \<sigma> = (ok tid, \<sigma>') \<and>
    in_txn n (cv (se_stores \<sigma>)) (cv (se_stores \<sigma>) sid) sid tid \<sigma> \<sigma>'"
proof -
  have "\<not> ts_replOnly c" if "Some (txn_session sv \<sigma>) = Some c" for c
    using that assms(1) by (auto simp: txn_session_def live_def plain_session_def)
  from create_ok [of n "se_stores \<sigma>" sid "Some (txn_session sv \<sigma>)", OF _ _ this] assms
  obtain tid s' where s': "kv_createTransaction ops (Some (txn_session sv \<sigma>)) sid (se_stores \<sigma>) = (ok tid, s')"
    "inv n s'" "ns s' = ns (se_stores \<sigma>)" "cv s' = cv (se_stores \<sigma>)" "later (clk (se_stores \<sigma>)) (clk s')"
    "pv (se_stores \<sigma>) sid tid = None" "\<not> fin (se_stores \<sigma>) sid tid"
    "pv s' = (pv (se_stores \<sigma>))(sid := (pv (se_stores \<sigma>) sid)(tid \<mapsto> Map.empty))" "fin s' = fin (se_stores \<sigma>)"
    by (auto simp: live_def)
  then have "in_txn n (cv (se_stores \<sigma>)) (cv (se_stores \<sigma>) sid) sid tid \<sigma> (\<sigma>\<lparr>se_stores := s'\<rparr>)"
    unfolding in_txn_def by (simp add: exI [of _ Map.empty])
  with s'(1) show ?thesis by (auto simp: in_stores_apply)
qed

lemma in_txnD:
  assumes "in_txn n C v sid tid \<sigma> \<sigma>'"
  obtains p where "inv n (se_stores \<sigma>')" "pv (se_stores \<sigma>') sid tid = Some p" "v = view (C sid) p"
    "cv (se_stores \<sigma>') = C"
  using assms by (auto simp: in_txn_def)

lemma in_txn_step:
  assumes "in_txn n C v sid tid \<sigma> \<sigma>'" "inv m s'" "ns s' = ns (se_stores \<sigma>')" "cv s' = cv (se_stores \<sigma>')"
    and "later (clk (se_stores \<sigma>')) (clk s')"
    and "pv s' = (pv (se_stores \<sigma>'))(sid := (pv (se_stores \<sigma>') sid)(tid \<mapsto> q))" "fin s' = fin (se_stores \<sigma>')"
  shows "in_txn m C (view (C sid) q) sid tid \<sigma> (\<sigma>'\<lparr>se_stores := s'\<rparr>)"
  using assms unfolding in_txn_def by (auto intro: later_trans)

lemma env_get:
  assumes "in_txn n C v sid tid \<sigma> \<sigma>'" "rk_type k \<noteq> RT_INVALID" "rk_type k \<noteq> RT_BINLOG"
  shows "getKV sv sid tid k \<sigma>' =
    (case v (enc k) of None \<Rightarrow> err ERR_NOTFOUND ''NotFound: '' | Some b \<Rightarrow> RecordValue_decode b, \<sigma>')"
proof -
  obtain p where p: "inv n (se_stores \<sigma>')" "pv (se_stores \<sigma>') sid tid = Some p" "v = view (C sid) p"
    "cv (se_stores \<sigma>') = C" using assms(1) by (rule in_txnD)
  with get_ok [OF this(1,2) enc_ok [OF assms(2)] assms(3)] show ?thesis
    by (simp add: getKV_def in_stores_read)
qed

lemma env_set:
  assumes "in_txn n C v sid tid \<sigma> \<sigma>'" "rk_type k \<noteq> RT_INVALID" "rv_type x \<noteq> RT_INVALID"
  shows "\<exists>\<sigma>''. setKV sv sid tid k x \<sigma>' = (ok (), \<sigma>'') \<and> in_txn n C (v(enc k \<mapsto> encv x)) sid tid \<sigma> \<sigma>''"
proof -
  obtain p where p: "inv n (se_stores \<sigma>')" "pv (se_stores \<sigma>') sid tid = Some p" "v = view (C sid) p"
    "cv (se_stores \<sigma>') = C" using assms(1) by (rule in_txnD)
  from set_ok [OF p(1,2) enc_ok [OF assms(2)] encv_ok [OF assms(3)]] obtain s' where s':
    "kv_setKV ops sid tid k x (se_stores \<sigma>') = (ok (), s')" "inv n s'" "ns s' = ns (se_stores \<sigma>')"
    "cv s' = cv (se_stores \<sigma>')" "later (clk (se_stores \<sigma>')) (clk s')"
    "pv s' = (pv (se_stores \<sigma>'))(sid := (pv (se_stores \<sigma>') sid)(tid \<mapsto> p(enc k \<mapsto> Some (encv x))))"
    "fin s' = fin (se_stores \<sigma>')"
    by auto
  from in_txn_step [OF assms(1) s'(2-7)] s'(1) p(3) show ?thesis by (simp add: setKV_def in_stores_apply)
qed

lemma env_rawdel:
  assumes "in_txn n C v sid tid \<sigma> \<sigma>'" "rk_type k \<noteq> RT_INVALID" "rk_type k \<noteq> RT_BINLOG"
  shows "\<exists>\<sigma>''. in_stores (txn_delKV ops sid tid (enc k)) \<sigma>' = (ok (), \<sigma>'') \<and>
    in_txn n C (v(enc k := None)) sid tid \<sigma> \<sigma>''"
proof -
  obtain p where p: "inv n (se_stores \<sigma>')" "pv (se_stores \<sigma>') sid tid = Some p" "v = view (C sid) p"
    "cv (se_stores \<sigma>') = C" using assms(1) by (rule in_txnD)
  from rawdel_ok [OF p(1,2) enc_ok [OF assms(2)] assms(3)] obtain s' where s':
    "txn_delKV ops sid tid (enc k) (se_stores \<sigma>') = (ok (), s')" "inv n s'" "ns s' = ns (se_stores \<sigma>')"
    "cv s' = cv (se_stores \<sigma>')" "later (clk (se_stores \<sigma>')) (clk s')"
    "pv s' = (pv (se_stores \<sigma>'))(sid := (pv (se_stores \<sigma>') sid)(tid \<mapsto> p(enc k \<mapsto> None)))"
    "fin s' = fin (se_stores \<sigma>')"
    by auto
  from in_txn_step [OF assms(1) s'(2-7)] s'(1) p(3) show ?thesis by (simp add: in_stores_apply)
qed

lemma env_del:
  assumes "in_txn n C v sid tid \<sigma> \<sigma>'" "rk_type k \<noteq> RT_INVALID" "rk_type k \<noteq> RT_BINLOG"
  shows "\<exists>\<sigma>''. delKV sv sid tid k \<sigma>' = (ok (), \<sigma>'') \<and> in_txn n C (v(enc k := None)) sid tid \<sigma> \<sigma>''"
proof -
  obtain p where p: "inv n (se_stores \<sigma>')" "pv (se_stores \<sigma>') sid tid = Some p" "v = view (C sid) p"
    "cv (se_stores \<sigma>') = C" using assms(1) by (rule in_txnD)
  from del_ok [OF p(1,2) enc_ok [OF assms(2)] assms(3)] obtain s' where s':
    "kv_delKV ops sid tid k (se_stores \<sigma>') = (ok (), s')" "inv n s'" "ns s' = ns (se_stores \<sigma>')"
    "cv s' = cv (se_stores \<sigma>')" "later (clk (se_stores \<sigma>')) (clk s')"
    "pv s' = (pv (se_stores \<sigma>'))(sid := (pv (se_stores \<sigma>') sid)(tid \<mapsto> p(enc k \<mapsto> None)))"
    "fin s' = fin (se_stores \<sigma>')"
    by auto
  from in_txn_step [OF assms(1) s'(2-7)] s'(1) p(3) show ?thesis by (simp add: delKV_def in_stores_apply)
qed

lemma env_delTTLIndex:
  assumes "in_txn n C v sid tid \<sigma> \<sigma>'" "ti_type t \<noteq> RT_INVALID"
  shows "\<exists>\<sigma>''. delTTLIndex sv sid tid t \<sigma>' = (ok (), \<sigma>'') \<and> in_txn n C (v(enc (ttl_key t) := None)) sid tid \<sigma> \<sigma>''"
  using env_rawdel [OF assms(1), of "ttl_key t"] TTLIndex_encode_key [OF assms(2)]
  by (auto simp: delTTLIndex_def sbind_def)

lemma env_delKeyAndTTL:
  assumes "in_txn n C v sid tid \<sigma> \<sigma>'" "rk_type mk \<noteq> RT_INVALID" "rk_type mk \<noteq> RT_BINLOG"
    and "rv_type val \<noteq> RT_INVALID" "rv_type val \<noteq> RT_KV"
  shows "\<exists>\<sigma>''. delKeyAndTTL sv mk val sid tid \<sigma>' = (ok (), \<sigma>'') \<and>
    in_txn n C (let w = v(enc mk := None) in if rv_ttl val = 0 then w else
      w(enc (ttl_key \<lparr>ti_priKey = rk_pk mk, ti_type = rv_type val, ti_dbId = se_dbId \<sigma>, ti_ttl = rv_ttl val\<rparr>) := None))
      sid tid \<sigma> \<sigma>''"
proof -
  obtain \<sigma>1 where 1: "delKV sv sid tid mk \<sigma>' = (ok (), \<sigma>1)" "in_txn n C (v(enc mk := None)) sid tid \<sigma> \<sigma>1"
    using env_del [OF assms(1-3)] by blast
  note f = in_txn_fields(2) [OF 1(2)]
  show ?thesis
  proof (cases "rv_ttl val = 0")
    case True
    then show ?thesis using 1 by (auto simp: delKeyAndTTL_def sbind_def)
  next
    case False
    then show ?thesis
      using env_delTTLIndex [OF 1(2), of "\<lparr>ti_priKey = rk_pk mk, ti_type = rv_type val, ti_dbId = se_dbId \<sigma>, ti_ttl = rv_ttl val\<rparr>"]
        1(1) assms(4,5) f by (auto simp: delKeyAndTTL_def sbind_def word_neq_0_conv [symmetric])
  qed
qed

lemma env_clock:
  assumes "in_txn n C v sid tid \<sigma> \<sigma>'"
  shows "\<exists>\<sigma>''. in_stores (clock_ms ops sid) \<sigma>' = (ok (clk (se_stores \<sigma>') sid 0), \<sigma>'') \<and>
    in_txn n C v sid tid \<sigma> \<sigma>''"
proof -
  obtain p where p: "inv n (se_stores \<sigma>')" "pv (se_stores \<sigma>') sid tid = Some p" "v = view (C sid) p"
    "cv (se_stores \<sigma>') = C" using assms(1) by (rule in_txnD)
  from clock_ok [OF p(1) pv_valid [OF p(1), of sid tid]] p(2) obtain s' where s':
    "clock_ms ops sid (se_stores \<sigma>') = (ok (clk (se_stores \<sigma>') sid 0), s')" "inv n s'" "ns s' = ns (se_stores \<sigma>')"
    "cv s' = cv (se_stores \<sigma>')" "later (clk (se_stores \<sigma>')) (clk s')" "pv s' = pv (se_stores \<sigma>')"
    "fin s' = fin (se_stores \<sigma>')"
    by auto
  have "in_txn n C v sid tid \<sigma> (\<sigma>'\<lparr>se_stores := s'\<rparr>)"
    using assms s' unfolding in_txn_def by (auto intro: later_trans)
  with s'(1) show ?thesis by (auto simp: in_stores_apply)
qed

lemma env_commit:
  assumes "in_txn n C v sid tid \<sigma> \<sigma>'"
  shows "\<exists>m \<sigma>''. in_stores (txn_commit ops sess sid tid) \<sigma>' = (ok m, \<sigma>'') \<and>
    after_txn n (C(sid := v)) sid tid \<sigma> \<sigma>''"
proof -
  obtain p where p: "inv n (se_stores \<sigma>')" "pv (se_stores \<sigma>') sid tid = Some p" "v = view (C sid) p"
    "cv (se_stores \<sigma>') = C" using assms(1) by (rule in_txnD)
  from commit_ok [OF p(1,2), of sess] obtain m s' where s':
    "txn_commit ops sess sid tid (se_stores \<sigma>') = (ok m, s')" "inv n s'" "ns s' = ns (se_stores \<sigma>')"
    "cv s' = C(sid := v)" "later (clk (se_stores \<sigma>')) (clk s')"
    "pv s' = (pv (se_stores \<sigma>'))(sid := (pv (se_stores \<sigma>') sid)(tid := None))"
    "fin s' = (fin (se_stores \<sigma>'))(sid := (fin (se_stores \<sigma>') sid)(tid := True))"
    using p(3,4) by auto
  have "after_txn n (C(sid := v)) sid tid \<sigma> (\<sigma>'\<lparr>se_stores := s'\<rparr>)"
    using assms s' unfolding in_txn_def after_txn_def by (auto simp: fun_upd_idem_iff intro: later_trans)
  with s'(1) show ?thesis by (auto simp: in_stores_apply)
qed

lemma env_destroy:
  assumes "in_txn n C v sid tid \<sigma> \<sigma>' \<or> after_txn n C sid tid \<sigma> \<sigma>'"
  shows "\<exists>\<sigma>''. in_stores (txn_destroy ops sid tid) \<sigma>' = (ok (), \<sigma>'') \<and> quiet n C \<sigma> \<sigma>''"
proof -
  have "inv n (se_stores \<sigma>')" "fin (se_stores \<sigma>') sid tid \<or> pv (se_stores \<sigma>') sid tid \<noteq> None"
    using assms by (auto simp: in_txn_def after_txn_def)
  from destroy_ok [OF this] obtain s' where s':
    "txn_destroy ops sid tid (se_stores \<sigma>') = (ok (), s')" "inv n s'" "ns s' = ns (se_stores \<sigma>')"
    "cv s' = cv (se_stores \<sigma>')" "later (clk (se_stores \<sigma>')) (clk s')"
    "pv s' = (pv (se_stores \<sigma>'))(sid := (pv (se_stores \<sigma>') sid)(tid := None))"
    "fin s' = (fin (se_stores \<sigma>'))(sid := (fin (se_stores \<sigma>') sid)(tid := False))"
    by auto
  have "quiet n C \<sigma> (\<sigma>'\<lparr>se_stores := s'\<rparr>)"
    using assms s' unfolding in_txn_def after_txn_def quiet_def
    by (auto simp: fun_upd_idem_iff intro: later_trans)
  with s'(1) show ?thesis by (auto simp: in_stores_apply)
qed

subsubsection \<open>Key locks\<close>

abbreviation db_of :: "bytes \<Rightarrow> bytes option \<Rightarrow> DbWithLock" where
  "db_of key lk \<equiv> \<lparr>dw_dbId = store_of sv key, dw_chunkId = keyHashSlot key, dw_keyLock = lk\<rparr>"

lemma check_store_ok: "live n \<sigma> \<Longrightarrow> check_store sv (store_of sv key) \<sigma> = (ok (), \<sigma>)"
  using mode_ok [of n "se_stores \<sigma>"] paused_ok [of n "se_stores \<sigma>"] store_of_less [OF plain, of key]
  by (simp add: check_store_def live_def sbind_def in_stores_read)

lemma set_replOnly_ok: "live n \<sigma> \<Longrightarrow> sid < sv_kvstoreCount sv \<Longrightarrow> set_replOnly_of sv sid b \<sigma> = (ok (), \<sigma>)"
  using mode_ok [of n "se_stores \<sigma>" sid] by (simp add: set_replOnly_of_def live_def sbind_def in_stores_read)

lemma key_lock:
  assumes "live n \<sigma>" "mode \<noteq> LOCK_NONE"
  obtains lk \<sigma>1 where "getDbWithKeyLock sv key mode \<sigma> = (ok (db_of key lk), \<sigma>1)"
    "same_sess \<sigma> (\<sigma>1\<lparr>se_keylockmap := se_keylockmap \<sigma>\<rparr>)" "se_stores \<sigma>1 = se_stores \<sigma>"
    "se_keylockmap \<sigma>1 key \<noteq> None"
    "\<And>\<sigma>2 :: 's Session. se_keylockmap \<sigma>2 = se_keylockmap \<sigma>1 \<Longrightarrow>
       KeyLock_destroy lk \<sigma>2 = (ok (), \<sigma>2\<lparr>se_keylockmap := se_keylockmap \<sigma>\<rparr>)"
proof -
  let ?seg = "keyHashSlot key mod of_nat (sv_kvstoreCount sv)"
  have store: "unat ?seg = store_of sv key" by (simp add: store_of_def)
  have cs: "check_store sv (store_of sv key) \<sigma> = (ok (), \<sigma>)" by (rule check_store_ok [OF assms(1)])
  have ro: "set_replOnly_of sv (store_of sv key) b \<sigma> = (ok (), \<sigma>)" for b
    by (rule set_replOnly_ok [OF assms(1) store_of_less [OF plain]])
  have pl: "\<not> sv_ignoreKeyLock sv" "\<not> sv_clusterEnabled sv" using plain by (simp_all add: plain_server_def)
  have res: "se_lockRes \<sigma> = (\<lambda>_. LOCKRES_OK)" using assms(1) by (simp add: live_def plain_session_def)
  show thesis
  proof (cases "se_keylockmap \<sigma> key")
    case None
    let ?\<sigma> = "\<sigma>\<lparr>se_lockTrace := se_lockTrace \<sigma> @
        [(str ''store_'' @ uitos ?seg, getParentMode (getParentMode mode)),
         (str ''chunk_'' @ uitos (keyHashSlot key), getParentMode mode), (str ''key_'' @ key, mode)],
      se_keylockmap := (se_keylockmap \<sigma>)(key \<mapsto> mode)\<rparr>"
    have "\<sigma>\<lparr>se_lockRes := \<lambda>_. LOCKRES_OK\<rparr> = \<sigma>" using res by (cases \<sigma>) simp
    then have "\<sigma>\<lparr>se_lockRes := \<lambda>_. LOCKRES_OK, se_lockTrace := tr\<rparr> = \<sigma>\<lparr>se_lockTrace := tr\<rparr>" for tr
      by (metis Session.update_convs(13,14) Session.surjective)
    then have "getDbWithKeyLock sv key mode \<sigma> = (ok (db_of key (Some key)), ?\<sigma>)"
      using pl None res assms(2)
      by (simp add: getDbWithKeyLock_def locate_plain [OF plain] sbind_def cs ro store AquireKeyLock_def
          KeyLock_new_def ChunkLock_new_def StoreLock_new_def mgl_lock_def smod_def lock_unless_ok_def
          stry_def redirect_check_def)
    then show ?thesis
      by (rule that) (use None in \<open>auto simp: KeyLock_destroy_def smod_def fun_upd_idem\<close>)
  next
    case (Some m)
    then have "getDbWithKeyLock sv key mode \<sigma> = (ok (db_of key None), \<sigma>)"
      using pl assms(2)
      by (simp add: getDbWithKeyLock_def locate_plain [OF plain] sbind_def cs ro store AquireKeyLock_def
          lock_unless_ok_def stry_def redirect_check_def)
    then show ?thesis
      by (rule that) (use Some in \<open>auto simp: KeyLock_destroy_def\<close>)
  qed
qed

subsubsection \<open>Scopes\<close>

definition no_crash :: "'a expected \<Rightarrow> bool" where
  "no_crash r \<longleftrightarrow> (\<forall>e. r = Inl e \<longrightarrow> (\<exists>c m. e = Status c m))"

lemma no_crash_simps [simp]: "no_crash (Inr x)" "no_crash (err c m)"
  by (simp_all add: no_crash_def)

lemma stry_no_crash: "m s = (r, s') \<Longrightarrow> no_crash r \<Longrightarrow> stry m f s = f r s'"
  by (auto simp: stry_def no_crash_def split: sum.split fault.split)

lemma env_own:
  assumes "m \<sigma>1 = (r, \<sigma>2)" "no_crash r" "in_txn n C v sid tid \<sigma> \<sigma>2 \<or> after_txn n C sid tid \<sigma> \<sigma>2"
  shows "\<exists>\<sigma>3. own_txn sv sid tid m \<sigma>1 = (r, \<sigma>3) \<and> quiet n C \<sigma> \<sigma>3"
proof -
  obtain \<sigma>3 where "in_stores (txn_destroy ops sid tid) \<sigma>2 = (ok (), \<sigma>3)" "quiet n C \<sigma> \<sigma>3"
    using env_destroy [OF assms(3)] by blast
  then show ?thesis using assms(1,2)
    by (auto simp: own_txn_def sbind_def stry_def no_crash_def split: sum.split)
qed

lemma env_with_db:
  assumes "m \<sigma>1 = (r, \<sigma>2)" "no_crash r" "KeyLock_destroy lk \<sigma>2 = (ok (), \<sigma>3)"
  shows "with_db (db_of key lk) m \<sigma>1 = (r, \<sigma>3)"
  using assms by (auto simp: with_db_def sbind_def stry_def no_crash_def split: sum.split)

lemma quiet_unlock:
  assumes "quiet n C \<sigma>1 \<sigma>2" "same_sess \<sigma> (\<sigma>1\<lparr>se_keylockmap := l\<rparr>)" "se_stores \<sigma>1 = se_stores \<sigma>"
  shows "quiet n C \<sigma> (\<sigma>2\<lparr>se_keylockmap := l\<rparr>)"
proof -
  have "same_sess \<sigma> (\<sigma>2\<lparr>se_keylockmap := l\<rparr>)"
    using assms(1,2) by (cases \<sigma>, cases \<sigma>1, cases \<sigma>2) (auto simp: quiet_def same_sess_def intro: same_mem_trans)
  then show ?thesis using assms(1,3) by (auto simp: quiet_def)
qed

lemma live_lock:
  assumes "live n \<sigma>" "same_sess \<sigma> (\<sigma>1\<lparr>se_keylockmap := se_keylockmap \<sigma>\<rparr>)" "se_stores \<sigma>1 = se_stores \<sigma>"
  shows "live n \<sigma>1" "se_args \<sigma>1 = se_args \<sigma>" "se_dbId \<sigma>1 = se_dbId \<sigma>" "se_txnMap \<sigma>1 = se_txnMap \<sigma>"
    "se_version \<sigma>1 = se_version \<sigma>" "se_multi \<sigma>1 = se_multi \<sigma>"
  using assms(1,3) same_sess_fields [OF assms(2)] by (simp_all add: live_def)

subsubsection \<open>Expiry of a key\<close>

definition fresh :: "'s Session \<Rightarrow> nat \<Rightarrow> u64 \<Rightarrow> bool" where
  "fresh \<sigma> sid ttl \<longleftrightarrow> sv_noexpire sv \<or> ttl = 0 \<or> (\<forall>m. clk (se_stores \<sigma>) sid m < ttl)"

lemma fresh_later: "fresh \<sigma> sid ttl \<Longrightarrow> later (clk (se_stores \<sigma>)) (clk (se_stores \<sigma>')) \<Longrightarrow> fresh \<sigma>' sid ttl"
  unfolding fresh_def later_def by metis

text \<open>What \<open>expire_body\<close> does when the key is missing, or there and not expired.\<close>

lemma expire_body_any:
  assumes "live (Suc n) \<tau>" "sid < sv_kvstoreCount sv"
    and run: "\<And>tid \<tau>1. in_txn n (cv (se_stores \<tau>)) (cv (se_stores \<tau>) sid) sid tid \<tau> \<tau>1 \<Longrightarrow>
      \<exists>\<tau>2 v. expire_in_txn sv \<sigma>0 sid mk key tp hv tid \<tau>1 = (r, \<tau>2) \<and>
        (in_txn m C v sid tid \<tau> \<tau>2 \<or> after_txn m C sid tid \<tau> \<tau>2)"
    and "no_crash r"
  shows "\<exists>\<tau>'. expire_body sv \<sigma>0 sid mk key tp hv \<tau> = (r, \<tau>') \<and> quiet m C \<tau> \<tau>'"
proof -
  obtain tid \<tau>1 where 1: "in_stores (kv_createTransaction ops (Some (txn_session sv \<tau>)) sid) \<tau> = (ok tid, \<tau>1)"
    "in_txn n (cv (se_stores \<tau>)) (cv (se_stores \<tau>) sid) sid tid \<tau> \<tau>1"
    using env_create [OF assms(1,2)] by blast
  obtain \<tau>2 v where 2: "expire_in_txn sv \<sigma>0 sid mk key tp hv tid \<tau>1 = (r, \<tau>2)"
    "in_txn m C v sid tid \<tau> \<tau>2 \<or> after_txn m C sid tid \<tau> \<tau>2"
    using run [OF 1(2)] by blast
  obtain \<tau>3 where "own_txn sv sid tid (expire_in_txn sv \<sigma>0 sid mk key tp hv tid) \<tau>1 = (r, \<tau>3)" "quiet m C \<tau> \<tau>3"
    using env_own [where m = "expire_in_txn sv \<sigma>0 sid mk key tp hv tid", OF 2(1) assms(4) 2(2)] by blast
  then show ?thesis using 1(1) by (simp add: expire_body_def sbind_def)
qed

lemma expire_body_absent:
  assumes "live (Suc n) \<tau>" "sid < sv_kvstoreCount sv" "rk_type mk \<noteq> RT_INVALID" "rk_type mk \<noteq> RT_BINLOG"
    and "cv (se_stores \<tau>) sid (enc mk) = None"
  shows "\<exists>\<tau>'. expire_body sv \<sigma>0 sid mk key tp hv \<tau> = (err ERR_NOTFOUND ''NotFound: '', \<tau>') \<and>
    quiet n (cv (se_stores \<tau>)) \<tau> \<tau>'"
proof (rule expire_body_any [OF assms(1,2)])
  fix tid \<tau>1
  assume t: "in_txn n (cv (se_stores \<tau>)) (cv (se_stores \<tau>) sid) sid tid \<tau> \<tau>1"
  then show "\<exists>\<tau>2 v. expire_in_txn sv \<sigma>0 sid mk key tp hv tid \<tau>1 = (err ERR_NOTFOUND ''NotFound: '', \<tau>2) \<and>
      (in_txn n (cv (se_stores \<tau>)) v sid tid \<tau> \<tau>2 \<or> after_txn n (cv (se_stores \<tau>)) sid tid \<tau> \<tau>2)"
    using env_get [OF t assms(3,4)] assms(5) by (auto simp: expire_in_txn_def sbind_def)
qed simp

lemma expire_body_fresh:
  assumes "live (Suc n) \<tau>" "sid < sv_kvstoreCount sv" "rk_type mk \<noteq> RT_INVALID" "rk_type mk \<noteq> RT_BINLOG"
    and "cv (se_stores \<tau>) sid (enc mk) = Some b" "RecordValue_decode b = ok v" "fresh \<tau> sid (rv_ttl v)"
    and "\<not> se_multi \<sigma>0" "se_version \<sigma>0 = -1"
  shows "\<exists>\<tau>'. expire_body sv \<sigma>0 sid mk key tp hv \<tau> =
      (if rv_type v \<noteq> tp \<and> tp \<noteq> RT_DATA_META then err ERR_WRONG_TYPE (wrong_type key) else ok v, \<tau>') \<and>
    quiet n (cv (se_stores \<tau>)) \<tau> \<tau>'"
proof (rule expire_body_any [OF assms(1,2)])
  fix tid \<tau>1
  assume t: "in_txn n (cv (se_stores \<tau>)) (cv (se_stores \<tau>) sid) sid tid \<tau> \<tau>1"
  obtain \<tau>2 where 2: "in_stores (clock_ms ops sid) \<tau>1 = (ok (clk (se_stores \<tau>1) sid 0), \<tau>2)"
    "in_txn n (cv (se_stores \<tau>)) (cv (se_stores \<tau>) sid) sid tid \<tau> \<tau>2"
    using env_clock [OF t] by blast
  have "fresh \<tau>1 sid (rv_ttl v)" using t fresh_later [OF assms(7)] by (simp add: in_txn_def)
  then have now: "sv_noexpire sv \<or> rv_ttl v = 0 \<or> clk (se_stores \<tau>1) sid 0 < rv_ttl v" by (auto simp: fresh_def)
  have "verifyVersion \<sigma>0 e" for e using assms(8,9) by (simp add: verifyVersion_def)
  then have "expire_in_txn sv \<sigma>0 sid mk key tp hv tid \<tau>1 = (if rv_type v \<noteq> tp \<and> tp \<noteq> RT_DATA_META then
      err ERR_WRONG_TYPE (wrong_type key) else ok v, \<tau>2)"
    using env_get [OF t assms(3,4)] assms(5,6) 2(1) now by (auto simp: expire_in_txn_def sbind_def)
  with 2(2) show "\<exists>\<tau>2 w. expire_in_txn sv \<sigma>0 sid mk key tp hv tid \<tau>1 = (if rv_type v \<noteq> tp \<and> tp \<noteq> RT_DATA_META then
      err ERR_WRONG_TYPE (wrong_type key) else ok v, \<tau>2) \<and>
      (in_txn n (cv (se_stores \<tau>)) w sid tid \<tau> \<tau>2 \<or> after_txn n (cv (se_stores \<tau>)) sid tid \<tau> \<tau>2)"
    by blast
qed simp

text \<open>The local session and the lock around it.\<close>

definition local_of :: "bytes \<Rightarrow> 's Session \<Rightarrow> 's Session" where
  "local_of key \<sigma> =
    (local_session (if length (se_args \<sigma>) \<ge> 2 then [str ''del'', key] else []) \<sigma>)\<lparr>se_replOnly := False\<rparr>"

lemma local_of_live: "live n \<sigma> \<Longrightarrow> live n (local_of key \<sigma>)" "se_stores (local_of key \<sigma>) = se_stores \<sigma>"
  by (auto simp: live_def local_of_def local_session_def plain_session_def VERSIONEP_UNINITED_def unlimited_def)

lemma expireKeyIfNeeded_any:
  assumes "live n \<sigma>" "no_crash r"
    and run: "\<And>\<sigma>1. live n \<sigma>1 \<Longrightarrow> se_stores \<sigma>1 = se_stores \<sigma> \<Longrightarrow> se_dbId \<sigma>1 = se_dbId \<sigma> \<Longrightarrow>
      \<not> se_multi \<sigma>1 \<Longrightarrow> se_version \<sigma>1 = -1 \<Longrightarrow>
      \<exists>\<tau>'. expire_body sv \<sigma>1 (store_of sv key) (RecordKey_new (keyHashSlot key) (se_dbId \<sigma>) tp key [] 0) key tp hv
        (local_of key \<sigma>1) = (r, \<tau>') \<and> quiet m C (local_of key \<sigma>1) \<tau>'"
  shows "\<exists>\<sigma>'. expireKeyIfNeeded sv key tp hv \<sigma> = (r, \<sigma>') \<and> quiet m C \<sigma> \<sigma>'"
proof -
  have "RdLock \<noteq> LOCK_NONE" by (simp add: RdLock_def)
  from key_lock [OF assms(1) this, of key] obtain lk \<sigma>1 where
    g: "getDbWithKeyLock sv key RdLock \<sigma> = (ok (db_of key lk), \<sigma>1)"
    and s: "same_sess \<sigma> (\<sigma>1\<lparr>se_keylockmap := se_keylockmap \<sigma>\<rparr>)" "se_stores \<sigma>1 = se_stores \<sigma>"
    and d: "\<And>\<sigma>2 :: 's Session. se_keylockmap \<sigma>2 = se_keylockmap \<sigma>1 \<Longrightarrow>
       KeyLock_destroy lk \<sigma>2 = (ok (), \<sigma>2\<lparr>se_keylockmap := se_keylockmap \<sigma>\<rparr>)"
    by blast
  note l = live_lock [OF assms(1) s]
  have ses: "\<not> se_multi \<sigma>1" "se_version \<sigma>1 = -1" using l(1) by (simp_all add: live_def plain_session_def)
  obtain \<tau>' where t: "expire_body sv \<sigma>1 (store_of sv key) (RecordKey_new (keyHashSlot key) (se_dbId \<sigma>) tp key [] 0) key tp hv
      (local_of key \<sigma>1) = (r, \<tau>')" "quiet m C (local_of key \<sigma>1) \<tau>'"
    using run [OF l(1) s(2) l(3) ses] by blast
  let ?\<sigma>2 = "\<sigma>1\<lparr>se_stores := se_stores \<tau>', se_lockTrace := se_lockTrace \<tau>'\<rparr>"
  have mode: "in_stores (kv_getMode ops (store_of sv key)) \<sigma>1 = (ok READ_WRITE, \<sigma>1)"
    using mode_ok [of n "se_stores \<sigma>1" "store_of sv key"] l(1) store_of_less [OF plain]
    by (simp add: live_def in_stores_read)
  have lr: "se_lockRes \<tau>' = se_lockRes \<sigma>1"
    using quiet_fields(9) [OF t(2)] by (simp add: local_of_def local_session_def)
  have q: "quiet m C \<sigma>1 ?\<sigma>2"
    using t(2) local_of_live(2) [of key \<sigma>1] by (simp add: quiet_def)
  have "with_local (if length (se_args \<sigma>1) \<ge> 2 then [str ''del'', key] else [])
      (sthen (smod (\<lambda>\<tau>. \<tau>\<lparr>se_replOnly := False\<rparr>))
        (expire_body sv \<sigma>1 (store_of sv key) (RecordKey_new (keyHashSlot key) (se_dbId \<sigma>1) tp key [] 0) key tp hv)) \<sigma>1
      = (r, ?\<sigma>2\<lparr>se_lockRes := se_lockRes \<tau>'\<rparr>)"
    using t(1) l(3) by (simp add: with_local_def sbind_def smod_def local_of_def)
  moreover have "?\<sigma>2\<lparr>se_lockRes := se_lockRes \<tau>'\<rparr> = ?\<sigma>2" unfolding lr by (cases \<sigma>1) simp
  moreover have "KeyLock_destroy lk ?\<sigma>2 = (ok (), ?\<sigma>2\<lparr>se_keylockmap := se_keylockmap \<sigma>\<rparr>)" using d [of ?\<sigma>2] by simp
  ultimately have "expireKeyIfNeeded sv key tp hv \<sigma> = (r, ?\<sigma>2\<lparr>se_keylockmap := se_keylockmap \<sigma>\<rparr>)"
    using g mode assms(2)
    by (auto simp: expireKeyIfNeeded_def sbind_def with_db_def stry_def Let_def no_crash_def
        split: sum.split)
  with quiet_unlock [OF q s] show ?thesis by blast
qed

lemma key_types [simp]: "rk_type (RecordKey_new c d t k s v) = getRealKeyType t"
  by (simp add: RecordKey_new_def)

lemma expire_absent:
  assumes "live (Suc n) \<sigma>" "tp \<noteq> RT_INVALID" "tp \<noteq> RT_BINLOG"
    and "cv (se_stores \<sigma>) (store_of sv key) (enc (RecordKey_new (keyHashSlot key) (se_dbId \<sigma>) tp key [] 0)) = None"
  shows "\<exists>\<sigma>'. expireKeyIfNeeded sv key tp hv \<sigma> = (err ERR_NOTFOUND ''NotFound: '', \<sigma>') \<and>
    quiet n (cv (se_stores \<sigma>)) \<sigma> \<sigma>'"
proof (rule expireKeyIfNeeded_any [OF assms(1)])
  fix \<sigma>1 assume 1: "live (Suc n) \<sigma>1" "se_stores \<sigma>1 = se_stores \<sigma>"
  let ?mk = "RecordKey_new (keyHashSlot key) (se_dbId \<sigma>) tp key [] 0"
  have t: "rk_type ?mk \<noteq> RT_INVALID" "rk_type ?mk \<noteq> RT_BINLOG"
    using assms(2,3) by (auto simp: getRealKeyType_def)
  show "\<exists>\<tau>'. expire_body sv \<sigma>1 (store_of sv key) ?mk key tp hv (local_of key \<sigma>1) =
      (err ERR_NOTFOUND ''NotFound: '', \<tau>') \<and> quiet n (cv (se_stores \<sigma>)) (local_of key \<sigma>1) \<tau>'"
    using expire_body_absent [OF local_of_live(1) [OF 1(1)] store_of_less [OF plain] t, of key key \<sigma>1 key tp hv] assms(4)
    by (simp add: local_of_live 1(2))
qed simp

lemma expire_fresh:
  assumes "live (Suc n) \<sigma>" "tp \<noteq> RT_INVALID" "tp \<noteq> RT_BINLOG"
    and "cv (se_stores \<sigma>) (store_of sv key) (enc (RecordKey_new (keyHashSlot key) (se_dbId \<sigma>) tp key [] 0)) = Some b"
    and "RecordValue_decode b = ok v" "fresh \<sigma> (store_of sv key) (rv_ttl v)"
  shows "\<exists>\<sigma>'. expireKeyIfNeeded sv key tp hv \<sigma> =
      (if rv_type v \<noteq> tp \<and> tp \<noteq> RT_DATA_META then err ERR_WRONG_TYPE (wrong_type key) else ok v, \<sigma>') \<and>
    quiet n (cv (se_stores \<sigma>)) \<sigma> \<sigma>'"
proof (rule expireKeyIfNeeded_any [OF assms(1)])
  fix \<sigma>1 assume 1: "live (Suc n) \<sigma>1" "se_stores \<sigma>1 = se_stores \<sigma>" "\<not> se_multi \<sigma>1" "se_version \<sigma>1 = -1"
  let ?mk = "RecordKey_new (keyHashSlot key) (se_dbId \<sigma>) tp key [] 0"
  have t: "rk_type ?mk \<noteq> RT_INVALID" "rk_type ?mk \<noteq> RT_BINLOG"
    using assms(2,3) by (auto simp: getRealKeyType_def)
  have f: "fresh (local_of key \<sigma>1) (store_of sv key) (rv_ttl v)"
    using assms(6) by (simp add: fresh_def local_of_live(2) 1(2))
  show "\<exists>\<tau>'. expire_body sv \<sigma>1 (store_of sv key) ?mk key tp hv (local_of key \<sigma>1) =
      (if rv_type v \<noteq> tp \<and> tp \<noteq> RT_DATA_META then err ERR_WRONG_TYPE (wrong_type key) else ok v, \<tau>') \<and>
      quiet n (cv (se_stores \<sigma>)) (local_of key \<sigma>1) \<tau>'"
    using expire_body_fresh [OF local_of_live(1) [OF 1(1)] store_of_less [OF plain] t _ assms(5) f 1(3,4), of key tp hv] assms(4)
    by (simp add: local_of_live(2) 1(2))
qed simp

subsubsection \<open>Transactions of the session\<close>

lemma session_create:
  assumes "live (Suc n) \<sigma>" "sid < sv_kvstoreCount sv" "map_of (se_txnMap \<sigma>) sid = None"
  shows "\<exists>tid \<sigma>'. SessionCtx_createTransaction sv sid \<sigma> = (ok tid, \<sigma>') \<and>
    in_txn n (cv (se_stores \<sigma>)) (cv (se_stores \<sigma>) sid) sid tid (\<sigma>\<lparr>se_txnMap := (sid, tid) # se_txnMap \<sigma>\<rparr>) \<sigma>'"
proof -
  obtain tid \<sigma>1 where 1: "in_stores (kv_createTransaction ops (Some (txn_session sv \<sigma>)) sid) \<sigma> = (ok tid, \<sigma>1)"
    "in_txn n (cv (se_stores \<sigma>)) (cv (se_stores \<sigma>) sid) sid tid \<sigma> \<sigma>1"
    using env_create [OF assms(1,2)] by blast
  let ?\<sigma> = "\<sigma>1\<lparr>se_txnMap := (sid, tid) # se_txnMap \<sigma>\<rparr>"
  have "same_sess (\<sigma>\<lparr>se_txnMap := m\<rparr>) (\<sigma>1\<lparr>se_txnMap := m\<rparr>)" for m
    using in_txn_same [OF 1(2)] by (cases \<sigma>, cases \<sigma>1) (simp add: same_sess_def)
  then have "in_txn n (cv (se_stores \<sigma>)) (cv (se_stores \<sigma>) sid) sid tid (\<sigma>\<lparr>se_txnMap := (sid, tid) # se_txnMap \<sigma>\<rparr>) ?\<sigma>"
    using 1(2) by (simp add: in_txn_def)
  moreover have "SessionCtx_createTransaction sv sid \<sigma> = (ok tid, ?\<sigma>)"
    using assms(3) 1 in_txn_fields(3) [OF 1(2)]
    by (simp add: SessionCtx_createTransaction_def sbind_def smod_def)
  ultimately show ?thesis by blast
qed

lemma session_commit:
  assumes "in_txn n C v sid tid (\<sigma>\<lparr>se_txnMap := (sid, tid) # m\<rparr>) \<sigma>'" "map_of m sid = None"
  shows "\<exists>k \<sigma>''. SessionCtx_commitTransaction sv sid tid \<sigma>' = (ok k, \<sigma>'') \<and>
    quiet n (C(sid := v)) (\<sigma>\<lparr>se_txnMap := m\<rparr>) \<sigma>''"
proof -
  let ?\<sigma> = "\<sigma>\<lparr>se_txnMap := (sid, tid) # m\<rparr>"
  obtain k \<sigma>1 where 1: "in_stores (txn_commit ops (Some (txn_session sv \<sigma>')) sid tid) \<sigma>' = (ok k, \<sigma>1)"
    "after_txn n (C(sid := v)) sid tid ?\<sigma> \<sigma>1"
    using env_commit [OF assms(1)] by blast
  obtain \<sigma>2 where 2: "in_stores (txn_destroy ops sid tid) \<sigma>1 = (ok (), \<sigma>2)" "quiet n (C(sid := v)) ?\<sigma> \<sigma>2"
    using env_destroy 1(2) by blast
  have m: "se_txnMap \<sigma>' = (sid, tid) # m" "se_txnMap \<sigma>2 = (sid, tid) # m"
    using in_txn_fields(3) [OF assms(1)] quiet_fields(3) [OF 2(2)] by simp_all
  have f: "filter (\<lambda>e. fst e \<noteq> sid) m = m"
    using assms(2) by (auto simp: map_of_eq_None_iff filter_id_conv)
  have "SessionCtx_commitTransaction sv sid tid \<sigma>' = (ok k, \<sigma>2\<lparr>se_txnMap := m\<rparr>)"
    using 1(1) 2(1) m by (simp add: SessionCtx_commitTransaction_def sbind_def erase_txn_def smod_def f)
  moreover have "same_sess (\<sigma>\<lparr>se_txnMap := m\<rparr>) (\<sigma>2\<lparr>se_txnMap := m\<rparr>)"
    using quiet_same [OF 2(2)] by (cases \<sigma>, cases \<sigma>2) (simp add: same_sess_def)
  ultimately show ?thesis using 2(2) by (auto simp: quiet_def)
qed

text \<open>
  A command that works under the lock of a key. \<open>scoped R\<close>: the relation \<open>R\<close> between the states before
  and after survives quiet steps before it and the release of the lock.
\<close>

definition scoped :: "('s Session \<Rightarrow> 's Session \<Rightarrow> bool) \<Rightarrow> bool" where
  "scoped R \<longleftrightarrow> (\<forall>a b. R a b \<longrightarrow> se_keylockmap b = se_keylockmap a) \<and>
     (\<forall>n C a b c. quiet n C a b \<longrightarrow> R b c \<longrightarrow> R a c) \<and>
     (\<forall>a b c l. R b c \<longrightarrow> same_sess a (b\<lparr>se_keylockmap := l\<rparr>) \<longrightarrow> se_stores b = se_stores a \<longrightarrow>
        R a (c\<lparr>se_keylockmap := l\<rparr>))"

lemma scoped_quiet [simp]: "scoped (quiet n C)"
  by (auto simp: scoped_def dest: quiet_fields intro: quiet_trans quiet_unlock)

lemma env_key_cmd:
  fixes body :: "DbWithLock \<Rightarrow> ('s, 'a) cmd"
  assumes "live n \<sigma>" "mode \<noteq> LOCK_NONE" "no_crash r" "\<And>w. scoped (R w)"
    and run: "\<And>lk \<sigma>1. live n \<sigma>1 \<Longrightarrow> se_stores \<sigma>1 = se_stores \<sigma> \<Longrightarrow> se_args \<sigma>1 = se_args \<sigma> \<Longrightarrow>
      se_dbId \<sigma>1 = se_dbId \<sigma> \<Longrightarrow> se_txnMap \<sigma>1 = se_txnMap \<sigma> \<Longrightarrow>
      \<exists>\<sigma>2 w. body (db_of key lk) \<sigma>1 = (r, \<sigma>2) \<and> R w \<sigma>1 \<sigma>2 \<and> P w"
  shows "\<exists>\<sigma>' w. sbind (getDbWithKeyLock sv key mode) (\<lambda>db. with_db db (body db)) \<sigma> = (r, \<sigma>') \<and>
    R w \<sigma> \<sigma>' \<and> P w"
proof -
  from key_lock [OF assms(1,2), of key] obtain lk \<sigma>1 where
    g: "getDbWithKeyLock sv key mode \<sigma> = (ok (db_of key lk), \<sigma>1)"
    and s: "same_sess \<sigma> (\<sigma>1\<lparr>se_keylockmap := se_keylockmap \<sigma>\<rparr>)" "se_stores \<sigma>1 = se_stores \<sigma>"
    and d: "\<And>\<sigma>2 :: 's Session. se_keylockmap \<sigma>2 = se_keylockmap \<sigma>1 \<Longrightarrow>
       KeyLock_destroy lk \<sigma>2 = (ok (), \<sigma>2\<lparr>se_keylockmap := se_keylockmap \<sigma>\<rparr>)"
    by blast
  note l = live_lock [OF assms(1) s]
  obtain \<sigma>2 w where 2: "body (db_of key lk) \<sigma>1 = (r, \<sigma>2)" "R w \<sigma>1 \<sigma>2" "P w"
    using run [OF l(1) s(2) l(2-4)] by blast
  have R: "se_keylockmap \<sigma>2 = se_keylockmap \<sigma>1" "R w \<sigma> (\<sigma>2\<lparr>se_keylockmap := se_keylockmap \<sigma>\<rparr>)"
    using assms(4) [of w] 2(2) s unfolding scoped_def by blast+
  have "with_db (db_of key lk) (body (db_of key lk)) \<sigma>1 = (r, \<sigma>2\<lparr>se_keylockmap := se_keylockmap \<sigma>\<rparr>)"
    using d [OF R(1)] 2(1) assms(3)
    by (auto simp: with_db_def stry_def sbind_def no_crash_def split: sum.split)
  then show ?thesis using g R(2) 2(3) by (auto simp: sbind_def)
qed

text \<open>A transaction of the session that is still open after the command.\<close>

definition left_open ::
  "nat \<Rightarrow> (nat \<Rightarrow> bytes \<rightharpoonup> bytes) \<Rightarrow> nat \<Rightarrow> 's Session \<Rightarrow> 's Session \<Rightarrow> bool" where
  "left_open n C sid \<sigma> \<sigma>' \<longleftrightarrow> (\<exists>tid. in_txn n C (C sid) sid tid (\<sigma>\<lparr>se_txnMap := (sid, tid) # se_txnMap \<sigma>\<rparr>) \<sigma>')"

lemma same_sess_txnMap: "same_sess a b \<Longrightarrow> same_sess (a\<lparr>se_txnMap := m\<rparr>) (b\<lparr>se_txnMap := m\<rparr>)"
  by (cases a, cases b) (simp add: same_sess_def)

lemma quiet_txnMap: "quiet n C a b \<Longrightarrow> quiet n C (a\<lparr>se_txnMap := m\<rparr>) (b\<lparr>se_txnMap := m\<rparr>)"
  by (auto simp: quiet_def intro: same_sess_txnMap)

lemma scoped_left_open [simp]: "scoped (left_open n C sid)"
  unfolding scoped_def left_open_def
proof (intro conjI allI impI; elim exE)
  fix a b tid
  assume "in_txn n C (C sid) sid tid (a\<lparr>se_txnMap := (sid, tid) # se_txnMap a\<rparr>) b"
  then show "se_keylockmap b = se_keylockmap a" by (auto dest: in_txn_fields)
next
  fix m D a b c tid
  assume "quiet m D a b" "in_txn n C (C sid) sid tid (b\<lparr>se_txnMap := (sid, tid) # se_txnMap b\<rparr>) c"
  then show "\<exists>tid. in_txn n C (C sid) sid tid (a\<lparr>se_txnMap := (sid, tid) # se_txnMap a\<rparr>) c"
    using quiet_in_txn [OF quiet_txnMap] quiet_fields(3) [of m D a b] by fastforce
next
  fix a b c :: "'s Session" and l tid
  assume t: "in_txn n C (C sid) sid tid (b\<lparr>se_txnMap := (sid, tid) # se_txnMap b\<rparr>) c"
    and s: "same_sess a (b\<lparr>se_keylockmap := l\<rparr>)" "se_stores b = se_stores a"
  have "same_sess (a\<lparr>se_txnMap := (sid, tid) # se_txnMap a\<rparr>) (c\<lparr>se_keylockmap := l\<rparr>)"
    using in_txn_same [OF t] s(1) by (cases a, cases b, cases c) (auto simp: same_sess_def intro: same_mem_trans)
  then have "in_txn n C (C sid) sid tid (a\<lparr>se_txnMap := (sid, tid) # se_txnMap a\<rparr>) (c\<lparr>se_keylockmap := l\<rparr>)"
    using t s(2) by (auto simp: in_txn_def)
  then show "\<exists>tid. in_txn n C (C sid) sid tid (a\<lparr>se_txnMap := (sid, tid) # se_txnMap a\<rparr>) (c\<lparr>se_keylockmap := l\<rparr>)" ..
qed

text \<open>\<open>clearRequestCtx\<close> ends it without effect.\<close>

lemma clear_quiet:
  assumes "quiet n C \<sigma> \<sigma>'" "se_txnMap \<sigma> = []" "plain_session \<sigma>"
  shows "clearRequestCtx sv \<sigma>' = (ok (), \<sigma>')"
proof -
  have "plain_session \<sigma>'" "se_txnMap \<sigma>' = []" using quiet_fields(3,10) [OF assms(1)] assms(2,3) by simp_all
  then have "\<sigma>'\<lparr>se_txnMap := [], se_timestamp := -1, se_version := VERSIONEP_UNINITED, se_replOnly := False\<rparr> = \<sigma>'"
    by (cases \<sigma>') (simp add: plain_session_def VERSIONEP_UNINITED_def)
  then show ?thesis using \<open>se_txnMap \<sigma>' = []\<close> by (simp add: clearRequestCtx_def sbind_def smod_def)
qed

lemma clear_left_open:
  assumes "left_open n C sid \<sigma> \<sigma>'" "se_txnMap \<sigma> = []" "plain_session \<sigma>"
  shows "\<exists>\<sigma>''. clearRequestCtx sv \<sigma>' = (ok (), \<sigma>'') \<and> quiet n C \<sigma> \<sigma>''"
proof -
  obtain tid where t: "in_txn n C (C sid) sid tid (\<sigma>\<lparr>se_txnMap := [(sid, tid)]\<rparr>) \<sigma>'"
    using assms(1,2) by (auto simp: left_open_def)
  obtain \<sigma>1 where 1: "in_stores (txn_destroy ops sid tid) \<sigma>' = (ok (), \<sigma>1)"
    "quiet n C (\<sigma>\<lparr>se_txnMap := [(sid, tid)]\<rparr>) \<sigma>1"
    using env_destroy [of n C "C sid"] t by blast
  have e: "\<sigma>\<lparr>se_txnMap := []\<rparr> = \<sigma>" using assms(2) by (cases \<sigma>) simp
  have "plain_session \<sigma>1" using quiet_fields(10) [OF 1(2)] assms(3) by simp
  then have f: "\<sigma>1\<lparr>se_txnMap := [], se_timestamp := -1, se_version := VERSIONEP_UNINITED, se_replOnly := False\<rparr> = \<sigma>1\<lparr>se_txnMap := []\<rparr>"
    by (cases \<sigma>1) (simp add: plain_session_def VERSIONEP_UNINITED_def)
  have "clearRequestCtx sv \<sigma>' = (ok (), \<sigma>1\<lparr>se_txnMap := []\<rparr>)"
    using 1(1) in_txn_fields(3) [OF t] f by (simp add: clearRequestCtx_def sbind_def smod_def)
  moreover have "quiet n C \<sigma> (\<sigma>1\<lparr>se_txnMap := []\<rparr>)" using quiet_txnMap [OF 1(2), of "[]"] e by simp
  ultimately show ?thesis by blast
qed

lemma env_mem:
  assumes "in_txn n C v sid tid \<sigma> \<sigma>'" "plain_session \<sigma>"
  shows "\<exists>\<sigma>''. memLimitRequest k \<sigma>' = (ok (), \<sigma>'') \<and> in_txn n C v sid tid \<sigma> \<sigma>''"
proof -
  have u: "unlimited (se_mem \<sigma>')" using in_txn_fields(10) [OF assms(1)] assms(2) by (simp add: plain_session_def)
  show ?thesis
  proof (cases "ml_net (se_mem \<sigma>')")
    case True
    let ?m = "(se_mem \<sigma>')\<lparr>ml_commandUsedMemory := ml_commandUsedMemory (se_mem \<sigma>') + of_nat k\<rparr>"
    have "checkMemLimit ?m = (ok (), ?m)" using u True by (simp add: checkMemLimit_def unlimited_def)
    then have "memLimitRequest k \<sigma>' = (ok (), \<sigma>'\<lparr>se_mem := ?m\<rparr>)" using True by (simp add: memLimitRequest_def Let_def)
    moreover have "same_mem (se_mem \<sigma>) ?m"
      using in_txn_fields(6) [OF assms(1)] by (rule same_mem_trans) (simp add: same_mem_def)
    then have "same_sess \<sigma> (\<sigma>'\<lparr>se_mem := ?m\<rparr>)"
      using in_txn_same [OF assms(1)] by (cases \<sigma>, cases \<sigma>') (simp add: same_sess_def)
    ultimately show ?thesis using assms(1) by (auto simp: in_txn_def)
  qed (use assms(1) in \<open>auto simp: memLimitRequest_def\<close>)
qed

end

end
