(* ===== verification/ListSpec.thy ===== *)
theory ListSpec
  imports ListCmd CommandEnv
begin

section \<open>Lists as the commands should see them\<close>

text \<open>
  \<open>list_at\<close> relates the records of a store to a list of strings: the abstract state of the list commands.
  The commands are then shown to do to that list what Redis documents for them.
\<close>

subsection \<open>Cells of a list\<close>

definition list_key :: "RecordKey \<Rightarrow> bool" where
  "list_key mk \<longleftrightarrow> (\<exists>c d key. mk = RecordKey_new c d RT_LIST_META key [] 0 \<and> length key < 2 ^ 62)"

definition cells :: "RecordKey \<Rightarrow> bytes set" where
  "cells mk = insert (enc mk) (range (\<lambda>i. enc (list_ele mk i)))"

text \<open>
  \<open>shows_list v0 mk M f v\<close>: \<open>M\<close> is the meta record, \<open>f\<close> the elements by index, and all other
  records are those of \<open>v0\<close>.
\<close>

definition shows_list ::
  "(bytes \<rightharpoonup> bytes) \<Rightarrow> RecordKey \<Rightarrow> RecordValue option \<Rightarrow> (u64 \<rightharpoonup> bytes) \<Rightarrow> (bytes \<rightharpoonup> bytes) \<Rightarrow> bool" where
  "shows_list v0 mk M f v \<longleftrightarrow> v (enc mk) = map_option encv M \<and>
     (\<forall>i. v (enc (list_ele mk i)) = map_option (\<lambda>a. encv (ele_value a)) (f i)) \<and>
     (\<forall>kb. kb \<notin> cells mk \<longrightarrow> v kb = v0 kb)"

lemma length_dec_of_nat: "n < 10 ^ k \<Longrightarrow> 0 < k \<Longrightarrow> length (dec_of_nat n) \<le> k"
proof (induction n arbitrary: k rule: dec_of_nat.induct)
  case (1 n)
  show ?case
  proof (cases "n < 10")
    case True
    then show ?thesis using 1(3) by (subst dec_of_nat.simps) simp
  next
    case False
    then obtain j where k: "k = Suc j" "0 < j"
      using 1(2,3) by (cases k; cases "k - 1") auto
    have "n div 10 < 10 ^ j" using 1(2) k by (simp add: less_mult_imp_div_less)
    then have "length (dec_of_nat (n div 10)) \<le> j" using 1(1) False k(2) by simp
    then show ?thesis using False k by (subst dec_of_nat.simps) simp
  qed
qed

lemma length_to_string: "length (to_string i) \<le> 20"
proof -
  have "unat i < 2 ^ 64" using unsigned_less [of i, where ?'a = nat] by simp
  then have "unat i < 10 ^ 20" by simp
  then show ?thesis unfolding to_string_def by (rule length_dec_of_nat) simp
qed

lemma list_key_wf: "list_key mk \<Longrightarrow> RecordKey_wf mk" "list_key mk \<Longrightarrow> RecordKey_wf (list_ele mk i)"
  using length_to_string [of i]
  by (auto simp: list_key_def RecordKey_wf_def RecordKey_new_def list_ele_def getRealKeyType_def)

lemma list_key_types [simp]:
  "rk_type (list_ele mk i) = RT_LIST_ELE" "list_key mk \<Longrightarrow> rk_type mk = RT_DATA_META"
  by (auto simp: list_key_def list_ele_def getRealKeyType_def RecordKey_new_def)

lemma ele_inj [simp]: "list_key mk \<Longrightarrow> enc (list_ele mk i) = enc (list_ele mk j) \<longleftrightarrow> i = j"
  using enc_eq [OF list_key_wf(2) list_key_wf(2), of mk mk i j]
  by (auto simp: RecordKey_eq_def list_ele_def RecordKey_new_def)

lemma ele_not_meta [simp]:
  "list_key mk \<Longrightarrow> enc (list_ele mk i) \<noteq> enc mk" "list_key mk \<Longrightarrow> enc mk \<noteq> enc (list_ele mk i)"
  using enc_eq [OF list_key_wf(2) list_key_wf(1), of mk mk i] list_key_types(2) [of mk]
  by (auto simp: RecordKey_eq_def)

lemma in_cells [simp]: "enc mk \<in> cells mk" "enc (list_ele mk i) \<in> cells mk"
  by (auto simp: cells_def)

lemma ele_value_type [simp]: "rv_type (ele_value a) = RT_LIST_ELE" "rv_value (ele_value a) = a"
  by (simp_all add: ele_value_def RecordValue_new_def)

lemma ele_value_wf [simp]: "RecordValue_wf (ele_value a)"
  by (simp add: RecordValue_wf_def ele_value_def RecordValue_new_def)

lemma shows_set:
  assumes "shows_list v0 mk M f v" "list_key mk"
  shows "shows_list v0 mk M (f(i \<mapsto> a)) (v(enc (list_ele mk i) \<mapsto> encv (ele_value a)))"
  using assms by (auto simp: shows_list_def)

lemma shows_del:
  assumes "shows_list v0 mk M f v" "list_key mk"
  shows "shows_list v0 mk M (f(i := None)) (v(enc (list_ele mk i) := None))"
  using assms by (auto simp: shows_list_def)

lemma shows_meta:
  assumes "shows_list v0 mk M f v" "list_key mk"
  shows "shows_list v0 mk (Some x) f (v(enc mk \<mapsto> encv x))" "shows_list v0 mk None f (v(enc mk := None))"
  using assms by (auto simp: shows_list_def)

lemma shows_get: "shows_list v0 mk M f v \<Longrightarrow> v (enc (list_ele mk i)) = map_option (\<lambda>a. encv (ele_value a)) (f i)"
  by (simp add: shows_list_def)

subsection \<open>Segments\<close>

text \<open>The elements of a list whose first index is \<open>h\<close>.\<close>

definition seg :: "nat \<Rightarrow> bytes list \<Rightarrow> u64 \<rightharpoonup> bytes" where
  "seg h xs i = (if h \<le> unat i \<and> unat i < h + length xs then Some (xs ! (unat i - h)) else None)"

lemma seg_Nil [simp]: "seg h [] = Map.empty"
  by (simp add: seg_def fun_eq_iff)

lemma eq_of_nat64: "n < 2 ^ 64 \<Longrightarrow> (i :: u64) = of_nat n \<longleftrightarrow> unat i = n"
  by (metis unat_of_nat64 unsigned_word_eqI)

lemma of_nat64_inj: "a < 2 ^ 64 \<Longrightarrow> b < 2 ^ 64 \<Longrightarrow> (of_nat a :: u64) = of_nat b \<longleftrightarrow> a = b"
  by (simp add: eq_of_nat64 unat_of_nat64)

lemma of_nat64_less: "a < 2 ^ 64 \<Longrightarrow> b < 2 ^ 64 \<Longrightarrow> (of_nat a :: u64) < of_nat b \<longleftrightarrow> a < b"
  by (simp add: word_less_nat_alt unat_of_nat64)

lemma of_nat64_mod: "a < 2 ^ 64 \<Longrightarrow> b < 2 ^ 64 \<Longrightarrow> (of_nat a mod of_nat b :: u64) = of_nat (a mod b)"
  by (rule unsigned_word_eqI [where ?'a = nat]) (simp add: unat_mod_distrib unat_of_nat64 order_le_less_trans [OF mod_less_eq_dividend])

lemma seg_nth: "j < length xs \<Longrightarrow> h + length xs < 2 ^ 64 \<Longrightarrow> seg h xs (of_nat (h + j)) = Some (xs ! j)"
  using unat_of_nat64 [of "h + j"] by (simp add: seg_def del: of_nat_add)

lemma seg_Cons:
  assumes "h + length xs < 2 ^ 64" "0 < h"
  shows "(seg h xs)(of_nat (h - 1) \<mapsto> a) = seg (h - 1) (a # xs)"
proof
  fix i :: u64
  have "i = of_nat (h - 1) \<longleftrightarrow> unat i = h - 1"
    using assms by (intro eq_of_nat64) simp
  then show "((seg h xs)(of_nat (h - 1) \<mapsto> a)) i = seg (h - 1) (a # xs) i"
    using assms(2) by (auto simp: seg_def nth_Cons')
qed

lemma seg_update:
  assumes "j < length xs" "h + length xs < 2 ^ 64"
  shows "(seg h xs)(of_nat (h + j) \<mapsto> a) = seg h (xs[j := a])"
proof
  fix i :: u64
  have "i = of_nat (h + j) \<longleftrightarrow> unat i = h + j" using assms by (intro eq_of_nat64) simp
  then show "((seg h xs)(of_nat (h + j) \<mapsto> a)) i = seg h (xs[j := a]) i"
    using assms(1) by (auto simp: seg_def nth_list_update)
qed

lemma seg_tl:
  assumes "h + length (x # xs) < 2 ^ 64"
  shows "(seg h (x # xs))(of_nat h := None) = seg (Suc h) xs"
proof
  fix i :: u64
  have "i = of_nat h \<longleftrightarrow> unat i = h" using assms by (intro eq_of_nat64) simp
  then show "((seg h (x # xs))(of_nat h := None)) i = seg (Suc h) xs i"
    by (auto simp: seg_def nth_Cons')
qed

lemma seg_butlast:
  assumes "h + length (xs @ [x]) < 2 ^ 64"
  shows "(seg h (xs @ [x]))(of_nat (h + length xs) := None) = seg h xs"
proof
  fix i :: u64
  have "i = of_nat (h + length xs) \<longleftrightarrow> unat i = h + length xs" using assms by (intro eq_of_nat64) simp
  then show "((seg h (xs @ [x]))(of_nat (h + length xs) := None)) i = seg h xs i"
    by (auto simp: seg_def nth_append)
qed

lemma seg_snoc:
  assumes "h + length xs < 2 ^ 64"
  shows "(seg h xs)(of_nat (h + length xs) \<mapsto> a) = seg h (xs @ [a])"
proof
  fix i :: u64
  have "i = of_nat (h + length xs) \<longleftrightarrow> unat i = h + length xs"
    using assms by (rule eq_of_nat64)
  then show "((seg h xs)(of_nat (h + length xs) \<mapsto> a)) i = seg h (xs @ [a]) i"
    by (auto simp: seg_def nth_append)
qed

text \<open>Words as numbers.\<close>

lemma of_nat_pred: "0 < h \<Longrightarrow> (of_nat h :: u64) - 1 = of_nat (h - 1)"
  by (simp add: of_nat_diff)

lemma of_nat_succ: "(of_nat h :: u64) + 1 = of_nat (Suc h)"
  by simp

subsection \<open>The abstract state\<close>

definition meta_rv :: "u64 \<Rightarrow> nat \<Rightarrow> bytes list \<Rightarrow> RecordValue \<Rightarrow> bool" where
  "meta_rv ttl h xs rv \<longleftrightarrow> RecordValue_wf rv \<and> rv_type rv = RT_LIST_META \<and> rv_ttl rv = ttl \<and>
     rv_value rv = ListMetaValue_encode \<lparr>lm_head = of_nat h, lm_tail = of_nat (h + length xs)\<rparr>"

text \<open>
  The list \<open>xs\<close> is stored at indices from \<open>h\<close> on and expires at \<open>ttl\<close>; the empty list has no
  records at all.
\<close>

definition list_at :: "(bytes \<rightharpoonup> bytes) \<Rightarrow> RecordKey \<Rightarrow> u64 \<Rightarrow> nat \<Rightarrow> bytes list \<Rightarrow> bool" where
  "list_at v mk ttl h xs \<longleftrightarrow> h + length xs < 2 ^ 64 \<and>
     (\<exists>M. shows_list v mk M (seg h xs) v \<and>
       (if xs = [] then M = None else \<exists>rv. M = Some rv \<and> meta_rv ttl h xs rv))"

definition list_of :: "'s Session \<Rightarrow> bytes \<Rightarrow> RecordKey" where
  "list_of \<sigma> key = RecordKey_new (keyHashSlot key) (se_dbId \<sigma>) RT_LIST_META key [] 0"

lemma list_of_fields [simp]:
  "rk_dbId (list_of \<sigma> key) = se_dbId \<sigma>" "rk_pk (list_of \<sigma> key) = key" "rk_chunkId (list_of \<sigma> key) = keyHashSlot key"
  by (simp_all add: list_of_def RecordKey_new_def)

lemma list_key_of [simp]: "length key < 2 ^ 62 \<Longrightarrow> list_key (list_of \<sigma> key)"
  by (auto simp: list_key_def list_of_def)

text \<open>
  A store in which only the records of one list may differ from those of \<open>v0\<close>; when the list is gone,
  so is its entry in the TTL index.
\<close>

definition ttl_cell :: "RecordKey \<Rightarrow> u64 \<Rightarrow> bytes" where
  "ttl_cell mk ttl =
     enc (ttl_key \<lparr>ti_priKey = rk_pk mk, ti_type = RT_LIST_META, ti_dbId = rk_dbId mk, ti_ttl = ttl\<rparr>)"

definition becomes ::
  "(bytes \<rightharpoonup> bytes) \<Rightarrow> RecordKey \<Rightarrow> u64 \<Rightarrow> nat \<Rightarrow> bytes list \<Rightarrow> (bytes \<rightharpoonup> bytes) \<Rightarrow> bool" where
  "becomes v0 mk ttl h xs v \<longleftrightarrow> list_at v mk ttl h xs \<and>
     (\<forall>kb. kb \<notin> cells mk \<longrightarrow> v kb = (if xs = [] \<and> ttl \<noteq> 0 \<and> kb = ttl_cell mk ttl then None else v0 kb))"

lemma ttl_cell_not [simp]: "list_key mk \<Longrightarrow> ttl_cell mk ttl \<notin> cells mk"
proof
  assume k: "list_key mk" "ttl_cell mk ttl \<in> cells mk"
  let ?t = "\<lparr>ti_priKey = rk_pk mk, ti_type = RT_LIST_META, ti_dbId = rk_dbId mk, ti_ttl = ttl\<rparr>"
  have "length (rk_pk mk) < 2 ^ 62" using k(1) by (auto simp: list_key_def RecordKey_new_def)
  then have "RecordKey_wf (ttl_key ?t)"
    by (simp add: RecordKey_wf_def ttl_key_def RecordKey_new_def getRealKeyType_def ttlIndex_def)
  from enc_eq [OF this list_key_wf(1) [OF k(1)]] enc_eq [OF this list_key_wf(2) [OF k(1)]] k show False
    by (auto simp: ttl_cell_def cells_def RecordKey_eq_def)
qed

lemma becomesI:
  assumes "shows_list v0 mk (Some rv) (seg h xs) v" "h + length xs < 2 ^ 64" "meta_rv ttl h xs rv" "xs \<noteq> []"
  shows "becomes v0 mk ttl h xs v"
  using assms unfolding becomes_def list_at_def by (auto simp: shows_list_def intro!: exI [of _ "Some rv"])

lemma becomes_gone:
  assumes "shows_list v0 mk None Map.empty v" "h < 2 ^ 64" "list_key mk"
  shows "becomes v0 mk ttl h [] (if ttl = 0 then v else v(ttl_cell mk ttl := None))"
  using assms ttl_cell_not [OF assms(3), of ttl] unfolding becomes_def list_at_def
  by (auto simp: shows_list_def cells_def)

lemma list_atD:
  assumes "list_at v mk ttl h xs"
  obtains M where "shows_list v mk M (seg h xs) v" "h + length xs < 2 ^ 64"
  using assms by (auto simp: list_at_def)

text \<open>The effect of LPUSH and RPUSH on a list, and the index where it then starts.\<close>

definition pushed :: "ListPos \<Rightarrow> bytes list \<Rightarrow> bytes list \<Rightarrow> bytes list" where
  "pushed pos vals xs = (case pos of LP_HEAD \<Rightarrow> rev vals @ xs | LP_TAIL \<Rightarrow> xs @ vals)"

definition start_after :: "ListPos \<Rightarrow> nat \<Rightarrow> nat \<Rightarrow> nat" where
  "start_after pos k h = (case pos of LP_HEAD \<Rightarrow> h - k | LP_TAIL \<Rightarrow> h)"

definition room :: "ListPos \<Rightarrow> nat \<Rightarrow> nat \<Rightarrow> nat \<Rightarrow> bool" where
  "room pos k h len \<longleftrightarrow> (case pos of LP_HEAD \<Rightarrow> k \<le> h | LP_TAIL \<Rightarrow> h + len + k < 2 ^ 64)"

lemma meta_inherit:
  "meta_rv ttl h xs (RecordValue_inherit (ListMetaValue_encode \<lparr>lm_head = of_nat h, lm_tail = of_nat (h + length xs)\<rparr>)
     RT_LIST_META ep ttl rv)"
  by (auto simp: meta_rv_def RecordValue_inherit_def RecordValue_new_def RecordValue_wf_def Let_def split: sum.split)

text \<open>The effect of LPOP and RPOP.\<close>

definition popped :: "ListPos \<Rightarrow> bytes list \<Rightarrow> bytes \<times> bytes list" where
  "popped pos xs = (case pos of LP_HEAD \<Rightarrow> (hd xs, tl xs) | LP_TAIL \<Rightarrow> (last xs, butlast xs))"

text \<open>A list that takes at most one index more at either side.\<close>

definition near :: "nat \<Rightarrow> 'a list \<Rightarrow> nat \<Rightarrow> 'b list \<Rightarrow> bool" where
  "near h xs h' ys \<longleftrightarrow> h \<le> Suc h' \<and> h' + length ys \<le> Suc (h + length xs)"

definition start_popped :: "ListPos \<Rightarrow> nat \<Rightarrow> nat" where
  "start_popped pos h = (case pos of LP_HEAD \<Rightarrow> h + 1 | LP_TAIL \<Rightarrow> h)"

definition pop_index :: "ListPos \<Rightarrow> nat \<Rightarrow> nat \<Rightarrow> u64" where
  "pop_index pos h len = of_nat (case pos of LP_HEAD \<Rightarrow> h | LP_TAIL \<Rightarrow> h + (len - 1))"

lemma seg_popped:
  fixes pos
  assumes "h + length xs < 2 ^ 64" "xs \<noteq> []"
  defines "i \<equiv> pop_index pos h (length xs)"
  shows "seg h xs i = Some (fst (popped pos xs))"
    and "(seg h xs)(i := None) = seg (start_popped pos h) (snd (popped pos xs))"
proof -
  show "seg h xs i = Some (fst (popped pos xs))"
    using seg_nth [of 0 xs h] seg_nth [of "length xs - 1" xs h] assms
    by (simp add: popped_def pop_index_def hd_conv_nth last_conv_nth del: of_nat_add split: ListPos.split)
  show "(seg h xs)(i := None) = seg (start_popped pos h) (snd (popped pos xs))"
    using seg_tl [of h "hd xs" "tl xs"] seg_butlast [of h "butlast xs" "last xs"] assms
    by (simp add: popped_def pop_index_def start_popped_def del: of_nat_add split: ListPos.split)
qed

text \<open>The position an index of a command stands for.\<close>

definition pick :: "int \<Rightarrow> nat \<Rightarrow> nat option" where
  "pick idx len = (let j = (if idx < 0 then idx + int len else idx) in if 0 \<le> j \<and> j < int len then Some (nat j) else None)"

lemma uint_shift:
  assumes "a < 2 ^ 64" "- (2 ^ 63) \<le> idx" "idx < 2 ^ 63"
  shows "uint (word_of_int idx + of_nat a :: u64) =
    (if idx + int a < 0 then idx + int a + 2 ^ 64 else if idx + int a < 2 ^ 64 then idx + int a else idx + int a - 2 ^ 64)"
proof -
  have "(word_of_int idx + of_nat a :: u64) = word_of_int (idx + int a)" by simp
  then have "uint (word_of_int idx + of_nat a :: u64) = (idx + int a) mod 2 ^ 64"
    by (simp only: uint_word_of_int) simp
  moreover have "int a < 2 ^ 64" using assms(1) by (metis of_nat_less_iff of_nat_numeral of_nat_power)
  moreover have "s mod 2 ^ 64 = (if s < 0 then s + 2 ^ 64 else if s < 2 ^ 64 then s else s - 2 ^ 64)"
    if "- (2 ^ 64) \<le> s" "s < 2 * 2 ^ 64" for s :: int
    using that mod_pos_pos_trivial [of "s + 2 ^ 64" "2 ^ 64"] mod_pos_pos_trivial [of s "2 ^ 64"]
      mod_pos_pos_trivial [of "s - 2 ^ 64" "2 ^ 64"] by simp
  ultimately show ?thesis using assms(2,3) by simp
qed

lemma pick_word:
  fixes w :: u64
  assumes w: "w = word_of_int idx + of_nat (if 0 \<le> idx then h else h + len)"
    and "h + len < 2 ^ 64" "- (2 ^ 63) \<le> idx" "idx < 2 ^ 63"
  shows "w < of_nat h \<or> of_nat (h + len) \<le> w \<longleftrightarrow> pick idx len = None"
    and "pick idx len = Some j \<Longrightarrow> w = of_nat (h + j) \<and> j < len"
proof -
  let ?a = "if 0 \<le> idx then h else h + len"
  have u: "uint (of_nat n :: u64) = int n" if "n < 2 ^ 64" for n
    using that by (simp add: unsigned_of_nat take_bit_eq_mod)
  have u: "uint (of_nat h :: u64) = int h" "uint (of_nat (h + len) :: u64) = int (h + len)"
    using assms(2) u by (simp_all del: of_nat_add)
  have l: "int h + int len < 2 ^ 64" using assms(2) by simp
  have s: "uint w = (if idx + int ?a < 0 then idx + int ?a + 2 ^ 64
      else if idx + int ?a < 2 ^ 64 then idx + int ?a else idx + int ?a - 2 ^ 64)"
    unfolding w using assms(2) by (intro uint_shift assms(3,4)) simp
  have p: "uint w < int h \<or> int (h + len) \<le> uint w \<longleftrightarrow> pick idx len = None"
    using l assms(3,4) by (cases "0 \<le> idx") (simp_all add: s pick_def Let_def)
  have q: "uint w = int (h + j) \<and> j < len" if "pick idx len = Some j"
    using that l assms(3,4) by (cases "0 \<le> idx") (auto simp: s pick_def Let_def split: if_split_asm)
  show "w < of_nat h \<or> of_nat (h + len) \<le> w \<longleftrightarrow> pick idx len = None"
    unfolding word_less_def word_le_def u by (rule p)
  assume "pick idx len = Some j"
  from q [OF this] show "w = of_nat (h + j) \<and> j < len"
    by (metis of_int_of_nat_eq word_of_int_uint)
qed

text \<open>The part of a list that LRANGE shows and LTRIM keeps.\<close>

definition slice :: "'a list \<Rightarrow> int \<Rightarrow> int \<Rightarrow> 'a list" where
  "slice xs a b =
    (let n = int (length xs); a = (if a < 0 then max 0 (n + a) else a); b = (if b < 0 then n + b else b) in
     take (nat (b - a + 1)) (drop (nat a) xs))"

lemma range_bounds_eq:
  "range_bounds n a b =
    (let a = (if a < 0 then max 0 (n + a) else a); b = (if b < 0 then n + b else b) in
     if a > b \<or> a \<ge> n then None else Some (a, min b (n - 1)))"
  by (simp add: range_bounds_def Let_def)

lemma slice_bounds:
  fixes a b :: int and xs :: "'a list"
  assumes "0 \<le> a" 
  shows "take (nat (b - a + 1)) (drop (nat a) xs) = [] \<longleftrightarrow> a > b \<or> a \<ge> int (length xs)"
    and "take (nat (b - a + 1)) (drop (nat a) xs) = take (nat (min b (int (length xs) - 1) - a + 1)) (drop (nat a) xs)"
  using assms by (auto simp: min_def)

lemma range_bounds_None: "range_bounds (int (length xs)) a b = None \<longleftrightarrow> slice xs a b = []"
  unfolding range_bounds_eq slice_def Let_def
  by (subst slice_bounds(1)) (auto split: if_split)

lemma range_bounds_Some:
  assumes "range_bounds (int (length xs)) a b = Some (p, q)"
  shows "0 \<le> p \<and> p \<le> q \<and> q < int (length xs) \<and> slice xs a b = take (nat (q - p + 1)) (drop (nat p) xs)"
proof -
  let ?a = "if a < 0 then max 0 (int (length xs) + a) else a" and ?b = "if b < 0 then int (length xs) + b else b"
  have a: "0 \<le> ?a" by simp
  have "\<not> (?a > ?b \<or> ?a \<ge> int (length xs))" and pq: "p = ?a" "q = min ?b (int (length xs) - 1)"
    using assms unfolding range_bounds_eq Let_def by (auto split: if_split_asm)
  then have "p \<le> q" "q < int (length xs)" by auto
  moreover have "slice xs a b = take (nat (q - p + 1)) (drop (nat p) xs)"
    unfolding slice_def Let_def pq by (rule slice_bounds(2) [OF a])
  ultimately show ?thesis using a pq by simp
qed

text \<open>
  The elements \<open>xs\<close> from index \<open>b\<close> on with a free place at \<open>q\<close>: what is stored there does not matter.
\<close>

definition gap :: "nat \<Rightarrow> nat \<Rightarrow> bytes list \<Rightarrow> (u64 \<rightharpoonup> bytes) \<Rightarrow> bool" where
  "gap b q xs f \<longleftrightarrow> q \<le> length xs \<and> b + Suc (length xs) < 2 ^ 64 \<and>
     (\<forall>a. f(of_nat (b + q) \<mapsto> a) = seg b (take q xs @ a # drop q xs))"

lemma gap_left: "h + length xs < 2 ^ 64 \<Longrightarrow> 0 < h \<Longrightarrow> gap (h - 1) 0 xs (seg h xs)"
  using seg_Cons [of h xs] by (simp add: gap_def)

lemma gap_right: "h + Suc (length xs) < 2 ^ 64 \<Longrightarrow> gap h (length xs) xs (seg h xs)"
  using seg_snoc [of h xs] by (simp add: gap_def)

lemma gap_get:
  assumes "gap b q xs f" "i \<le> length xs" "i \<noteq> q"
  shows "f (of_nat (b + i)) = Some ((take q xs @ a # drop q xs) ! i)"
proof -
  have l: "b + length (take q xs @ a # drop q xs) < 2 ^ 64" "i < length (take q xs @ a # drop q xs)"
    "(of_nat (b + i) :: u64) \<noteq> of_nat (b + q)"
    using assms by (auto simp: gap_def of_nat64_inj simp del: of_nat_add)
  have "f (of_nat (b + i)) = (f(of_nat (b + q) \<mapsto> a)) (of_nat (b + i))" using l(3) by simp
  also have "\<dots> = Some ((take q xs @ a # drop q xs) ! i)"
    using assms(1) seg_nth [OF l(2,1)] by (simp add: gap_def del: of_nat_add)
  finally show ?thesis .
qed

lemma gap_move:
  assumes "gap b q xs f" "xs = ys @ x # zs" "q = length ys \<and> q' = Suc q \<or> q = Suc q' \<and> q' = length ys"
  shows "f (of_nat (b + q')) = Some x" "gap b q' xs (f(of_nat (b + q) \<mapsto> x))"
proof -
  have q: "q' \<le> length xs" "q' \<noteq> q" "q \<le> length xs" "b + Suc (length xs) < 2 ^ 64"
    using assms by (auto simp: gap_def)
  show "f (of_nat (b + q')) = Some x"
    using gap_get [OF assms(1) q(1,2)] assms(2,3) by (auto simp: nth_append)
  have "(take q xs @ a # drop q xs)[q := x, q' := a] = take q' xs @ a # drop q' xs" for a
    using assms(2,3) by (auto simp: list_update_append)
  moreover have "f(of_nat (b + q) \<mapsto> x, of_nat (b + q') \<mapsto> a) = (f(of_nat (b + q) \<mapsto> a))(of_nat (b + q) \<mapsto> x, of_nat (b + q') \<mapsto> a)" for a
    by simp
  moreover have "f(of_nat (b + q) \<mapsto> a) = seg b (take q xs @ a # drop q xs)" for a using assms(1) by (simp add: gap_def)
  ultimately show "gap b q' xs (f(of_nat (b + q) \<mapsto> x))"
    unfolding gap_def using q(1,3,4) by (simp add: seg_update del: of_nat_add)
qed

text \<open>The cells without those at the indices from \<open>i\<close> to \<open>j - 1\<close>.\<close>

definition without :: "nat \<Rightarrow> nat \<Rightarrow> (u64 \<rightharpoonup> 'a) \<Rightarrow> u64 \<rightharpoonup> 'a" where
  "without i j f w = (if i \<le> unat w \<and> unat w < j then None else f w)"

lemma without_step: "i < 2 ^ 64 \<Longrightarrow> i < j \<Longrightarrow> without (Suc i) j (f(of_nat i := None)) = without i j f"
  by (rule ext) (auto simp: without_def eq_of_nat64)

lemma seg_without:
  assumes "p \<le> e" "e \<le> length xs"
  shows "without (h + e) (h + length xs) (without h (h + p) (seg h xs)) = seg (h + p) (take (e - p) (drop p xs))"
  using assms by (intro ext) (auto simp: without_def seg_def)

text \<open>LINSERT puts a value before or after the first occurrence of the pivot.\<close>

definition first_pos :: "'a \<Rightarrow> 'a list \<Rightarrow> nat" where
  "first_pos x xs = length (takeWhile (\<lambda>y. y \<noteq> x) xs)"

lemma first_pos_notin: "x \<notin> set xs \<Longrightarrow> first_pos x xs = length xs"
  and first_pos_in: "x \<in> set xs \<Longrightarrow> first_pos x xs < length xs"
  by (induction xs) (auto simp: first_pos_def)

definition inserted :: "bool \<Rightarrow> bytes \<Rightarrow> bytes \<Rightarrow> bytes list \<Rightarrow> bytes list" where
  "inserted before pivot val xs =
    (let k = first_pos pivot xs + (if before then 0 else 1) in take k xs @ val # drop k xs)"

lemma to_int32_small: "i < 2 ^ 31 \<Longrightarrow> to_int32 (of_nat i) = int i"
  by (simp add: to_int32_def unsigned_of_nat signed_of_nat take_bit_eq_mod signed_take_bit_int_eq_self)

text \<open>What the lookup of a list finds.\<close>

definition found :: "u64 \<Rightarrow> nat \<Rightarrow> bytes list \<Rightarrow> RecordValue expected \<Rightarrow> bool" where
  "found ttl h xs rv \<longleftrightarrow>
    (if xs = [] then \<exists>c m. rv = err c m \<and> c \<in> {ERR_NOTFOUND, ERR_EXPIRED} else \<exists>r. rv = ok r \<and> meta_rv ttl h xs r)"

context cmd_env
begin

lemma push_loop_ok:
  assumes "in_txn n C v sid tid \<sigma> \<sigma>'" "shows_list v0 mk M (seg h xs) v" "list_key mk"
    and "h + length xs < 2 ^ 64" "room pos (length as) h (length xs)"
  shows "\<exists>\<sigma>'' v'. push_loop sv sid tid mk pos (of_nat h) (of_nat (h + length xs)) as \<sigma>' =
      (ok (of_nat (start_after pos (length as) h),
           of_nat (start_after pos (length as) h + length (pushed pos as xs))), \<sigma>'') \<and>
    in_txn n C v' sid tid \<sigma> \<sigma>'' \<and>
    shows_list v0 mk M (seg (start_after pos (length as) h) (pushed pos as xs)) v'"
  using assms
proof (induction as arbitrary: h xs v \<sigma>')
  case Nil
  then show ?case by (auto simp: start_after_def pushed_def split: ListPos.split)
next
  case (Cons a as)
  show ?case
  proof (cases pos)
    case LP_HEAD
    have h: "0 < h" "length as \<le> h - 1" using Cons.prems(5) LP_HEAD by (auto simp: room_def)
    have i: "(of_nat h :: u64) - 1 = of_nat (h - 1)" using h(1) by (rule of_nat_pred)
    obtain \<sigma>1 where 1: "setKV sv sid tid (list_ele mk (of_nat (h - 1))) (ele_value a) \<sigma>' = (ok (), \<sigma>1)"
      "in_txn n C (v(enc (list_ele mk (of_nat (h - 1))) \<mapsto> encv (ele_value a))) sid tid \<sigma> \<sigma>1"
      using env_set [OF Cons.prems(1), of "list_ele mk (of_nat (h - 1))" "ele_value a"] by auto
    have s: "shows_list v0 mk M (seg (h - 1) (a # xs)) (v(enc (list_ele mk (of_nat (h - 1))) \<mapsto> encv (ele_value a)))"
      using shows_set [OF Cons.prems(2,3), of "of_nat (h - 1)" a] seg_Cons [OF Cons.prems(4) h(1)] by simp
    have e: "h - 1 + length (a # xs) = h + length xs" using h(1) by simp
    have r: "room pos (length as) (h - 1) (length (a # xs))" using h(2) LP_HEAD by (simp add: room_def)
    have p: "push_loop sv sid tid mk pos (of_nat h) (of_nat (h + length xs)) (a # as) \<sigma>' =
        push_loop sv sid tid mk pos (of_nat (h - 1)) (of_nat (h - 1 + length (a # xs))) as \<sigma>1"
      unfolding e using 1(1) LP_HEAD by (simp add: i sbind_def)
    have q: "start_after pos (length (a # as)) h = start_after pos (length as) (h - 1)"
      "pushed pos (a # as) xs = pushed pos as (a # xs)"
      using LP_HEAD by (simp_all add: start_after_def pushed_def)
    show ?thesis unfolding p q
      by (rule Cons.IH [OF 1(2) s Cons.prems(3) _ r]) (simp only: e Cons.prems(4))
  next
    case LP_TAIL
    have t: "h + length xs + Suc (length as) < 2 ^ 64" using Cons.prems(5) LP_TAIL by (simp add: room_def)
    let ?t = "of_nat (h + length xs) :: u64"
    obtain \<sigma>1 where 1: "setKV sv sid tid (list_ele mk ?t) (ele_value a) \<sigma>' = (ok (), \<sigma>1)"
      "in_txn n C (v(enc (list_ele mk ?t) \<mapsto> encv (ele_value a))) sid tid \<sigma> \<sigma>1"
      using env_set [OF Cons.prems(1), of "list_ele mk ?t" "ele_value a"] by auto
    have s: "shows_list v0 mk M (seg h (xs @ [a])) (v(enc (list_ele mk ?t) \<mapsto> encv (ele_value a)))"
      using shows_set [OF Cons.prems(2,3), of ?t a] seg_snoc [OF Cons.prems(4)] by simp
    have e: "h + length (xs @ [a]) = Suc (h + length xs)" by simp
    have r: "room pos (length as) h (length (xs @ [a]))" using t LP_TAIL by (simp add: room_def)
    have p: "push_loop sv sid tid mk pos (of_nat h) (of_nat (h + length xs)) (a # as) \<sigma>' =
        push_loop sv sid tid mk pos (of_nat h) (of_nat (h + length (xs @ [a]))) as \<sigma>1"
      unfolding e using 1(1) LP_TAIL by (simp add: sbind_def add.commute)
    have q: "start_after pos (length (a # as)) h = start_after pos (length as) h"
      "pushed pos (a # as) xs = pushed pos as (xs @ [a])"
      using LP_TAIL by (simp_all add: start_after_def pushed_def)
    show ?thesis unfolding p q
      by (rule Cons.IH [OF 1(2) s Cons.prems(3) _ r]) (use t in simp)
  qed
qed

lemma set_meta_ok:
  assumes "in_txn n C v sid tid \<sigma> \<sigma>'" "shows_list v0 mk M (seg h xs) v" "list_key mk"
  shows "\<exists>\<sigma>'' v' rv. set_meta sv sid tid mk \<lparr>lm_head = of_nat h, lm_tail = of_nat (h + length xs)\<rparr> ttl old \<sigma>' =
      (ok (), \<sigma>'') \<and> in_txn n C v' sid tid \<sigma> \<sigma>'' \<and> shows_list v0 mk (Some rv) (seg h xs) v' \<and> meta_rv ttl h xs rv"
proof -
  define x where "x = RecordValue_inherit (ListMetaValue_encode \<lparr>lm_head = of_nat h, lm_tail = of_nat (h + length xs)\<rparr>)
     RT_LIST_META (se_version \<sigma>') ttl old"
  have m: "meta_rv ttl h xs x" unfolding x_def by (rule meta_inherit)
  then have "rv_type x \<noteq> RT_INVALID" by (simp add: meta_rv_def)
  from env_set [OF assms(1) _ this, of mk] assms(3) obtain \<sigma>'' where
    "setKV sv sid tid mk x \<sigma>' = (ok (), \<sigma>'')" "in_txn n C (v(enc mk \<mapsto> encv x)) sid tid \<sigma> \<sigma>''" by auto
  then show ?thesis
    using shows_meta(1) [OF assms(2,3), of x] m by (auto simp: set_meta_def x_def)
qed

lemma genericPush_ok:
  assumes "in_txn n C v sid tid \<sigma> \<sigma>'" "shows_list v0 mk M (seg h xs) v" "list_key mk"
    and "h + length xs < 2 ^ 64" "room pos (length as) h (length xs)" "length (pushed pos as xs) < 2 ^ 63"
    and "xs \<noteq> [] \<Longrightarrow> \<exists>r. rv = ok r \<and> meta_rv ttl h xs r"
    and "xs = [] \<Longrightarrow> code_of rv \<in> {ERR_NOTFOUND, ERR_EXPIRED} \<and> isl rv \<and> of_nat h = INITSEQ \<and> ttl = 0 \<and> \<not> needExist"
  shows "\<exists>\<sigma>'' v' rv'. genericPush sv sid tid mk rv as pos needExist \<sigma>' =
      (ok (fmtLongLong (int (length (pushed pos as xs)))), \<sigma>'') \<and> in_txn n C v' sid tid \<sigma> \<sigma>'' \<and>
    shows_list v0 mk (Some rv') (seg (start_after pos (length as) h) (pushed pos as xs)) v' \<and>
    meta_rv ttl (start_after pos (length as) h) (pushed pos as xs) rv'"
proof -
  let ?h = "start_after pos (length as) h" and ?ys = "pushed pos as xs"
  obtain \<sigma>1 v1 where 1: "push_loop sv sid tid mk pos (of_nat h) (of_nat (h + length xs)) as \<sigma>' =
      (ok (of_nat ?h, of_nat (?h + length ?ys)), \<sigma>1)" "in_txn n C v1 sid tid \<sigma> \<sigma>1"
    "shows_list v0 mk M (seg ?h ?ys) v1"
    using push_loop_ok [OF assms(1-5)] by blast
  obtain \<sigma>2 v2 r2 where 2: "set_meta sv sid tid mk \<lparr>lm_head = of_nat ?h, lm_tail = of_nat (?h + length ?ys)\<rparr> ttl rv \<sigma>1 =
      (ok (), \<sigma>2)" "in_txn n C v2 sid tid \<sigma> \<sigma>2" "shows_list v0 mk (Some r2) (seg ?h ?ys) v2" "meta_rv ttl ?h ?ys r2"
    using set_meta_ok [OF 1(2,3) assms(3), of ttl rv] by blast
  have l: "sint (of_nat (?h + length ?ys) - of_nat ?h :: u64) = int (length ?ys)"
    using assms(6) by (simp add: signed_of_nat signed_take_bit_int_eq_self)
  have w: "push_write sv sid tid mk rv \<lparr>lm_head = of_nat h, lm_tail = of_nat (h + length xs)\<rparr> ttl as pos \<sigma>' =
      (ok (fmtLongLong (int (length ?ys))), \<sigma>2)"
    using 1(1) 2(1) l by (simp add: push_write_def sbind_def del: of_nat_add)
  have "genericPush sv sid tid mk rv as pos needExist \<sigma>' = (ok (fmtLongLong (int (length ?ys))), \<sigma>2)"
  proof (cases "xs = []")
    case True
    then show ?thesis using assms(8) w by (auto simp: genericPush_def code_of_def split: sum.split)
  next
    case False
    then show ?thesis using assms(7) w by (auto simp: genericPush_def meta_rv_def)
  qed
  with 2 show ?thesis by blast
qed

lemma retry_commit_ok:
  assumes "live (Suc n) \<sigma>" "sid < sv_kvstoreCount sv" "se_txnMap \<sigma> = []"
    and run: "\<And>tid \<sigma>1. in_txn n (cv (se_stores \<sigma>)) (cv (se_stores \<sigma>) sid) sid tid (\<sigma>\<lparr>se_txnMap := [(sid, tid)]\<rparr>) \<sigma>1 \<Longrightarrow>
      \<exists>\<sigma>2 v. body tid \<sigma>1 = (ok (True, reply), \<sigma>2) \<and>
        in_txn n (cv (se_stores \<sigma>)) v sid tid (\<sigma>\<lparr>se_txnMap := [(sid, tid)]\<rparr>) \<sigma>2 \<and> P v"
  shows "\<exists>\<sigma>' v. retry_commit sv sid body RETRY_CNT \<sigma> = (ok reply, \<sigma>') \<and>
    quiet n ((cv (se_stores \<sigma>))(sid := v)) \<sigma> \<sigma>' \<and> P v"
proof -
  obtain tid \<sigma>1 where 1: "SessionCtx_createTransaction sv sid \<sigma> = (ok tid, \<sigma>1)"
    "in_txn n (cv (se_stores \<sigma>)) (cv (se_stores \<sigma>) sid) sid tid (\<sigma>\<lparr>se_txnMap := [(sid, tid)]\<rparr>) \<sigma>1"
    using session_create [OF assms(1,2)] assms(3) by auto
  obtain \<sigma>2 v where 2: "body tid \<sigma>1 = (ok (True, reply), \<sigma>2)"
    "in_txn n (cv (se_stores \<sigma>)) v sid tid (\<sigma>\<lparr>se_txnMap := [(sid, tid)]\<rparr>) \<sigma>2" "P v"
    using run [OF 1(2)] by blast
  obtain k \<sigma>3 where 3: "SessionCtx_commitTransaction sv sid tid \<sigma>2 = (ok k, \<sigma>3)"
    "quiet n ((cv (se_stores \<sigma>))(sid := v)) (\<sigma>\<lparr>se_txnMap := []\<rparr>) \<sigma>3"
    using session_commit [OF 2(2)] by auto
  have "\<sigma>\<lparr>se_txnMap := []\<rparr> = \<sigma>" using assms(3) by (cases \<sigma>) simp
  moreover have "retry_commit sv sid body RETRY_CNT \<sigma> = (ok reply, \<sigma>3)"
    using 1(1) 2(1) 3(1) by (simp add: RETRY_CNT_def eval_nat_numeral sbind_def stry_def)
  ultimately show ?thesis using 3(2) 2(3) by auto
qed

lemma foundD: "found ttl h xs rv \<Longrightarrow> no_crash rv \<and> code_of rv \<in> {ERR_OK, ERR_EXPIRED, ERR_NOTFOUND}"
  by (auto simp: found_def split: if_split_asm)

lemma list_lookup:
  assumes "live (Suc n) \<sigma>" "list_at (cv (se_stores \<sigma>) (store_of sv key)) (list_of \<sigma> key) ttl h xs"
    and "xs \<noteq> [] \<Longrightarrow> fresh \<sigma> (store_of sv key) ttl"
  shows "\<exists>rv \<sigma>'. expireKeyIfNeeded sv key RT_LIST_META hv \<sigma> = (rv, \<sigma>') \<and> quiet n (cv (se_stores \<sigma>)) \<sigma> \<sigma>' \<and>
    found ttl h xs rv"
proof (cases "xs = []")
  case True
  then show ?thesis
    using expire_absent [OF assms(1), of RT_LIST_META key hv] assms(2)
    by (auto simp: list_at_def shows_list_def list_of_def found_def)
next
  case False
  let ?v = "cv (se_stores \<sigma>) (store_of sv key)"
  obtain rv where rv: "meta_rv ttl h xs rv" "shows_list ?v (list_of \<sigma> key) (Some rv) (seg h xs) ?v"
    using assms(2) False by (auto simp: list_at_def)
  then have m: "?v (enc (list_of \<sigma> key)) = Some (encv rv)" "RecordValue_decode (encv rv) = ok rv"
    "rv_type rv = RT_LIST_META" "rv_ttl rv = ttl"
    by (auto simp: shows_list_def meta_rv_def intro: decode_encv)
  with expire_fresh [OF assms(1) _ _ m(1) [unfolded list_of_def] m(2), of hv] assms(3) False rv show ?thesis
    by (auto simp: found_def)
qed

text \<open>What the list looks like to a command: unexpired, with records for \<open>xs\<close>.\<close>

definition sees :: "'s Session \<Rightarrow> bytes \<Rightarrow> u64 \<Rightarrow> nat \<Rightarrow> bytes list \<Rightarrow> bool" where
  "sees \<sigma> key ttl h xs \<longleftrightarrow> length key < 2 ^ 62 \<and>
     list_at (cv (se_stores \<sigma>) (store_of sv key)) (list_of \<sigma> key) ttl h xs \<and>
     (xs \<noteq> [] \<longrightarrow> fresh \<sigma> (store_of sv key) ttl)"

lemma locked_list_ok:
  assumes "live (Suc n) \<sigma>" "sees \<sigma> key ttl h xs" "mode \<noteq> LOCK_NONE" "no_crash r" "\<And>w. scoped (R w)"
    and run: "\<And>lk rv \<sigma>1. live n \<sigma>1 \<Longrightarrow> cv (se_stores \<sigma>1) = cv (se_stores \<sigma>) \<Longrightarrow> se_args \<sigma>1 = se_args \<sigma> \<Longrightarrow>
      list_meta (db_of key lk) \<sigma>1 key = list_of \<sigma> key \<Longrightarrow> se_txnMap \<sigma>1 = se_txnMap \<sigma> \<Longrightarrow>
      se_dbId \<sigma>1 = se_dbId \<sigma> \<Longrightarrow> found ttl h xs rv \<Longrightarrow>
      \<exists>\<sigma>2 w. f (db_of key lk) rv \<sigma>1 = (r, \<sigma>2) \<and> R w \<sigma>1 \<sigma>2 \<and> P w"
  shows "\<exists>\<sigma>' w. locked_list sv mode key f \<sigma> = (r, \<sigma>') \<and> R w \<sigma> \<sigma>' \<and> P w"
  unfolding locked_list_def
proof (rule env_key_cmd [OF assms(1,3,4,5)], goal_cases)
  case (1 lk \<sigma>1)
  have l: "list_of \<sigma>1 key = list_of \<sigma> key" using 1(4) by (simp add: list_of_def)
  obtain rv \<sigma>2 where 2: "expireKeyIfNeeded sv key RT_LIST_META True \<sigma>1 = (rv, \<sigma>2)"
    "quiet n (cv (se_stores \<sigma>)) \<sigma>1 \<sigma>2" "found ttl h xs rv"
    using list_lookup [OF 1(1), of key ttl h xs True] assms(2) 1(2) l by (auto simp: sees_def fresh_def)
  have "list_meta (db_of key lk) \<sigma>2 key = list_of \<sigma> key"
    using quiet_fields(2) [OF 2(2)] 1(4) by (simp add: list_meta_def list_of_def)
  moreover have "cv (se_stores \<sigma>2) = cv (se_stores \<sigma>)" using 2(2) by (simp add: quiet_def)
  ultimately obtain \<sigma>3 w where
    3: "f (db_of key lk) rv \<sigma>2 = (r, \<sigma>3)" "R w \<sigma>2 \<sigma>3" "P w"
    using run [OF quiet_live [OF 2(2) 1(1)], of lk rv] quiet_fields [OF 2(2)] 1 2(3) by metis
  then show ?case
    using 2(1) foundD [OF 2(3)] assms(5) [of w] 2(2) unfolding scoped_def
    by (intro exI [of _ \<sigma>3] exI [of _ w]) (auto simp: stry_def no_crash_def split: sum.split)
qed

text \<open>Commands that change a list in one transaction.\<close>

lemma list_update_ok:
  assumes "live (Suc (Suc n)) \<sigma>" "sees \<sigma> key ttl h xs" "mode \<noteq> LOCK_NONE" "se_txnMap \<sigma> = []"
    and f: "\<And>lk rv \<sigma>1. se_args \<sigma>1 = se_args \<sigma> \<Longrightarrow> list_meta (db_of key lk) \<sigma>1 key = list_of \<sigma> key \<Longrightarrow>
      found ttl h xs rv \<Longrightarrow>
      f (db_of key lk) rv \<sigma>1 = retry_commit sv (store_of sv key) (body rv) RETRY_CNT \<sigma>1"
    and body: "\<And>C v0 rv tid \<sigma>0 \<sigma>1. in_txn n C v0 (store_of sv key) tid \<sigma>0 \<sigma>1 \<Longrightarrow>
      list_at v0 (list_of \<sigma> key) ttl h xs \<Longrightarrow> list_key (list_of \<sigma> key) \<Longrightarrow> se_dbId \<sigma>0 = rk_dbId (list_of \<sigma> key) \<Longrightarrow>
      found ttl h xs rv \<Longrightarrow>
      \<exists>\<sigma>2 v. body rv tid \<sigma>1 = (ok (True, reply), \<sigma>2) \<and> in_txn n C v (store_of sv key) tid \<sigma>0 \<sigma>2 \<and> Q v0 v"
  shows "\<exists>\<sigma>' w. locked_list sv mode key f \<sigma> = (ok reply, \<sigma>') \<and>
    quiet n ((cv (se_stores \<sigma>))(store_of sv key := w)) \<sigma> \<sigma>' \<and> Q (cv (se_stores \<sigma>) (store_of sv key)) w"
proof (rule locked_list_ok [OF assms(1-3) no_crash_simps(1) scoped_quiet], goal_cases)
  case (1 lk rv \<sigma>1)
  let ?v = "cv (se_stores \<sigma>) (store_of sv key)"
  have M: "list_at ?v (list_of \<sigma> key) ttl h xs" "list_key (list_of \<sigma> key)" "se_dbId \<sigma>1 = rk_dbId (list_of \<sigma> key)"
    using assms(2) 1(6) by (auto simp: sees_def)
  have "\<exists>\<sigma>2 w. retry_commit sv (store_of sv key) (body rv) RETRY_CNT \<sigma>1 = (ok reply, \<sigma>2) \<and>
      quiet n ((cv (se_stores \<sigma>1))(store_of sv key := w)) \<sigma>1 \<sigma>2 \<and> Q ?v w"
  proof (rule retry_commit_ok [OF 1(1) store_of_less [OF plain]], goal_cases)
    case 1
    then show ?case using \<open>se_txnMap \<sigma>1 = se_txnMap \<sigma>\<close> assms(4) by simp
  next
    case (2 tid \<sigma>2)
    show ?case using body [OF 2, of rv] M 1(2,7) by simp
  qed
  then show ?case using f [OF 1(3,4,7)] 1(2) by simp
qed

lemma push_ok:
  assumes "live (Suc (Suc n)) \<sigma>" "se_txnMap \<sigma> = []" "se_args \<sigma> = c # key # vals" "sees \<sigma> key ttl h xs"
    and "xs = [] \<Longrightarrow> \<not> ex \<and> of_nat h = INITSEQ \<and> ttl = 0"
    and "room pos (length vals) h (length xs)" "length (pushed pos vals xs) < 2 ^ 63" "vals \<noteq> []"
  shows "\<exists>\<sigma>' w. ListPush_run sv pos ex \<sigma> = (ok (fmtLongLong (int (length (pushed pos vals xs)))), \<sigma>') \<and>
    quiet n ((cv (se_stores \<sigma>))(store_of sv key := w)) \<sigma> \<sigma>' \<and>
    becomes (cv (se_stores \<sigma>) (store_of sv key)) (list_of \<sigma> key) ttl (start_after pos (length vals) h)
      (pushed pos vals xs) w"
proof -
  let ?h = "start_after pos (length vals) h" and ?ys = "pushed pos vals xs"
  have a: "arg 1 \<sigma> = (ok key, \<sigma>)" using assms(3) by (simp add: arg_def)
  show ?thesis
    unfolding ListPush_run_def sbind_Inr [of "arg 1" \<sigma> key \<sigma>, OF a]
  proof (rule list_update_ok [OF assms(1,4) _ assms(2), where
      body = "\<lambda>rv. push_body sv (store_of sv key) (list_of \<sigma> key) rv vals pos ex"], goal_cases)
    case (2 lk rv \<sigma>1)
    then show ?case using assms(3,5) by (auto simp: found_def split: if_split_asm)
  next
    case (3 C v0 rv tid \<sigma>0 \<sigma>1)
    obtain M where M: "shows_list v0 (list_of \<sigma> key) M (seg h xs) v0" "h + length xs < 2 ^ 64"
      using 3(2) by (rule list_atD)
    have hy: "?h + length ?ys < 2 ^ 64" "?ys \<noteq> []"
      using M(2) assms(6,8) by (auto simp: start_after_def pushed_def room_def split: ListPos.split_asm)
    from genericPush_ok [OF 3(1) M(1) 3(3) M(2) assms(6,7), of rv ttl ex] assms(5) 3(5)
    obtain \<sigma>2 v' rv' where "genericPush sv (store_of sv key) tid (list_of \<sigma> key) rv vals pos ex \<sigma>1 =
        (ok (fmtLongLong (int (length ?ys))), \<sigma>2)"
      "in_txn n C v' (store_of sv key) tid \<sigma>0 \<sigma>2"
      "shows_list v0 (list_of \<sigma> key) (Some rv') (seg ?h ?ys) v'" "meta_rv ttl ?h ?ys rv'"
      by (auto simp: found_def split: if_split_asm)
    with hy show ?case
      by (intro exI [of _ \<sigma>2] exI [of _ v']) (auto simp: push_body_def sbind_def intro!: becomesI)
  qed simp
qed

lemma genericPop_ok:
  assumes t: "in_txn n C v sid tid \<sigma> \<sigma>'" and v: "list_at v mk ttl h xs" and mk: "list_key mk" "se_dbId \<sigma> = rk_dbId mk"
    and rv: "meta_rv ttl h xs r" "xs \<noteq> []"
  shows "\<exists>\<sigma>'' v'. genericPop sv sid tid mk (ok r) pos \<sigma>' = (ok (fst (popped pos xs)), \<sigma>'') \<and>
    in_txn n C v' sid tid \<sigma> \<sigma>'' \<and> becomes v mk ttl (start_popped pos h) (snd (popped pos xs)) v'"
proof -
  let ?h = "start_popped pos h" and ?x = "fst (popped pos xs)" and ?ys = "snd (popped pos xs)"
  obtain M where M: "shows_list v mk M (seg h xs) v" "h + length xs < 2 ^ 64" using v by (rule list_atD)
  define i where "i = pop_index pos h (length xs)"
  note s = seg_popped [OF M(2) rv(2), of pos, folded i_def]
  have len: "0 < length xs" "length xs = Suc (length ?ys)" using rv(2) by (auto simp: popped_def split: ListPos.split)
  have hh: "?h + length ?ys < 2 ^ 64" using M(2) len by (cases pos) (simp_all add: start_popped_def)
  have ht: "of_nat h \<noteq> (of_nat (h + length xs) :: u64)" "of_nat ?h = (of_nat (?h + length ?ys) :: u64) \<longleftrightarrow> ?ys = []"
    using M(2) hh len(1) by (simp_all add: of_nat64_inj del: of_nat_add)
  have tl: "(of_nat (h + length xs) :: u64) - 1 = of_nat (h + (length xs - 1))"
    using of_nat_pred [of "h + length xs"] len by simp
  have nxt: "(case pos of LP_HEAD \<Rightarrow> (of_nat h, of_nat h + 1, of_nat (h + length xs))
       | LP_TAIL \<Rightarrow> (of_nat (h + length xs) - 1, of_nat h, of_nat (h + length xs) - 1)) =
      (i, of_nat ?h, of_nat (?h + length ?ys) :: u64)"
    unfolding tl i_def pop_index_def start_popped_def using len(2) by (cases pos) (simp_all add: add.commute)
  have g: "getKV sv sid tid (list_ele mk i) \<sigma>' = (ok (ele_value ?x), \<sigma>')"
    using env_get [OF t, of "list_ele mk i"] shows_get [OF M(1), of i] s(1) by (simp add: decode_encv)
  obtain \<sigma>1 where 1: "delKV sv sid tid (list_ele mk i) \<sigma>' = (ok (), \<sigma>1)"
    "in_txn n C (v(enc (list_ele mk i) := None)) sid tid \<sigma> \<sigma>1"
    using env_del [OF t, of "list_ele mk i"] by auto
  have v1: "shows_list v mk M (seg ?h ?ys) (v(enc (list_ele mk i) := None))"
    using shows_del [OF M(1) mk(1), of i] s(2) by simp
  have r: "rv_type r = RT_LIST_META" "rv_ttl r = ttl"
    "rv_value r = ListMetaValue_encode \<lparr>lm_head = of_nat h, lm_tail = of_nat (h + length xs)\<rparr>"
    using rv(1) by (simp_all add: meta_rv_def)
  have run: "genericPop sv sid tid mk (ok r) pos \<sigma>' = (ok ?x, \<sigma>'')" 
    if "(if ?ys = [] then delKeyAndTTL sv mk r sid tid
      else set_meta sv sid tid mk \<lparr>lm_head = of_nat ?h, lm_tail = of_nat (?h + length ?ys)\<rparr> (rv_ttl r) (ok r)) \<sigma>1 = (ok (), \<sigma>'')" for \<sigma>''
    using that ht g 1(1) r(3) by (simp add: genericPop_def nxt sbind_def del: of_nat_add split del: if_split)
  show ?thesis
  proof (cases "?ys = []")
    case True
    let ?w = "v(enc (list_ele mk i) := None, enc mk := None)"
    have "becomes v mk ttl ?h ?ys (if ttl = 0 then ?w else ?w(ttl_cell mk ttl := None))"
      using becomes_gone [OF shows_meta(2) [OF v1 [unfolded True seg_Nil] mk(1)] _ mk(1), of ?h ttl] hh True by simp
    then show ?thesis
      using env_delKeyAndTTL [OF 1(2), of mk r] run True mk r by (cases "ttl = 0") (auto simp: ttl_cell_def)
  next
    case False
    obtain \<sigma>2 v' rv' where 2: "set_meta sv sid tid mk \<lparr>lm_head = of_nat ?h, lm_tail = of_nat (?h + length ?ys)\<rparr> ttl (ok r) \<sigma>1 =
        (ok (), \<sigma>2)" "in_txn n C v' sid tid \<sigma> \<sigma>2" "shows_list v mk (Some rv') (seg ?h ?ys) v'" "meta_rv ttl ?h ?ys rv'"
      using set_meta_ok [OF 1(2) v1 mk(1), of ttl "ok r"] by blast
    then show ?thesis using run [of \<sigma>2] becomesI [OF 2(3) hh 2(4)] False r(2) by (simp del: of_nat_add) blast
  qed
qed

lemma arg_1: "se_args \<sigma> = c # key # as \<Longrightarrow> sbind (arg 1) f \<sigma> = f key \<sigma>"
  and arg_2: "se_args \<sigma> = c # key # a # as \<Longrightarrow> sbind (arg 2) g \<sigma> = g a \<sigma>"
  and arg_3: "se_args \<sigma> = c # key # a # b # as \<Longrightarrow> sbind (arg 3) g \<sigma> = g b \<sigma>"
  and int_2: "se_args \<sigma> = c # key # a # as \<Longrightarrow> stoll a = ok i \<Longrightarrow> sbind (sbind (arg 2) (slift \<circ> stoll)) k \<sigma> = k i \<sigma>"
  and int_3: "se_args \<sigma> = c # key # a # b # as \<Longrightarrow> stoll b = ok i \<Longrightarrow> sbind (sbind (arg 3) (slift \<circ> stoll)) k \<sigma> = k i \<sigma>"
  by (simp_all add: arg_def sbind_def eval_nat_numeral)

text \<open>Commands that only look.\<close>

lemma list_noop_ok:
  assumes "live (Suc n) \<sigma>" "sees \<sigma> key ttl h xs" "mode \<noteq> LOCK_NONE" "no_crash r"
    and f: "\<And>lk rv \<sigma>1. found ttl h xs rv \<Longrightarrow> f (db_of key lk) rv \<sigma>1 = (r, \<sigma>1)"
  shows "\<exists>\<sigma>'. locked_list sv mode key f \<sigma> = (r, \<sigma>') \<and> quiet n (cv (se_stores \<sigma>)) \<sigma> \<sigma>'"
proof -
  have "\<exists>\<sigma>' w. locked_list sv mode key f \<sigma> = (r, \<sigma>') \<and> quiet n (cv (se_stores \<sigma>)) \<sigma> \<sigma>' \<and> w"
  proof (rule locked_list_ok [OF assms(1-4) scoped_quiet])
    fix lk rv \<sigma>1
    assume 1: "live n \<sigma>1" "cv (se_stores \<sigma>1) = cv (se_stores \<sigma>)" "found ttl h xs rv"
    have "quiet n (cv (se_stores \<sigma>1)) \<sigma>1 \<sigma>1" using 1(1) by (intro quiet_refl) (simp add: live_def)
    then show "\<exists>\<sigma>2 w. f (db_of key lk) rv \<sigma>1 = (r, \<sigma>2) \<and> quiet n (cv (se_stores \<sigma>)) \<sigma>1 \<sigma>2 \<and> w"
      using f [OF 1(3)] 1(2) by auto
  qed
  then show ?thesis by blast
qed

lemma pop_ok:
  assumes "live (Suc (Suc n)) \<sigma>" "se_txnMap \<sigma> = []" "se_args \<sigma> = c # key # as" "sees \<sigma> key ttl h xs" "xs \<noteq> []"
  shows "\<exists>\<sigma>' w. ListPop_run sv pos \<sigma> = (ok (fmtBulk (fst (popped pos xs))), \<sigma>') \<and>
    quiet n ((cv (se_stores \<sigma>))(store_of sv key := w)) \<sigma> \<sigma>' \<and>
    becomes (cv (se_stores \<sigma>) (store_of sv key)) (list_of \<sigma> key) ttl (start_popped pos h) (snd (popped pos xs)) w"
  unfolding ListPop_run_def arg_1 [OF assms(3)]
proof (rule list_update_ok [OF assms(1,4) _ assms(2), where
    body = "\<lambda>rv. pop_body sv (store_of sv key) (list_of \<sigma> key) rv pos"], goal_cases)
  case (2 lk rv \<sigma>1)
  then show ?case using assms(5) by (auto simp: found_def if_there_def)
next
  case (3 C v0 rv tid \<sigma>0 \<sigma>1)
  then obtain r where r: "rv = ok r" "meta_rv ttl h xs r" using assms(5) by (auto simp: found_def)
  then show ?case
    using genericPop_ok [OF 3(1-4) r(2) assms(5), of pos] by (auto simp: pop_body_def stry_def)
qed simp

lemma pop_gone:
  assumes "live (Suc n) \<sigma>" "se_args \<sigma> = c # key # as" "sees \<sigma> key ttl h []"
  shows "\<exists>\<sigma>'. ListPop_run sv pos \<sigma> = (ok fmtNull, \<sigma>') \<and> quiet n (cv (se_stores \<sigma>)) \<sigma> \<sigma>'"
  unfolding ListPop_run_def arg_1 [OF assms(2)]
  by (rule list_noop_ok [OF assms(1,3)]) (auto simp: found_def if_there_def)

subsubsection \<open>LLEN, LINDEX, LSET, LRANGE\<close>

lemma length_word: "length xs < 2 ^ 63 \<Longrightarrow> sint (of_nat (h + length xs) - of_nat h :: u64) = int (length xs)"
  by (simp add: signed_of_nat signed_take_bit_int_eq_self)

lemma llen_ok:
  assumes "live (Suc n) \<sigma>" "se_args \<sigma> = c # key # as" "sees \<sigma> key ttl h xs" "length xs < 2 ^ 63"
  shows "\<exists>\<sigma>'. LLen_run sv \<sigma> = (ok (fmtLongLong (int (length xs))), \<sigma>') \<and> quiet n (cv (se_stores \<sigma>)) \<sigma> \<sigma>'"
proof -
  obtain rv \<sigma>1 where 1: "expireKeyIfNeeded sv key RT_LIST_META True \<sigma> = (rv, \<sigma>1)" "quiet n (cv (se_stores \<sigma>)) \<sigma> \<sigma>1"
    "found ttl h xs rv"
    using list_lookup [OF assms(1), of key ttl h xs True] assms(3) by (auto simp: sees_def)
  have "fmtZero = fmtLongLong 0"
    by (simp add: fmtZero_def fmtLongLong_def dec_of_int_def dec_of_nat.simps digit_def str_def)
  then show ?thesis
    using 1 length_word [OF assms(4), of h] unfolding LLen_run_def arg_1 [OF assms(2)]
    by (auto simp: stry_def found_def meta_rv_def sbind_def simp del: of_nat_add split: if_split_asm)
qed

lemma set_list_ok:
  assumes t: "in_txn n C v sid tid \<sigma> \<sigma>'" and v: "list_at v mk ttl h xs" and mk: "list_key mk"
    and "xs \<noteq> []" "j < length xs"
  shows "\<exists>\<sigma>'' v'. sbind (setKV sv sid tid (list_ele mk (of_nat (h + j))) (ele_value a)) (\<lambda>_.
      sbind (set_meta sv sid tid mk \<lparr>lm_head = of_nat h, lm_tail = of_nat (h + length xs)\<rparr> ttl old) (\<lambda>_.
      sret (True, fmtOK))) \<sigma>' = (ok (True, fmtOK), \<sigma>'') \<and>
    in_txn n C v' sid tid \<sigma> \<sigma>'' \<and> becomes v mk ttl h (xs[j := a]) v'"
proof -
  obtain M where M: "shows_list v mk M (seg h xs) v" "h + length xs < 2 ^ 64" using v by (rule list_atD)
  let ?i = "of_nat (h + j) :: u64"
  obtain \<sigma>1 where 1: "setKV sv sid tid (list_ele mk ?i) (ele_value a) \<sigma>' = (ok (), \<sigma>1)"
    "in_txn n C (v(enc (list_ele mk ?i) \<mapsto> encv (ele_value a))) sid tid \<sigma> \<sigma>1"
    using env_set [OF t, of "list_ele mk ?i" "ele_value a"] by auto
  have "shows_list v mk M (seg h (xs[j := a])) (v(enc (list_ele mk ?i) \<mapsto> encv (ele_value a)))"
    using shows_set [OF M(1) mk, of ?i a] seg_update [OF assms(5) M(2), of a] by simp
  from set_meta_ok [OF 1(2) this mk, of ttl old] obtain \<sigma>2 v' rv where
    2: "set_meta sv sid tid mk \<lparr>lm_head = of_nat h, lm_tail = of_nat (h + length xs)\<rparr> ttl old \<sigma>1 = (ok (), \<sigma>2)"
    "in_txn n C v' sid tid \<sigma> \<sigma>2" "shows_list v mk (Some rv) (seg h (xs[j := a])) v'" "meta_rv ttl h (xs[j := a]) rv"
    by auto
  then show ?thesis
    using 1(1) becomesI [OF 2(3) _ 2(4)] M(2) assms(4) by (auto simp: sbind_def simp del: of_nat_add)
qed

lemma std_stoll_range: "std_stoll a = Inr i \<Longrightarrow> - (2 ^ 63) \<le> i \<and> i < 2 ^ 63"
  by (auto simp: std_stoll_def Let_def split: option.split_asm if_split_asm)

lemma stoll_range: "stoll a = ok i \<Longrightarrow> - (2 ^ 63) \<le> i \<and> i < 2 ^ 63"
  by (auto simp: stoll_def as_integer_def dest: std_stoll_range split: if_split_asm sum.split_asm)

lemma lset_ok:
  assumes "live (Suc (Suc n)) \<sigma>" "se_txnMap \<sigma> = []" "se_args \<sigma> = c # key # a # val # as" "stoll a = ok idx"
    and "sees \<sigma> key ttl h xs" "pick idx (length xs) = Some j"
  shows "\<exists>\<sigma>' w. LSet_run sv \<sigma> = (ok fmtOK, \<sigma>') \<and>
    quiet n ((cv (se_stores \<sigma>))(store_of sv key := w)) \<sigma> \<sigma>' \<and>
    becomes (cv (se_stores \<sigma>) (store_of sv key)) (list_of \<sigma> key) ttl h (xs[j := val]) w"
proof -
  have xs: "xs \<noteq> []" "h + length xs < 2 ^ 64"
    using assms(5,6) by (auto simp: pick_def Let_def sees_def list_at_def split: if_split_asm)
  note p = pick_word [OF refl xs(2), of idx] 
  have j: "(word_of_int idx + of_nat (if 0 \<le> idx then h else h + length xs) :: u64) = of_nat (h + j)" "j < length xs"
    "\<not> ((of_nat (h + j) :: u64) < of_nat h \<or> of_nat (h + length xs) \<le> (of_nat (h + j) :: u64))"
    using p(2) [of j] p(1) assms(6) stoll_range [OF assms(4)] by auto
  show ?thesis
    unfolding LSet_run_def arg_1 [OF assms(3)] int_2 [OF assms(3,4)] arg_3 [OF assms(3)]
  proof (rule list_update_ok [OF assms(1,5) _ assms(2), where
      body = "\<lambda>rv tid. sbind (setKV sv (store_of sv key) tid (list_ele (list_of \<sigma> key) (of_nat (h + j))) (ele_value val)) (\<lambda>_.
        sbind (set_meta sv (store_of sv key) tid (list_of \<sigma> key) \<lparr>lm_head = of_nat h, lm_tail = of_nat (h + length xs)\<rparr> ttl rv)
          (\<lambda>_. sret (True, fmtOK)))"], goal_cases)
    case (2 lk rv \<sigma>1)
    then obtain r where "rv = ok r" "meta_rv ttl h xs r" using xs(1) by (auto simp: found_def)
    then show ?case using 2(2) j
      by (cases "idx < 0")
        (simp_all add: if_there_def set_list_def meta_rv_def Let_def add.commute [of _ "word_of_int idx"] del: of_nat_add)
  next
    case (3 C v0 rv tid \<sigma>0 \<sigma>1)
    show ?case by (rule set_list_ok [OF 3(1-3) xs(1) j(2)])
  qed simp
qed

lemma lset_out:
  assumes "live (Suc n) \<sigma>" "se_args \<sigma> = c # key # a # val # as" "stoll a = ok idx"
    and "sees \<sigma> key ttl h xs" "pick idx (length xs) = None"
  shows "\<exists>\<sigma>'. LSet_run sv \<sigma> = (if xs = [] then err ERR_NO_KEY '''' else err ERR_OUT_OF_RANGE '''', \<sigma>') \<and>
    quiet n (cv (se_stores \<sigma>)) \<sigma> \<sigma>'"
proof -
  have xs: "h + length xs < 2 ^ 64" using assms(4) by (auto simp: sees_def list_at_def)
  show ?thesis
    unfolding LSet_run_def arg_1 [OF assms(2)] int_2 [OF assms(2,3)] arg_3 [OF assms(2)]
    by (rule list_noop_ok [OF assms(1,4)])
      (use pick_word(1) [OF refl xs, of idx] stoll_range [OF assms(3)] assms(5) in
        \<open>auto simp: found_def if_there_def set_list_def meta_rv_def Let_def add.commute [of _ "word_of_int idx"]
           simp del: of_nat_add split: if_split_asm\<close>)
qed

text \<open>Commands that read elements; their transaction stays open.\<close>

lemma list_read_ok:
  assumes "live (Suc (Suc n)) \<sigma>" "sees \<sigma> key ttl h xs" "mode \<noteq> LOCK_NONE" "no_crash r" "se_txnMap \<sigma> = []"
    and f: "\<And>lk rv \<sigma>1. list_meta (db_of key lk) \<sigma>1 key = list_of \<sigma> key \<Longrightarrow> found ttl h xs rv \<Longrightarrow>
      f (db_of key lk) rv \<sigma>1 = sbind (SessionCtx_createTransaction sv (store_of sv key)) (g rv) \<sigma>1"
    and g: "\<And>C v rv tid \<sigma>0 \<sigma>1. in_txn n C v (store_of sv key) tid \<sigma>0 \<sigma>1 \<Longrightarrow> list_at v (list_of \<sigma> key) ttl h xs \<Longrightarrow>
      list_key (list_of \<sigma> key) \<Longrightarrow> se_dbId \<sigma>0 = rk_dbId (list_of \<sigma> key) \<Longrightarrow> plain_session \<sigma>0 \<Longrightarrow> found ttl h xs rv \<Longrightarrow>
      \<exists>\<sigma>2. g rv tid \<sigma>1 = (r, \<sigma>2) \<and> in_txn n C v (store_of sv key) tid \<sigma>0 \<sigma>2"
  shows "\<exists>\<sigma>'. locked_list sv mode key f \<sigma> = (r, \<sigma>') \<and> left_open n (cv (se_stores \<sigma>)) (store_of sv key) \<sigma> \<sigma>'"
proof -
  let ?C = "cv (se_stores \<sigma>)" and ?sid = "store_of sv key"
  have "\<exists>\<sigma>' w. locked_list sv mode key f \<sigma> = (r, \<sigma>') \<and> left_open n ?C ?sid \<sigma> \<sigma>' \<and> w"
  proof (rule locked_list_ok [OF assms(1-4) scoped_left_open])
    fix lk rv \<sigma>1
    assume 1: "live (Suc n) \<sigma>1" "cv (se_stores \<sigma>1) = ?C" "list_meta (db_of key lk) \<sigma>1 key = list_of \<sigma> key"
      "se_txnMap \<sigma>1 = se_txnMap \<sigma>" "se_dbId \<sigma>1 = se_dbId \<sigma>" "found ttl h xs rv"
    obtain tid \<sigma>2 where 2: "SessionCtx_createTransaction sv ?sid \<sigma>1 = (ok tid, \<sigma>2)"
      "in_txn n ?C (?C ?sid) ?sid tid (\<sigma>1\<lparr>se_txnMap := (?sid, tid) # se_txnMap \<sigma>1\<rparr>) \<sigma>2"
      using session_create [OF 1(1) store_of_less [OF plain], of key] 1(2,4) assms(5) by auto
    have "plain_session \<sigma>1" using 1(1) by (simp add: live_def)
    with g [OF 2(2), of rv] 1(5,6) assms(2) obtain \<sigma>3 where
      "g rv tid \<sigma>2 = (r, \<sigma>3)" "in_txn n ?C (?C ?sid) ?sid tid (\<sigma>1\<lparr>se_txnMap := (?sid, tid) # se_txnMap \<sigma>1\<rparr>) \<sigma>3"
      by (auto simp: sees_def)
    then show "\<exists>\<sigma>2 w. f (db_of key lk) rv \<sigma>1 = (r, \<sigma>2) \<and> left_open n ?C ?sid \<sigma>1 \<sigma>2 \<and> w"
      using f [OF 1(3,6)] 2(1) by (auto simp: sbind_def left_open_def)
  qed
  then show ?thesis by blast
qed

lemma lindex_ok:
  assumes "live (Suc (Suc n)) \<sigma>" "se_txnMap \<sigma> = []" "se_args \<sigma> = c # key # a # as" "std_stoll a = Inr idx"
    and "sees \<sigma> key ttl h xs" "xs \<noteq> []"
  shows "\<exists>\<sigma>'. LIndex_run sv \<sigma> =
      (ok (case pick idx (length xs) of None \<Rightarrow> fmtNull | Some j \<Rightarrow> fmtBulk (xs ! j)), \<sigma>') \<and>
    left_open n (cv (se_stores \<sigma>)) (store_of sv key) \<sigma> \<sigma>'"
proof -
  let ?r = "ok (case pick idx (length xs) of None \<Rightarrow> fmtNull | Some j \<Rightarrow> fmtBulk (xs ! j)) :: bytes expected"
  let ?i = "word_of_int idx + of_nat (if 0 \<le> idx then h else h + length xs) :: u64"
  let ?g = "\<lambda>rv tid. sbind (slift (ListMetaValue_decode (rv_value (projr rv)))) (\<lambda>lm.
     if ?i < lm_head lm \<or> ?i \<ge> lm_tail lm then sret fmtNull
     else sbind (getKV sv (store_of sv key) tid (list_ele (list_of \<sigma> key) ?i)) (\<lambda>sub. sret (fmtBulk (rv_value sub))))"
  have "\<exists>\<sigma>'. locked_list sv RdLock key (\<lambda>db rv. if_there (sret fmtNull) rv (index_list sv key idx db)) \<sigma> = (?r, \<sigma>') \<and>
    left_open n (cv (se_stores \<sigma>)) (store_of sv key) \<sigma> \<sigma>'"
  proof (rule list_read_ok [OF assms(1,5) _ _ assms(2), where g = ?g], goal_cases)
    case (3 lk rv \<sigma>1)
    then obtain r where "rv = ok r" "meta_rv ttl h xs r" using assms(6) by (auto simp: found_def)
    then show ?case using 3(1)
      by (cases "0 \<le> idx") (simp_all add: if_there_def index_list_def meta_rv_def sbind_def Let_def del: of_nat_add
         cong: if_cong)
  next
    case (4 C v rv tid \<sigma>0 \<sigma>1)
    then obtain r where r: "rv = ok r" "meta_rv ttl h xs r" using assms(6) by (auto simp: found_def)
    obtain M where M: "shows_list v (list_of \<sigma> key) M (seg h xs) v" "h + length xs < 2 ^ 64" using 4(2) by (rule list_atD)
    note p = pick_word [OF refl M(2), of idx]
    have "getKV sv (store_of sv key) tid (list_ele (list_of \<sigma> key) (of_nat (h + j))) \<sigma>1 = (ok (ele_value (xs ! j)), \<sigma>1)"
      if "j < length xs" for j
      using env_get [OF 4(1), of "list_ele (list_of \<sigma> key) (of_nat (h + j))"] shows_get [OF M(1), of "of_nat (h + j)"]
        seg_nth [OF that M(2)] by (simp add: decode_encv del: of_nat_add)
    then show ?case
      using p std_stoll_range [OF assms(4)] 4(1) r
      by (cases "pick idx (length xs)") (auto simp: meta_rv_def sbind_def simp del: of_nat_add)
  qed (simp_all add: RdLock_def)
  then show ?thesis
    unfolding LIndex_run_def arg_1 [OF assms(3)] arg_2 [OF assms(3)] assms(4) by simp
qed

lemma list_ele_at_eq:
  assumes "i < 2 ^ 64"
  shows "list_ele_at (rk_chunkId mk) (rk_dbId mk) (rk_pk mk) (int i) = list_ele mk (of_nat i)"
  using assms by (simp add: list_ele_at_def list_ele_def dec_of_int_def to_string_def unat_of_nat64)

lemma range_loop_ok:
  assumes "in_txn n C v sid tid \<sigma> \<sigma>'" "shows_list v0 mk M (seg h xs) v" "h + length xs < 2 ^ 64"
    and "se_dbId \<sigma> = rk_dbId mk" "plain_session \<sigma>" "p + k \<le> length xs"
  shows "\<exists>\<sigma>''. range_loop sv sid tid (rk_chunkId mk) (rk_pk mk) (int (h + p)) ss k \<sigma>' =
      (ok (ss @ concat (map fmtBulk (take k (drop p xs)))), \<sigma>'') \<and> in_txn n C v sid tid \<sigma> \<sigma>''"
  using assms(1,6)
proof (induction k arbitrary: p ss \<sigma>')
  case 0
  then show ?case by auto
next
  case (Suc k)
  let ?e = "list_ele mk (of_nat (h + p))"
  have e: "list_ele_at (rk_chunkId mk) (se_dbId \<sigma>') (rk_pk mk) (int (h + p)) = ?e"
    using list_ele_at_eq [of "h + p" mk] Suc.prems(2) assms(3,4) in_txn_fields(2) [OF Suc.prems(1)] by simp
  have g: "getKV sv sid tid ?e \<sigma>' = (ok (ele_value (xs ! p)), \<sigma>')"
    using env_get [OF Suc.prems(1), of ?e] shows_get [OF assms(2), of "of_nat (h + p)"] seg_nth [of p xs h] Suc.prems(2) assms(3)
    by (simp add: decode_encv del: of_nat_add)
  obtain \<sigma>1 where 1: "memLimitRequest (length (xs ! p)) \<sigma>' = (ok (), \<sigma>1)" "in_txn n C v sid tid \<sigma> \<sigma>1"
    using env_mem [OF Suc.prems(1) assms(5)] by blast
  have "take (Suc k) (drop p xs) = xs ! p # take k (drop (Suc p) xs)"
    using Suc.prems(2) by (simp add: Cons_nth_drop_Suc [symmetric])
  then show ?case
    using Suc.IH [OF 1(2), of "Suc p" "ss @ fmtBulk (xs ! p)"] Suc.prems(2) e g 1(1)
    by (simp add: sbind_def ac_simps)
qed

lemma lrange_ok:
  assumes "live (Suc (Suc n)) \<sigma>" "se_txnMap \<sigma> = []" "se_args \<sigma> = c # key # a # b # as"
    and "stoll a = ok i" "stoll b = ok j" "sees \<sigma> key ttl h xs" "xs \<noteq> []" "h + length xs \<le> 2 ^ 63" "length xs < 2 ^ 63"
  shows "\<exists>\<sigma>'. LRange_run sv \<sigma> =
      (ok (fmtMultiBulkLen (of_nat (length (slice xs i j))) @ concat (map fmtBulk (slice xs i j))), \<sigma>') \<and>
    left_open n (cv (se_stores \<sigma>)) (store_of sv key) \<sigma> \<sigma>'"
  unfolding LRange_run_def arg_1 [OF assms(3)] int_2 [OF assms(3,4)] int_3 [OF assms(3,5)]
proof (rule list_read_ok [OF assms(1,6) _ _ assms(2), where g = "\<lambda>rv tid.
    sbind (slift (ListMetaValue_decode (rv_value (projr rv)))) (\<lambda>lm.
     let len = sint (lm_tail lm - lm_head lm) in
     if len \<le> 0 then serr ERR_INTERNAL ''invalid list''
     else case range_bounds len i j of
       None \<Rightarrow> sret fmtZeroBulkLen
     | Some (start, end) \<Rightarrow>
         range_loop sv (store_of sv key) tid (keyHashSlot key) key (sint (word_of_int start + lm_head lm))
           (fmtMultiBulkLen (word_of_int (end - start + 1))) (nat (end - start + 1)))"], goal_cases)
  case (3 lk rv \<sigma>1)
  then obtain r where "rv = ok r" using assms(7) by (auto simp: found_def)
  then show ?case by (simp only: if_there_def range_list_def sum.case sum.sel DbWithLock.simps)
next
  case (4 C v rv tid \<sigma>0 \<sigma>1)
  then obtain r where r: "rv = ok r" "meta_rv ttl h xs r" using assms(7) by (auto simp: found_def)
  obtain M where M: "shows_list v (list_of \<sigma> key) M (seg h xs) v" "h + length xs < 2 ^ 64" using 4(2) by (rule list_atD)
  have z: "fmtZeroBulkLen = fmtMultiBulkLen 0"
    by (simp add: fmtZeroBulkLen_def fmtMultiBulkLen_def dec_of_nat.simps digit_def str_def)
  note len = length_word [OF assms(9), of h]
  show ?case
  proof (cases "range_bounds (int (length xs)) i j")
    case None
    then show ?thesis
      using range_bounds_None [of xs i j] r len 4(1) assms(7) z
      by (auto simp: meta_rv_def sbind_def simp del: of_nat_add)
  next
    case (Some pq)
    then obtain p q where pq: "range_bounds (int (length xs)) i j = Some (p, q)" by (cases pq) auto
    note s = range_bounds_Some [OF pq]
    define k where "k = nat (q - p + 1)"
    have k: "nat p + k \<le> length xs" "length (slice xs i j) = k" "q - p + 1 = int k" using s by (auto simp: k_def)
    have w: "word_of_int q - word_of_int p + 1 = (of_nat k :: u64)"
      using arg_cong [OF k(3), of "word_of_int :: int \<Rightarrow> u64"] by simp
    have "word_of_int p + of_nat h = (of_nat (h + nat p) :: u64)" using s by simp
    moreover have "h + nat p < 2 ^ 63" using s assms(8) by linarith
    ultimately have st: "sint (word_of_int p + of_nat h :: u64) = int (h + nat p)"
      by (simp add: signed_of_nat signed_take_bit_int_eq_self del: of_nat_add)
    show ?thesis
      using range_loop_ok [OF 4(1) M(1,2) 4(4,5) k(1), of "fmtMultiBulkLen (of_nat k)"] r len pq s assms(7) k(2)
      by (simp add: meta_rv_def sbind_def st k(3) w del: of_nat_add)
  qed
qed (simp_all add: RdLock_def)

subsubsection \<open>LTRIM\<close>

text \<open>
  The deletions of LTRIM are committed in batches of a thousand, each in a new transaction of the session.
  \<open>u\<close> is what the store holds so far, \<open>v\<close> what the open transaction sees.
\<close>

definition work ::
  "nat \<Rightarrow> (nat \<Rightarrow> bytes \<rightharpoonup> bytes) \<Rightarrow> (bytes \<rightharpoonup> bytes) \<Rightarrow> nat \<Rightarrow> u64 \<Rightarrow> 's Session \<Rightarrow> 's Session \<Rightarrow> bool" where
  "work n C v sid tid \<sigma> \<sigma>' \<longleftrightarrow> (\<exists>u. in_txn n (C(sid := u)) v sid tid (\<sigma>\<lparr>se_txnMap := [(sid, tid)]\<rparr>) \<sigma>')"

lemma work_commit:
  assumes "work n C v sid tid \<sigma> \<sigma>'" "se_txnMap \<sigma> = []"
  shows "\<exists>k \<sigma>''. SessionCtx_commitTransaction sv sid tid \<sigma>' = (ok k, \<sigma>'') \<and> quiet n (C(sid := v)) \<sigma> \<sigma>''"
proof -
  obtain u where u: "in_txn n (C(sid := u)) v sid tid (\<sigma>\<lparr>se_txnMap := (sid, tid) # []\<rparr>) \<sigma>'"
    using assms(1) by (auto simp: work_def)
  have "\<sigma>\<lparr>se_txnMap := []\<rparr> = \<sigma>" using assms(2) by (cases \<sigma>) simp
  then show ?thesis using session_commit [OF u] by simp
qed

lemma work_next:
  assumes "work (Suc n) C v sid tid \<sigma> \<sigma>'" "se_txnMap \<sigma> = []" "live m \<sigma>" "sid < sv_kvstoreCount sv"
  shows "\<exists>\<sigma>'' tid'. sthen (SessionCtx_commitTransaction sv sid tid) (SessionCtx_createTransaction sv sid) \<sigma>' = (ok tid', \<sigma>'') \<and>
    work n C v sid tid' \<sigma> \<sigma>''"
proof -
  obtain k \<sigma>1 where 1: "SessionCtx_commitTransaction sv sid tid \<sigma>' = (ok k, \<sigma>1)" "quiet (Suc n) (C(sid := v)) \<sigma> \<sigma>1"
    using work_commit [OF assms(1,2)] by blast
  have c: "cv (se_stores \<sigma>1) = C(sid := v)" "se_txnMap \<sigma>1 = []"
    using 1(2) quiet_fields(3) [OF 1(2)] assms(2) by (simp_all add: quiet_def)
  obtain tid' \<sigma>2 where 2: "SessionCtx_createTransaction sv sid \<sigma>1 = (ok tid', \<sigma>2)"
    "in_txn n (C(sid := v)) v sid tid' (\<sigma>1\<lparr>se_txnMap := [(sid, tid')]\<rparr>) \<sigma>2"
    using session_create [OF quiet_live [OF 1(2) assms(3)] assms(4)] c by auto
  have "work n C v sid tid' \<sigma> \<sigma>2"
    using quiet_in_txn [OF quiet_txnMap [OF 1(2)] 2(2)] by (auto simp: work_def)
  then show ?thesis using 1(1) 2(1) by (auto simp: sbind_def)
qed

lemma trim_dels_ok:
  assumes "work (n + ((c + k) div 1000 - c div 1000)) C v sid tid \<sigma> \<sigma>'" "shows_list v0 mk M f v" "list_key mk"
    and "se_txnMap \<sigma> = []" "live m \<sigma>" "sid < sv_kvstoreCount sv" "se_dbId \<sigma> = rk_dbId mk" "i + k < 2 ^ 64" "c + k < 2 ^ 64"
  shows "\<exists>\<sigma>'' tid' v'. trim_dels sv sid mk (int i) (int (i + k)) (of_nat c) tid \<sigma>' = (ok (of_nat (c + k), tid'), \<sigma>'') \<and>
    work n C v' sid tid' \<sigma> \<sigma>'' \<and> shows_list v0 mk M (without i (i + k) f) v'"
  using assms(1,2,8,9)
proof (induction k arbitrary: i c v f tid \<sigma>')
  case 0
  have "without i i f = f" by (rule ext) (auto simp: without_def)
  then show ?case using 0 by (subst trim_dels.simps) auto
next
  case (Suc k)
  let ?e = "list_ele mk (of_nat i)" and ?n = "n + ((c + Suc k) div 1000 - c div 1000)"
  obtain u where u: "in_txn ?n (C(sid := u)) v sid tid (\<sigma>\<lparr>se_txnMap := [(sid, tid)]\<rparr>) \<sigma>'"
    using Suc.prems(1) by (auto simp: work_def)
  have e: "list_ele_at (rk_chunkId mk) (se_dbId \<sigma>') (rk_pk mk) (int i) = ?e"
    using list_ele_at_eq [of i mk] Suc.prems(3) assms(7) in_txn_fields(2) [OF u] by simp
  obtain \<sigma>1 where 1: "delKV sv sid tid ?e \<sigma>' = (ok (), \<sigma>1)" "work ?n C (v(enc ?e := None)) sid tid \<sigma> \<sigma>1"
    using env_del [OF u, of ?e] by (auto simp: work_def)
  have s: "shows_list v0 mk M (f(of_nat i := None)) (v(enc ?e := None))" by (rule shows_del [OF Suc.prems(2) assms(3)])
  have w: "without (Suc i) (Suc i + k) (f(of_nat i := None)) = without i (i + Suc k) f"
    using without_step [of i "Suc (i + k)" f] Suc.prems(3) by simp
  have c: "(of_nat c :: u64) + 1 = of_nat (Suc c)" "(of_nat (Suc c) mod 1000 = (0 :: u64)) = (Suc c mod 1000 = 0)"
    using Suc.prems(4) of_nat64_mod [of "Suc c" 1000] of_nat64_inj [of "Suc c mod 1000" 0]
    by (simp_all add: add.commute)
  have "\<exists>\<sigma>2 tid2. (if of_nat (Suc c) mod (1000 :: u64) = 0
       then sthen (SessionCtx_commitTransaction sv sid tid) (SessionCtx_createTransaction sv sid)
       else sret tid) \<sigma>1 = (ok tid2, \<sigma>2) \<and>
     work (n + ((Suc c + k) div 1000 - Suc c div 1000)) C (v(enc ?e := None)) sid tid2 \<sigma> \<sigma>2"
  proof (cases "Suc c mod 1000 = 0")
    case True
    then have d: "Suc c div 1000 = Suc (c div 1000)" by (simp add: div_Suc)
    moreover have "Suc c div 1000 \<le> (c + Suc k) div 1000" by (rule div_le_mono) simp
    moreover have "n + (a - b) = Suc (n + (a - Suc b))" if "Suc b \<le> a" for a b :: nat using that by simp
    ultimately have n: "?n = Suc (n + ((Suc c + k) div 1000 - Suc c div 1000))" by (metis add_Suc_shift)
    show ?thesis using work_next [OF 1(2) [unfolded n] assms(4-6)] True c(2) by simp
  next
    case False
    then have "Suc c div 1000 = c div 1000" by (simp add: div_Suc)
    then show ?thesis using 1(2) c(2) False by auto
  qed
  then obtain \<sigma>2 tid2 where 2: "(if of_nat (Suc c) mod (1000 :: u64) = 0
       then sthen (SessionCtx_commitTransaction sv sid tid) (SessionCtx_createTransaction sv sid)
       else sret tid) \<sigma>1 = (ok tid2, \<sigma>2)"
     "work (n + ((Suc c + k) div 1000 - Suc c div 1000)) C (v(enc ?e := None)) sid tid2 \<sigma> \<sigma>2" by blast
  have t: "trim_dels sv sid mk (int i) (int (i + Suc k)) (of_nat c) tid \<sigma>' =
      trim_dels sv sid mk (int (Suc i)) (int (Suc i + k)) (of_nat (Suc c)) tid2 \<sigma>2"
    using e 1(1) 2(1) c(1) by (subst trim_dels.simps) (simp add: sbind_def Let_def add.commute split del: if_split)
  have "c + Suc k = Suc c + k" by simp
  then show ?case unfolding t w [symmetric]
    by (simp only:) (rule Suc.IH [OF 2(2) s], use Suc.prems(3,4) in simp_all)
qed

text \<open>The meta record at the end: deleted with its TTL entry when nothing is left.\<close>

lemma finish_ok:
  assumes t: "in_txn n C v sid tid \<sigma> \<sigma>'" "shows_list v0 mk M (seg h xs) v" and mk: "list_key mk" "se_dbId \<sigma> = rk_dbId mk"
    and "rv_type r = RT_LIST_META" "rv_ttl r = ttl" "h + length xs < 2 ^ 64"
  shows "\<exists>\<sigma>'' v'. (if xs = [] then delKeyAndTTL sv mk r sid tid
      else set_meta sv sid tid mk \<lparr>lm_head = of_nat h, lm_tail = of_nat (h + length xs)\<rparr> (rv_ttl r) old) \<sigma>' = (ok (), \<sigma>'') \<and>
    in_txn n C v' sid tid \<sigma> \<sigma>'' \<and> becomes v0 mk ttl h xs v'"
proof (cases "xs = []")
  case True
  let ?w = "v(enc mk := None)"
  have "shows_list v0 mk M Map.empty v" using t(2) True by simp
  from becomes_gone [OF shows_meta(2) [OF this mk(1)] _ mk(1), of h ttl] assms(7)
  have "becomes v0 mk ttl h xs (if ttl = 0 then ?w else ?w(ttl_cell mk ttl := None))" using True by simp
  then show ?thesis
    using env_delKeyAndTTL [OF t(1), of mk r] True mk assms(5,6) by (cases "ttl = 0") (auto simp: ttl_cell_def)
next
  case False
  obtain \<sigma>2 v' rv' where 2: "set_meta sv sid tid mk \<lparr>lm_head = of_nat h, lm_tail = of_nat (h + length xs)\<rparr> ttl old \<sigma>' = (ok (), \<sigma>2)"
    "in_txn n C v' sid tid \<sigma> \<sigma>2" "shows_list v0 mk (Some rv') (seg h xs) v'" "meta_rv ttl h xs rv'"
    using set_meta_ok [OF t mk(1), of ttl old] by blast
  then show ?thesis using becomesI [OF 2(3) assms(7) 2(4)] False assms(6) by (simp del: of_nat_add) blast
qed

lemma trim_ok:
  assumes "live (Suc (n + (p + (length xs - e)) div 1000)) \<sigma>" "se_txnMap \<sigma> = []" "sid < sv_kvstoreCount sv"
    and v: "list_at (cv (se_stores \<sigma>) sid) mk ttl h xs" and mk: "list_key mk" "se_dbId \<sigma> = rk_dbId mk"
    and r: "rv_type r = RT_LIST_META" "rv_ttl r = ttl" and pe: "p \<le> e" "e \<le> length xs" "h + length xs < 2 ^ 63"
  shows "\<exists>\<sigma>' w. trimListPessimistic sv sid mk \<lparr>lm_head = of_nat h, lm_tail = of_nat (h + length xs)\<rparr> (int p) (int e - 1) r \<sigma> =
      (ok (), \<sigma>') \<and> quiet n ((cv (se_stores \<sigma>))(sid := w)) \<sigma> \<sigma>' \<and>
    becomes (cv (se_stores \<sigma>) sid) mk ttl (h + p) (take (e - p) (drop p xs)) w"
proof -
  let ?C = "cv (se_stores \<sigma>)"
  define d where "d = length xs - e"
  define ys where "ys = take (e - p) (drop p xs)"
  have d: "h + e + d = h + length xs" "p + d < 2 ^ 64" using pe by (simp_all add: d_def)
  have ys: "h + p + length ys = h + e" "ys = [] \<longleftrightarrow> length xs \<le> p + d" using pe by (auto simp: ys_def d_def)
  obtain M where M: "shows_list (?C sid) mk M (seg h xs) (?C sid)" "h + length xs < 2 ^ 64" using v by (rule list_atD)
  obtain tid \<sigma>1 where 1: "SessionCtx_createTransaction sv sid \<sigma> = (ok tid, \<sigma>1)"
    "in_txn (n + (p + d) div 1000) ?C (?C sid) sid tid (\<sigma>\<lparr>se_txnMap := [(sid, tid)]\<rparr>) \<sigma>1"
    using session_create [OF assms(1,3)] assms(2) d_def by auto
  then have w1: "work (n + (p + d) div 1000) ?C (?C sid) sid tid \<sigma> \<sigma>1"
    unfolding work_def by (intro exI [of _ "?C sid"]) simp
  have "p div 1000 \<le> (p + d) div 1000" by (rule div_le_mono) simp
  then have "n + (p + d) div 1000 = n + ((p + d) div 1000 - p div 1000) + ((0 + p) div 1000 - 0 div 1000)" by simp
  from trim_dels_ok [OF w1 [unfolded this] M(1) mk(1) assms(2,1,3) mk(2), of h] pe obtain \<sigma>2 tid2 v2 where
    2: "trim_dels sv sid mk (int h) (int (h + p)) (of_nat 0) tid \<sigma>1 = (ok (of_nat (0 + p), tid2), \<sigma>2)"
    "work (n + ((p + d) div 1000 - p div 1000)) ?C v2 sid tid2 \<sigma> \<sigma>2"
    "shows_list (?C sid) mk M (without h (h + p) (seg h xs)) v2" by auto
  have s3: "without (h + e) (h + e + d) (without h (h + p) (seg h xs)) = seg (h + p) ys"
    using seg_without [OF pe(1,2), of h] unfolding d ys_def .
  from trim_dels_ok [OF 2(2,3) mk(1) assms(2,1,3) mk(2), of "h + e"] d M(2) obtain \<sigma>3 tid3 v3 where
    3: "trim_dels sv sid mk (int (h + e)) (int (h + length xs)) (of_nat p) tid2 \<sigma>2 = (ok (of_nat (p + d), tid3), \<sigma>3)"
    "work n ?C v3 sid tid3 \<sigma> \<sigma>3" "shows_list (?C sid) mk M (seg (h + p) ys) v3"
    unfolding s3 by (auto simp del: of_nat_add)
  obtain u where u: "in_txn n (?C(sid := u)) v3 sid tid3 (\<sigma>\<lparr>se_txnMap := [(sid, tid3)]\<rparr>) \<sigma>3"
    using 3(2) by (auto simp: work_def)
  have "h + p + length ys < 2 ^ 64" unfolding ys using pe by simp
  from finish_ok [OF u 3(3) mk(1) _ r this, of "ok r"] mk(2) obtain \<sigma>4 v4 where
    4: "(if ys = [] then delKeyAndTTL sv mk r sid tid3
      else set_meta sv sid tid3 mk \<lparr>lm_head = of_nat (h + p), lm_tail = of_nat (h + e)\<rparr> (rv_ttl r) (ok r)) \<sigma>3 = (ok (), \<sigma>4)"
    "work n ?C v4 sid tid3 \<sigma> \<sigma>4" "becomes (?C sid) mk ttl (h + p) ys v4"
    unfolding work_def ys by auto
  obtain k \<sigma>5 where 5: "SessionCtx_commitTransaction sv sid tid3 \<sigma>4 = (ok k, \<sigma>5)" "quiet n (?C(sid := v4)) \<sigma> \<sigma>5"
    using work_commit [OF 4(2) assms(2)] by blast
  have s: "sint (of_nat i :: u64) = int i" if "i < 2 ^ 63" for i
    using that by (simp add: signed_of_nat signed_take_bit_int_eq_self)
  have "of_nat (h + length xs) - of_nat h = (of_nat (length xs) :: u64)" by simp
  then have "(of_nat (h + length xs) - of_nat h \<le> (of_nat (p + d) :: u64)) = (ys = [])"
    using d(2) M(2) ys(2) by (simp add: word_le_nat_alt unat_of_nat64 del: of_nat_add)
  with 1(1) 2(1) 3(1) 4(1) 5(1) have "trimListPessimistic sv sid mk \<lparr>lm_head = of_nat h, lm_tail = of_nat (h + length xs)\<rparr> (int p) (int e - 1) r \<sigma> = (ok (), \<sigma>5)"
    unfolding trimListPessimistic_def using pe s
    by (simp add: sbind_def Let_def of_nat_add [symmetric] del: of_nat_add split del: if_split cong: if_cong)
  then show ?thesis using 5(2) 4(3) unfolding ys_def by blast
qed

lemma trim_bounds:
  obtains p e where "(case range_bounds (int (length xs)) i j of None \<Rightarrow> (int (length xs), int (length xs) - 1) | Some b \<Rightarrow> b) =
      (int p, int e - 1)" "p \<le> e" "e \<le> length xs" "slice xs i j = take (e - p) (drop p xs)"
    "length xs - length (slice xs i j) = p + (length xs - e)"
proof (cases "range_bounds (int (length xs)) i j")
  case None
  then show ?thesis
    using range_bounds_None [of xs i j] by (intro that [of "length xs" "length xs"]) auto
next
  case (Some pq)
  then obtain a b where ab: "range_bounds (int (length xs)) i j = Some (a, b)" by (cases pq) auto
  note s = range_bounds_Some [OF ab]
  have n: "nat (b - a + 1) = nat (b + 1) - nat a" using s by linarith
  show ?thesis using s ab by (intro that [of "nat a" "nat (b + 1)"]) (auto simp: n)
qed

lemma ltrim_ok:
  assumes "live (Suc (Suc (n + (length xs - length (slice xs i j)) div 1000))) \<sigma>" "se_txnMap \<sigma> = []"
    and "se_args \<sigma> = c # key # a # b # as" "stoll a = ok i" "stoll b = ok j" "sees \<sigma> key ttl h xs" "xs \<noteq> []"
    and "h + length xs < 2 ^ 63"
  shows "\<exists>\<sigma>' w h'. Ltrim_run sv \<sigma> = (ok fmtOK, \<sigma>') \<and>
    quiet n ((cv (se_stores \<sigma>))(store_of sv key := w)) \<sigma> \<sigma>' \<and>
    becomes (cv (se_stores \<sigma>) (store_of sv key)) (list_of \<sigma> key) ttl h' (slice xs i j) w \<and> near h xs h' (slice xs i j)"
proof -
  let ?C = "cv (se_stores \<sigma>)" and ?sid = "store_of sv key"
  obtain p e where pe: "(case range_bounds (int (length xs)) i j of None \<Rightarrow> (int (length xs), int (length xs) - 1) | Some b \<Rightarrow> b) =
      (int p, int e - 1)" "p \<le> e" "e \<le> length xs" "slice xs i j = take (e - p) (drop p xs)"
    "length xs - length (slice xs i j) = p + (length xs - e)"
    by (rule trim_bounds)
  have "\<exists>\<sigma>' w. locked_list sv LOCK_X key (\<lambda>db rv. if_there (sret fmtOK) rv (trim_list sv key i j db)) \<sigma> = (ok fmtOK, \<sigma>') \<and>
      quiet n (?C(?sid := w)) \<sigma> \<sigma>' \<and> becomes (?C ?sid) (list_of \<sigma> key) ttl (h + p) (slice xs i j) w"
  proof (rule locked_list_ok [OF assms(1,6) _ _ scoped_quiet], goal_cases)
    case (3 lk rv \<sigma>1)
    then obtain r where r: "rv = ok r" "meta_rv ttl h xs r" using assms(7) by (auto simp: found_def)
    have v: "list_at (cv (se_stores \<sigma>1) ?sid) (list_of \<sigma> key) ttl h xs" "list_key (list_of \<sigma> key)"
      using assms(6) 3(2) by (simp_all add: sees_def)
    obtain \<sigma>2 w where "trimListPessimistic sv ?sid (list_of \<sigma> key) \<lparr>lm_head = of_nat h, lm_tail = of_nat (h + length xs)\<rparr>
        (int p) (int e - 1) r \<sigma>1 = (ok (), \<sigma>2)" "quiet n (?C(?sid := w)) \<sigma>1 \<sigma>2"
      "becomes (?C ?sid) (list_of \<sigma> key) ttl (h + p) (slice xs i j) w"
      using trim_ok [OF 3(1) [unfolded pe(5)] _ store_of_less [OF plain] v _ _ _ pe(2,3) assms(8), of r] 3(2,5,6) assms(2) r(2) pe(4)
      by (auto simp: meta_rv_def)
    moreover have "0 < int (length xs)" using assms(7) by simp
    ultimately show ?case
      using r length_word [of xs h] assms(8) 3(4) pe(1)
      by (auto simp: if_there_def trim_list_def meta_rv_def sbind_def simp del: of_nat_add)
  qed simp_all
  moreover have "near h xs (h + p) (slice xs i j)" using pe(2-4) by (simp add: near_def)
  ultimately show ?thesis
    unfolding Ltrim_run_def arg_1 [OF assms(3)] int_2 [OF assms(3,4)] int_3 [OF assms(3,5)] by blast
qed

subsubsection \<open>LINSERT\<close>

lemma env_ele:
  assumes "in_txn n C v sid tid \<sigma> \<sigma>'" "shows_list v0 mk M f v" "f i = Some x"
  shows "getKV sv sid tid (list_ele mk i) \<sigma>' = (ok (ele_value x), \<sigma>')"
  using env_get [OF assms(1), of "list_ele mk i"] shows_get [OF assms(2), of i] assms(3) by (simp add: decode_encv)

lemma linsert_find_ok:
  assumes "in_txn n C v sid tid \<sigma> \<sigma>'" "shows_list v0 mk M (seg h xs) v" "h + length xs < 2 ^ 64"
    and "xs = ys @ zs" "pivot \<notin> set ys"
  shows "linsert_find sv sid tid mk pivot (of_nat (h + length ys)) (length zs) \<sigma>' =
    (ok (length xs - first_pos pivot xs, of_nat (h + first_pos pivot xs)), \<sigma>')"
  using assms(4,5)
proof (induction zs arbitrary: ys)
  case Nil
  then show ?case by (simp add: first_pos_notin)
next
  case (Cons z zs)
  have "getKV sv sid tid (list_ele mk (of_nat (h + length ys))) \<sigma>' = (ok (ele_value z), \<sigma>')"
    using seg_nth [of "length ys" xs h] assms(3) Cons.prems(1) by (intro env_ele [OF assms(1,2)]) (simp del: of_nat_add)
  moreover have "first_pos pivot xs = length ys" if "z = pivot"
    using Cons.prems that by (auto simp: first_pos_def takeWhile_append)
  moreover have "(of_nat (h + length ys) :: u64) + 1 = of_nat (h + length (ys @ [z]))" by (simp add: add.commute)
  ultimately show ?case
    using Cons.IH [of "ys @ [z]"] Cons.prems by (simp add: sbind_def ac_simps del: of_nat_add)
qed

lemma linsert_move_ok:
  assumes "in_txn n C v sid tid \<sigma> \<sigma>'" "shows_list v0 mk M f v" "list_key mk" "gap b q xs f"
    and "step = 1 \<and> q' = q + k \<and> q' \<le> length xs \<or> step = -1 \<and> q = q' + k"
  shows "\<exists>\<sigma>'' v' f'. linsert_move sv sid tid mk step (of_nat (b + q)) k \<sigma>' = (ok (of_nat (b + q')), \<sigma>'') \<and>
    in_txn n C v' sid tid \<sigma> \<sigma>'' \<and> shows_list v0 mk M f' v' \<and> gap b q' xs f'"
  using assms(1,2,4,5)
proof (induction k arbitrary: v f q \<sigma>')
  case 0
  then show ?case by auto
next
  case (Suc k)
  define q1 where "q1 = (if step = 1 then Suc q else q - 1)"
  have ql: "q \<le> length xs" using Suc.prems(3) by (simp add: gap_def)
  have q1: "step = 1 \<and> q1 = Suc q \<and> q < length xs \<or> step = -1 \<and> q = Suc q1"
    "step = 1 \<and> q' = q1 + k \<and> q' \<le> length xs \<or> step = -1 \<and> q1 = q' + k"
    using Suc.prems(4) by (auto simp: q1_def)
  have i: "(of_nat (b + q) :: u64) + step = of_nat (b + q1)" using q1(1) by auto
  define p where "p = min q q1"
  have p: "p < length xs" "q = p \<and> q1 = Suc q \<or> q = Suc q1 \<and> q1 = p" using q1(1) ql by (auto simp: p_def)
  note g = gap_move [OF Suc.prems(3) id_take_nth_drop [OF p(1)], of q1]
  have "q = length (take p xs) \<and> q1 = Suc q \<or> q = Suc q1 \<and> q1 = length (take p xs)" using p by auto
  note g = g [OF this]
  have get: "getKV sv sid tid (list_ele mk (of_nat (b + q1))) \<sigma>' = (ok (ele_value (xs ! p)), \<sigma>')"
    by (rule env_ele [OF Suc.prems(1,2) g(1)])
  obtain \<sigma>1 where 1: "setKV sv sid tid (list_ele mk (of_nat (b + q))) (ele_value (xs ! p)) \<sigma>' = (ok (), \<sigma>1)"
    "in_txn n C (v(enc (list_ele mk (of_nat (b + q))) \<mapsto> encv (ele_value (xs ! p)))) sid tid \<sigma> \<sigma>1"
    using env_set [OF Suc.prems(1), of "list_ele mk (of_nat (b + q))" "ele_value (xs ! p)"] by auto
  have "linsert_move sv sid tid mk step (of_nat (b + q)) (Suc k) \<sigma>' = linsert_move sv sid tid mk step (of_nat (b + q1)) k \<sigma>1"
    using get 1(1) by (simp add: sbind_def i del: of_nat_add)
  then show ?case
    using Suc.IH [OF 1(2) shows_set [OF Suc.prems(2) assms(3)] g(2) q1(2)] by simp
qed

lemma insert_at_ok:
  assumes t: "in_txn n C v sid tid \<sigma> \<sigma>'" and v: "list_at v mk ttl h xs" and mk: "list_key mk"
    and "k \<le> length xs" "0 < h" "h + Suc (length xs) < 2 ^ 64"
  defines "b \<equiv> (if k < length xs - k then h - 1 else h)" and "q \<equiv> (if k < length xs - k then 0 else length xs)"
    and "step \<equiv> (if k < length xs - k then 1 else -1)" and "m \<equiv> (if k < length xs - k then k else length xs - k)"
  shows "\<exists>\<sigma>1 \<sigma>2 \<sigma>3 v'. linsert_move sv sid tid mk step (of_nat (b + q)) m \<sigma>' = (ok (of_nat (b + k)), \<sigma>1) \<and>
    setKV sv sid tid (list_ele mk (of_nat (b + k))) (ele_value a) \<sigma>1 = (ok (), \<sigma>2) \<and>
    set_meta sv sid tid mk \<lparr>lm_head = of_nat b, lm_tail = of_nat (b + Suc (length xs))\<rparr> ttl old \<sigma>2 = (ok (), \<sigma>3) \<and>
    in_txn n C v' sid tid \<sigma> \<sigma>3 \<and> becomes v mk ttl b (take k xs @ a # drop k xs) v'"
proof -
  obtain M where M: "shows_list v mk M (seg h xs) v" "h + length xs < 2 ^ 64" using v by (rule list_atD)
  let ?ys = "take k xs @ a # drop k xs"
  have g: "gap b q xs (seg h xs)" using gap_left [OF M(2) assms(5)] gap_right [OF assms(6)] by (simp add: b_def q_def)
  have s: "step = 1 \<and> k = q + m \<and> k \<le> length xs \<or> step = -1 \<and> q = k + m" using assms(4) by (auto simp: step_def q_def m_def)
  from linsert_move_ok [OF t M(1) mk g s] obtain \<sigma>1 v1 f1 where
    1: "linsert_move sv sid tid mk step (of_nat (b + q)) m \<sigma>' = (ok (of_nat (b + k)), \<sigma>1)"
    "in_txn n C v1 sid tid \<sigma> \<sigma>1" "shows_list v mk M f1 v1" "gap b k xs f1" by blast
  obtain \<sigma>2 where 2: "setKV sv sid tid (list_ele mk (of_nat (b + k))) (ele_value a) \<sigma>1 = (ok (), \<sigma>2)"
    "in_txn n C (v1(enc (list_ele mk (of_nat (b + k))) \<mapsto> encv (ele_value a))) sid tid \<sigma> \<sigma>2"
    using env_set [OF 1(2), of "list_ele mk (of_nat (b + k))" "ele_value a"] by auto
  have s2: "shows_list v mk M (seg b ?ys) (v1(enc (list_ele mk (of_nat (b + k))) \<mapsto> encv (ele_value a)))"
    using shows_set [OF 1(3) mk, of "of_nat (b + k)" a] 1(4) by (simp add: gap_def)
  have l: "length ?ys = Suc (length xs)" using assms(4) by simp
  from set_meta_ok [OF 2(2) s2 mk, of ttl old, unfolded l] obtain \<sigma>3 v' rv where
    3: "set_meta sv sid tid mk \<lparr>lm_head = of_nat b, lm_tail = of_nat (b + Suc (length xs))\<rparr> ttl old \<sigma>2 = (ok (), \<sigma>3)"
    "in_txn n C v' sid tid \<sigma> \<sigma>3" "shows_list v mk (Some rv) (seg b ?ys) v'" "meta_rv ttl b ?ys rv"
    by blast
  have "b + length ?ys < 2 ^ 64" using 1(4) by (simp add: gap_def)
  from becomesI [OF 3(3) this 3(4)] show ?thesis using 1(1) 2(1) 3(1,2) by blast
qed

lemma insert_list_ok:
  assumes "live (Suc n) \<sigma>" "se_txnMap \<sigma> = []" "list_at (cv (se_stores \<sigma>) (store_of sv key)) mk ttl h xs" "list_key mk"
    and mk: "list_meta (db_of key lk) \<sigma> key = mk" and r: "meta_rv ttl h xs r"
    and "pivot \<in> set xs" "0 < h" "h + Suc (length xs) < 2 ^ 64" "length xs < 2 ^ 31 - 1"
  shows "\<exists>\<sigma>' w h'. insert_list sv key before pivot val (db_of key lk) r \<sigma> = (ok (fmtLongLong (int (Suc (length xs)))), \<sigma>') \<and>
    quiet n ((cv (se_stores \<sigma>))(store_of sv key := w)) \<sigma> \<sigma>' \<and>
    becomes (cv (se_stores \<sigma>) (store_of sv key)) mk ttl h' (inserted before pivot val xs) w \<and> near h xs h' (inserted before pivot val xs)"
proof -
  let ?C = "cv (se_stores \<sigma>)" and ?sid = "store_of sv key"
  define j where "j = first_pos pivot xs"
  define k where "k = j + (if before then 0 else 1)"
  have j: "j < length xs" "k \<le> length xs" using first_pos_in [OF assms(7)] by (auto simp: j_def k_def)
  obtain M where M: "shows_list (?C ?sid) mk M (seg h xs) (?C ?sid)" "h + length xs < 2 ^ 64" using assms(3) by (rule list_atD)
  obtain tid \<sigma>1 where 1: "SessionCtx_createTransaction sv ?sid \<sigma> = (ok tid, \<sigma>1)"
    "in_txn n ?C (?C ?sid) ?sid tid (\<sigma>\<lparr>se_txnMap := [(?sid, tid)]\<rparr>) \<sigma>1"
    using session_create [OF assms(1) store_of_less [OF plain], of key] assms(2) by auto
  have f: "linsert_find sv ?sid tid mk pivot (of_nat h) (length xs) \<sigma>1 = (ok (length xs - j, of_nat (h + j)), \<sigma>1)"
    using linsert_find_ok [OF 1(2) M, of "[]" xs pivot] by (simp add: j_def)
  define b where "b = (if k < length xs - k then h - 1 else h)"
  define q where "q = (if k < length xs - k then 0 else length xs)"
  define step where "step = (if k < length xs - k then 1 else -1 :: u64)"
  define m where "m = (if k < length xs - k then k else length xs - k)"
  from insert_at_ok [OF 1(2) assms(3,4) j(2) assms(8,9), where a = val and old = "ok r", folded b_def q_def step_def m_def]
  obtain \<sigma>2 \<sigma>3 \<sigma>4 v' where
    2: "linsert_move sv ?sid tid mk step (of_nat (b + q)) m \<sigma>1 = (ok (of_nat (b + k)), \<sigma>2)"
    "setKV sv ?sid tid (list_ele mk (of_nat (b + k))) (ele_value val) \<sigma>2 = (ok (), \<sigma>3)"
    "set_meta sv ?sid tid mk \<lparr>lm_head = of_nat b, lm_tail = of_nat (b + Suc (length xs))\<rparr> ttl (ok r) \<sigma>3 = (ok (), \<sigma>4)"
    "in_txn n ?C v' ?sid tid (\<sigma>\<lparr>se_txnMap := [(?sid, tid)]\<rparr>) \<sigma>4" "becomes (?C ?sid) mk ttl b (take k xs @ val # drop k xs) v'"
    by blast
  have "work n ?C v' ?sid tid \<sigma> \<sigma>4" using 2(4) unfolding work_def by (intro exI [of _ "?C ?sid"]) simp
  from work_commit [OF this assms(2)] obtain c \<sigma>5 where
    5: "SessionCtx_commitTransaction sv ?sid tid \<sigma>4 = (ok c, \<sigma>5)" "quiet n (?C(?sid := v')) \<sigma> \<sigma>5" by blast
  have len: "unat (of_nat (h + length xs) - of_nat h :: u64) = length xs" using M(2) by (simp add: unat_of_nat64)
  have le: "to_int32 (of_nat (h + j) - of_nat h) + (if before then 0 else 1) = int k"
    using to_int32_small [of j] j assms(10) by (simp add: k_def)
  have e: "of_nat (h + length xs) - of_nat (h + j) - 1 = (of_nat (length xs - j - 1) :: u64)"
    using j(1) by (simp add: of_nat_diff)
  have "to_int32 (of_nat (h + length xs) - of_nat (h + j) - 1) = int (length xs - j - 1)"
    unfolding e using assms(10) by (intro to_int32_small) simp
  then have re: "to_int32 (of_nat (h + length xs) - of_nat (h + j) - 1) + (if before then 1 else 0) = int (length xs - k)"
    using j by (simp add: k_def del: of_nat_add)
  have sel: "(if k < length xs - k then (1, of_nat h - 1, of_nat (h + length xs), of_nat h - 1, int k)
      else (-1, of_nat h, of_nat (h + length xs) + 1, of_nat (h + length xs), int (length xs - k))) =
      (step, of_nat b :: u64, of_nat (b + Suc (length xs)) :: u64, of_nat (b + q) :: u64, int m)"
    using assms(8) by (auto simp: step_def b_def q_def m_def of_nat_diff)
  have rep: "sint (of_nat (Suc (b + length xs)) - of_nat b :: u64) = int (Suc (length xs))"
    using length_word [of "() # map (\<lambda>_. ()) xs" b] assms(10) by simp
  have "insert_list sv key before pivot val (db_of key lk) r \<sigma> = (ok (fmtLongLong (int (Suc (length xs)))), \<sigma>5)"
    using r 1(1) f 2(1-3) 5(1) j(1)
    by (simp add: insert_list_def mk meta_rv_def sbind_def Let_def len le re sel rep del: of_nat_add of_nat_Suc split del: if_split cong: if_cong)
  moreover have "take k xs @ val # drop k xs = inserted before pivot val xs" by (simp add: inserted_def k_def j_def Let_def)
  moreover have "near h xs b (take k xs @ val # drop k xs)" using j(2) assms(8) by (simp add: near_def b_def)
  ultimately show ?thesis using 5(2) 2(5) by auto
qed

lemma arg_4: "se_args \<sigma> = c # key # a # b # d # as \<Longrightarrow> sbind (arg 4) g \<sigma> = g d \<sigma>"
  by (simp add: arg_def sbind_def eval_nat_numeral)

lemma linsert_ok:
  assumes "live (Suc (Suc n)) \<sigma>" "se_txnMap \<sigma> = []" "se_args \<sigma> = c # key # place # pivot # val # as"
    and "before \<and> strcaseeq place ''before'' \<or> \<not> before \<and> strcaseeq place ''after''" "sees \<sigma> key ttl h xs"
    and "pivot \<in> set xs" "0 < h" "h + Suc (length xs) < 2 ^ 64" "length xs < 2 ^ 31 - 1"
  shows "\<exists>\<sigma>' w h'. LInsert_run sv \<sigma> = (ok (fmtLongLong (int (Suc (length xs)))), \<sigma>') \<and>
    quiet n ((cv (se_stores \<sigma>))(store_of sv key := w)) \<sigma> \<sigma>' \<and>
    becomes (cv (se_stores \<sigma>) (store_of sv key)) (list_of \<sigma> key) ttl h' (inserted before pivot val xs) w \<and> near h xs h' (inserted before pivot val xs)"
proof -
  let ?C = "cv (se_stores \<sigma>)" and ?sid = "store_of sv key"
  have e: "str ''before'' \<noteq> str ''after''" by (simp add: str_def)
  then have p: "strcaseeq place ''before'' = before" "strcaseeq place ''before'' \<or> strcaseeq place ''after''"
    using assms(4) by (auto simp: strcaseeq_def)
  have "\<exists>\<sigma>' w. locked_list sv LOCK_X key (\<lambda>db rv. if_there (sret fmtZero) rv (insert_list sv key before pivot val db)) \<sigma> =
      (ok (fmtLongLong (int (Suc (length xs)))), \<sigma>') \<and>
    quiet n (?C(?sid := w)) \<sigma> \<sigma>' \<and> (\<exists>h'. becomes (?C ?sid) (list_of \<sigma> key) ttl h' (inserted before pivot val xs) w \<and>
      near h xs h' (inserted before pivot val xs))"
  proof (rule locked_list_ok [OF assms(1,5) _ _ scoped_quiet], goal_cases)
    case (3 lk rv \<sigma>1)
    then obtain r where r: "rv = ok r" "meta_rv ttl h xs r" using assms(6) by (auto simp: found_def split: if_split_asm)
    have v: "list_at (cv (se_stores \<sigma>1) ?sid) (list_of \<sigma> key) ttl h xs" "list_key (list_of \<sigma> key)" "se_txnMap \<sigma>1 = []"
      using assms(2,5) 3(2,5) by (simp_all add: sees_def)
    show ?case
      using insert_list_ok [OF 3(1) v(3,1,2) 3(4) r(2) assms(6-9), of before val] 3(2) r(1) by (auto simp: if_there_def)
  qed simp_all
  then show ?thesis
    unfolding LInsert_run_def arg_1 [OF assms(3)] arg_2 [OF assms(3)] arg_3 [OF assms(3)] arg_4 [OF assms(3)] p(1)
    using p(2) by (auto simp: p(1))
qed

end

end
