(* ===== verification/ListRem.thy ===== *)
theory ListRem
  imports ListSpec "HOL-Library.Multiset"
begin

section \<open>LREM on reliable stores\<close>

text \<open>
  LREM deletes the occurrences and closes the holes by moving the blocks on both sides of the longest block
  towards it. The blocks between the holes, in order, are the list without the occurrences; the moves put
  them side by side.
\<close>

subsection \<open>Specification\<close>

text \<open>Without the first \<open>n\<close> occurrences, all of them for 0.\<close>

fun drop_occ :: "nat \<Rightarrow> 'a \<Rightarrow> 'a list \<Rightarrow> 'a list" where
  "drop_occ n x [] = []"
| "drop_occ n x (y # ys) =
    (if y = x then if n = 1 then ys else drop_occ (n - 1) x ys else y # drop_occ n x ys)"

definition removed :: "int \<Rightarrow> 'a \<Rightarrow> 'a list \<Rightarrow> 'a list" where
  "removed cnt x xs =
    (if cnt < 0 then rev (drop_occ (nat (- cnt)) x (rev xs)) else drop_occ (nat cnt) x xs)"

text \<open>The blocks between the occurrences that go, and the holes around them from index \<open>s\<close> on.\<close>

fun blocks :: "nat \<Rightarrow> 'a \<Rightarrow> 'a list \<Rightarrow> 'a list list" where
  "blocks n x [] = [[]]"
| "blocks n x (y # ys) =
    (if y = x then if n = 1 then [[], ys] else [] # blocks (n - 1) x ys
     else (y # hd (blocks n x ys)) # tl (blocks n x ys))"

definition blocks_r :: "nat \<Rightarrow> 'a \<Rightarrow> 'a list \<Rightarrow> 'a list list" where
  "blocks_r n x xs = map rev (rev (blocks n x (rev xs)))"

primrec holes_of :: "nat \<Rightarrow> 'a list list \<Rightarrow> nat list" where
  "holes_of s [] = [s]"
| "holes_of s (b # bs) = s # holes_of (s + 1 + length b) bs"

lemma blocks_neq [simp]: "blocks n x xs \<noteq> []"
  by (cases xs) auto

lemma hd_concat_tl [simp]: "bs \<noteq> [] \<Longrightarrow> hd bs @ concat (tl bs) = concat bs"
  by (cases bs) auto

lemma concat_blocks: "concat (blocks n x xs) = drop_occ n x xs"
  by (induction n x xs rule: drop_occ.induct) auto

lemma blocks_r_simps:
  "blocks_r n x [] = [[]]"
  "blocks_r n x (ys @ [y]) = (if y = x then if n = 1 then [ys, []] else blocks_r (n - 1) x ys @ [[]]
     else butlast (blocks_r n x ys) @ [last (blocks_r n x ys) @ [y]])"
proof -
  show "blocks_r n x [] = [[]]" by (simp add: blocks_r_def)
  have "map rev (rev (b # bs)) = map rev (rev bs) @ [rev b]" for b :: "'a list" and bs by simp
  then show "blocks_r n x (ys @ [y]) = (if y = x then if n = 1 then [ys, []] else blocks_r (n - 1) x ys @ [[]]
     else butlast (blocks_r n x ys) @ [last (blocks_r n x ys) @ [y]])"
    using blocks_neq [of n x "rev ys"] by (cases "blocks n x (rev ys)") (auto simp: blocks_r_def)
qed

lemma blocks_r_neq [simp]: "blocks_r n x xs \<noteq> []"
  by (simp add: blocks_r_def)

lemma concat_blocks_r: "concat (blocks_r n x xs) = rev (drop_occ n x (rev xs))"
  by (simp add: blocks_r_def rev_concat [symmetric] concat_blocks rev_map)

lemma length_blocks: "length (blocks n x xs) + length (drop_occ n x xs) = Suc (length xs)"
  by (induction n x xs rule: drop_occ.induct) auto

lemma holes_neq [simp]: "holes_of s bs \<noteq> []"
  by (cases bs) auto

lemma holes_last: "last (holes_of s bs) = s + length bs + length (concat bs)"
  by (induction bs arbitrary: s) auto

lemma length_holes [simp]: "length (holes_of s bs) = Suc (length bs)"
  by (induction bs arbitrary: s) auto

lemma holes_hd [simp]: "hd (holes_of s bs) = s"
  by (cases bs) auto

lemma holes_append: "holes_of s (bs @ cs) = butlast (holes_of s bs) @ holes_of (last (holes_of s bs)) cs"
  by (induction bs arbitrary: s) auto

lemma holes_ge: "t \<in> set (holes_of s bs) \<Longrightarrow> s \<le> t"
  by (induction bs arbitrary: s) (auto, metis Suc_leD add_leD1)

lemma holes_sorted: "sorted (holes_of s bs)"
  by (induction bs arbitrary: s) (auto dest!: holes_ge)

text \<open>The cells \<open>f\<close> hold \<open>ys\<close> from index \<open>j\<close> on; they hold the blocks between the holes.\<close>

definition holds :: "(u64 \<rightharpoonup> 'a) \<Rightarrow> nat \<Rightarrow> 'a list \<Rightarrow> bool" where
  "holds f j ys \<longleftrightarrow> (\<forall>i<length ys. f (of_nat (j + i)) = Some (ys ! i))"

primrec hold_blocks :: "(u64 \<rightharpoonup> 'a) \<Rightarrow> nat \<Rightarrow> 'a list list \<Rightarrow> bool" where
  "hold_blocks f s [] = True"
| "hold_blocks f s (b # bs) = (holds f (s + 1) b \<and> hold_blocks f (s + 1 + length b) bs)"

definition place :: "nat \<Rightarrow> 'a list \<Rightarrow> (u64 \<rightharpoonup> 'a) \<Rightarrow> u64 \<rightharpoonup> 'a" where
  "place j ys f w = (if j \<le> unat w \<and> unat w < j + length ys then Some (ys ! (unat w - j)) else f w)"

lemma holds_Nil [simp]: "holds f j []"
  by (simp add: holds_def)

lemma holds_append: "holds f j (ys @ zs) \<longleftrightarrow> holds f j ys \<and> holds f (j + length ys) zs"
proof -
  have "(\<forall>i<m + n. P i) \<longleftrightarrow> (\<forall>i<m. P i) \<and> (\<forall>i<n. P (m + i))" for m n :: nat and P
    by (metis add_less_cancel_left le_add_diff_inverse not_less trans_less_add1)
  from this [of "length ys" "length zs"] show ?thesis
    by (simp add: holds_def nth_append add.assoc del: of_nat_add)
qed

lemma holds_single: "holds f j [y] \<longleftrightarrow> f (of_nat j) = Some y"
  by (simp add: holds_def)

lemma hold_blocks_append:
  "hold_blocks f s (bs @ cs) \<longleftrightarrow> hold_blocks f s bs \<and> hold_blocks f (last (holes_of s bs)) cs"
  by (induction bs arbitrary: s) auto

lemma holds_cong: "(\<And>i. j \<le> i \<Longrightarrow> i < j + length ys \<Longrightarrow> f (of_nat i) = g (of_nat i)) \<Longrightarrow> holds f j ys = holds g j ys"
  by (auto simp: holds_def simp del: of_nat_add)

lemma hold_blocks_cong:
  "(\<And>i. s < i \<Longrightarrow> i < last (holes_of s bs) \<Longrightarrow> f (of_nat i) = g (of_nat i)) \<Longrightarrow> hold_blocks f s bs = hold_blocks g s bs"
proof (induction bs arbitrary: s)
  case (Cons b bs)
  have "holds f (s + 1) b = holds g (s + 1) b"
    by (rule holds_cong) (use Cons.prems in \<open>simp add: holes_last\<close>)
  moreover have "hold_blocks f (s + 1 + length b) bs = hold_blocks g (s + 1 + length b) bs"
    by (rule Cons.IH) (use Cons.prems in \<open>simp add: holes_last\<close>)
  ultimately show ?case by simp
qed simp

lemma hold_blocks_cong_holes:
  "(\<And>i. s < i \<Longrightarrow> i < last (holes_of s bs) \<Longrightarrow> i \<notin> set (holes_of s bs) \<Longrightarrow> f (of_nat i) = g (of_nat i)) \<Longrightarrow>
    hold_blocks f s bs = hold_blocks g s bs"
proof (induction bs arbitrary: s)
  case (Cons b bs)
  have "holds f (s + 1) b = holds g (s + 1) b"
  proof (rule holds_cong)
    fix i assume i: "s + 1 \<le> i" "i < s + 1 + length b"
    then have "i \<notin> set (holes_of (s + 1 + length b) bs)" using holes_ge [of i "s + 1 + length b" bs] by auto
    then show "f (of_nat i) = g (of_nat i)" using Cons.prems [of i] i by (simp add: holes_last)
  qed
  moreover have "hold_blocks f (s + 1 + length b) bs = hold_blocks g (s + 1 + length b) bs"
    by (rule Cons.IH) (use Cons.prems in \<open>auto simp: holes_last\<close>)
  ultimately show ?case by simp
qed simp

text \<open>The blocks with \<open>x\<close> in the holes are the list before.\<close>

fun join :: "'a \<Rightarrow> 'a list list \<Rightarrow> 'a list" where
  "join x [] = []"
| "join x [b] = b"
| "join x (b # c # bs) = b @ x # join x (c # bs)"

lemma join_Cons: "bs \<noteq> [] \<Longrightarrow> join x (b # bs) = b @ x # join x bs"
  by (cases bs) auto

lemma join_snoc: "bs \<noteq> [] \<Longrightarrow> join x (bs @ [b]) = join x bs @ x # b"
  by (induction x bs rule: join.induct) (auto simp: join_Cons)

lemma join_hd: "bs \<noteq> [] \<Longrightarrow> join x ((z # hd bs) # tl bs) = z # join x bs"
  by (cases bs; cases "tl bs") auto

lemma join_blocks: "join x (blocks n x xs) = xs"
  by (induction n x xs rule: blocks.induct) (auto simp: join_Cons join_hd)

lemma join_rev: "join x (map rev (rev bs)) = rev (join x bs)"
proof (induction bs)
  case (Cons b bs)
  then show ?case by (cases "bs = []") (auto simp: join_snoc join_Cons)
qed simp

lemma join_blocks_r: "join x (blocks_r n x xs) = xs"
  using join_blocks [of x n "rev xs"] by (simp add: blocks_r_def join_rev)

lemma holds_Cons: "holds f j (y # ys) \<longleftrightarrow> f (of_nat j) = Some y \<and> holds f (Suc j) ys"
  using holds_append [of f j "[y]" ys] by (simp add: holds_single)

lemma hold_join: "holds f (Suc j) (join x bs) \<Longrightarrow> hold_blocks f j bs"
proof (induction bs arbitrary: j)
  case (Cons b bs)
  then show ?case using Cons.IH [of "Suc (j + length b)"] by (cases "bs = []") (auto simp: join_Cons holds_append holds_Cons)
qed simp

lemma holes_join: "bs \<noteq> [] \<Longrightarrow> last (holes_of j bs) = Suc j + length (join x bs)"
  by (induction x bs arbitrary: j rule: join.induct) (auto simp: holes_last)

lemma many_blocks: "x \<in> set xs \<Longrightarrow> 1 < length (blocks n x xs)" "x \<in> set xs \<Longrightarrow> 1 < length (blocks_r n x xs)"
proof -
  show b: "1 < length (blocks n x xs)" if "x \<in> set xs" for xs :: "'a list"
    using that by (induction n x xs rule: blocks.induct) (auto simp: neq_Nil_conv)
  show "1 < length (blocks_r n x xs)" if "x \<in> set xs"
    using b [of "rev xs"] that by (simp add: blocks_r_def)
qed

lemma std_sort_less: "std_sort (<) xs = sort (xs :: 'a :: linorder list)"
proof -
  have "sort_ins (<) x ys = insort x ys" for x :: 'a and ys
    by (induction ys) auto
  then have "sort_ins (<) = (insort :: 'a \<Rightarrow> _)" by (intro ext)
  then show ?thesis by (simp add: std_sort_def sort_key_def)
qed

lemma place_at: "j + length ys \<le> 2 ^ 64 \<Longrightarrow> j \<le> i \<Longrightarrow> i < j + length ys \<Longrightarrow> place j ys f (of_nat i) = Some (ys ! (i - j))"
  and place_off: "i < 2 ^ 64 \<Longrightarrow> i < j \<or> j + length ys \<le> i \<Longrightarrow> place j ys f (of_nat i) = f (of_nat i)"
  using unat_of_nat64 [of i] by (auto simp: place_def)

lemma holds_place: "j + length ys \<le> 2 ^ 64 \<Longrightarrow> holds (place j ys f) j ys"
  using place_at [of j ys _ f] by (auto simp: holds_def simp del: of_nat_add)

lemma place_last:
  assumes "j + length ys < 2 ^ 64"
  shows "place j ys (f(of_nat (j + length ys) \<mapsto> y)) = place j (ys @ [y]) f"
proof
  fix w :: u64
  have "w = of_nat (j + length ys) \<longleftrightarrow> unat w = j + length ys" by (rule eq_of_nat64 [OF assms])
  then show "place j ys (f(of_nat (j + length ys) \<mapsto> y)) w = place j (ys @ [y]) f w"
    by (auto simp: place_def nth_append)
qed

lemma place_first:
  assumes "j < 2 ^ 64"
  shows "place (Suc j) ys (f(of_nat j \<mapsto> y)) = place j (y # ys) f"
proof
  fix w :: u64
  have "w = of_nat j \<longleftrightarrow> unat w = j" by (rule eq_of_nat64 [OF assms])
  then show "place (Suc j) ys (f(of_nat j \<mapsto> y)) w = place j (y # ys) f w"
    by (auto simp: place_def nth_Cons')
qed

lemma place_Nil [simp]: "place j [] f = f"
  by (auto simp: place_def fun_eq_iff)

lemma place_place:
  "k = j + length ys \<Longrightarrow> place j ys (place k zs f) = place j (ys @ zs) f"
  "k = j + length ys \<Longrightarrow> place k zs (place j ys f) = place j (ys @ zs) f"
  by (auto simp: place_def fun_eq_iff nth_append)

lemma holes_le: "t \<in> set (holes_of s bs) \<Longrightarrow> t \<le> last (holes_of s bs)"
  by (induction bs arbitrary: s) (auto simp: holes_last, fastforce)

lemma holes_split: "holes_of s (as @ b # cs) = holes_of s as @ holes_of (last (holes_of s as) + 1 + length b) cs"
  by (induction as arbitrary: s) auto

lemma holes_grow:
  "bs \<noteq> [] \<Longrightarrow> holes_of s (butlast bs @ [last bs @ [y]]) = butlast (holes_of s bs) @ [Suc (last (holes_of s bs))]"
  by (cases bs rule: rev_cases) (simp_all add: holes_split)

definition rem_blocks :: "int \<Rightarrow> 'a \<Rightarrow> 'a list \<Rightarrow> 'a list list" where
  "rem_blocks cnt x xs = (if cnt < 0 then blocks_r (nat \<bar>cnt\<bar>) x xs else blocks (nat \<bar>cnt\<bar>) x xs)"

lemma rem_blocks_facts:
  "rem_blocks cnt x xs \<noteq> []" "join x (rem_blocks cnt x xs) = xs" "concat (rem_blocks cnt x xs) = removed cnt x xs"
  "x \<in> set xs \<Longrightarrow> 1 < length (rem_blocks cnt x xs)"
  "length (rem_blocks cnt x xs) + length (removed cnt x xs) = Suc (length xs)"
proof -
  show "rem_blocks cnt x xs \<noteq> []" "join x (rem_blocks cnt x xs) = xs" "x \<in> set xs \<Longrightarrow> 1 < length (rem_blocks cnt x xs)"
    by (cases "cnt < 0"; simp add: rem_blocks_def join_blocks join_blocks_r many_blocks [unfolded One_nat_def])+
  show "concat (rem_blocks cnt x xs) = removed cnt x xs"
    by (simp add: rem_blocks_def removed_def concat_blocks concat_blocks_r)
  show "length (rem_blocks cnt x xs) + length (removed cnt x xs) = Suc (length xs)"
    using length_blocks [of "nat (- cnt)" x "rev xs"] length_blocks [of "nat cnt" x xs]
    by (simp add: rem_blocks_def removed_def blocks_r_def)
qed

definition dele :: "nat set \<Rightarrow> (u64 \<rightharpoonup> 'a) \<Rightarrow> u64 \<rightharpoonup> 'a" where
  "dele ps f w = (if unat w \<in> ps then None else f w)"

lemma dele_empty [simp]: "dele {} f = f"
  by (simp add: dele_def fun_eq_iff)

lemma dele_upd: "i < 2 ^ 64 \<Longrightarrow> dele ps (f(of_nat i := None)) = dele (insert i ps) f"
  by (auto simp: dele_def fun_eq_iff eq_of_nat64)

subsection \<open>Moves\<close>

context cmd_env
begin

lemma move_down_ok:
  assumes "in_txn n C v sid tid \<sigma> \<sigma>'" "shows_list v0 mk M f v" "list_key mk"
    and "holds f (a + 1) ys" "a + length ys \<le> d" "d < 2 ^ 64"
  shows "\<exists>\<sigma>'' v'. move_down sv sid tid mk (of_nat (a + length ys)) (of_nat a) (of_nat d) \<sigma>' =
      (ok (of_nat (d - length ys)), \<sigma>'') \<and> in_txn n C v' sid tid \<sigma> \<sigma>'' \<and>
    shows_list v0 mk M (place (d + 1 - length ys) ys f) v'"
  using assms(1,2,4-6)
proof (induction ys arbitrary: v f d \<sigma>' rule: rev_induct)
  case Nil
  then show ?case by (subst move_down.simps) auto
next
  case (snoc y ys)
  let ?p = "a + length (ys @ [y])"
  have p: "?p = a + 1 + length ys" by simp
  have hs: "holds f (a + 1) ys" "f (of_nat ?p) = Some y"
    using snoc.prems(3) unfolding p holds_append holds_single by simp_all
  have lt: "(of_nat a :: u64) < of_nat ?p" using snoc.prems(4,5) by (subst of_nat64_less) auto
  have pr: "(of_nat ?p :: u64) - 1 = of_nat (a + length ys)" "(of_nat d :: u64) - 1 = of_nat (d - 1)"
    using of_nat_pred [of ?p] of_nat_pred [of d] snoc.prems(4) by simp_all
  have g: "getKV sv sid tid (list_ele mk (of_nat ?p)) \<sigma>' = (ok (ele_value y), \<sigma>')"
    by (rule env_ele [OF snoc.prems(1,2) hs(2)])
  obtain \<sigma>1 where 1: "setKV sv sid tid (list_ele mk (of_nat d)) (ele_value y) \<sigma>' = (ok (), \<sigma>1)"
    "in_txn n C (v(enc (list_ele mk (of_nat d)) \<mapsto> encv (ele_value y))) sid tid \<sigma> \<sigma>1"
    using env_set [OF snoc.prems(1), of "list_ele mk (of_nat d)" "ele_value y"] by auto
  have h1: "holds (f(of_nat d \<mapsto> y)) (a + 1) ys"
    using hs(1) snoc.prems(4,5) by (subst holds_cong [where g = f]) (auto simp: of_nat64_inj)
  have st: "move_down sv sid tid mk (of_nat ?p) (of_nat a) (of_nat d) \<sigma>' =
      move_down sv sid tid mk (of_nat (a + length ys)) (of_nat a) (of_nat (d - 1)) \<sigma>1"
    using g 1(1) lt pr by (subst move_down.simps) (simp add: sbind_def del: of_nat_add)
  have pl: "place (d + 1 - length (ys @ [y])) (ys @ [y]) f = place (d - 1 + 1 - length ys) ys (f(of_nat d \<mapsto> y))"
    "d - length (ys @ [y]) = d - 1 - length ys"
    using place_last [of "d - length ys" ys f y] snoc.prems(4,5) by simp_all
  show ?case unfolding st pl
    by (rule snoc.IH [OF 1(2) shows_set [OF snoc.prems(2) assms(3)] h1]) (use snoc.prems(4,5) in simp_all)
qed

lemma move_up_ok:
  assumes "in_txn n C v sid tid \<sigma> \<sigma>'" "shows_list v0 mk M f v" "list_key mk"
    and "holds f (a + 1) ys" "d \<le> a + 1" "a + 1 + length ys < 2 ^ 64"
  shows "\<exists>\<sigma>'' v'. move_up sv sid tid mk (of_nat (a + 1)) (of_nat (a + 1 + length ys)) (of_nat d) \<sigma>' =
      (ok (of_nat (d + length ys)), \<sigma>'') \<and> in_txn n C v' sid tid \<sigma> \<sigma>'' \<and> shows_list v0 mk M (place d ys f) v'"
  using assms(1,2,4-6)
proof (induction ys arbitrary: v f a d \<sigma>')
  case Nil
  then show ?case by (subst move_up.simps) auto
next
  case (Cons y ys)
  let ?p = "a + 1" and ?e = "a + 1 + length (y # ys)"
  have "holds f ?p ([y] @ ys)" using Cons.prems(3) by simp
  then have hs: "f (of_nat ?p) = Some y" "holds f (?p + 1) ys" unfolding holds_append holds_single by simp_all
  have lt: "(of_nat ?p :: u64) < of_nat ?e" using Cons.prems(5) by (subst of_nat64_less) auto
  have sc: "(of_nat ?p :: u64) + 1 = of_nat (?p + 1)" "(of_nat d :: u64) + 1 = of_nat (Suc d)" "?p + 1 + length ys = ?e" by simp_all
  have g: "getKV sv sid tid (list_ele mk (of_nat ?p)) \<sigma>' = (ok (ele_value y), \<sigma>')"
    by (rule env_ele [OF Cons.prems(1,2) hs(1)])
  obtain \<sigma>1 where 1: "setKV sv sid tid (list_ele mk (of_nat d)) (ele_value y) \<sigma>' = (ok (), \<sigma>1)"
    "in_txn n C (v(enc (list_ele mk (of_nat d)) \<mapsto> encv (ele_value y))) sid tid \<sigma> \<sigma>1"
    using env_set [OF Cons.prems(1), of "list_ele mk (of_nat d)" "ele_value y"] by auto
  have h1: "holds (f(of_nat d \<mapsto> y)) (?p + 1) ys"
    using hs(2) Cons.prems(4,5) by (subst holds_cong [where g = f]) (auto simp: of_nat64_inj)
  have st: "move_up sv sid tid mk (of_nat ?p) (of_nat ?e) (of_nat d) \<sigma>' =
      move_up sv sid tid mk (of_nat (?p + 1)) (of_nat (?p + 1 + length ys)) (of_nat (Suc d)) \<sigma>1"
    unfolding sc(3) using g 1(1) lt sc(1,2) by (subst move_up.simps) (simp add: sbind_def del: of_nat_add of_nat_Suc)
  have pl: "place d (y # ys) f = place (Suc d) ys (f(of_nat d \<mapsto> y))" "d + length (y # ys) = Suc d + length ys"
    using place_first [of d ys f y] Cons.prems(4,5) by simp_all
  show ?case unfolding st pl
    by (rule Cons.IH [OF 1(2) shows_set [OF Cons.prems(2) assms(3)] h1]) (use Cons.prems(4,5) in simp_all)
qed

lemma shift_left_ok:
  assumes "in_txn n C v sid tid \<sigma> \<sigma>'" "shows_list v0 mk M f v" "list_key mk"
    and "hold_blocks f s bs" "last (holes_of s bs) \<le> d" "d < 2 ^ 64"
  shows "\<exists>\<sigma>'' v'. shift_left_part sv sid tid mk (rev (map of_nat (holes_of s bs))) (of_nat d) \<sigma>' =
      (ok (of_nat (d - length (concat bs))), \<sigma>'') \<and> in_txn n C v' sid tid \<sigma> \<sigma>'' \<and>
    shows_list v0 mk M (place (d + 1 - length (concat bs)) (concat bs) f) v'"
  using assms(1,2,4-6)
proof (induction bs arbitrary: v f d \<sigma>' rule: rev_induct)
  case Nil
  then show ?case by auto
next
  case (snoc b bs)
  let ?a = "last (holes_of s bs)"
  have hb: "hold_blocks f s bs" "holds f (?a + 1) b" using snoc.prems(3) by (simp_all add: hold_blocks_append)
  have ad: "?a + length b < d" using snoc.prems(4) by (simp add: holes_append)
  then have ad': "?a + length b \<le> d" by simp
  obtain \<sigma>1 v1 where 1: "move_down sv sid tid mk (of_nat (?a + length b)) (of_nat ?a) (of_nat d) \<sigma>' = (ok (of_nat (d - length b)), \<sigma>1)"
    "in_txn n C v1 sid tid \<sigma> \<sigma>1" "shows_list v0 mk M (place (d + 1 - length b) b f) v1"
    using move_down_ok [OF snoc.prems(1,2) assms(3) hb(2) ad' snoc.prems(5)] by blast
  have h1: "hold_blocks (place (d + 1 - length b) b f) s bs"
    using hb(1) ad snoc.prems(5) by (subst hold_blocks_cong [where g = f]) (auto simp: place_off)
  have hl: "rev (map of_nat (holes_of s (bs @ [b]))) =
      of_nat (?a + 1 + length b) # of_nat ?a # tl (rev (map of_nat (holes_of s bs)) :: u64 list)"
    "of_nat ?a # tl (rev (map of_nat (holes_of s bs)) :: u64 list) = rev (map of_nat (holes_of s bs))"
    by (cases "holes_of s bs" rule: rev_cases; simp add: holes_append)+
  have p: "(of_nat (?a + 1 + length b) :: u64) - 1 = of_nat (?a + length b)" by simp
  have st: "shift_left_part sv sid tid mk (rev (map of_nat (holes_of s (bs @ [b])))) (of_nat d) \<sigma>' =
      shift_left_part sv sid tid mk (rev (map of_nat (holes_of s bs))) (of_nat (d - length b)) \<sigma>1"
    by (subst hl(1), subst shift_left_part.simps(1), subst hl(2), subst p) (simp add: sbind_def 1(1) del: of_nat_add)
  have pl: "place (d + 1 - length (concat (bs @ [b]))) (concat (bs @ [b])) f =
      place (d - length b + 1 - length (concat bs)) (concat bs) (place (d + 1 - length b) b f)"
    "d - length (concat (bs @ [b])) = d - length b - length (concat bs)"
    using ad by (simp_all add: place_place(1) holes_last add.commute)
  show ?case unfolding st pl
    by (rule snoc.IH [OF 1(2,3) h1]) (use ad snoc.prems(5) in simp_all)
qed

lemma shift_right_ok:
  assumes "in_txn n C v sid tid \<sigma> \<sigma>'" "shows_list v0 mk M f v" "list_key mk"
    and "hold_blocks f s bs" "d \<le> s" "last (holes_of s bs) < 2 ^ 64"
  shows "\<exists>\<sigma>'' v'. shift_right_part sv sid tid mk (map of_nat (holes_of s bs)) (of_nat d) \<sigma>' =
      (ok (of_nat (d + length (concat bs))), \<sigma>'') \<and> in_txn n C v' sid tid \<sigma> \<sigma>'' \<and>
    shows_list v0 mk M (place d (concat bs) f) v'"
  using assms(1,2,4-6)
proof (induction bs arbitrary: v f s d \<sigma>')
  case Nil
  then show ?case by auto
next
  case (Cons b bs)
  let ?s = "s + 1 + length b"
  have e: "last (holes_of s (b # bs)) = last (holes_of ?s bs)" "?s \<le> last (holes_of ?s bs)" by (simp_all add: holes_last)
  have l: "d \<le> s + 1" "?s < 2 ^ 64" using Cons.prems(4,5) e by simp_all
  obtain \<sigma>1 v1 where 1: "move_up sv sid tid mk (of_nat (s + 1)) (of_nat ?s) (of_nat d) \<sigma>' = (ok (of_nat (d + length b)), \<sigma>1)"
    "in_txn n C v1 sid tid \<sigma> \<sigma>1" "shows_list v0 mk M (place d b f) v1"
    using move_up_ok [OF Cons.prems(1,2) assms(3) _ l] Cons.prems(3) by (simp del: of_nat_add) blast
  have h1: "hold_blocks (place d b f) ?s bs"
    using Cons.prems(3-5) e(1) by (subst hold_blocks_cong [where g = f]) (auto simp: place_off)
  have hl: "map of_nat (holes_of s (b # bs)) = of_nat s # of_nat ?s # tl (map of_nat (holes_of ?s bs) :: u64 list)"
    "of_nat ?s # tl (map of_nat (holes_of ?s bs) :: u64 list) = map of_nat (holes_of ?s bs)"
    by (cases bs; simp)+
  have st: "shift_right_part sv sid tid mk (map of_nat (holes_of s (b # bs))) (of_nat d) \<sigma>' =
      shift_right_part sv sid tid mk (map of_nat (holes_of ?s bs)) (of_nat (d + length b)) \<sigma>1"
    by (subst hl(1), subst shift_right_part.simps(1), subst hl(2), subst of_nat_succ)
      (use 1(1) in \<open>simp add: sbind_def del: of_nat_add of_nat_Suc\<close>)
  have pl: "place d (concat (b # bs)) f = place (d + length b) (concat bs) (place d b f)"
    "d + length (concat (b # bs)) = d + length b + length (concat bs)"
    by (simp_all add: place_place(2))
  show ?case unfolding st pl
    by (rule Cons.IH [OF 1(2,3) h1]) (use Cons.prems(4,5) e in simp_all)
qed

lemma without_same [simp]: "without i i f = f"
  by (rule ext) (auto simp: without_def)

lemma without_last: "j < 2 ^ 64 \<Longrightarrow> i \<le> j \<Longrightarrow> without i j (f(of_nat j := None)) = without i (Suc j) f"
  by (rule ext) (auto simp: without_def eq_of_nat64)

lemma del_outside_tail:
  assumes "in_txn n C v sid tid \<sigma> \<sigma>'" "shows_list v0 mk M f v" "list_key mk" "c + k < 2 ^ 64"
  shows "\<exists>\<sigma>'' v'. del_outside sv sid tid mk b b (of_nat (c + k)) (of_nat c) \<sigma>' = (ok (), \<sigma>'') \<and>
    in_txn n C v' sid tid \<sigma> \<sigma>'' \<and> shows_list v0 mk M (without c (c + k) f) v'"
  using assms(1,2,4)
proof (induction k arbitrary: v f \<sigma>')
  case 0
  then show ?case by (subst del_outside.simps) auto
next
  case (Suc k)
  let ?e = "list_ele mk (of_nat (c + k))"
  have ne: "(of_nat (c + Suc k) :: u64) \<noteq> of_nat c" "(of_nat (c + Suc k) :: u64) - 1 = of_nat (c + k)"
    using Suc.prems(3) by (simp_all add: of_nat64_inj del: of_nat_add of_nat_Suc) simp
  obtain \<sigma>1 where 1: "delKV sv sid tid ?e \<sigma>' = (ok (), \<sigma>1)" "in_txn n C (v(enc ?e := None)) sid tid \<sigma> \<sigma>1"
    using env_del [OF Suc.prems(1), of ?e] by auto
  have st: "del_outside sv sid tid mk b b (of_nat (c + Suc k)) (of_nat c) \<sigma>' = del_outside sv sid tid mk b b (of_nat (c + k)) (of_nat c) \<sigma>1"
    using 1(1) ne by (subst del_outside.simps) (simp add: sbind_def del: of_nat_add of_nat_Suc)
  have w: "without c (c + Suc k) f = without c (c + k) (f(of_nat (c + k) := None))"
    using without_last [of "c + k" c f] Suc.prems(3) by simp
  show ?case unfolding st w
    by (rule Suc.IH [OF 1(2) shows_del [OF Suc.prems(2) assms(3)]]) (use Suc.prems(3) in simp)
qed

lemma del_outside_ok:
  assumes "in_txn n C v sid tid \<sigma> \<sigma>'" "shows_list v0 mk M f v" "list_key mk" "a + m < 2 ^ 64" "c + k < 2 ^ 64"
  shows "\<exists>\<sigma>'' v'. del_outside sv sid tid mk (of_nat a) (of_nat (a + m)) (of_nat (c + k)) (of_nat c) \<sigma>' = (ok (), \<sigma>'') \<and>
    in_txn n C v' sid tid \<sigma> \<sigma>'' \<and> shows_list v0 mk M (without c (c + k) (without a (a + m) f)) v'"
  using assms(1,2,4)
proof (induction m arbitrary: a v f \<sigma>')
  case 0
  then show ?case using del_outside_tail [OF 0(1,2) assms(3,5)] by simp
next
  case (Suc m)
  let ?e = "list_ele mk (of_nat a)"
  have ne: "(of_nat a :: u64) \<noteq> of_nat (a + Suc m)" "a + Suc m = Suc a + m"
    using Suc.prems(3) by (simp_all add: of_nat64_inj del: of_nat_add of_nat_Suc)
  obtain \<sigma>1 where 1: "delKV sv sid tid ?e \<sigma>' = (ok (), \<sigma>1)" "in_txn n C (v(enc ?e := None)) sid tid \<sigma> \<sigma>1"
    using env_del [OF Suc.prems(1), of ?e] by auto
  have w: "without a (a + Suc m) f = without (Suc a) (Suc a + m) (f(of_nat a := None))"
    using without_step [of a "Suc (a + m)" f] Suc.prems(3) by simp
  have st: "del_outside sv sid tid mk (of_nat a) (of_nat (a + Suc m)) (of_nat (c + k)) (of_nat c) \<sigma>' =
      del_outside sv sid tid mk (of_nat (Suc a)) (of_nat (Suc a + m)) (of_nat (c + k)) (of_nat c) \<sigma>1"
    using 1(1) ne by (subst del_outside.simps) (simp add: sbind_def add.commute del: of_nat_add)
  show ?case unfolding st w
    by (rule Suc.IH [OF 1(2) shows_del [OF Suc.prems(2) assms(3)]]) (use Suc.prems(3) in simp)
qed

end

lemma longest_seg_range:
  "longest_seg hs i p m sg = sg \<or> (\<exists>j\<ge>i. j < i + length hs \<and> longest_seg hs i p m sg = (j - 1, j))"
proof (induction hs arbitrary: i p m sg)
  case (Cons h hs)
  show ?case
  proof (cases "h - p > m")
    case True
    then show ?thesis using Cons.IH [of "i + 1" h "h - p" "(i - 1, i)"] by (auto intro: exI [of _ i])
  next
    case False
    then show ?thesis using Cons.IH [of "i + 1" h m sg] by auto
  qed
qed simp

lemma longest_seg_ok:
  assumes "bs \<noteq> []" "last (holes_of s bs) < 2 ^ 64"
  defines "hole \<equiv> map of_nat (holes_of s bs) :: u64 list"
  obtains l where "longest_seg (tl hole) 1 (hd hole) 0 (0, 0) = (l, Suc l)" "l < length bs"
proof -
  obtain b cs where bs: "bs = b # cs" using assms(1) by (cases bs) auto
  let ?hs = "map of_nat (holes_of (s + 1 + length b) cs) :: u64 list"
  obtain h hs where hs: "?hs = h # hs" by (cases cs) auto
  have hole: "tl hole = h # hs" "hd hole = of_nat s" using bs hs by (simp_all add: hole_def)
  have "h = of_nat (s + 1 + length b)" using hs by (cases cs) auto
  moreover have "s + 1 + length b < 2 ^ 64" using assms(2) bs by (simp add: holes_last)
  ultimately have "h \<noteq> of_nat s" using of_nat64_inj [of "s + 1 + length b" s] by (simp del: of_nat_add of_nat_Suc)
  then have g: "0 < h - of_nat s" by (simp add: word_neq_0_conv [symmetric])
  have len: "length hs + 1 = length bs" using arg_cong [OF hs, of length] bs by simp
  from longest_seg_range [of hs 2 h "h - of_nat s" "(0, 1)"] show ?thesis
  proof
    assume "longest_seg hs 2 h (h - of_nat s) (0, 1) = (0, 1)"
    then show ?thesis using g hole len assms(1) by (intro that [of 0]) (simp_all add: numeral_2_eq_2)
  next
    assume "\<exists>j\<ge>2. j < 2 + length hs \<and> longest_seg hs 2 h (h - of_nat s) (0, 1) = (j - 1, j)"
    then obtain j where "2 \<le> j" "j < 2 + length hs" "longest_seg hs 2 h (h - of_nat s) (0, 1) = (j - 1, j)" by blast
    then show ?thesis using g hole len by (intro that [of "j - 1"]) (simp_all add: numeral_2_eq_2)
  qed
qed

text \<open>What is left after the moves, outside the new bounds deleted, is the list of the blocks.\<close>

lemma closed_up:
  fixes f :: "u64 \<rightharpoonup> bytes"
  assumes "a + 1 = b + length cl" "holds f (a + 1) bb" "r = a + 1 + length bb" "t = r + length cr" "s < b"
    and supp: "\<And>w. f w \<noteq> None \<Longrightarrow> s < unat w \<and> unat w < t + k"
  shows "without t (t + k) (without (s + 1) b (place r cr (place b cl f))) = seg b (cl @ bb @ cr)"
proof
  fix w :: u64
  have w: "(of_nat (unat w) :: u64) = w" by simp
  have B: "f w = Some (bb ! (unat w - (a + 1)))" if "a + 1 \<le> unat w" "unat w < r"
    using assms(2,3) that unfolding holds_def by (metis le_add_diff_inverse nat_add_left_cancel_less w)
  show "without t (t + k) (without (s + 1) b (place r cr (place b cl f))) w = seg b (cl @ bb @ cr) w"
    using B supp [of w] assms(1,3-5)
    by (cases "f w") (auto simp: without_def place_def seg_def nth_append)
qed

context cmd_env
begin

lemma lrem_move_ok:
  assumes t: "in_txn n C v sid tid \<sigma> \<sigma>'" "shows_list v0 mk M f v" "list_key mk"
    and hb: "hold_blocks f s bs" "bs \<noteq> []" "last (holes_of s bs) = e" "e < 2 ^ 64"
    and supp: "\<And>w. f w \<noteq> None \<Longrightarrow> s < unat w \<and> unat w < e"
  shows "\<exists>\<sigma>'' v' b. lrem_move sv sid tid mk (of_nat (s + 1)) (of_nat e) (map of_nat (holes_of s bs)) \<sigma>' =
      (ok (of_nat b, of_nat (b + length (concat bs))), \<sigma>'') \<and> in_txn n C v' sid tid \<sigma> \<sigma>'' \<and>
    shows_list v0 mk M (seg b (concat bs)) v' \<and> s < b \<and> b + length (concat bs) \<le> e"
proof -
  let ?hole = "map of_nat (holes_of s bs) :: u64 list"
  obtain l where l: "longest_seg (tl ?hole) 1 (hd ?hole) 0 (0, 0) = (l, Suc l)" "l < length bs"
    using longest_seg_ok [OF hb(2), of s] hb(3,4) by auto
  define ls bb rs where "ls = take l bs" and "bb = bs ! l" and "rs = drop (Suc l) bs"
  have bs: "bs = ls @ bb # rs" "length ls = l" using l(2) id_take_nth_drop [OF l(2)] by (simp_all add: ls_def bb_def rs_def)
  define a where "a = last (holes_of s ls)"
  define r where "r = a + 1 + length bb"
  let ?cl = "concat ls" and ?cr = "concat rs"
  define b where "b = s + 1 + length ls"
  have hl: "holes_of s bs = holes_of s ls @ holes_of r rs" unfolding bs(1) holes_split a_def r_def ..
  have ar: "a + 1 = b + length ?cl" "r + length ?cr + length rs = e" "a < r" "r < 2 ^ 64"
    using hb(3,4) hl by (simp_all add: a_def b_def r_def holes_last)
  have hole: "rev (take (l + 1) ?hole) = rev (map of_nat (holes_of s ls))" "drop (Suc l) ?hole = map of_nat (holes_of r rs)"
    "?hole ! l = of_nat a" "?hole ! Suc l = of_nat r"
    using bs(2) last_conv_nth [of "holes_of s ls"] hd_conv_nth [of "holes_of r rs"]
    by (simp_all add: hl nth_append a_def)
  have bl: "hold_blocks f s ls" "holds f (a + 1) bb" "hold_blocks f r rs"
    using hb(1) by (simp_all add: bs(1) hold_blocks_append a_def r_def)
  have "a < 2 ^ 64" using ar by simp
  from shift_left_ok [OF t bl(1) _ this] obtain \<sigma>1 v1 where
    1: "shift_left_part sv sid tid mk (rev (map of_nat (holes_of s ls))) (of_nat a) \<sigma>' = (ok (of_nat (a - length ?cl)), \<sigma>1)"
    "in_txn n C v1 sid tid \<sigma> \<sigma>1" "shows_list v0 mk M (place (a + 1 - length ?cl) ?cl f) v1" by (auto simp: a_def)
  have b: "a + 1 - length ?cl = b" "(of_nat (a - length ?cl) :: u64) + 1 = of_nat b" using ar(1) by (simp_all add: b_def)
  have "hold_blocks (place b ?cl f) r rs"
    using bl(3) ar hb(4) by (subst hold_blocks_cong [where g = f]) (auto simp: place_off holes_last)
  from shift_right_ok [OF 1(2,3) t(3) this [folded b(1)], of r] obtain \<sigma>2 v2 where
    2: "shift_right_part sv sid tid mk (map of_nat (holes_of r rs)) (of_nat r) \<sigma>1 = (ok (of_nat (r + length ?cr)), \<sigma>2)"
    "in_txn n C v2 sid tid \<sigma> \<sigma>2" "shows_list v0 mk M (place r ?cr (place b ?cl f)) v2"
    using ar hb(4) b(1) by (auto simp: holes_last simp del: of_nat_add)
  have lb: "s + 1 + length ls < 2 ^ 64" "r + length ?cr + length rs < 2 ^ 64" using ar hb(4) by (simp_all add: b_def)
  from del_outside_ok [OF 2(2,3) t(3) lb] obtain \<sigma>3 v3 where
    3: "del_outside sv sid tid mk (of_nat (s + 1)) (of_nat b) (of_nat e) (of_nat (r + length ?cr)) \<sigma>2 = (ok (), \<sigma>3)"
    "in_txn n C v3 sid tid \<sigma> \<sigma>3"
    "shows_list v0 mk M (without (r + length ?cr) (r + length ?cr + length rs) (without (s + 1) b (place r ?cr (place b ?cl f)))) v3"
    unfolding ar(2) b_def by blast
  have c: "without (r + length ?cr) (r + length ?cr + length rs) (without (s + 1) b (place r ?cr (place b ?cl f))) = seg b (concat bs)"
    using closed_up [OF ar(1) bl(2) r_def refl, of s ?cr "length rs"] supp ar(2) by (simp add: b_def bs(1))
  have e: "r + length ?cr = b + length (concat bs)" "b + length (concat bs) \<le> e"
    using ar r_def by (simp_all add: bs(1))
  have "lrem_move sv sid tid mk (of_nat (s + 1)) (of_nat e) ?hole \<sigma>' = (ok (of_nat b, of_nat (b + length (concat bs))), \<sigma>3)"
    using l(1) hole ar(3,4) 1(1) 2(1) 3(1) of_nat64_less [of a r] b(2) unfolding e(1) lrem_move_def
    by (simp add: sbind_def Let_def del: of_nat_add of_nat_Suc)
  moreover have "s < b" by (simp add: b_def)
  ultimately show ?thesis using 3(2,3) e(2) unfolding c by blast
qed

subsubsection \<open>Finding the occurrences\<close>

lemma lrem_find_skip:
  assumes "in_txn n C v sid tid \<sigma> \<sigma>'" "shows_list v0 mk M f v" "f i = Some z" "z \<noteq> val"
  shows "lrem_find sv sid tid mk val pos cnt i hole (Suc k) \<sigma>' =
    lrem_find sv sid tid mk val pos cnt (case pos of LP_HEAD \<Rightarrow> i + 1 | LP_TAIL \<Rightarrow> i - 1) hole k \<sigma>'"
  using env_ele [OF assms(1-3)] assms(4) by (simp add: sbind_def Let_def)

lemma lrem_find_hit:
  assumes "in_txn n C v sid tid \<sigma> \<sigma>'" "shows_list v0 mk M f v" "f i = Some val" "list_key mk"
  shows "\<exists>\<sigma>'' v'. lrem_find sv sid tid mk val pos cnt i hole (Suc k) \<sigma>' =
      (if length hole = cnt then (ok (hole @ [i]), \<sigma>'')
       else lrem_find sv sid tid mk val pos cnt (case pos of LP_HEAD \<Rightarrow> i + 1 | LP_TAIL \<Rightarrow> i - 1) (hole @ [i]) k \<sigma>'') \<and>
    in_txn n C v' sid tid \<sigma> \<sigma>'' \<and> shows_list v0 mk M (f(i := None)) v'"
  using env_ele [OF assms(1-3)] env_del [OF assms(1), of "list_ele mk i"] shows_del [OF assms(2,4), of i]
  by (auto simp: sbind_def Let_def)

lemma lrem_find_head:
  assumes "in_txn n C v sid tid \<sigma> \<sigma>'" "shows_list v0 mk M f v" "list_key mk"
    and "holds f (Suc j) zs" "Suc j + length zs < 2 ^ 64" "hole \<noteq> []"
    and "cnt = 0 \<and> c = 0 \<or> 0 < c \<and> Suc cnt = length hole + c"
  shows "\<exists>\<sigma>'' v' ps. lrem_find sv sid tid mk val LP_HEAD cnt (of_nat (Suc j)) hole (length zs) \<sigma>' =
      (ok (hole @ map of_nat ps), \<sigma>'') \<and> in_txn n C v' sid tid \<sigma> \<sigma>'' \<and> shows_list v0 mk M (dele (set ps) f) v' \<and>
    j # ps @ [Suc j + length zs] = holes_of j (blocks c val zs)"
  using assms(1,2,4-7)
proof (induction zs arbitrary: j v f c hole \<sigma>')
  case Nil
  then show ?case by auto
next
  case (Cons z zs)
  have "holds f (Suc j) ([z] @ zs)" using Cons.prems(3) by simp
  then have hs: "f (of_nat (Suc j)) = Some z" "holds f (Suc (Suc j)) zs" unfolding holds_append holds_single by simp_all
  have l: "Suc (Suc j) + length zs < 2 ^ 64" "Suc j < 2 ^ 64" using Cons.prems(4) by simp_all
  show ?case
  proof (cases "z = val")
    case False
    have "holes_of (Suc j) (blocks c val zs) = Suc j # holes_of (Suc (Suc j) + length (hd (blocks c val zs))) (tl (blocks c val zs))"
      by (cases "blocks c val zs") auto
    then have b: "holes_of j (blocks c val (z # zs)) = j # tl (holes_of (Suc j) (blocks c val zs))" using False by simp
    from Cons.IH [OF Cons.prems(1,2) hs(2) l(1) Cons.prems(5,6)] obtain \<sigma>2 v2 ps where
      "lrem_find sv sid tid mk val LP_HEAD cnt (of_nat (Suc (Suc j))) hole (length zs) \<sigma>' = (ok (hole @ map of_nat ps), \<sigma>2)"
      "in_txn n C v2 sid tid \<sigma> \<sigma>2" "shows_list v0 mk M (dele (set ps) f) v2"
      "Suc j # ps @ [Suc (Suc j) + length zs] = holes_of (Suc j) (blocks c val zs)" by blast
    moreover from arg_cong [OF this(4), of tl] have "j # ps @ [Suc j + length (z # zs)] = holes_of j (blocks c val (z # zs))"
      unfolding b by simp
    moreover have "lrem_find sv sid tid mk val LP_HEAD cnt (of_nat (Suc j)) hole (length (z # zs)) \<sigma>' =
        lrem_find sv sid tid mk val LP_HEAD cnt (of_nat (Suc (Suc j))) hole (length zs) \<sigma>'"
      using lrem_find_skip [OF Cons.prems(1,2) hs(1) False, of LP_HEAD cnt hole "length zs"]
      by (simp only: length_Cons ListPos.case of_nat_succ)
    ultimately show ?thesis by metis
  next
    case True
    note hit = lrem_find_hit [OF Cons.prems(1,2) hs(1) [unfolded True] assms(3), of LP_HEAD cnt hole "length zs"]
    obtain \<sigma>1 v1 where 1: "lrem_find sv sid tid mk val LP_HEAD cnt (of_nat (Suc j)) hole (length (z # zs)) \<sigma>' =
        (if length hole = cnt then (ok (hole @ [of_nat (Suc j)]), \<sigma>1)
         else lrem_find sv sid tid mk val LP_HEAD cnt (of_nat (Suc (Suc j))) (hole @ [of_nat (Suc j)]) (length zs) \<sigma>1)"
      "in_txn n C v1 sid tid \<sigma> \<sigma>1" "shows_list v0 mk M (f(of_nat (Suc j) := None)) v1"
      using hit by (simp only: length_Cons ListPos.case of_nat_succ) blast
    show ?thesis
    proof (cases "c = 1")
      case c: True
      then show ?thesis
        using 1 True Cons.prems(6) dele_upd [OF l(2), of "{}" f]
        by (intro exI [of _ \<sigma>1] exI [of _ v1] exI [of _ "[Suc j]"]) (auto simp del: of_nat_Suc)
    next
      case c: False
      have cc: "cnt = 0 \<and> c - 1 = 0 \<or> 0 < c - 1 \<and> Suc cnt = length (hole @ [of_nat (Suc j) :: u64]) + (c - 1)" "length hole \<noteq> cnt"
        using Cons.prems(5,6) c by auto
      have h1: "holds (f(of_nat (Suc j) := None)) (Suc (Suc j)) zs"
        using hs(2) l by (subst holds_cong [where g = f]) (auto simp: of_nat64_inj simp del: of_nat_Suc)
      have "hole @ [of_nat (Suc j)] \<noteq> []" by simp
      from Cons.IH [OF 1(2,3) h1 l(1) this cc(1)] obtain \<sigma>2 v2 ps where
        "lrem_find sv sid tid mk val LP_HEAD cnt (of_nat (Suc (Suc j))) (hole @ [of_nat (Suc j)]) (length zs) \<sigma>1 =
          (ok ((hole @ [of_nat (Suc j)]) @ map of_nat ps), \<sigma>2)" "in_txn n C v2 sid tid \<sigma> \<sigma>2"
        "shows_list v0 mk M (dele (set ps) (f(of_nat (Suc j) := None))) v2"
        "Suc j # ps @ [Suc (Suc j) + length zs] = holes_of (Suc j) (blocks (c - 1) val zs)"
        by blast
      then show ?thesis using 1(1) cc(2) c True dele_upd [OF l(2), of "set ps" f]
        by (intro exI [of _ \<sigma>2] exI [of _ v2] exI [of _ "Suc j # ps"]) (simp del: of_nat_Suc)
    qed
  qed
qed

lemma lrem_find_tail:
  assumes "in_txn n C v sid tid \<sigma> \<sigma>'" "shows_list v0 mk M f v" "list_key mk"
    and "holds f (Suc j) zs" "Suc j + length zs < 2 ^ 64" "hole \<noteq> []"
    and "cnt = 0 \<and> c = 0 \<or> 0 < c \<and> Suc cnt = length hole + c"
  shows "\<exists>\<sigma>'' v' ps. lrem_find sv sid tid mk val LP_TAIL cnt (of_nat (j + length zs)) hole (length zs) \<sigma>' =
      (ok (hole @ map of_nat ps), \<sigma>'') \<and> in_txn n C v' sid tid \<sigma> \<sigma>'' \<and> shows_list v0 mk M (dele (set ps) f) v' \<and>
    j # rev ps @ [Suc j + length zs] = holes_of j (blocks_r c val zs)"
  using assms(1,2,4-7)
proof (induction zs arbitrary: v f c hole \<sigma>' rule: rev_induct)
  case Nil
  then show ?case by (auto simp: blocks_r_simps)
next
  case (snoc z zs)
  let ?i = "Suc (j + length zs)"
  have hs: "holds f (Suc j) zs" "f (of_nat ?i) = Some z" using snoc.prems(3) unfolding holds_append holds_single by simp_all
  have l: "Suc j + length zs < 2 ^ 64" "?i < 2 ^ 64" "j + length (zs @ [z]) = ?i" "length (zs @ [z]) = Suc (length zs)"
    using snoc.prems(4) by simp_all
  have p: "(of_nat ?i :: u64) - 1 = of_nat (j + length zs)" by simp
  show ?case
  proof (cases "z = val")
    case False
    have b: "holes_of j (blocks_r c val (zs @ [z])) =
        butlast (holes_of j (blocks_r c val zs)) @ [Suc (last (holes_of j (blocks_r c val zs)))]"
      using False by (simp add: blocks_r_simps holes_grow)
    from snoc.IH [OF snoc.prems(1,2) hs(1) l(1) snoc.prems(5,6)] obtain \<sigma>2 v2 ps where
      2: "lrem_find sv sid tid mk val LP_TAIL cnt (of_nat (j + length zs)) hole (length zs) \<sigma>' = (ok (hole @ map of_nat ps), \<sigma>2)"
      "in_txn n C v2 sid tid \<sigma> \<sigma>2" "shows_list v0 mk M (dele (set ps) f) v2"
      "j # rev ps @ [Suc j + length zs] = holes_of j (blocks_r c val zs)" by blast
    moreover have "j # rev ps @ [Suc j + length (zs @ [z])] = holes_of j (blocks_r c val (zs @ [z]))"
      unfolding b by (simp flip: 2(4))
    moreover have "lrem_find sv sid tid mk val LP_TAIL cnt (of_nat (j + length (zs @ [z]))) hole (length (zs @ [z])) \<sigma>' =
        lrem_find sv sid tid mk val LP_TAIL cnt (of_nat (j + length zs)) hole (length zs) \<sigma>'"
      using lrem_find_skip [OF snoc.prems(1,2) hs(2) False, of LP_TAIL cnt hole "length zs"]
      by (simp only: l(3,4) add_Suc_right ListPos.case p)
    ultimately show ?thesis by metis
  next
    case True
    note hit = lrem_find_hit [OF snoc.prems(1,2) hs(2) [unfolded True] assms(3), of LP_TAIL cnt hole "length zs"]
    obtain \<sigma>1 v1 where 1: "lrem_find sv sid tid mk val LP_TAIL cnt (of_nat (j + length (zs @ [z]))) hole (length (zs @ [z])) \<sigma>' =
        (if length hole = cnt then (ok (hole @ [of_nat ?i]), \<sigma>1)
         else lrem_find sv sid tid mk val LP_TAIL cnt (of_nat (j + length zs)) (hole @ [of_nat ?i]) (length zs) \<sigma>1)"
      "in_txn n C v1 sid tid \<sigma> \<sigma>1" "shows_list v0 mk M (f(of_nat ?i := None)) v1"
      using hit by (simp only: l(3,4) add_Suc_right ListPos.case p) blast
    show ?thesis
    proof (cases "c = 1")
      case c: True
      then show ?thesis
        using 1 True snoc.prems(6) dele_upd [OF l(2), of "{}" f]
        by (intro exI [of _ \<sigma>1] exI [of _ v1] exI [of _ "[?i]"]) (auto simp: blocks_r_simps simp del: of_nat_Suc of_nat_add)
    next
      case c: False
      have cc: "cnt = 0 \<and> c - 1 = 0 \<or> 0 < c - 1 \<and> Suc cnt = length (hole @ [of_nat ?i :: u64]) + (c - 1)" "length hole \<noteq> cnt"
        using snoc.prems(5,6) c by auto
      have h1: "holds (f(of_nat ?i := None)) (Suc j) zs"
        using hs(1) l by (subst holds_cong [where g = f]) (auto simp: of_nat64_inj simp del: of_nat_Suc of_nat_add)
      have "hole @ [of_nat ?i] \<noteq> []" by simp
      from snoc.IH [OF 1(2,3) h1 l(1) this cc(1)] obtain \<sigma>2 v2 ps where
        2: "lrem_find sv sid tid mk val LP_TAIL cnt (of_nat (j + length zs)) (hole @ [of_nat ?i]) (length zs) \<sigma>1 =
          (ok ((hole @ [of_nat ?i]) @ map of_nat ps), \<sigma>2)" "in_txn n C v2 sid tid \<sigma> \<sigma>2"
        "shows_list v0 mk M (dele (set ps) (f(of_nat ?i := None))) v2"
        "j # rev ps @ [Suc j + length zs] = holes_of j (blocks_r (c - 1) val zs)"
        by blast
      have "holes_of j (blocks_r c val (zs @ [z])) = holes_of j (blocks_r (c - 1) val zs) @ [Suc ?i]"
        using c True arg_cong [OF 2(4), of last] by (simp add: blocks_r_simps holes_append)
      then show ?thesis using 1(1) cc(2) 2 dele_upd [OF l(2), of "set ps" f]
        by (intro exI [of _ \<sigma>2] exI [of _ v2] exI [of _ "?i # ps"]) (simp del: of_nat_Suc of_nat_add flip: 2(4))
    qed
  qed
qed

text \<open>The holes as LREM finds and sorts them.\<close>

lemma lrem_holes:
  fixes cnt :: int
  assumes "in_txn n C v sid tid \<sigma> \<sigma>'" "shows_list v0 mk M (seg (Suc j) xs) v" "list_key mk" "Suc j + length xs < 2 ^ 64"
  defines "pos \<equiv> if cnt < 0 then LP_TAIL else LP_HEAD"
  shows "\<exists>\<sigma>'' v' hole. lrem_find sv sid tid mk val pos (nat \<bar>cnt\<bar>)
      (case pos of LP_HEAD \<Rightarrow> of_nat (Suc j) | LP_TAIL \<Rightarrow> of_nat (j + length xs)) [of_nat j] (length xs) \<sigma>' = (ok hole, \<sigma>'') \<and>
    in_txn n C v' sid tid \<sigma> \<sigma>'' \<and> (let hs = holes_of j (rem_blocks cnt val xs) in
      length hole + 1 = length hs \<and>
      (case pos of LP_HEAD \<Rightarrow> hole @ [of_nat (Suc j + length xs)] | LP_TAIL \<Rightarrow> std_sort (<) (hole @ [of_nat (Suc j + length xs)])) =
        map of_nat hs \<and>
      shows_list v0 mk M (dele (set (butlast (tl hs))) (seg (Suc j) xs)) v')"
proof -
  let ?hs = "holes_of j (rem_blocks cnt val xs)" and ?c = "nat \<bar>cnt\<bar>"
  have h: "holds (seg (Suc j) xs) (Suc j) xs" using seg_nth [of _ xs "Suc j"] assms(4) by (simp add: holds_def del: of_nat_add)
  have c: "?c = 0 \<and> ?c = 0 \<or> 0 < ?c \<and> Suc ?c = length [of_nat j :: u64] + ?c" by auto
  show ?thesis
  proof (cases "cnt < 0")
    case False
    then obtain \<sigma>1 v1 ps where 1: "lrem_find sv sid tid mk val LP_HEAD ?c (of_nat (Suc j)) [of_nat j] (length xs) \<sigma>' =
        (ok ([of_nat j] @ map of_nat ps), \<sigma>1)" "in_txn n C v1 sid tid \<sigma> \<sigma>1"
      "shows_list v0 mk M (dele (set ps) (seg (Suc j) xs)) v1" "j # ps @ [Suc j + length xs] = ?hs"
      using lrem_find_head [OF assms(1-3) h assms(4) _ c] by (fastforce simp: rem_blocks_def)
    then show ?thesis using False
      by (intro exI [of _ \<sigma>1] exI [of _ v1] exI [of _ "[of_nat j] @ map of_nat ps"])
        (simp add: pos_def Let_def flip: 1(4) del: of_nat_add of_nat_Suc)
  next
    case True
    then obtain \<sigma>1 v1 ps where 1: "lrem_find sv sid tid mk val LP_TAIL ?c (of_nat (j + length xs)) [of_nat j] (length xs) \<sigma>' =
        (ok ([of_nat j] @ map of_nat ps), \<sigma>1)" "in_txn n C v1 sid tid \<sigma> \<sigma>1"
      "shows_list v0 mk M (dele (set ps) (seg (Suc j) xs)) v1" "j # rev ps @ [Suc j + length xs] = ?hs"
      using lrem_find_tail [OF assms(1-3) h assms(4) _ c] by (fastforce simp: rem_blocks_def)
    have last: "last ?hs = Suc j + length xs" unfolding 1(4) [symmetric] by simp
    have "sorted (map of_nat ?hs :: u64 list)"
    proof (rule sorted_map_mono [OF holes_sorted])
      have "x < 2 ^ 64" if "x \<in> set ?hs" for x
        using holes_le [OF that] last assms(4) by simp
      then show "mono_on (set ?hs) (of_nat :: nat \<Rightarrow> u64)"
        by (auto intro!: monotone_onI simp: word_le_nat_alt unat_of_nat64)
    qed
    moreover have "mset (map of_nat ?hs) = mset (([of_nat j] @ map of_nat ps) @ [of_nat (Suc j + length xs) :: u64])"
      unfolding 1(4) [symmetric] by (simp del: of_nat_add of_nat_Suc)
    ultimately have "sort (([of_nat j] @ map of_nat ps) @ [of_nat (Suc j + length xs)]) = (map of_nat ?hs :: u64 list)"
      by (intro properties_for_sort) simp_all
    then show ?thesis using True 1(1-3)
      by (intro exI [of _ \<sigma>1] exI [of _ v1] exI [of _ "[of_nat j] @ map of_nat ps"])
        (simp add: pos_def Let_def std_sort_less flip: 1(4) del: of_nat_add of_nat_Suc)
  qed
qed

lemma rem_list_ok:
  assumes "live (Suc n) \<sigma>" "se_txnMap \<sigma> = []" "list_at (cv (se_stores \<sigma>) (store_of sv key)) mk ttl h xs" "list_key mk"
    and mk: "list_meta (db_of key lk) \<sigma> key = mk" "se_dbId \<sigma> = rk_dbId mk" and r: "meta_rv ttl h xs r"
    and "val \<in> set xs" "0 < h" "cnt \<noteq> - (2 ^ 31)"
  shows "\<exists>\<sigma>' w h'. rem_list sv key cnt val (db_of key lk) r \<sigma> =
      (ok (fmtLongLong (int (length xs) - int (length (removed cnt val xs)))), \<sigma>') \<and>
    quiet n ((cv (se_stores \<sigma>))(store_of sv key := w)) \<sigma> \<sigma>' \<and>
    becomes (cv (se_stores \<sigma>) (store_of sv key)) mk ttl h' (removed cnt val xs) w \<and> near h xs h' (removed cnt val xs)"
proof -
  let ?C = "cv (se_stores \<sigma>)" and ?sid = "store_of sv key" and ?bs = "rem_blocks cnt val xs"
  define pos where "pos = (if cnt < 0 then LP_TAIL else LP_HEAD)"
  obtain j where j: "h = Suc j" using assms(9) by (cases h) auto
  let ?hs = "holes_of j ?bs" and ?e = "Suc j + length xs" and ?ys = "removed cnt val xs"
  obtain M where M: "shows_list (?C ?sid) mk M (seg (Suc j) xs) (?C ?sid)" "?e < 2 ^ 64"
    using assms(3) unfolding j by (rule list_atD)
  obtain tid \<sigma>1 where 1: "SessionCtx_createTransaction sv ?sid \<sigma> = (ok tid, \<sigma>1)"
    "in_txn n ?C (?C ?sid) ?sid tid (\<sigma>\<lparr>se_txnMap := [(?sid, tid)]\<rparr>) \<sigma>1"
    using session_create [OF assms(1) store_of_less [OF plain], of key] assms(2) by auto
  obtain \<sigma>2 v2 hole where 2: "lrem_find sv ?sid tid mk val pos (nat \<bar>cnt\<bar>)
      (case pos of LP_HEAD \<Rightarrow> of_nat (Suc j) | LP_TAIL \<Rightarrow> of_nat (j + length xs)) [of_nat j] (length xs) \<sigma>1 = (ok hole, \<sigma>2)"
    "in_txn n ?C v2 ?sid tid (\<sigma>\<lparr>se_txnMap := [(?sid, tid)]\<rparr>) \<sigma>2" "length hole + 1 = length ?hs"
    "(case pos of LP_HEAD \<Rightarrow> hole @ [of_nat ?e] | LP_TAIL \<Rightarrow> std_sort (<) (hole @ [of_nat ?e])) = map of_nat ?hs"
    "shows_list (?C ?sid) mk M (dele (set (butlast (tl ?hs))) (seg (Suc j) xs)) v2"
    using lrem_holes [OF 1(2) M(1) assms(4) M(2), of val cnt, folded pos_def] unfolding Let_def by blast
  note bs = rem_blocks_facts [where cnt = cnt and x = val and xs = xs]
  have e: "last ?hs = ?e" using holes_join [OF bs(1), of j val] bs(2) by simp
  have "holds (seg (Suc j) xs) (Suc j) xs" using seg_nth [of _ xs "Suc j"] M(2) by (simp add: holds_def del: of_nat_add)
  then have hb: "hold_blocks (dele (set (butlast (tl ?hs))) (seg (Suc j) xs)) j ?bs"
    using hold_join [of "seg (Suc j) xs" j val ?bs] bs(2) M(2) e
    by (subst hold_blocks_cong_holes [where g = "seg (Suc j) xs"])
      (auto simp: dele_def unat_of_nat64 dest!: in_set_butlastD list.set_sel(2) [OF holes_neq])
  have supp: "j < unat w \<and> unat w < ?e" if "dele (set (butlast (tl ?hs))) (seg (Suc j) xs) w \<noteq> None" for w
    using that by (auto simp: dele_def seg_def split: if_split_asm)
  obtain \<sigma>3 v3 b where 3: "lrem_move sv ?sid tid mk (of_nat (Suc j)) (of_nat ?e) (map of_nat ?hs) \<sigma>2 =
      (ok (of_nat b, of_nat (b + length ?ys)), \<sigma>3)" "in_txn n ?C v3 ?sid tid (\<sigma>\<lparr>se_txnMap := [(?sid, tid)]\<rparr>) \<sigma>3"
    "shows_list (?C ?sid) mk M (seg b ?ys) v3" "b + length ?ys \<le> ?e" "j < b"
    using lrem_move_ok [OF 2(2,5) assms(4) hb bs(1) e M(2)] supp unfolding bs(3) by (simp del: of_nat_Suc of_nat_add) blast
  have r': "rv_type r = RT_LIST_META" "rv_ttl r = ttl" using r by (simp_all add: meta_rv_def)
  have bl: "b + length ?ys < 2 ^ 64" using 3(4) M(2) by simp
  from finish_ok [OF 3(2,3) assms(4) _ r' bl, of "ok r"] mk(2) obtain \<sigma>4 v4 where
    4: "(if ?ys = [] then delKeyAndTTL sv mk r ?sid tid
      else set_meta sv ?sid tid mk \<lparr>lm_head = of_nat b, lm_tail = of_nat (b + length ?ys)\<rparr> (rv_ttl r) (ok r)) \<sigma>3 = (ok (), \<sigma>4)"
    "in_txn n ?C v4 ?sid tid (\<sigma>\<lparr>se_txnMap := [(?sid, tid)]\<rparr>) \<sigma>4" "becomes (?C ?sid) mk ttl b ?ys v4" by auto
  have "work n ?C v4 ?sid tid \<sigma> \<sigma>4" using 4(2) unfolding work_def by (intro exI [of _ "?C ?sid"]) simp
  from work_commit [OF this assms(2)] obtain c \<sigma>5 where
    5: "SessionCtx_commitTransaction sv ?sid tid \<sigma>4 = (ok c, \<sigma>5)" "quiet n (?C(?sid := v4)) \<sigma> \<sigma>5" by blast
  have w: "of_nat (Suc j) - 1 = (of_nat j :: u64)" "of_nat ?e - 1 = (of_nat (j + length xs) :: u64)"
    "unat (of_nat ?e - of_nat (Suc j) :: u64) = length xs"
    using M(2) by (simp_all add: unat_of_nat64)
  have lm: "ListMetaValue_decode (rv_value r) = ok \<lparr>lm_head = of_nat (Suc j), lm_tail = of_nat ?e\<rparr>"
    using r by (simp add: meta_rv_def j)
  have eq: "(of_nat b = (of_nat (b + length ?ys) :: u64)) = (?ys = [])" using bl by (simp add: of_nat64_inj del: of_nat_add)
  have hl: "length hole \<noteq> 1" "int (length ?hs) - 2 = int (length xs) - int (length ?ys)" "length (hole @ [of_nat ?e]) = length ?hs"
    using 2(3) bs(4) [OF assms(8)] bs(5) by auto
  have "rem_list sv key cnt val (db_of key lk) r \<sigma> = (ok (fmtLongLong (int (length xs) - int (length ?ys))), \<sigma>5)"
    unfolding rem_list_def sget_def Let_def mk(1) lm DbWithLock.simps pos_def [symmetric]
    using assms(10) 1(1) 2(1,4) 3(1) 4(1) 5(1) hl eq
    by (simp add: sbind_def w [unfolded add_Suc] del: of_nat_Suc of_nat_add split del: if_split cong: ListPos.case_cong)
  moreover have "near h xs b ?ys" using 3(4,5) by (simp add: near_def j)
  ultimately show ?thesis using 5(2) 4(3) by blast
qed

lemma lrem_ok:
  assumes "live (Suc (Suc n)) \<sigma>" "se_txnMap \<sigma> = []" "se_args \<sigma> = c # key # a # val # as" "stol a = ok cnt"
    and "sees \<sigma> key ttl h xs" "val \<in> set xs" "0 < h" "cnt \<noteq> - (2 ^ 31)"
  shows "\<exists>\<sigma>' w h'. LRem_run sv \<sigma> = (ok (fmtLongLong (int (length xs) - int (length (removed cnt val xs)))), \<sigma>') \<and>
    quiet n ((cv (se_stores \<sigma>))(store_of sv key := w)) \<sigma> \<sigma>' \<and>
    becomes (cv (se_stores \<sigma>) (store_of sv key)) (list_of \<sigma> key) ttl h' (removed cnt val xs) w \<and> near h xs h' (removed cnt val xs)"
proof -
  let ?C = "cv (se_stores \<sigma>)" and ?sid = "store_of sv key"
  have int: "sbind (sbind (arg 2) (slift \<circ> stol)) k \<sigma> = k cnt \<sigma>" for k :: "int \<Rightarrow> ('s, bytes) cmd"
    using assms(3,4) by (simp add: arg_def sbind_def eval_nat_numeral)
  have "\<exists>\<sigma>' w. locked_list sv LOCK_X key (\<lambda>db rv. if_there (sret fmtZero) rv (rem_list sv key cnt val db)) \<sigma> =
      (ok (fmtLongLong (int (length xs) - int (length (removed cnt val xs)))), \<sigma>') \<and>
    quiet n (?C(?sid := w)) \<sigma> \<sigma>' \<and> (\<exists>h'. becomes (?C ?sid) (list_of \<sigma> key) ttl h' (removed cnt val xs) w \<and>
      near h xs h' (removed cnt val xs))"
  proof (rule locked_list_ok [OF assms(1,5) _ _ scoped_quiet], goal_cases)
    case (3 lk rv \<sigma>1)
    then obtain r where r: "rv = ok r" "meta_rv ttl h xs r" using assms(6) by (auto simp: found_def split: if_split_asm)
    have v: "list_at (cv (se_stores \<sigma>1) ?sid) (list_of \<sigma> key) ttl h xs" "list_key (list_of \<sigma> key)" "se_txnMap \<sigma>1 = []"
      "se_dbId \<sigma>1 = rk_dbId (list_of \<sigma> key)"
      using assms(2,5) 3(2,5,6) by (simp_all add: sees_def)
    show ?case
      using rem_list_ok [OF 3(1) v(3,1,2) 3(4) v(4) r(2) assms(6-8)] 3(2) r(1) by (auto simp: if_there_def)
  qed simp_all
  then show ?thesis
    unfolding LRem_run_def arg_1 [OF assms(3)] int arg_3 [OF assms(3)] by blast
qed

end

end
