(* ===== verification/ListRefine.thy ===== *)
theory ListRefine
  imports ListRem
begin

section \<open>Requests on a list refine operations on lists\<close>

text \<open>
  Requests of the list commands, from their arguments to the reply, do what their specification says on
  the list a key holds. The specification is a function on lists of strings.
\<close>

datatype list_op =
    PUSH ListPos "bytes list" | PUSHX ListPos "bytes list" | POP ListPos | LLEN | LINDEX int
  | LSET int bytes | LRANGE int int | LTRIM int int | LINSERT bool bytes bytes | LREM int bytes

primrec args_of :: "bytes \<Rightarrow> list_op \<Rightarrow> bytes list" where
  "args_of key (PUSH pos vals) = str (case pos of LP_HEAD \<Rightarrow> ''LPUSH'' | LP_TAIL \<Rightarrow> ''RPUSH'') # key # vals"
| "args_of key (PUSHX pos vals) = str (case pos of LP_HEAD \<Rightarrow> ''LPUSHX'' | LP_TAIL \<Rightarrow> ''RPUSHX'') # key # vals"
| "args_of key (POP pos) = [str (case pos of LP_HEAD \<Rightarrow> ''LPOP'' | LP_TAIL \<Rightarrow> ''RPOP''), key]"
| "args_of key LLEN = [str ''LLEN'', key]"
| "args_of key (LINDEX i) = [str ''LINDEX'', key, dec_of_int i]"
| "args_of key (LSET i val) = [str ''LSET'', key, dec_of_int i, val]"
| "args_of key (LRANGE i j) = [str ''LRANGE'', key, dec_of_int i, dec_of_int j]"
| "args_of key (LTRIM i j) = [str ''LTRIM'', key, dec_of_int i, dec_of_int j]"
| "args_of key (LINSERT before pivot val) =
     [str ''LINSERT'', key, str (if before then ''BEFORE'' else ''AFTER''), pivot, val]"
| "args_of key (LREM cnt val) = [str ''LREM'', key, dec_of_int cnt, val]"

text \<open>The reply and the list afterwards.\<close>

primrec spec :: "list_op \<Rightarrow> bytes list \<Rightarrow> bytes \<times> bytes list" where
  "spec (PUSH pos vals) xs = (let ys = pushed pos vals xs in (fmtLongLong (int (length ys)), ys))"
| "spec (PUSHX pos vals) xs =
    (if xs = [] then (fmtLongLong 0, []) else let ys = pushed pos vals xs in (fmtLongLong (int (length ys)), ys))"
| "spec (POP pos) xs = (if xs = [] then (fmtNull, []) else (fmtBulk (fst (popped pos xs)), snd (popped pos xs)))"
| "spec LLEN xs = (fmtLongLong (int (length xs)), xs)"
| "spec (LINDEX i) xs = (case pick i (length xs) of None \<Rightarrow> fmtNull | Some j \<Rightarrow> fmtBulk (xs ! j), xs)"
| "spec (LSET i val) xs = (case pick i (length xs) of
      Some j \<Rightarrow> (fmtOK, xs[j := val])
    | None \<Rightarrow> (str (if xs = [] then ''-ERR no such key'' else ''-ERR index out of range'') @ crlf, xs))"
| "spec (LRANGE i j) xs = (let ys = slice xs i j in
      (fmtMultiBulkLen (of_nat (length ys)) @ concat (map fmtBulk ys), xs))"
| "spec (LTRIM i j) xs = (fmtOK, slice xs i j)"
| "spec (LINSERT before pivot val) xs =
    (if xs = [] then (fmtLongLong 0, xs)
     else if pivot \<notin> set xs then (fmtLongLong (-1), xs)
     else (fmtLongLong (int (Suc (length xs))), inserted before pivot val xs))"
| "spec (LREM cnt val) xs = (let ys = removed cnt val xs in (fmtLongLong (int (length xs) - int (length ys)), ys))"

text \<open>Arguments in range, and what an operation may add to the list and take of the transaction ids.\<close>

definition i64 :: "int \<Rightarrow> bool" where
  "i64 i \<longleftrightarrow> - (2 ^ 63) \<le> i \<and> i < 2 ^ 63"

primrec op_ok :: "list_op \<Rightarrow> bool" where
  "op_ok (PUSH pos vals) \<longleftrightarrow> vals \<noteq> []"
| "op_ok (PUSHX pos vals) \<longleftrightarrow> vals \<noteq> []"
| "op_ok (POP pos) \<longleftrightarrow> True"
| "op_ok LLEN \<longleftrightarrow> True"
| "op_ok (LINDEX i) \<longleftrightarrow> i64 i"
| "op_ok (LSET i val) \<longleftrightarrow> i64 i"
| "op_ok (LRANGE i j) \<longleftrightarrow> i64 i \<and> i64 j"
| "op_ok (LTRIM i j) \<longleftrightarrow> i64 i \<and> i64 j"
| "op_ok (LINSERT before pivot val) \<longleftrightarrow> True"
| "op_ok (LREM cnt val) \<longleftrightarrow> - (2 ^ 31) < cnt \<and> cnt < 2 ^ 31"

definition grow :: "list_op \<Rightarrow> nat" where
  "grow op = (case op of PUSH _ vals \<Rightarrow> length vals | PUSHX _ vals \<Rightarrow> length vals | _ \<Rightarrow> 1)"

definition ids :: "list_op \<Rightarrow> nat" where
  "ids op = (case op of LTRIM _ _ \<Rightarrow> 2 + 2 ^ 31 div 1000 | _ \<Rightarrow> 2)"

lemma stol_dec: "- (2 ^ 31) \<le> i \<Longrightarrow> i < 2 ^ 31 \<Longrightarrow> stol (dec_of_int i) = ok i"
  using stoll_dec [of i] by (simp add: stol_def stoll_def signed_take_bit_int_eq_self signed_of_int)

lemma fmtZero_eq: "fmtZero = fmtLongLong 0"
  by (simp add: fmtZero_def fmtLongLong_def dec_of_int_def dec_of_nat.simps digit_def str_def)

lemma fmtZeroBulkLen_eq: "fmtZeroBulkLen = fmtMultiBulkLen 0"
  by (simp add: fmtZeroBulkLen_def fmtMultiBulkLen_def dec_of_nat.simps digit_def str_def)

lemma removed_notin: "x \<notin> set xs \<Longrightarrow> removed n x xs = xs"
proof -
  have "drop_occ n x ys = ys" if "x \<notin> set ys" for n and ys :: "'a list"
    using that by (induction n x ys rule: drop_occ.induct) auto
  then show "x \<notin> set xs \<Longrightarrow> removed n x xs = xs" by (simp add: removed_def)
qed

subsection \<open>Dispatch\<close>

primrec run_of :: "list_op \<Rightarrow> 's Server \<Rightarrow> ('s, bytes) cmd" where
  "run_of (PUSH pos vals) = (\<lambda>sv. ListPush_run sv pos False)"
| "run_of (PUSHX pos vals) = (\<lambda>sv. ListPush_run sv pos True)"
| "run_of (POP pos) = (\<lambda>sv. ListPop_run sv pos)"
| "run_of LLEN = LLen_run"
| "run_of (LINDEX i) = LIndex_run"
| "run_of (LSET i val) = LSet_run"
| "run_of (LRANGE i j) = LRange_run"
| "run_of (LTRIM i j) = Ltrim_run"
| "run_of (LINSERT before pivot val) = LInsert_run"
| "run_of (LREM cnt val) = LRem_run"

lemmas table_simps = find_command_def list_commands_def list_command_def toLower_def str_def

lemma find_op:
  assumes "op_ok op"
  obtains c where "find_command list_commands (toLower (hd (args_of key op))) = Some c" "co_run c = run_of op"
    "\<not> (0 < co_arity c \<and> co_arity c \<noteq> int (length (args_of key op)) \<or> int (length (args_of key op)) < - co_arity c)"
proof (cases op)
  case (PUSH pos vals)
  then show ?thesis using assms by (cases pos; intro that) (auto simp: table_simps Suc_le_eq)
next
  case (PUSHX pos vals)
  then show ?thesis using assms by (cases pos; intro that) (auto simp: table_simps Suc_le_eq)
next
  case (POP pos)
  then show ?thesis by (cases pos; intro that) (auto simp: table_simps)
qed (auto simp: table_simps intro!: that)

lemma no_admin: "\<not> isAdminCmd list_commands name"
  by (auto simp: isAdminCmd_def list_commands_def list_command_def)

lemma args_of_neq [simp]: "args_of key op \<noteq> []"
  by (cases op) auto

definition reply_of :: "bytes expected \<Rightarrow> bytes" where
  "reply_of r = (case r of Inr v \<Rightarrow> v | Inl (Status c m) \<Rightarrow> fmtErr (Status_toString c m) | Inl _ \<Rightarrow> [])"

lemma plain_ext: "plain_session \<sigma> \<Longrightarrow> \<not> se_extendProtocol \<sigma>" "plain_session (\<sigma>\<lparr>se_txnMap := m\<rparr>) = plain_session \<sigma>"
  by (simp_all add: plain_session_def)

context cmd_env
begin

lemma request_ok:
  assumes "plain_session \<sigma>" "se_txnMap \<sigma> = []" "se_authed \<sigma> \<or> sv_requirepass sv = []" "op_ok op" "se_args \<sigma> = args_of key op"
    and "run_of op sv \<sigma> = (r, \<sigma>1)" "no_crash r" "quiet n C \<sigma> \<sigma>1 \<or> left_open n C sid \<sigma> \<sigma>1"
  shows "\<exists>\<sigma>'. processRequest list_commands sv \<sigma> = (ok (reply_of r), \<sigma>') \<and> quiet n C \<sigma> \<sigma>'"
proof -
  obtain c :: "'s Command" where c: "find_command list_commands (toLower (hd (args_of key op))) = Some c" "co_run c = run_of op"
    "\<not> (0 < co_arity c \<and> co_arity c \<noteq> int (length (args_of key op)) \<or> int (length (args_of key op)) < - co_arity c)"
    using find_op [OF assms(4), of key] by blast
  have "\<not> se_extendProtocol \<sigma>" using assms(1) by (simp add: plain_session_def)
  then have "precheck list_commands sv \<sigma> = (ok c, \<sigma>)"
    using c assms(3,5) no_admin by (auto simp: precheck_def sbind_def processExtendProtocol_def Let_def)
  moreover obtain \<sigma>2 where 2: "clearRequestCtx sv \<sigma>1 = (ok (), \<sigma>2)" "quiet n C \<sigma> \<sigma>2"
    using assms(8) clear_quiet [OF _ assms(2,1)] clear_left_open [OF _ assms(2,1)] by blast
  moreover have "\<not> se_extendProtocol \<sigma>1"
    using assms(1,8) quiet_fields(10) [of n C \<sigma> \<sigma>1] in_txn_fields(10) [of n C "C sid" sid _ _ \<sigma>1]
    by (fastforce simp: left_open_def plain_ext(2) dest: plain_ext(1))
  ultimately show ?thesis
    using c assms(5-7)
    by (auto simp: processRequest_def runSessionCmd_def stry_def sbind_def smod_def reply_of_def no_crash_def split: sum.split)
qed

subsection \<open>Requests without effect\<close>

lemma pushx_gone:
  assumes "live (Suc n) \<sigma>" "se_args \<sigma> = c # key # as" "sees \<sigma> key ttl h []"
  shows "\<exists>\<sigma>'. ListPush_run sv pos True \<sigma> = (ok fmtZero, \<sigma>') \<and> quiet n (cv (se_stores \<sigma>)) \<sigma> \<sigma>'"
  unfolding ListPush_run_def arg_1 [OF assms(2)]
  by (rule list_noop_ok [OF assms(1,3)]) (auto simp: found_def)

lemma lindex_gone:
  assumes "live (Suc n) \<sigma>" "se_args \<sigma> = c # key # a # as" "std_stoll a = Inr idx" "sees \<sigma> key ttl h []"
  shows "\<exists>\<sigma>'. LIndex_run sv \<sigma> = (ok fmtNull, \<sigma>') \<and> quiet n (cv (se_stores \<sigma>)) \<sigma> \<sigma>'"
  unfolding LIndex_run_def arg_1 [OF assms(2)] arg_2 [OF assms(2)] assms(3) sum.case
  by (rule list_noop_ok [OF assms(1,4)]) (auto simp: found_def if_there_def RdLock_def)

lemma lrange_gone:
  assumes "live (Suc n) \<sigma>" "se_args \<sigma> = c # key # a # b # as" "stoll a = ok i" "stoll b = ok j" "sees \<sigma> key ttl h []"
  shows "\<exists>\<sigma>'. LRange_run sv \<sigma> = (ok fmtZeroBulkLen, \<sigma>') \<and> quiet n (cv (se_stores \<sigma>)) \<sigma> \<sigma>'"
  unfolding LRange_run_def arg_1 [OF assms(2)] int_2 [OF assms(2,3)] int_3 [OF assms(2,4)]
  by (rule list_noop_ok [OF assms(1,5)]) (auto simp: found_def if_there_def RdLock_def)

lemma ltrim_gone:
  assumes "live (Suc n) \<sigma>" "se_args \<sigma> = c # key # a # b # as" "stoll a = ok i" "stoll b = ok j" "sees \<sigma> key ttl h []"
  shows "\<exists>\<sigma>'. Ltrim_run sv \<sigma> = (ok fmtOK, \<sigma>') \<and> quiet n (cv (se_stores \<sigma>)) \<sigma> \<sigma>'"
  unfolding Ltrim_run_def arg_1 [OF assms(2)] int_2 [OF assms(2,3)] int_3 [OF assms(2,4)]
  by (rule list_noop_ok [OF assms(1,5)]) (auto simp: found_def if_there_def)

lemma linsert_gone:
  assumes "live (Suc n) \<sigma>" "se_args \<sigma> = c # key # wh # pivot # val # as"
    and "strcaseeq wh ''before'' \<or> strcaseeq wh ''after''" "sees \<sigma> key ttl h []"
  shows "\<exists>\<sigma>'. LInsert_run sv \<sigma> = (ok fmtZero, \<sigma>') \<and> quiet n (cv (se_stores \<sigma>)) \<sigma> \<sigma>'"
proof -
  have "\<exists>\<sigma>'. locked_list sv LOCK_X key (\<lambda>db rv. if_there (sret fmtZero) rv
        (insert_list sv key (strcaseeq wh ''before'') pivot val db)) \<sigma> = (ok fmtZero, \<sigma>') \<and>
      quiet n (cv (se_stores \<sigma>)) \<sigma> \<sigma>'"
    by (rule list_noop_ok [OF assms(1,4)]) (auto simp: found_def if_there_def)
  then show ?thesis
    unfolding LInsert_run_def arg_1 [OF assms(2)] arg_2 [OF assms(2)] arg_3 [OF assms(2)] arg_4 [OF assms(2)]
    using assms(3) by auto
qed

lemma int32_2:
  assumes "se_args \<sigma> = c # key # a # as" "stol a = ok i"
  shows "sbind (sbind (arg 2) (slift \<circ> stol)) k \<sigma> = k i \<sigma>"
  using assms by (simp add: arg_def sbind_def eval_nat_numeral)

lemma lrem_gone:
  assumes "live (Suc n) \<sigma>" "se_args \<sigma> = c # key # a # val # as" "stol a = ok cnt" "sees \<sigma> key ttl h []"
  shows "\<exists>\<sigma>'. LRem_run sv \<sigma> = (ok fmtZero, \<sigma>') \<and> quiet n (cv (se_stores \<sigma>)) \<sigma> \<sigma>'"
  unfolding LRem_run_def arg_1 [OF assms(2)] int32_2 [OF assms(2,3)] arg_3 [OF assms(2)]
  by (rule list_noop_ok [OF assms(1,4)]) (auto simp: found_def if_there_def)


text \<open>Commands that look at the elements and find nothing to do; their transaction stays open.\<close>

lemma list_scan_ok:
  assumes "live (Suc (Suc n)) \<sigma>" "sees \<sigma> key ttl h xs" "mode \<noteq> LOCK_NONE" "no_crash r" "se_txnMap \<sigma> = []"
    and f: "\<And>lk rv \<sigma>1 tid \<sigma>2 C v \<sigma>0. SessionCtx_createTransaction sv (store_of sv key) \<sigma>1 = (ok tid, \<sigma>2) \<Longrightarrow>
      in_txn n C v (store_of sv key) tid \<sigma>0 \<sigma>2 \<Longrightarrow> list_at v (list_of \<sigma> key) ttl h xs \<Longrightarrow>
      list_meta (db_of key lk) \<sigma>1 key = list_of \<sigma> key \<Longrightarrow> found ttl h xs rv \<Longrightarrow> f (db_of key lk) rv \<sigma>1 = (r, \<sigma>2)"
  shows "\<exists>\<sigma>'. locked_list sv mode key f \<sigma> = (r, \<sigma>') \<and> left_open n (cv (se_stores \<sigma>)) (store_of sv key) \<sigma> \<sigma>'"
proof -
  let ?C = "cv (se_stores \<sigma>)" and ?sid = "store_of sv key"
  have "\<exists>\<sigma>' w. locked_list sv mode key f \<sigma> = (r, \<sigma>') \<and> left_open n ?C ?sid \<sigma> \<sigma>' \<and> w"
  proof (rule locked_list_ok [OF assms(1-4) scoped_left_open])
    fix lk rv \<sigma>1
    assume 1: "live (Suc n) \<sigma>1" "cv (se_stores \<sigma>1) = ?C" "list_meta (db_of key lk) \<sigma>1 key = list_of \<sigma> key"
      "se_txnMap \<sigma>1 = se_txnMap \<sigma>" "found ttl h xs rv"
    obtain tid \<sigma>2 where 2: "SessionCtx_createTransaction sv ?sid \<sigma>1 = (ok tid, \<sigma>2)"
      "in_txn n ?C (?C ?sid) ?sid tid (\<sigma>1\<lparr>se_txnMap := (?sid, tid) # se_txnMap \<sigma>1\<rparr>) \<sigma>2"
      using session_create [OF 1(1) store_of_less [OF plain], of key] 1(2,4) assms(5) by auto
    then show "\<exists>\<sigma>2 w. f (db_of key lk) rv \<sigma>1 = (r, \<sigma>2) \<and> left_open n ?C ?sid \<sigma>1 \<sigma>2 \<and> w"
      using f [OF 2 _ 1(3,5)] assms(2) by (auto simp: sees_def left_open_def)
  qed
  then show ?thesis by blast
qed

lemma linsert_absent:
  assumes "live (Suc (Suc n)) \<sigma>" "se_txnMap \<sigma> = []" "se_args \<sigma> = c # key # wh # pivot # val # as"
    and "strcaseeq wh ''before'' \<or> strcaseeq wh ''after''" "sees \<sigma> key ttl h xs" "xs \<noteq> []" "pivot \<notin> set xs"
  shows "\<exists>\<sigma>'. LInsert_run sv \<sigma> = (ok (fmtLongLong (-1)), \<sigma>') \<and> left_open n (cv (se_stores \<sigma>)) (store_of sv key) \<sigma> \<sigma>'"
proof -
  let ?b = "strcaseeq wh ''before''"
  have "\<exists>\<sigma>'. locked_list sv LOCK_X key (\<lambda>db rv. if_there (sret fmtZero) rv (insert_list sv key ?b pivot val db)) \<sigma> =
      (ok (fmtLongLong (-1)), \<sigma>') \<and> left_open n (cv (se_stores \<sigma>)) (store_of sv key) \<sigma> \<sigma>'"
  proof (rule list_scan_ok [OF assms(1,5) _ _ assms(2)], goal_cases)
    case (3 lk rv \<sigma>1 tid \<sigma>2 C v \<sigma>0)
    obtain r where r: "rv = ok r" "meta_rv ttl h xs r" using 3(5) assms(6) by (auto simp: found_def)
    obtain M where M: "shows_list v (list_of \<sigma> key) M (seg h xs) v" "h + length xs < 2 ^ 64" using 3(3) by (rule list_atD)
    have len: "unat (of_nat (h + length xs) - of_nat h :: u64) = length xs" using M(2) by (simp add: unat_of_nat64)
    have "linsert_find sv (store_of sv key) tid (list_of \<sigma> key) pivot (of_nat h) (length xs) \<sigma>2 =
        (ok (0, of_nat (h + length xs)), \<sigma>2)"
      using linsert_find_ok [OF 3(2) M, of "[]" xs pivot] first_pos_notin [OF assms(7)] by simp
    then show ?case
      using r 3(1) by (simp add: if_there_def insert_list_def 3(4) meta_rv_def sbind_def Let_def len del: of_nat_add)
  qed simp_all
  then show ?thesis
    unfolding LInsert_run_def arg_1 [OF assms(3)] arg_2 [OF assms(3)] arg_3 [OF assms(3)] arg_4 [OF assms(3)]
    using assms(4) by auto
qed

lemma lrem_find_none:
  assumes "in_txn n C v sid tid \<sigma> \<sigma>'" "shows_list v0 mk M (seg h xs) v" "h + length xs < 2 ^ 64" "val \<notin> set xs"
  shows "k \<le> length xs \<Longrightarrow> lrem_find sv sid tid mk val LP_HEAD cnt (of_nat (h + (length xs - k))) hole k \<sigma>' = (ok hole, \<sigma>')"
    and "k \<le> length xs \<Longrightarrow> lrem_find sv sid tid mk val LP_TAIL cnt (of_nat (h + k) - 1) hole k \<sigma>' = (ok hole, \<sigma>')"
proof -
  have x: "i < length xs \<Longrightarrow> seg h xs (of_nat (h + i)) = Some (xs ! i) \<and> xs ! i \<noteq> val" for i
    using seg_nth [OF _ assms(3)] assms(4) by (metis nth_mem)
  show "k \<le> length xs \<Longrightarrow> lrem_find sv sid tid mk val LP_HEAD cnt (of_nat (h + (length xs - k))) hole k \<sigma>' = (ok hole, \<sigma>')"
  proof (induction k)
    case (Suc k)
    have e: "of_nat (h + (length xs - Suc k)) + 1 = (of_nat (h + (length xs - k)) :: u64)"
      using Suc(2) of_nat_Suc [of "h + (length xs - Suc k)", where ?'a = "64 word"] by (simp add: Suc_diff_Suc del: of_nat_Suc)
    have "length xs - Suc k < length xs" using Suc(2) by simp
    then show ?case
      using lrem_find_skip [OF assms(1,2) conjunct1 [OF x] conjunct2 [OF x], of "length xs - Suc k" LP_HEAD cnt hole k] Suc
      unfolding ListPos.case e by (simp del: lrem_find.simps of_nat_add)
  qed simp
  show "k \<le> length xs \<Longrightarrow> lrem_find sv sid tid mk val LP_TAIL cnt (of_nat (h + k) - 1) hole k \<sigma>' = (ok hole, \<sigma>')"
  proof (induction k)
    case (Suc k)
    have e: "of_nat (h + Suc k) - 1 = (of_nat (h + k) :: u64)" by simp
    have "k < length xs" using Suc(2) by simp
    then show ?case
      using lrem_find_skip [OF assms(1,2) conjunct1 [OF x] conjunct2 [OF x], of k LP_TAIL cnt hole k] Suc
      unfolding ListPos.case e by (simp del: lrem_find.simps of_nat_add)
  qed simp
qed

lemma lrem_absent:
  assumes "live (Suc (Suc n)) \<sigma>" "se_txnMap \<sigma> = []" "se_args \<sigma> = c # key # a # val # as" "stol a = ok cnt"
    and "sees \<sigma> key ttl h xs" "xs \<noteq> []" "val \<notin> set xs" "cnt \<noteq> - (2 ^ 31)"
  shows "\<exists>\<sigma>'. LRem_run sv \<sigma> = (ok fmtZero, \<sigma>') \<and> left_open n (cv (se_stores \<sigma>)) (store_of sv key) \<sigma> \<sigma>'"
  unfolding LRem_run_def arg_1 [OF assms(3)] int32_2 [OF assms(3,4)] arg_3 [OF assms(3)]
proof (rule list_scan_ok [OF assms(1,5) _ _ assms(2)], goal_cases)
  case (3 lk rv \<sigma>1 tid \<sigma>2 C v \<sigma>0)
  obtain r where r: "rv = ok r" "meta_rv ttl h xs r" using 3(5) assms(6) by (auto simp: found_def)
  obtain M where M: "shows_list v (list_of \<sigma> key) M (seg h xs) v" "h + length xs < 2 ^ 64" using 3(3) by (rule list_atD)
  have len: "unat (of_nat (h + length xs) - of_nat h :: u64) = length xs" using M(2) by (simp add: unat_of_nat64)
  show ?case
    using r 3(1) assms(8) lrem_find_none [OF 3(2) M assms(7), of "length xs" "nat \<bar>cnt\<bar>" "[of_nat h - 1]"]
    by (cases "cnt < 0") (simp_all add: if_there_def rem_list_def 3(4) meta_rv_def sbind_def Let_def len del: of_nat_add)
qed simp_all

subsection \<open>One operation\<close>

definition does :: "nat \<Rightarrow> list_op \<Rightarrow> bytes \<Rightarrow> u64 \<Rightarrow> nat \<Rightarrow> bytes list \<Rightarrow> 's Session \<Rightarrow> bool" where
  "does n op key ttl h xs \<sigma> \<longleftrightarrow> (\<exists>r \<sigma>' m w h'. run_of op sv \<sigma> = (r, \<sigma>') \<and> no_crash r \<and> reply_of r = fst (spec op xs) \<and> n \<le> m \<and>
     (quiet m ((cv (se_stores \<sigma>))(store_of sv key := w)) \<sigma> \<sigma>' \<or>
      left_open m ((cv (se_stores \<sigma>))(store_of sv key := w)) (store_of sv key) \<sigma> \<sigma>') \<and>
     becomes (cv (se_stores \<sigma>) (store_of sv key)) (list_of \<sigma> key) ttl h' (snd (spec op xs)) w \<and>
     (snd (spec op xs) \<noteq> [] \<longrightarrow> h \<le> h' + grow op \<and> h' + length (snd (spec op xs)) \<le> h + length xs + grow op))"

lemma doesI:
  assumes "run_of op sv \<sigma> = (r, \<sigma>')" "no_crash r" "reply_of r = fst (spec op xs)" "n \<le> m"
    and "quiet m ((cv (se_stores \<sigma>))(store_of sv key := w)) \<sigma> \<sigma>' \<or>
      left_open m ((cv (se_stores \<sigma>))(store_of sv key := w)) (store_of sv key) \<sigma> \<sigma>'"
    and "becomes (cv (se_stores \<sigma>) (store_of sv key)) (list_of \<sigma> key) ttl h' (snd (spec op xs)) w"
    and "snd (spec op xs) \<noteq> [] \<Longrightarrow> h \<le> h' + grow op \<and> h' + length (snd (spec op xs)) \<le> h + length xs + grow op"
  shows "does n op key ttl h xs \<sigma>"
  unfolding does_def
  by (rule exI [of _ r], rule exI [of _ \<sigma>'], rule exI [of _ m], rule exI [of _ w], rule exI [of _ h']) (use assms in simp)

lemma reply_of_ok [simp]: "reply_of (ok v) = v"
  by (simp add: reply_of_def)

lemma becomes_same: "list_at v mk ttl h xs \<Longrightarrow> (xs = [] \<Longrightarrow> ttl = 0) \<Longrightarrow> becomes v mk ttl h xs v"
  by (auto simp: becomes_def)

lemma does_nothing:
  assumes "\<exists>\<sigma>'. run_of op sv \<sigma> = (r, \<sigma>') \<and> (quiet m (cv (se_stores \<sigma>)) \<sigma> \<sigma>' \<or> left_open m (cv (se_stores \<sigma>)) (store_of sv key) \<sigma> \<sigma>')"
    and "no_crash r" "reply_of r = fst (spec op xs)" "snd (spec op xs) = xs" "n \<le> m"
    and "sees \<sigma> key ttl h xs" "xs = [] \<Longrightarrow> ttl = 0"
  shows "does n op key ttl h xs \<sigma>"
proof -
  obtain \<sigma>' where 1: "run_of op sv \<sigma> = (r, \<sigma>')"
    "quiet m (cv (se_stores \<sigma>)) \<sigma> \<sigma>' \<or> left_open m (cv (se_stores \<sigma>)) (store_of sv key) \<sigma> \<sigma>'"
    using assms(1) by blast
  show ?thesis
  proof (rule doesI [OF 1(1) assms(2,3,5)])
    show "becomes (cv (se_stores \<sigma>) (store_of sv key)) (list_of \<sigma> key) ttl h (snd (spec op xs)) (cv (se_stores \<sigma>) (store_of sv key))"
      unfolding assms(4) using assms(6,7) by (intro becomes_same) (simp_all add: sees_def)
  qed (use 1(2) assms(4) in simp_all)
qed

lemma does_change:
  assumes "\<exists>\<sigma>' w h'. run_of op sv \<sigma> = (ok (fst (spec op xs)), \<sigma>') \<and>
      quiet m ((cv (se_stores \<sigma>))(store_of sv key := w)) \<sigma> \<sigma>' \<and>
      becomes (cv (se_stores \<sigma>) (store_of sv key)) (list_of \<sigma> key) ttl h' (snd (spec op xs)) w \<and> P h'"
    and "n \<le> m" "\<And>h'. P h' \<Longrightarrow> snd (spec op xs) \<noteq> [] \<Longrightarrow>
      h \<le> h' + grow op \<and> h' + length (snd (spec op xs)) \<le> h + length xs + grow op"
  shows "does n op key ttl h xs \<sigma>"
proof -
  obtain \<sigma>' w h' where 1: "run_of op sv \<sigma> = (ok (fst (spec op xs)), \<sigma>')"
    "quiet m ((cv (se_stores \<sigma>))(store_of sv key := w)) \<sigma> \<sigma>'"
    "becomes (cv (se_stores \<sigma>) (store_of sv key)) (list_of \<sigma> key) ttl h' (snd (spec op xs)) w" "P h'"
    using assms(1) by blast
  show ?thesis by (rule doesI [OF 1(1) _ _ assms(2) disjI1 [OF 1(2)] 1(3) assms(3) [OF 1(4)]]) simp_all
qed

text \<open>The state in which an operation can run: room on both sides for what it may add.\<close>

definition ready :: "nat \<Rightarrow> list_op \<Rightarrow> bytes \<Rightarrow> u64 \<Rightarrow> nat \<Rightarrow> bytes list \<Rightarrow> 's Session \<Rightarrow> bool" where
  "ready n op key ttl h xs \<sigma> \<longleftrightarrow> live (ids op + n) \<sigma> \<and> se_txnMap \<sigma> = [] \<and> se_args \<sigma> = args_of key op \<and> op_ok op \<and>
     sees \<sigma> key ttl h xs \<and> (xs = [] \<longrightarrow> of_nat h = INITSEQ \<and> ttl = 0) \<and>
     grow op < h \<and> h + length xs + grow op < 2 ^ 63 \<and> length xs + grow op < 2 ^ 31"

lemma grow_pos: "op_ok op \<Longrightarrow> 0 < grow op"
  by (cases op) (auto simp: grow_def)

lemma does_push:
  assumes "ready n (PUSH pos vals) key ttl h xs \<sigma>"
  shows "does n (PUSH pos vals) key ttl h xs \<sigma>"
proof (rule does_change [OF _ order_refl, where P = "(=) (start_after pos (length vals) h)"])
  have r: "live (Suc (Suc n)) \<sigma>" "se_txnMap \<sigma> = []" "sees \<sigma> key ttl h xs" "vals \<noteq> []"
    "xs = [] \<Longrightarrow> \<not> False \<and> of_nat h = INITSEQ \<and> ttl = 0" "room pos (length vals) h (length xs)" "length (pushed pos vals xs) < 2 ^ 63"
    using assms by (auto simp: ready_def ids_def grow_def room_def pushed_def split: ListPos.splits)
  obtain c where c: "se_args \<sigma> = c # key # vals" using assms by (simp add: ready_def)
  show "\<exists>\<sigma>' w h'. run_of (PUSH pos vals) sv \<sigma> = (ok (fst (spec (PUSH pos vals) xs)), \<sigma>') \<and>
      quiet n ((cv (se_stores \<sigma>))(store_of sv key := w)) \<sigma> \<sigma>' \<and>
      becomes (cv (se_stores \<sigma>) (store_of sv key)) (list_of \<sigma> key) ttl h' (snd (spec (PUSH pos vals) xs)) w \<and>
      start_after pos (length vals) h = h'"
    using push_ok [OF r(1,2) c r(3,5-7,4)] by (auto simp: Let_def)
qed (auto simp: start_after_def pushed_def grow_def Let_def split: ListPos.splits)


lemma does_pushx:
  assumes "ready n (PUSHX pos vals) key ttl h xs \<sigma>"
  shows "does n (PUSHX pos vals) key ttl h xs \<sigma>"
proof (cases "xs = []")
  case True
  have r: "live (Suc (Suc n)) \<sigma>" "sees \<sigma> key ttl h xs" "xs = [] \<Longrightarrow> ttl = 0" using assms by (auto simp: ready_def ids_def)
  obtain c where c: "se_args \<sigma> = c # key # vals" using assms by (simp add: ready_def)
  show ?thesis
    by (rule does_nothing [where r = "ok fmtZero" and m = "Suc n"])
      (use pushx_gone [OF r(1) c r(2) [unfolded True], of pos] r True in \<open>auto simp: fmtZero_eq\<close>)
next
  case False
  show ?thesis
  proof (rule does_change [OF _ order_refl, where P = "(=) (start_after pos (length vals) h)"])
    have r: "live (Suc (Suc n)) \<sigma>" "se_txnMap \<sigma> = []" "sees \<sigma> key ttl h xs" "vals \<noteq> []"
      "xs = [] \<Longrightarrow> \<not> True \<and> of_nat h = INITSEQ \<and> ttl = 0" "room pos (length vals) h (length xs)" "length (pushed pos vals xs) < 2 ^ 63"
      using assms False by (auto simp: ready_def ids_def grow_def room_def pushed_def split: ListPos.splits)
    obtain c where c: "se_args \<sigma> = c # key # vals" using assms by (simp add: ready_def)
    show "\<exists>\<sigma>' w h'. run_of (PUSHX pos vals) sv \<sigma> = (ok (fst (spec (PUSHX pos vals) xs)), \<sigma>') \<and>
        quiet n ((cv (se_stores \<sigma>))(store_of sv key := w)) \<sigma> \<sigma>' \<and>
        becomes (cv (se_stores \<sigma>) (store_of sv key)) (list_of \<sigma> key) ttl h' (snd (spec (PUSHX pos vals) xs)) w \<and>
        start_after pos (length vals) h = h'"
      using push_ok [OF r(1,2) c r(3,5-7,4)] False by (auto simp: Let_def)
  qed (use False in \<open>auto simp: start_after_def pushed_def grow_def Let_def split: ListPos.splits\<close>)
qed

lemma does_pop:
  assumes "ready n (POP pos) key ttl h xs \<sigma>"
  shows "does n (POP pos) key ttl h xs \<sigma>"
proof -
  have r: "live (Suc (Suc n)) \<sigma>" "se_txnMap \<sigma> = []" "sees \<sigma> key ttl h xs" "xs = [] \<Longrightarrow> ttl = 0" using assms by (auto simp: ready_def ids_def)
  obtain c where c: "se_args \<sigma> = c # key # []" using assms by (simp add: ready_def)
  show ?thesis
  proof (cases "xs = []")
    case True
    show ?thesis
      by (rule does_nothing [where r = "ok fmtNull" and m = "Suc n"])
        (use pop_gone [OF r(1) c r(3) [unfolded True], of pos] r True in auto)
  next
    case False
    show ?thesis
    proof (rule does_change [OF _ order_refl, where P = "(=) (start_popped pos h)"])
      show "\<exists>\<sigma>' w h'. run_of (POP pos) sv \<sigma> = (ok (fst (spec (POP pos) xs)), \<sigma>') \<and>
          quiet n ((cv (se_stores \<sigma>))(store_of sv key := w)) \<sigma> \<sigma>' \<and>
          becomes (cv (se_stores \<sigma>) (store_of sv key)) (list_of \<sigma> key) ttl h' (snd (spec (POP pos) xs)) w \<and>
          start_popped pos h = h'"
        using pop_ok [OF r(1,2) c r(3) False, of pos] False by auto
    qed (use False in \<open>auto simp: start_popped_def popped_def grow_def split: ListPos.splits\<close>)
  qed
qed

lemma does_read:
  assumes "ready n LLEN key ttl h xs \<sigma>"
  shows "does n LLEN key ttl h xs \<sigma>"
proof -
  have r: "live (Suc (Suc n)) \<sigma>" "sees \<sigma> key ttl h xs" "xs = [] \<Longrightarrow> ttl = 0" "length xs < 2 ^ 63"
    using assms by (auto simp: ready_def ids_def)
  obtain c where c: "se_args \<sigma> = c # key # []" using assms by (simp add: ready_def)
  show ?thesis
    by (rule does_nothing [where r = "ok (fmtLongLong (int (length xs)))" and m = "Suc n"])
      (use llen_ok [OF r(1) c r(2,4)] r in auto)
qed

lemma does_lindex:
  assumes "ready n (LINDEX i) key ttl h xs \<sigma>"
  shows "does n (LINDEX i) key ttl h xs \<sigma>"
proof -
  have r: "live (Suc (Suc n)) \<sigma>" "se_txnMap \<sigma> = []" "sees \<sigma> key ttl h xs" "xs = [] \<Longrightarrow> ttl = 0"
    using assms by (auto simp: ready_def ids_def)
  obtain c where c: "se_args \<sigma> = c # key # dec_of_int i # []" using assms by (simp add: ready_def)
  have i: "std_stoll (dec_of_int i) = Inr i" using assms by (intro std_stoll_dec) (simp_all add: ready_def i64_def)
  show ?thesis
  proof (cases "xs = []")
    case True
    show ?thesis
      by (rule does_nothing [where r = "ok fmtNull" and m = "Suc n"])
        (use lindex_gone [OF r(1) c i r(3) [unfolded True]] r True in \<open>auto simp: pick_def\<close>)
  next
    case False
    show ?thesis
      by (rule does_nothing [where r = "ok (case pick i (length xs) of None \<Rightarrow> fmtNull | Some j \<Rightarrow> fmtBulk (xs ! j))" and m = n])
        (use lindex_ok [OF r(1,2) c i r(3) False] r in auto)
  qed
qed

lemma does_lset:
  assumes "ready n (LSET i val) key ttl h xs \<sigma>"
  shows "does n (LSET i val) key ttl h xs \<sigma>"
proof -
  have r: "live (Suc (Suc n)) \<sigma>" "se_txnMap \<sigma> = []" "sees \<sigma> key ttl h xs" "xs = [] \<Longrightarrow> ttl = 0"
    using assms by (auto simp: ready_def ids_def)
  obtain c where c: "se_args \<sigma> = c # key # dec_of_int i # val # []" using assms by (simp add: ready_def)
  have i: "stoll (dec_of_int i) = ok i" using assms by (intro stoll_dec) (simp_all add: ready_def i64_def)
  show ?thesis
  proof (cases "pick i (length xs)")
    case None
    have "reply_of (err ERR_NO_KEY '''') = str ''-ERR no such key'' @ crlf"
      "reply_of (err ERR_OUT_OF_RANGE '''') = str ''-ERR index out of range'' @ crlf"
      by (simp_all add: reply_of_def fmtErr_def Status_toString_def getErrStr_def str_def)
    then show ?thesis
      by (intro does_nothing [where r = "if xs = [] then err ERR_NO_KEY '''' else err ERR_OUT_OF_RANGE ''''" and m = "Suc n"])
        (use lset_out [OF r(1) c i r(3) None] r None in auto)
  next
    case (Some j)
    then have "j < length xs" by (auto simp: pick_def Let_def split: if_split_asm)
    show ?thesis
    proof (rule does_change [OF _ order_refl, where P = "(=) h"])
      show "\<exists>\<sigma>' w h'. run_of (LSET i val) sv \<sigma> = (ok (fst (spec (LSET i val) xs)), \<sigma>') \<and>
          quiet n ((cv (se_stores \<sigma>))(store_of sv key := w)) \<sigma> \<sigma>' \<and>
          becomes (cv (se_stores \<sigma>) (store_of sv key)) (list_of \<sigma> key) ttl h' (snd (spec (LSET i val) xs)) w \<and> h = h'"
        using lset_ok [OF r(1,2) c i r(3) Some] Some by auto
    qed (simp_all add: Some)
  qed
qed


lemma does_lrange:
  assumes "ready n (LRANGE i j) key ttl h xs \<sigma>"
  shows "does n (LRANGE i j) key ttl h xs \<sigma>"
proof -
  have r: "live (Suc (Suc n)) \<sigma>" "se_txnMap \<sigma> = []" "sees \<sigma> key ttl h xs" "xs = [] \<Longrightarrow> ttl = 0"
    "h + length xs \<le> 2 ^ 63" "length xs < 2 ^ 63"
    using assms by (auto simp: ready_def ids_def)
  obtain c where c: "se_args \<sigma> = c # key # dec_of_int i # dec_of_int j # []" using assms by (simp add: ready_def)
  have i: "stoll (dec_of_int i) = ok i" "stoll (dec_of_int j) = ok j"
    using assms by (intro stoll_dec; simp add: ready_def i64_def)+
  show ?thesis
  proof (cases "xs = []")
    case True
    then have "slice xs i j = []" by (simp add: slice_def)
    then show ?thesis
      by (intro does_nothing [where r = "ok fmtZeroBulkLen" and m = "Suc n"])
        (use lrange_gone [OF r(1) c i r(3) [unfolded True]] r True in \<open>auto simp: fmtZeroBulkLen_eq\<close>)
  next
    case False
    show ?thesis
      by (rule does_nothing [where m = n and
            r = "ok (fmtMultiBulkLen (of_nat (length (slice xs i j))) @ concat (map fmtBulk (slice xs i j)))"])
        (use lrange_ok [OF r(1,2) c i r(3) False r(5,6)] r in \<open>auto simp: Let_def\<close>)
  qed
qed

lemma does_ltrim:
  assumes "ready n (LTRIM i j) key ttl h xs \<sigma>"
  shows "does n (LTRIM i j) key ttl h xs \<sigma>"
proof -
  have r: "live (Suc (Suc (2 ^ 31 div 1000 + n))) \<sigma>" "se_txnMap \<sigma> = []" "sees \<sigma> key ttl h xs" "xs = [] \<Longrightarrow> ttl = 0"
    "h + length xs < 2 ^ 63" "length xs < 2 ^ 31"
    using assms by (auto simp: ready_def ids_def grow_def)
  obtain c where c: "se_args \<sigma> = c # key # dec_of_int i # dec_of_int j # []" using assms by (simp add: ready_def)
  have i: "stoll (dec_of_int i) = ok i" "stoll (dec_of_int j) = ok j"
    using assms by (intro stoll_dec; simp add: ready_def i64_def)+
  show ?thesis
  proof (cases "xs = []")
    case True
    then have "slice xs i j = []" by (simp add: slice_def)
    then show ?thesis
      by (intro does_nothing [where r = "ok fmtOK" and m = "Suc (2 ^ 31 div 1000 + n)"])
        (use ltrim_gone [OF r(1) c i r(3) [unfolded True]] r True in auto)
  next
    case False
    define m where "m = 2 ^ 31 div 1000 + n - (length xs - length (slice xs i j)) div 1000"
    have "(length xs - length (slice xs i j)) div 1000 \<le> 2 ^ 31 div 1000" using r(6) by (intro div_le_mono) simp
    then have m: "n \<le> m" "live (Suc (Suc (m + (length xs - length (slice xs i j)) div 1000))) \<sigma>"
      using r(1) by (simp_all add: m_def)
    show ?thesis
    proof (rule does_change [OF _ m(1), where P = "\<lambda>h'. near h xs h' (slice xs i j)"])
      show "\<exists>\<sigma>' w h'. run_of (LTRIM i j) sv \<sigma> = (ok (fst (spec (LTRIM i j) xs)), \<sigma>') \<and>
          quiet m ((cv (se_stores \<sigma>))(store_of sv key := w)) \<sigma> \<sigma>' \<and>
          becomes (cv (se_stores \<sigma>) (store_of sv key)) (list_of \<sigma> key) ttl h' (snd (spec (LTRIM i j) xs)) w \<and>
          near h xs h' (slice xs i j)"
        using ltrim_ok [OF m(2) r(2) c i r(3) False r(5)] by simp
    qed (simp add: near_def grow_def)
  qed
qed

lemma does_linsert:
  assumes "ready n (LINSERT before pivot val) key ttl h xs \<sigma>"
  shows "does n (LINSERT before pivot val) key ttl h xs \<sigma>"
proof -
  let ?wh = "str (if before then ''BEFORE'' else ''AFTER'')"
  have r: "live (Suc (Suc n)) \<sigma>" "se_txnMap \<sigma> = []" "sees \<sigma> key ttl h xs" "xs = [] \<Longrightarrow> ttl = 0"
    "0 < h" "h + Suc (length xs) < 2 ^ 64" "length xs < 2 ^ 31 - 1"
    using assms by (auto simp: ready_def ids_def grow_def)
  obtain c where c: "se_args \<sigma> = c # key # ?wh # pivot # val # []" using assms by (simp add: ready_def)
  have wh: "before \<and> strcaseeq ?wh ''before'' \<or> \<not> before \<and> strcaseeq ?wh ''after''"
    by (cases before) (simp_all add: strcaseeq_def toLower_def str_def)
  then have wh2: "strcaseeq ?wh ''before'' \<or> strcaseeq ?wh ''after''" by blast
  consider "xs = []" | "xs \<noteq> []" "pivot \<notin> set xs" | "pivot \<in> set xs" by auto
  then show ?thesis
  proof cases
    case 1
    show ?thesis
      by (rule does_nothing [where r = "ok fmtZero" and m = "Suc n"])
        (use linsert_gone [OF r(1) c wh2 r(3) [unfolded 1]] r 1 in \<open>auto simp: fmtZero_eq\<close>)
  next
    case 2
    show ?thesis
      by (rule does_nothing [where r = "ok (fmtLongLong (-1))" and m = n])
        (use linsert_absent [OF r(1,2) c wh2 r(3) 2] r 2 in auto)
  next
    case 3
    then have "xs \<noteq> []" by auto
    show ?thesis
    proof (rule does_change [OF _ order_refl, where P = "\<lambda>h'. near h xs h' (inserted before pivot val xs)"])
      show "\<exists>\<sigma>' w h'. run_of (LINSERT before pivot val) sv \<sigma> = (ok (fst (spec (LINSERT before pivot val) xs)), \<sigma>') \<and>
          quiet n ((cv (se_stores \<sigma>))(store_of sv key := w)) \<sigma> \<sigma>' \<and>
          becomes (cv (se_stores \<sigma>) (store_of sv key)) (list_of \<sigma> key) ttl h' (snd (spec (LINSERT before pivot val) xs)) w \<and>
          near h xs h' (inserted before pivot val xs)"
        using linsert_ok [OF r(1,2) c wh r(3) 3 r(5-7)] 3 \<open>xs \<noteq> []\<close> by simp
    qed (use 3 \<open>xs \<noteq> []\<close> in \<open>simp_all add: near_def grow_def\<close>)
  qed
qed

lemma does_lrem:
  assumes "ready n (LREM cnt val) key ttl h xs \<sigma>"
  shows "does n (LREM cnt val) key ttl h xs \<sigma>"
proof -
  have r: "live (Suc (Suc n)) \<sigma>" "se_txnMap \<sigma> = []" "sees \<sigma> key ttl h xs" "xs = [] \<Longrightarrow> ttl = 0"
    "0 < h" "cnt \<noteq> - (2 ^ 31)"
    using assms by (auto simp: ready_def ids_def grow_def)
  obtain c where c: "se_args \<sigma> = c # key # dec_of_int cnt # val # []" using assms by (simp add: ready_def)
  have i: "stol (dec_of_int cnt) = ok cnt" using assms by (intro stol_dec) (simp_all add: ready_def)
  consider "xs = []" | "xs \<noteq> []" "val \<notin> set xs" | "val \<in> set xs" by auto
  then show ?thesis
  proof cases
    case 1
    show ?thesis
      by (rule does_nothing [where r = "ok fmtZero" and m = "Suc n"])
        (use lrem_gone [OF r(1) c i r(3) [unfolded 1]] r 1 removed_notin [of val xs cnt] in \<open>auto simp: fmtZero_eq Let_def\<close>)
  next
    case 2
    show ?thesis
      by (rule does_nothing [where r = "ok fmtZero" and m = n])
        (use lrem_absent [OF r(1,2) c i r(3) 2 r(6)] r removed_notin [OF 2(2), of cnt] in \<open>auto simp: fmtZero_eq Let_def\<close>)
  next
    case 3
    show ?thesis
    proof (rule does_change [OF _ order_refl, where P = "\<lambda>h'. near h xs h' (removed cnt val xs)"])
      show "\<exists>\<sigma>' w h'. run_of (LREM cnt val) sv \<sigma> = (ok (fst (spec (LREM cnt val) xs)), \<sigma>') \<and>
          quiet n ((cv (se_stores \<sigma>))(store_of sv key := w)) \<sigma> \<sigma>' \<and>
          becomes (cv (se_stores \<sigma>) (store_of sv key)) (list_of \<sigma> key) ttl h' (snd (spec (LREM cnt val) xs)) w \<and>
          near h xs h' (removed cnt val xs)"
        using lrem_ok [OF r(1,2) c i r(3) 3 r(5,6)] by (simp add: Let_def)
    qed (simp_all add: near_def grow_def Let_def)
  qed
qed

lemma does_op: "ready n op key ttl h xs \<sigma> \<Longrightarrow> does n op key ttl h xs \<sigma>"
  by (cases op) (simp_all add: does_push does_pushx does_pop does_read does_lindex does_lset does_lrange does_ltrim
      does_linsert does_lrem)


end

end
