(* ===== verification/ListServe.thy ===== *)
theory ListServe
  imports ListRefine
begin

section \<open>Sequences of requests on many lists\<close>

text \<open>
  A session that sends list requests, on any keys and in any order, sees a map from keys to lists: the
  replies are those of the specification, and the stores hold the lists of the specification afterwards.
\<close>

primrec serve :: "'s Command list \<Rightarrow> 's Server \<Rightarrow> bytes list list \<Rightarrow> ('s, bytes list) cmd" where
  "serve cs sv [] = sret []"
| "serve cs sv (args # rest) =
     sthen (smod (\<lambda>\<sigma>. \<sigma>\<lparr>se_args := args\<rparr>))
      (sbind (processRequest cs sv) (\<lambda>reply.
       sbind (serve cs sv rest) (\<lambda>replies. sret (reply # replies))))"

type_synonym request = "bytes \<times> list_op"

primrec db_spec :: "request list \<Rightarrow> (bytes \<Rightarrow> bytes list) \<Rightarrow> bytes list \<times> (bytes \<Rightarrow> bytes list)" where
  "db_spec [] m = ([], m)"
| "db_spec (r # rs) m =
    (let (reply, ys) = spec (snd r) (m (fst r)); (replies, m') = db_spec rs (m(fst r := ys)) in (reply # replies, m'))"

definition requests :: "request list \<Rightarrow> bytes list list" where
  "requests rs = map (\<lambda>(key, op). args_of key op) rs"

definition growth :: "request list \<Rightarrow> nat" where
  "growth rs = sum_list (map (grow \<circ> snd) rs)"

definition txns :: "request list \<Rightarrow> nat" where
  "txns rs = sum_list (map (ids \<circ> snd) rs)"

lemma cells_disjoint:
  assumes "list_key a" "list_key b" "rk_pk a \<noteq> rk_pk b" "kb \<in> cells a"
  shows "kb \<notin> cells b"
proof -
  have e: "rk_pk (list_ele k i) = rk_pk k" for k i by (simp add: list_ele_def RecordKey_new_def)
  have "enc x \<noteq> enc y" if "RecordKey_wf x" "RecordKey_wf y" "rk_pk x = rk_pk a" "rk_pk y = rk_pk b" for x y
    using enc_eq [OF that(1,2)] that(3,4) assms(3) by (auto simp: RecordKey_eq_def)
  then show ?thesis using assms(1,2,4) by (auto simp: cells_def e list_key_wf)
qed

lemma ttl_cell_other:
  assumes "list_key a" "list_key b"
  shows "ttl_cell a ttl \<notin> cells b"
proof -
  let ?t = "\<lparr>ti_priKey = rk_pk a, ti_type = RT_LIST_META, ti_dbId = rk_dbId a, ti_ttl = ttl\<rparr>"
  have "length (rk_pk a) < 2 ^ 62" using assms(1) by (auto simp: list_key_def RecordKey_new_def)
  then have "RecordKey_wf (ttl_key ?t)"
    by (simp add: RecordKey_wf_def ttl_key_def RecordKey_new_def getRealKeyType_def ttlIndex_def)
  from enc_eq [OF this list_key_wf(1) [OF assms(2)]] enc_eq [OF this list_key_wf(2) [OF assms(2)]] assms show ?thesis
    by (auto simp: ttl_cell_def cells_def RecordKey_eq_def)
qed

lemma list_at_cong:
  assumes "list_at v mk ttl h xs" "\<And>kb. kb \<in> cells mk \<Longrightarrow> w kb = v kb"
  shows "list_at w mk ttl h xs"
  using assms unfolding list_at_def shows_list_def by auto

lemma list_at_Nil: "list_at v mk ttl h [] \<Longrightarrow> h' < 2 ^ 64 \<Longrightarrow> list_at v mk ttl' h' []"
  by (simp add: list_at_def)

lemma INITSEQ_of: "of_nat (2 ^ 62 - 1) = INITSEQ"
  by (simp add: INITSEQ_def MAXSEQ_def)

definition list_cells :: "'s Session \<Rightarrow> bytes \<Rightarrow> bytes set" where
  "list_cells \<sigma> key = cells (list_of \<sigma> key) \<union> range (ttl_cell (list_of \<sigma> key))"

lemma length_removed: "length (removed cnt val xs) \<le> length xs"
proof -
  have "length (drop_occ n x ys) \<le> length ys" for n and x :: 'b and ys
    by (induction n x ys rule: drop_occ.induct) (auto simp: le_SucI)
  from this [of _ _ xs] this [of _ _ "rev xs"] show ?thesis by (auto simp: removed_def)
qed

lemma length_slice: "length (slice xs i j) \<le> length xs"
  by (simp add: slice_def Let_def)

lemma length_inserted: "length (inserted before pivot val xs) \<le> Suc (length xs)"
  by (simp add: inserted_def Let_def)

lemma length_spec: "op_ok op \<Longrightarrow> length (snd (spec op xs)) \<le> length xs + grow op"
  by (cases op) (auto simp: grow_def pushed_def popped_def length_removed length_inserted le_SucI length_slice Let_def
      split: ListPos.split option.split)

context cmd_env
begin

definition stored :: "nat \<Rightarrow> bytes \<Rightarrow> bytes list \<Rightarrow> 's Session \<Rightarrow> bool" where
  "stored g key xs \<sigma> \<longleftrightarrow> (\<exists>ttl h. sees \<sigma> key ttl h xs \<and> (xs = [] \<longrightarrow> h = 2 ^ 62 - 1 \<and> ttl = 0) \<and>
     g < h \<and> h + length xs + g < 2 ^ 63 \<and> length xs + g < 2 ^ 31)"

lemma stored_after:
  assumes "becomes (cv (se_stores \<sigma>) (store_of sv key)) (list_of \<sigma> key) ttl h' ys (cv (se_stores \<sigma>') (store_of sv key))"
    and "se_dbId \<sigma>' = se_dbId \<sigma>" "later (clk (se_stores \<sigma>)) (clk (se_stores \<sigma>'))"
    and "sees \<sigma> key ttl h xs" "fresh \<sigma> (store_of sv key) ttl"
    and "ys \<noteq> [] \<Longrightarrow> h \<le> h' + a \<and> h' + length ys \<le> h + length xs + a"
    and "a + g < h" "h + length xs + (a + g) < 2 ^ 63" "length ys + g < 2 ^ 31"
  shows "stored g key ys \<sigma>'"
proof (cases "ys = []")
  case True
  have "list_at (cv (se_stores \<sigma>') (store_of sv key)) (list_of \<sigma>' key) 0 (2 ^ 62 - 1) ys"
    using assms(1,2) True by (auto simp: becomes_def list_of_def intro: list_at_Nil)
  moreover have "g < 2 ^ 31" using assms(9) by simp
  ultimately show ?thesis
    using assms(4) True unfolding stored_def by (intro exI [of _ 0] exI [of _ "2 ^ 62 - 1"]) (simp add: sees_def)
next
  case False
  have "sees \<sigma>' key ttl h' ys"
    using assms(1,2,4) fresh_later [OF assms(5,3)] by (simp add: sees_def becomes_def list_of_def)
  then show ?thesis
    using assms(6-9) False unfolding stored_def by (intro exI [of _ ttl] exI [of _ h']) auto
qed

text \<open>What a request leaves as it was: every record that belongs to none of the keys.\<close>

definition outside :: "bytes set \<Rightarrow> 's Session \<Rightarrow> 's Session \<Rightarrow> bool" where
  "outside K \<sigma> \<sigma>' \<longleftrightarrow> (\<forall>sid kb. (\<forall>key\<in>K. kb \<notin> list_cells \<sigma> key) \<longrightarrow> cv (se_stores \<sigma>') sid kb = cv (se_stores \<sigma>) sid kb)"

definition idle :: "nat \<Rightarrow> 's Session \<Rightarrow> bool" where
  "idle n \<sigma> \<longleftrightarrow> live n \<sigma> \<and> se_txnMap \<sigma> = [] \<and> (se_authed \<sigma> \<or> sv_requirepass sv = [])"

lemma live_mono: "live m \<sigma> \<Longrightarrow> n \<le> m \<Longrightarrow> live n \<sigma>"
  unfolding live_def by (induction m) (auto simp: le_Suc_eq dest: inv_mono)

lemma quiet_idle: "quiet n C \<sigma> \<sigma>' \<Longrightarrow> idle m \<sigma> \<Longrightarrow> idle n \<sigma>'"
  using quiet_fields(3,11) [of n C \<sigma> \<sigma>'] quiet_live [of n C \<sigma> \<sigma>' m] by (auto simp: idle_def)

lemma stored_same:
  assumes "stored g key xs \<sigma>" "se_dbId \<sigma>' = se_dbId \<sigma>" "later (clk (se_stores \<sigma>)) (clk (se_stores \<sigma>'))"
    and "\<And>kb. kb \<in> cells (list_of \<sigma> key) \<Longrightarrow> cv (se_stores \<sigma>') (store_of sv key) kb = cv (se_stores \<sigma>) (store_of sv key) kb"
    and "g' \<le> g"
  shows "stored g' key xs \<sigma>'"
proof -
  obtain ttl h where h: "sees \<sigma> key ttl h xs" "xs = [] \<longrightarrow> h = 2 ^ 62 - 1 \<and> ttl = 0" "g < h" "h + length xs + g < 2 ^ 63"
    "length xs + g < 2 ^ 31"
    using assms(1) by (auto simp: stored_def)
  have "list_of \<sigma>' key = list_of \<sigma> key" using assms(2) by (simp add: list_of_def)
  then have "sees \<sigma>' key ttl h xs"
    using h(1) list_at_cong [OF _ assms(4)] fresh_later [OF _ assms(3)] by (auto simp: sees_def)
  then show ?thesis using h(2-5) assms(5) unfolding stored_def by (intro exI [of _ ttl] exI [of _ h]) simp
qed

lemma request_serves:
  assumes "idle (ids op + n) \<sigma>" "op_ok op" "se_args \<sigma> = args_of key op" "key \<in> K"
    and "\<And>k. k \<in> K \<Longrightarrow> stored (grow op + g) k (m k) \<sigma>"
  shows "\<exists>\<sigma>'. processRequest list_commands sv \<sigma> = (ok (fst (spec op (m key))), \<sigma>') \<and> idle n \<sigma>' \<and> outside K \<sigma> \<sigma>' \<and>
    se_dbId \<sigma>' = se_dbId \<sigma> \<and> same_mem (se_mem \<sigma>) (se_mem \<sigma>') \<and> (\<forall>k\<in>K. stored g k ((m(key := snd (spec op (m key)))) k) \<sigma>')"
proof -
  let ?xs = "m key" and ?ys = "snd (spec op (m key))" and ?sid = "store_of sv key" and ?C = "cv (se_stores \<sigma>)"
  obtain ttl h where h: "sees \<sigma> key ttl h ?xs" "?xs = [] \<longrightarrow> h = 2 ^ 62 - 1 \<and> ttl = 0" "grow op + g < h"
    "h + length ?xs + (grow op + g) < 2 ^ 63" "length ?xs + (grow op + g) < 2 ^ 31"
    using assms(5) [OF assms(4)] by (auto simp: stored_def)
  have "ready n op key ttl h ?xs \<sigma>"
    using assms(1-3) h INITSEQ_of by (auto simp: ready_def idle_def)
  from does_op [OF this] obtain r \<sigma>1 n' w h' where 1: "run_of op sv \<sigma> = (r, \<sigma>1)" "no_crash r" "reply_of r = fst (spec op ?xs)"
    "n \<le> n'" "quiet n' (?C(?sid := w)) \<sigma> \<sigma>1 \<or> left_open n' (?C(?sid := w)) ?sid \<sigma> \<sigma>1"
    "becomes (?C ?sid) (list_of \<sigma> key) ttl h' ?ys w"
    "?ys \<noteq> [] \<longrightarrow> h \<le> h' + grow op \<and> h' + length ?ys \<le> h + length ?xs + grow op"
    unfolding does_def by blast
  have p: "plain_session \<sigma>" "se_txnMap \<sigma> = []" "se_authed \<sigma> \<or> sv_requirepass sv = []"
    using assms(1) by (auto simp: idle_def live_def)
  from request_ok [OF p assms(2,3) 1(1,2,5)] obtain \<sigma>2 where
    2: "processRequest list_commands sv \<sigma> = (ok (fst (spec op ?xs)), \<sigma>2)" "quiet n' (?C(?sid := w)) \<sigma> \<sigma>2"
    unfolding 1(3) by blast
  have q: "cv (se_stores \<sigma>2) = ?C(?sid := w)" "later (clk (se_stores \<sigma>)) (clk (se_stores \<sigma>2))" "se_dbId \<sigma>2 = se_dbId \<sigma>"
    "same_mem (se_mem \<sigma>) (se_mem \<sigma>2)"
    using 2(2) quiet_fields(2) [OF 2(2)] by (simp_all add: quiet_def same_sess_def)
  have i: "idle n \<sigma>2" using quiet_idle [OF 2(2) assms(1)] live_mono [OF _ 1(4)] by (simp add: idle_def)
  have f: "fresh \<sigma> ?sid ttl" using h(1,2) by (auto simp: sees_def fresh_def)
  have ys: "length ?ys + g < 2 ^ 31" using length_spec [OF assms(2), of ?xs] h(5) by simp
  have out: "w kb = ?C ?sid kb" if "kb \<notin> list_cells \<sigma> key" for kb
    using 1(6) that by (auto simp: becomes_def list_cells_def)
  have "stored g k ((m(key := ?ys)) k) \<sigma>2" if "k \<in> K" for k
  proof (cases "k = key")
    case True
    show ?thesis using stored_after [OF _ q(3,2) h(1) f _ h(3,4) ys, of h'] 1(6,7) q(1) True by auto
  next
    case False
    have "list_key (list_of \<sigma> k)" "list_key (list_of \<sigma> key)"
      using assms(5) [OF that] h(1) by (auto simp: stored_def sees_def)
    then have "kb \<notin> list_cells \<sigma> key" if "kb \<in> cells (list_of \<sigma> k)" for kb
      using that False cells_disjoint [of "list_of \<sigma> k" "list_of \<sigma> key" kb] ttl_cell_other by (auto simp: list_cells_def)
    then show ?thesis using stored_same [OF assms(5) [OF that] q(3,2), of g] False out q(1) by auto
  qed
  moreover have "outside K \<sigma> \<sigma>2" using out assms(4) q(1) by (auto simp: outside_def)
  ultimately show ?thesis using 2(1) i q(3,4) by blast
qed


lemma stored_args: "stored g k xs (\<sigma>\<lparr>se_args := as\<rparr>) = stored g k xs \<sigma>"
  by (simp add: stored_def sees_def fresh_def list_of_def)

lemma idle_args: "idle n (\<sigma>\<lparr>se_args := as\<rparr>) = idle n \<sigma>"
  by (simp add: idle_def live_def plain_session_def)

lemma outside_trans: "outside K \<sigma> \<sigma>' \<Longrightarrow> outside K \<sigma>' \<sigma>'' \<Longrightarrow> se_dbId \<sigma>' = se_dbId \<sigma> \<Longrightarrow> outside K \<sigma> \<sigma>''"
  by (simp add: outside_def list_cells_def list_of_def)

lemma outside_args: "outside K (\<sigma>\<lparr>se_args := as\<rparr>) \<sigma>' = outside K \<sigma> \<sigma>'"
  by (simp add: outside_def list_cells_def list_of_def)

lemma serve_ok:
  assumes "idle (txns rs + n) \<sigma>" "list_all (op_ok \<circ> snd) rs" "fst ` set rs \<subseteq> K" "\<And>k. k \<in> K \<Longrightarrow> stored (growth rs + g) k (m k) \<sigma>"
  shows "\<exists>\<sigma>'. serve list_commands sv (requests rs) \<sigma> = (ok (fst (db_spec rs m)), \<sigma>') \<and> idle n \<sigma>' \<and> outside K \<sigma> \<sigma>' \<and>
    se_dbId \<sigma>' = se_dbId \<sigma> \<and> (\<forall>k\<in>K. stored g k (snd (db_spec rs m) k) \<sigma>')"
  using assms
proof (induction rs arbitrary: \<sigma> m)
  case Nil
  then show ?case by (auto simp: requests_def growth_def txns_def outside_def)
next
  case (Cons r rs)
  obtain key op where r: "r = (key, op)" by (cases r)
  let ?\<sigma> = "\<sigma>\<lparr>se_args := args_of key op\<rparr>" and ?m = "m(key := snd (spec op (m key)))"
  have t: "txns (r # rs) + n = ids op + (txns rs + n)" "growth (r # rs) + g = grow op + (growth rs + g)"
    by (simp_all add: txns_def growth_def r)
  have k: "op_ok op" "key \<in> K" "list_all (op_ok \<circ> snd) rs" "fst ` set rs \<subseteq> K"
    using Cons.prems(2,3) r by (auto simp: comp_def)
  obtain \<sigma>1 where 1: "processRequest list_commands sv ?\<sigma> = (ok (fst (spec op (m key))), \<sigma>1)" "idle (txns rs + n) \<sigma>1"
    "outside K ?\<sigma> \<sigma>1" "se_dbId \<sigma>1 = se_dbId ?\<sigma>" "\<forall>k\<in>K. stored (growth rs + g) k (?m k) \<sigma>1"
    using request_serves [of op "txns rs + n" ?\<sigma> key K "growth rs + g" m] Cons.prems(1,4) k(1,2) t
    by (auto simp: idle_args stored_args)
  obtain \<sigma>2 where 2: "serve list_commands sv (requests rs) \<sigma>1 = (ok (fst (db_spec rs ?m)), \<sigma>2)" "idle n \<sigma>2"
    "outside K \<sigma>1 \<sigma>2" "se_dbId \<sigma>2 = se_dbId \<sigma>1" "\<forall>k\<in>K. stored g k (snd (db_spec rs ?m) k) \<sigma>2"
    using Cons.IH [OF 1(2) k(3,4), of ?m] 1(5) by blast
  have "db_spec (r # rs) m = (fst (spec op (m key)) # fst (db_spec rs ?m), snd (db_spec rs ?m))"
    by (simp add: r split: prod.split)
  moreover have "serve list_commands sv (requests (r # rs)) \<sigma> = (ok (fst (spec op (m key)) # fst (db_spec rs ?m)), \<sigma>2)"
    using 1(1) 2(1) by (simp add: requests_def r sbind_def smod_def)
  moreover have "outside K \<sigma> \<sigma>2" using outside_trans [OF 1(3) 2(3)] 1(4) by (simp add: outside_args)
  ultimately show ?case using 2 1(4) by simp
qed


end

subsection \<open>On RocksDB\<close>

locale reliable_server = reliable_rocksdb +
  fixes sv :: "('a, 'b) RocksKVStore list Server"
  assumes server_ops: "sv_ops sv = rocks_ops R"
    and server_plain: "plain_server sv"

sublocale reliable_server \<subseteq> ce: cmd_env "rocks_ops R" stores_ready length "committed dbv" "store_pv wr" store_fin store_clk sv
  by unfold_locales (simp_all add: server_ops server_plain)

text \<open>
  A session between requests, with \<open>n\<close> transaction numbers left; and the list a key holds, unexpired, with
  \<open>g\<close> indices free at both ends.
\<close>

definition session_idle :: "nat \<Rightarrow> ('d, 't) RocksKVStore list Server \<Rightarrow> ('d, 't) RocksKVStore list Session \<Rightarrow> bool" where
  "session_idle n sv \<sigma> \<longleftrightarrow> stores_ready n (se_stores \<sigma>) \<and> length (se_stores \<sigma>) = sv_kvstoreCount sv \<and> plain_session \<sigma> \<and>
     se_txnMap \<sigma> = [] \<and> (se_authed \<sigma> \<or> sv_requirepass sv = [])"

definition holds_list ::
  "('d \<Rightarrow> contents) \<Rightarrow> ('d, 't) RocksKVStore list Server \<Rightarrow> nat \<Rightarrow> bytes \<Rightarrow> bytes list \<Rightarrow>
   ('d, 't) RocksKVStore list Session \<Rightarrow> bool" where
  "holds_list dbv sv g key xs \<sigma> \<longleftrightarrow> length key < 2 ^ 62 \<and>
     (\<exists>ttl h. list_at (committed dbv (se_stores \<sigma>) (store_of sv key)) (list_of \<sigma> key) ttl h xs \<and>
       (if xs = [] then h = 2 ^ 62 - 1 \<and> ttl = 0
        else sv_noexpire sv \<or> ttl = 0 \<or> (\<forall>m. store_clk (se_stores \<sigma>) (store_of sv key) m < ttl)) \<and>
       g < h \<and> h + length xs + g < 2 ^ 63 \<and> length xs + g < 2 ^ 31)"

context reliable_server
begin

lemma idle_eq: "ce.idle n \<sigma> = session_idle n sv \<sigma>"
  by (auto simp: ce.idle_def ce.live_def session_idle_def)

lemma stored_eq: "ce.stored g key xs \<sigma> = holds_list dbv sv g key xs \<sigma>"
  by (cases "xs = []") (auto simp: ce.stored_def holds_list_def ce.sees_def ce.fresh_def)

lemma serve_refines:
  assumes "session_idle (txns rs + n) sv \<sigma>" "list_all (op_ok \<circ> snd) rs" "fst ` set rs \<subseteq> K"
    and "\<And>key. key \<in> K \<Longrightarrow> holds_list dbv sv (growth rs + g) key (m key) \<sigma>"
  shows "\<exists>\<sigma>'. serve list_commands sv (requests rs) \<sigma> = (ok (fst (db_spec rs m)), \<sigma>') \<and>
    session_idle n sv \<sigma>' \<and> (\<forall>key\<in>K. holds_list dbv sv g key (snd (db_spec rs m) key) \<sigma>') \<and>
    (\<forall>sid kb. (\<forall>key\<in>K. kb \<notin> list_cells \<sigma> key) \<longrightarrow>
       committed dbv (se_stores \<sigma>') sid kb = committed dbv (se_stores \<sigma>) sid kb)"
  using ce.serve_ok [of rs n \<sigma> K g m] assms by (auto simp: idle_eq stored_eq ce.outside_def)

end

definition mem_server :: "nat \<Rightarrow> (memdb, memtxn) RocksKVStore list Server" where
  "mem_server n =
     \<lparr>sv_ops = rocks_ops mem_rocks, sv_kvstoreCount = n, sv_chunkSize = CLUSTER_SLOTS, sv_noexpire = False,
      sv_aofEnabled = False, sv_psyncEnabled = False, sv_ignoreKeyLock = False, sv_clusterEnabled = False,
      sv_clusterSingleNode = False, sv_allowCrossSlot = False, sv_elementLimitForSingleDelete = 2048,
      sv_elementLimitForSingleDeleteZset = 1024,
      sv_cluster = \<lparr>cs_fail = False, cs_nodeBySlot = (\<lambda>_. None), cs_myself = 0, cs_master = (\<lambda>_. None), cs_addr = (\<lambda>_. [])\<rparr>,
      sv_isReadonlyCmd = (\<lambda>_. False), sv_setOrder = (\<lambda>xs. xs), sv_requirepass = []\<rparr>"

definition mem_session :: "nat \<Rightarrow> (memdb, memtxn) RocksKVStore list Session" where
  "mem_session n =
     \<lparr>se_stores = replicate n sample_store, se_args = [], se_sessionCmd = [], se_dbId = 0, se_version = -1, se_txnVersion = -1,
      se_multi = False, se_master = False, se_readonly = False, se_replOnly = False, se_txnMap = [], se_keylockmap = Map.empty,
      se_lockRes = (\<lambda>_. LOCKRES_OK), se_lockTrace = [],
      se_mem = \<lparr>ml_net = False, ml_hardMemoryLimit = 0, ml_softMemoryLimit = 0, ml_softMemoryLimitSeconds = 0,
        ml_haveExceedHardLimit = False, ml_haveExceedSoftLimit = False, ml_softLimitReachedTime = None,
        ml_commandUsedMemory = 0, ml_sclock = (\<lambda>_. 0)\<rparr>,
      se_extendProtocol = False, se_timestamp = -1, se_authed = False, se_tsFromExtendedProtocol = 0\<rparr>"

lemma mem_server_plain: "0 < n \<Longrightarrow> n < 2 ^ 32 \<Longrightarrow> plain_server (mem_server n)"
  by (simp add: plain_server_def mem_server_def)

interpretation ms: reliable_server mem_rocks mem_lookup mem_wr "mem_server 10"
  by unfold_locales (simp_all add: mem_server_plain, simp add: mem_server_def)

lemma mem_session_idle: "k + 1 < 2 ^ 64 \<Longrightarrow> session_idle k (mem_server n) (mem_session n)"
  by (auto simp: session_idle_def stores_ready_def store_ready_def mem_server_def mem_session_def sample_store_def
      plain_session_def unlimited_def)

lemma mem_session_empty: "g < 2 ^ 31 \<Longrightarrow> length key < 2 ^ 62 \<Longrightarrow> holds_list mem_lookup (mem_server n) g key [] (mem_session n)"
proof -
  have "committed mem_lookup (se_stores (mem_session n)) sid = Map.empty" for sid
    by (simp add: committed_def mem_session_def sample_store_def mem_lookup_def)
  then show "g < 2 ^ 31 \<Longrightarrow> length key < 2 ^ 62 \<Longrightarrow> ?thesis"
    unfolding holds_list_def by (intro conjI exI [of _ 0] exI [of _ "2 ^ 62 - 1"]) (simp_all add: list_at_def shows_list_def)
qed

text \<open>C6: The list commands refine a map from keys to lists. Take a server whose RocksDB calls succeed, a
  session between requests and a set of keys that hold the unexpired lists \<open>m\<close>. Any sequence of well-formed
  requests LPUSH, RPUSH, LPUSHX, RPUSHX, LPOP, RPOP, LLEN, LINDEX, LSET, LRANGE, LTRIM, LINSERT and LREM on
  these keys, in any order, is served: each request gets the reply that \<open>spec\<close> gives for the list of its key at that
  moment, error replies included; afterwards the keys hold the lists of the specification, the session is between
  requests again with no transaction open, and no record that belongs to another key has changed.\<close>

theorem list_requests_refine:
  assumes "reliable_rocksdb R dbv wr" "sv_ops sv = rocks_ops R" "plain_server sv"
    and "session_idle (txns rs + n) sv \<sigma>" "list_all (op_ok \<circ> snd) rs" "fst ` set rs \<subseteq> K"
    and "\<forall>key\<in>K. holds_list dbv sv (growth rs + g) key (m key) \<sigma>"
  shows "\<exists>\<sigma>'. serve list_commands sv (requests rs) \<sigma> = (ok (fst (db_spec rs m)), \<sigma>') \<and>
    session_idle n sv \<sigma>' \<and> (\<forall>key\<in>K. holds_list dbv sv g key (snd (db_spec rs m) key) \<sigma>') \<and>
    (\<forall>sid kb. (\<forall>key\<in>K. kb \<notin> list_cells \<sigma> key) \<longrightarrow>
       committed dbv (se_stores \<sigma>') sid kb = committed dbv (se_stores \<sigma>) sid kb)"
proof -
  have s: "reliable_server R dbv wr sv"
    using assms(1-3) by (simp add: reliable_server_def reliable_server_axioms_def)
  show ?thesis
    using reliable_server.serve_refines [OF s assms(4-6), of g m] assms(7) by simp
qed

text \<open>Two keys; the replies and the lists of the specification are evaluated.\<close>

definition sample_requests :: "request list" where
  "sample_requests =
     [(str ''a'', PUSH LP_TAIL [str ''x'', str ''y'', str ''x'']), (str ''b'', PUSH LP_HEAD [str ''z'']),
      (str ''a'', LREM 0 (str ''x'')), (str ''b'', LINSERT True (str ''z'') (str ''w'')), (str ''a'', LSET 5 (str ''v'')),
      (str ''b'', LRANGE 0 (-1)), (str ''a'', POP LP_TAIL), (str ''a'', LLEN)]"

theorem list_requests_refine_witness:
  "\<exists>\<sigma>'. serve list_commands (mem_server 10) (requests sample_requests) (mem_session 10) =
      (ok [str '':3'' @ crlf, str '':1'' @ crlf, str '':2'' @ crlf, str '':2'' @ crlf, str ''-ERR index out of range'' @ crlf,
        str ''*2'' @ crlf @ str ''$1'' @ crlf @ str ''w'' @ crlf @ str ''$1'' @ crlf @ str ''z'' @ crlf,
        str ''$1'' @ crlf @ str ''y'' @ crlf, str '':0'' @ crlf], \<sigma>') \<and>
    holds_list mem_lookup (mem_server 10) 0 (str ''a'') [] \<sigma>' \<and>
    holds_list mem_lookup (mem_server 10) 0 (str ''b'') [str ''w'', str ''z''] \<sigma>'"
proof -
  have s: "db_spec sample_requests (\<lambda>_. []) =
      ([str '':3'' @ crlf, str '':1'' @ crlf, str '':2'' @ crlf, str '':2'' @ crlf, str ''-ERR index out of range'' @ crlf,
        str ''*2'' @ crlf @ str ''$1'' @ crlf @ str ''w'' @ crlf @ str ''$1'' @ crlf @ str ''z'' @ crlf,
        str ''$1'' @ crlf @ str ''y'' @ crlf, str '':0'' @ crlf], (\<lambda>_. [])(str ''b'' := [str ''w'', str ''z'']))"
    by (simp add: sample_requests_def pushed_def removed_def inserted_def first_pos_def slice_def pick_def popped_def
        fmtLongLong_def fmtBulk_def fmtMultiBulkLen_def dec_of_int_def dec_of_nat.simps digit_def str_def fun_eq_iff)
  have g: "txns sample_requests = 16" "growth sample_requests = 10"
    by (simp_all add: txns_def growth_def sample_requests_def ids_def grow_def)
  have "sv_ops (mem_server 10) = rocks_ops mem_rocks" by (simp add: mem_server_def)
  from list_requests_refine [OF memr.reliable_rocksdb_axioms this mem_server_plain, of sample_requests 0 "mem_session 10"
      "{str ''a'', str ''b''}" 0 "\<lambda>_. []"]
  moreover have "list_all (op_ok \<circ> snd) sample_requests" "fst ` set sample_requests \<subseteq> {str ''a'', str ''b''}"
    by (simp_all add: sample_requests_def i64_def)
  ultimately show ?thesis
    unfolding s g using mem_session_idle [of 16 10] mem_session_empty [of 10 "str ''a''" 10] mem_session_empty [of 10 "str ''b''" 10]
    by (auto simp: str_def)
qed

end
