(* ===== verification/CommitRetry.thy ===== *)
theory CommitRetry
  imports ListServe
begin

section \<open>Retried commits\<close>

text \<open>
  The commands repeat their work when a commit reports \<open>ERR_COMMIT_RETRY\<close>. The session still holds the
  transaction whose commit failed, so the next attempt works on a transaction object that is finished.
\<close>

lemma destroy_no_status: "txn_destroy (rocks_ops R) sid tid s \<noteq> (err c m, s')"
proof
  assume "txn_destroy (rocks_ops R) sid tid s = (err c m, s')"
  then show False
    using finish_txn_no_status [of tid TXNID_UNINITED "s ! sid" c m]
    by (auto simp: rocks_ops_def on_store_def RocksTxn_destroy_def with_txn_def sbind_def
        split: if_split_asm prod.split_asm option.split_asm sum.split_asm)
qed

lemma commit_fails_keeps_map:
  assumes "SessionCtx_commitTransaction sv sid tid \<sigma> = (err c m, \<sigma>')" "sv_ops sv = rocks_ops R"
  obtains sess s where "txn_commit (rocks_ops R) sess sid tid (se_stores \<sigma>) = (err c m, s)" "\<sigma>' = \<sigma>\<lparr>se_stores := s\<rparr>"
proof -
  have d: "erase_txn sv sid tid x \<noteq> (err c m, y)" for x y
    using destroy_no_status [of R sid tid] assms(2)
    by (auto simp: erase_txn_def sbind_def in_stores_def smod_def split: prod.split_asm sum.split_asm)
  show ?thesis
    using assms d that
    by (auto simp: SessionCtx_commitTransaction_def sbind_def in_stores_def
        split: prod.split_asm sum.split_asm if_split_asm)
qed

context rocksdb
begin

lemma failed_commit_finishes:
  assumes "stores_inv s" "txn_view dbv wr s sid tid = Some v" "txn_commit (rocks_ops R) sess sid tid s = (err c m, s')"
    and "rk_type k \<noteq> RT_INVALID"
  shows "kv_getKV (rocks_ops R) sid tid k s' = (Inl Undef, s')"
  using rk.dead_law [of s' sid tid k "ele_value []"] rk.commit_law [OF assms(1-3)] assms(4) by simp

end

text \<open>C33: A commit that reports \<open>ERR_COMMIT_RETRY\<close> leaves its transaction in the session. The transaction that
  \<open>createTransaction\<close> then returns for the next attempt is the finished one, and the first record read through it
  is a call on a RocksDB transaction that has been released.\<close>

theorem commit_retry_uses_finished_txn:
  assumes "rocksdb R dbv wr" "sv_ops sv = rocks_ops R" "stores_inv (se_stores \<sigma>)"
    and "map_of (se_txnMap \<sigma>) sid = Some tid" "txn_view dbv wr (se_stores \<sigma>) sid tid = Some v"
    and "SessionCtx_commitTransaction sv sid tid \<sigma> = (err ERR_COMMIT_RETRY msg, \<sigma>')"
  shows "SessionCtx_createTransaction sv sid \<sigma>' = (ok tid, \<sigma>') \<and>
    (\<forall>k. rk_type k \<noteq> RT_INVALID \<longrightarrow> getKV sv sid tid k \<sigma>' = (Inl Undef, \<sigma>'))"
proof -
  obtain sess s where s: "txn_commit (rocks_ops R) sess sid tid (se_stores \<sigma>) = (err ERR_COMMIT_RETRY msg, s)"
    "\<sigma>' = \<sigma>\<lparr>se_stores := s\<rparr>"
    using commit_fails_keeps_map [OF assms(6,2)] .
  have "getKV sv sid tid k \<sigma>' = (Inl Undef, \<sigma>')" if "rk_type k \<noteq> RT_INVALID" for k
    using rocksdb.failed_commit_finishes [OF assms(1,3,5) s(1) that] assms(2) s(2) by (simp add: getKV_def in_stores_def)
  moreover have "SessionCtx_createTransaction sv sid \<sigma>' = (ok tid, \<sigma>')"
    using assms(4) s(2) by (simp add: SessionCtx_createTransaction_def)
  ultimately show ?thesis by blast
qed

text \<open>RocksDB in memory, whose commits meet a conflict.\<close>

definition busy_rocks :: "(memdb, memtxn) rocks" where
  "busy_rocks = mem_rocks\<lparr>rd_commit := (\<lambda>d t. (RBusy, d))\<rparr>"

interpretation busy: rocksdb busy_rocks mem_lookup mem_wr
  by unfold_locales
    (auto simp: busy_rocks_def mem.begin_wr dest: mem.get_found mem.get_missing mem.put_wr
      mem.delete_wr mem.deleteRange_db mem.seek_sorted mem.seek_sound mem.seek_complete)

definition busy_server :: "(memdb, memtxn) RocksKVStore list Server" where
  "busy_server = (mem_server 1)\<lparr>sv_ops := rocks_ops busy_rocks\<rparr>"

definition busy_session :: "(memdb, memtxn) RocksKVStore list Session" where
  "busy_session = snd (SessionCtx_createTransaction busy_server 0 (mem_session 1))"

theorem commit_retry_uses_finished_txn_witness:
  "\<exists>\<sigma>'. fst (SessionCtx_commitTransaction busy_server 0 1 busy_session) = err ERR_COMMIT_RETRY ''rocksdb'' \<and>
    \<sigma>' = snd (SessionCtx_commitTransaction busy_server 0 1 busy_session) \<and>
    SessionCtx_createTransaction busy_server 0 \<sigma>' = (ok 1, \<sigma>') \<and>
    getKV busy_server 0 1 (RecordKey_new 0 0 RT_KV [97] [] 0) \<sigma>' = (Inl Undef, \<sigma>')"
proof -
  have r: "fst (SessionCtx_commitTransaction busy_server 0 1 busy_session) = err ERR_COMMIT_RETRY ''rocksdb''"
    "map_of (se_txnMap busy_session) 0 = Some 1" "stores_inv (se_stores busy_session)"
    "txn_view mem_lookup mem_wr (se_stores busy_session) 0 1 \<noteq> None"
    by code_simp+
  obtain v where v: "txn_view mem_lookup mem_wr (se_stores busy_session) 0 1 = Some v" using r(4) by blast
  show ?thesis
    using commit_retry_uses_finished_txn [OF busy.rocksdb_axioms _ r(3,2) v pair_fst [OF r(1)]] r(1)
    by (simp add: busy_server_def RecordKey_new_def getRealKeyType_def)
qed

end
