(* ===== verification/RedisPort.thy ===== *)
theory RedisPort
  imports NumText
begin

section \<open>Utilities ported from Redis (utils/redis_port.cpp)\<close>

text \<open>
  Reading integers, splitting an inline request into its arguments, matching of patterns, counting and
  finding bits, and the 64-bit CRC. A \<open>const char*\<close> with a length is the list of its bytes.
\<close>

subsection \<open>string2ll\<close>

fun ll_digits :: "u64 \<Rightarrow> bytes \<Rightarrow> (u64 \<times> bytes) option" where
  "ll_digits v [] = Some (v, [])"
| "ll_digits v (b # bs) =
    (if isdigit b
     then
       if v > (-1) div 10 then None
       else
         let v = v * 10 in
         if v > (-1) - (ucast b - 48) then None
         else ll_digits (v + (ucast b - 48)) bs
     else Some (v, b # bs))"

definition string2ll :: "bytes \<Rightarrow> int option" where
  "string2ll s =
    (if s = [] then None
     else if s = [48] then Some 0
     else
       let negative = (hd s = 45); p = (if negative then tl s else s) in
       if p = [] then None
       else if 49 \<le> hd p \<and> hd p \<le> 57
       then
         case ll_digits (ucast (hd p) - 48) (tl p) of
           None \<Rightarrow> None
         | Some (v, rest) \<Rightarrow>
             if rest \<noteq> [] then None
             else if negative then if v > 2 ^ 63 then None else Some (sint (- v))
             else if v > 2 ^ 63 - 1 then None else Some (sint v)
       else if hd p = 48 \<and> length s = 1 then Some 0
       else None)"

lemma unat_ucast_byte [simp]: "unat (ucast (b :: byte) :: u64) = unat b"
  by transfer (simp add: take_bit_eq_mod)

lemma unat_max_minus: "unat ((-1) - d :: u64) = 2 ^ 64 - 1 - unat d"
  using unat_sub [of d "-1"] by (simp add: unsigned_minus_1_eq_mask mask_eq_exp_minus_1)

lemma nat_minus_lt: "\<not> a + k < 2 ^ 64 \<Longrightarrow> k \<le> 9 \<Longrightarrow> 2 ^ 64 - 1 - k < (a :: nat)"
  by simp

lemma isdigit_value: "isdigit b \<Longrightarrow> unat (ucast b - 48 :: u64) = unat b - 48 \<and> unat b - 48 \<le> 9"
proof -
  assume "isdigit b"
  then have b: "48 \<le> unat b" "unat b \<le> 57" by (simp_all add: isdigit_def word_le_nat_alt)
  have "(48 :: u64) \<le> ucast b" using b by (simp add: word_le_nat_alt)
  then show ?thesis using b by (simp add: unat_sub)
qed

definition digits_from :: "nat \<Rightarrow> bytes \<Rightarrow> nat" where
  "digits_from = foldl (\<lambda>n b. 10 * n + (unat b - 48))"

lemma digits_from_ge: "n \<le> digits_from n ds"
proof (induction ds arbitrary: n)
  case (Cons d ds)
  have "n \<le> 10 * n + (unat d - 48)" by simp
  also have "\<dots> \<le> digits_from n (d # ds)" using Cons by (simp add: digits_from_def)
  finally show ?case .
qed (simp add: digits_from_def)

lemma ll_digits_eq:
  "ll_digits v ds = (let k = takeWhile isdigit ds in
     if digits_from (unat v) k < 2 ^ 64 then Some (of_nat (digits_from (unat v) k), dropWhile isdigit ds) else None)"
proof (induction v ds rule: ll_digits.induct)
  case (1 v)
  then show ?case using unsigned_less [of v, where ?'a = nat] by (simp add: digits_from_def)
next
  case (2 v b bs)
  show ?case
  proof (cases "isdigit b")
    case True
    let ?d = "ucast b - 48 :: u64" and ?n = "10 * unat v + (unat b - 48)"
    have d: "unat ?d = unat b - 48" "unat b - 48 \<le> 9" using isdigit_value [OF True] by auto
    have c: "v > (-1) div 10 \<longleftrightarrow> 10 * unat v > 2 ^ 64 - 1"
      by (simp add: word_less_nat_alt unat_div) arith
    show ?thesis
    proof (cases "?n < 2 ^ 64")
      case n: True
      then have v: "\<not> v > (-1) div 10" using c by simp
      have m: "unat (v * 10) = 10 * unat v" using n by (simp add: unat_word_ariths)
      have a: "\<not> v * 10 > (-1) - ?d"
      proof -
        show ?thesis using m d n unat_max_minus [of ?d] by (simp add: word_less_nat_alt)
      qed
      have "unat (v * 10 + ?d) = ?n" using m d n by (simp add: unat_word_ariths)
      then show ?thesis using 2 [OF _ v refl a] True v a
        by (simp add: Let_def digits_from_def)
    next
      case n: False
      then have big: "\<not> digits_from (unat v) (takeWhile isdigit (b # bs)) < 2 ^ 64"
        using True digits_from_ge [of ?n "takeWhile isdigit bs"] by (simp add: digits_from_def)
      have "v > (-1) div 10 \<or> v * 10 > (-1) - ?d"
      proof (cases "10 * unat v < 2 ^ 64")
        case t: True
        have m: "unat (v * 10) = 10 * unat v" using t by (simp add: unat_word_ariths)
        have "unat ((-1) - ?d) < unat (v * 10)" unfolding m unat_max_minus d(1) using n d(2) by (rule nat_minus_lt)
        then show ?thesis unfolding word_less_nat_alt by blast
      qed (use c in simp)
      then show ?thesis using True big by (auto simp: Let_def)
    qed
  next
    case False
    then show ?thesis using unsigned_less [of v, where ?'a = nat] by (auto simp: digits_from_def)
  qed
qed

text \<open>Decimal numerals: digits without a leading zero.\<close>

lemma digits_from_append: "digits_from n (xs @ [b]) = 10 * digits_from n xs + (unat b - 48)"
  by (simp add: digits_from_def)

lemma dec_of_digits:
  assumes "ds \<noteq> []" "\<forall>b\<in>set ds. isdigit b" "hd ds = 48 \<longrightarrow> ds = [48]"
  shows "dec_of_nat (digits_from 0 ds) = ds"
  using assms
proof (induction ds rule: rev_induct)
  case (snoc b ds)
  have b: "isdigit b" "unat b - 48 < 10" using snoc.prems(2) isdigit_value [of b] by auto
  then have dg: "digit (unat b - 48) = b"
    by (auto simp: digit_def isdigit_def word_le_nat_alt simp del: of_nat_add)
  show ?case
  proof (cases "ds = []")
    case True
    then show ?thesis using b dg by (subst dec_of_nat.simps) (simp add: digits_from_def)
  next
    case False
    then have h: "hd ds \<noteq> 48" "isdigit (hd ds)" using snoc.prems by auto
    have IH: "dec_of_nat (digits_from 0 ds) = ds" using snoc.IH False snoc.prems h(1) by auto
    have "0 < unat (hd ds) - 48"
      using h word_unat_eq_iff [of "hd ds" 48] by (simp add: isdigit_def word_le_nat_alt)
    also have "\<dots> \<le> digits_from 0 ds" using False digits_from_ge by (cases ds) (auto simp: digits_from_def)
    finally have "\<not> digits_from 0 (ds @ [b]) < 10" by (simp add: digits_from_append)
    then show ?thesis using b(2) IH dg by (subst dec_of_nat.simps) (simp add: digits_from_append)
  qed
qed simp

lemma digits_from_dec: "digits_from 0 (dec_of_nat n) = n"
  using nat_of_digits_dec [of n] by (simp add: digits_from_def nat_of_digits_def)

lemma hd_dec: "0 < n \<Longrightarrow> hd (dec_of_nat n) \<noteq> 48"
proof (induction n rule: dec_of_nat.induct)
  case (1 n)
  show ?case
  proof (cases "n < 10")
    case True
    then have "unat (digit n) \<noteq> unat (48 :: byte)" using 1(2) by (simp add: unat_digit)
    then have "digit n \<noteq> 48" by auto
    then show ?thesis using True by (subst dec_of_nat.simps) simp
  next
    case False
    then show ?thesis using 1(1) dec_of_nat_digits [of "n div 10"] by (subst dec_of_nat.simps) (simp add: hd_append)
  qed
qed

lemma ll_digits_all:
  assumes "isdigit d" "\<forall>b\<in>set ds. isdigit b"
  shows "ll_digits (ucast d - 48) ds =
    (if digits_from 0 (d # ds) < 2 ^ 64 then Some (of_nat (digits_from 0 (d # ds)), []) else None)"
proof -
  have e: "digits_from (unat (ucast d - 48 :: u64)) ds = digits_from 0 (d # ds)"
    using isdigit_value [OF assms(1)] by (simp add: digits_from_def)
  have t: "takeWhile isdigit ds = ds" "dropWhile isdigit ds = []" using assms(2) by (auto simp: takeWhile_eq_all_conv)
  show ?thesis unfolding ll_digits_eq Let_def t e ..
qed

lemma ll_digits_rest:
  assumes "\<not> (\<forall>b\<in>set ds. isdigit b)"
  shows "ll_digits v ds = None \<or> (\<exists>w b bs. ll_digits v ds = Some (w, b # bs))"
proof -
  obtain b bs where "dropWhile isdigit ds = b # bs" using assms by (cases "dropWhile isdigit ds") auto
  then show ?thesis by (simp add: ll_digits_eq Let_def)
qed

lemma signed_of_small: "n < 2 ^ 63 \<Longrightarrow> sint (of_nat n :: u64) = int n"
  by (simp add: signed_of_nat signed_take_bit_int_eq_self)

lemma signed_of_minus: "n \<le> 2 ^ 63 \<Longrightarrow> sint (- of_nat n :: u64) = - int n"
proof -
  assume "n \<le> 2 ^ 63"
  moreover have "(- of_nat n :: u64) = word_of_int (- int n)" by simp
  ultimately show ?thesis by (simp only: signed_of_int) (simp add: signed_take_bit_int_eq_self)
qed

lemma string2ll_digits:
  fixes d ds
  assumes "isdigit d" "d \<noteq> 48"
  defines "n \<equiv> digits_from 0 (d # ds)"
  shows "string2ll (d # ds) = (if (\<forall>b\<in>set ds. isdigit b) \<and> n < 2 ^ 63 then Some (int n) else None)"
    and "string2ll (45 # d # ds) = (if (\<forall>b\<in>set ds. isdigit b) \<and> n \<le> 2 ^ 63 then Some (- int n) else None)"
proof -
  have d: "d \<noteq> 45" "49 \<le> d" "d \<le> 57"
    using assms word_unat_eq_iff [of d 48] by (auto simp: isdigit_def word_le_nat_alt)
  have big: "of_nat n > (2 ^ 63 :: u64) \<longleftrightarrow> n > 2 ^ 63" "of_nat n > (2 ^ 63 - 1 :: u64) \<longleftrightarrow> n > 2 ^ 63 - 1" if "n < 2 ^ 64"
    using unat_of_nat64 [OF that] by (simp_all add: word_less_nat_alt)
  have s: "string2ll (d # ds) = (case ll_digits (ucast d - 48) ds of None \<Rightarrow> None | Some (v, rest) \<Rightarrow>
      if rest \<noteq> [] then None else if v > 2 ^ 63 - 1 then None else Some (sint v))"
    "string2ll (45 # d # ds) = (case ll_digits (ucast d - 48) ds of None \<Rightarrow> None | Some (v, rest) \<Rightarrow>
      if rest \<noteq> [] then None else if v > 2 ^ 63 then None else Some (sint (- v)))"
    using d assms(2) by (simp_all add: string2ll_def split: option.split)
  show "string2ll (d # ds) = (if (\<forall>b\<in>set ds. isdigit b) \<and> n < 2 ^ 63 then Some (int n) else None)"
  proof (cases "\<forall>b\<in>set ds. isdigit b")
    case True
    show ?thesis
    proof (cases "n < 2 ^ 64")
      case n: True
      then show ?thesis unfolding s(1) ll_digits_all [OF assms(1) True, folded n_def] using big(2) [OF n] signed_of_small [of n] True
        by auto
    qed (unfold s(1) ll_digits_all [OF assms(1) True, folded n_def], simp)
  next
    case False
    then show ?thesis unfolding s(1) using ll_digits_rest [OF False, of "ucast d - 48"] by auto
  qed
  show "string2ll (45 # d # ds) = (if (\<forall>b\<in>set ds. isdigit b) \<and> n \<le> 2 ^ 63 then Some (- int n) else None)"
  proof (cases "\<forall>b\<in>set ds. isdigit b")
    case True
    show ?thesis
    proof (cases "n < 2 ^ 64")
      case n: True
      then show ?thesis unfolding s(2) ll_digits_all [OF assms(1) True, folded n_def] using big(1) [OF n] signed_of_minus [of n] True
        by auto
    qed (unfold s(2) ll_digits_all [OF assms(1) True, folded n_def], simp)
  next
    case False
    then show ?thesis unfolding s(2) using ll_digits_rest [OF False, of "ucast d - 48"] by auto
  qed
qed

lemma dec_of_nat_cons:
  obtains "n = 0" "dec_of_nat n = [48]"
  | d ds where "dec_of_nat n = d # ds" "isdigit d" "d \<noteq> 48" "0 < n"
proof (cases "n = 0")
  case True
  then show ?thesis using that(1) by (simp add: dec_of_nat.simps digit_def)
next
  case False
  obtain d ds where "dec_of_nat n = d # ds" "isdigit d" using dec_of_nat_digits [of n] by (cases "dec_of_nat n") auto
  then show ?thesis using that(2) False hd_dec [of n] by simp
qed

lemma nonzero_digit: "49 \<le> d \<and> d \<le> (57 :: byte) \<longleftrightarrow> isdigit d \<and> d \<noteq> 48"
  using word_unat_eq_iff [of d 48] by (auto simp: isdigit_def word_le_nat_alt)

lemma dec_of_nat_iff:
  assumes "isdigit d" "d \<noteq> 48"
  shows "d # ds = dec_of_nat m \<longleftrightarrow> (\<forall>b\<in>set ds. isdigit b) \<and> m = digits_from 0 (d # ds)" "0 < digits_from 0 (d # ds)"
proof -
  show "d # ds = dec_of_nat m \<longleftrightarrow> (\<forall>b\<in>set ds. isdigit b) \<and> m = digits_from 0 (d # ds)"
    using dec_of_digits [of "d # ds"] dec_of_nat_digits [of m] digits_from_dec [of m] assms by (auto dest: sym)
  have "0 < unat d - 48" using assms word_unat_eq_iff [of d 48] by (simp add: isdigit_def word_le_nat_alt)
  also have "\<dots> \<le> digits_from 0 (d # ds)" using digits_from_ge [of "unat d - 48" ds] by (simp add: digits_from_def)
  finally show "0 < digits_from 0 (d # ds)" .
qed

lemma string2ll_dec:
  assumes r: "- (2 ^ 63) \<le> i" "i < 2 ^ 63"
  shows "string2ll (dec_of_int i) = Some i"
proof (cases "i < 0")
  case True
  obtain d ds where d: "dec_of_nat (nat (- i)) = d # ds" "isdigit d" "d \<noteq> 48"
    using True by (rule_tac dec_of_nat_cons [of "nat (- i)"]) auto
  then have n: "\<forall>b\<in>set ds. isdigit b" "digits_from 0 (d # ds) = nat (- i)"
    using dec_of_nat_iff(1) [OF d(2,3), of ds "nat (- i)"] by auto
  then show ?thesis using string2ll_digits(2) [OF d(2,3), of ds, unfolded n(2)] r True d(1) by (simp add: dec_of_int_def nat_le_iff)
next
  case False
  show ?thesis
  proof (rule dec_of_nat_cons [of "nat i"])
    fix d ds
    assume d: "dec_of_nat (nat i) = d # ds" "isdigit d" "d \<noteq> 48" "0 < nat i"
    then have n: "\<forall>b\<in>set ds. isdigit b" "digits_from 0 (d # ds) = nat i"
      using dec_of_nat_iff(1) [OF d(2,3), of ds "nat i"] by auto
    then show ?thesis using string2ll_digits(1) [OF d(2,3), of ds, unfolded n(2)] r False d(1) by (simp add: dec_of_int_def nat_less_iff)
  qed (use False r in \<open>simp add: dec_of_int_def string2ll_def\<close>)
qed

text \<open>C25: \<open>string2ll\<close> accepts exactly the decimal notation of the 64-bit signed integers, without leading zeros,
  plus sign or white space, and returns the number written.\<close>

theorem string2ll_exact:
  "string2ll s = Some i \<longleftrightarrow> s = dec_of_int i \<and> - (2 ^ 63) \<le> i \<and> i < 2 ^ 63"
proof
  assume r: "s = dec_of_int i \<and> - (2 ^ 63) \<le> i \<and> i < 2 ^ 63"
  then show "string2ll s = Some i" using string2ll_dec [of i] by simp
next
  assume r: "string2ll s = Some i"
  then consider "s = [48]" | d ds where "s = d # ds" "isdigit d" "d \<noteq> 48" | d ds where "s = 45 # d # ds" "isdigit d" "d \<noteq> 48"
    by (cases s; cases "tl s") (auto simp: string2ll_def Let_def nonzero_digit split: if_split_asm)
  then show "s = dec_of_int i \<and> - (2 ^ 63) \<le> i \<and> i < 2 ^ 63"
  proof cases
    case 1
    then have "i = 0" using r by (simp add: string2ll_def)
    then show ?thesis using 1 by (simp add: dec_of_int_def dec_of_nat.simps digit_def)
  next
    case 2
    then show ?thesis
      using string2ll_digits(1) [OF 2(2,3), of ds] dec_of_nat_iff [OF 2(2,3), of ds] r
      by (auto simp: dec_of_int_def split: if_split_asm)
  next
    case 3
    then show ?thesis
      using string2ll_digits(2) [OF 3(2,3), of ds] dec_of_nat_iff [OF 3(2,3), of ds] r
      by (auto simp: dec_of_int_def split: if_split_asm)
  qed
qed

subsection \<open>splitargs\<close>

definition is_hex_digit :: "byte \<Rightarrow> bool" where
  "is_hex_digit c \<longleftrightarrow> 48 \<le> c \<and> c \<le> 57 \<or> 97 \<le> c \<and> c \<le> 102 \<or> 65 \<le> c \<and> c \<le> 70"

definition hex_digit_to_int :: "byte \<Rightarrow> byte" where
  "hex_digit_to_int c =
    (if 48 \<le> c \<and> c \<le> 57 then c - 48
     else if 97 \<le> c \<and> c \<le> 102 then c - 87
     else if 65 \<le> c \<and> c \<le> 70 then c - 55
     else 0)"

definition unescape :: "byte \<Rightarrow> byte" where
  "unescape c = (if c = 110 then 10 else if c = 114 then 13 else if c = 116 then 9
     else if c = 98 then 8 else if c = 97 then 7 else c)"

datatype quotes = no_quotes | inq | insq

text \<open>
  One token: the C string from the current position on, the token so far; the token and the rest, or
  nothing for \<open>goto err\<close>.
\<close>

function split_token :: "quotes \<Rightarrow> bytes \<Rightarrow> bytes \<Rightarrow> (bytes \<times> bytes) option" where
  "split_token inq p current = (case p of
      [] \<Rightarrow> None
    | c # r \<Rightarrow>
       if c = 92 \<and> 3 \<le> length r \<and> r ! 0 = 120 \<and> is_hex_digit (r ! 1) \<and> is_hex_digit (r ! 2)
       then split_token inq (drop 3 r) (current @ [hex_digit_to_int (r ! 1) * 16 + hex_digit_to_int (r ! 2)])
       else if c = 92 \<and> r \<noteq> [] then split_token inq (tl r) (current @ [unescape (hd r)])
       else if c = 34 then if r \<noteq> [] \<and> \<not> isspace (hd r) then None else Some (current, r)
       else split_token inq r (current @ [c]))"
| "split_token insq p current = (case p of
      [] \<Rightarrow> None
    | c # r \<Rightarrow>
       if c = 92 \<and> r \<noteq> [] \<and> hd r = 39 then split_token insq (tl r) (current @ [39])
       else if c = 39 then if r \<noteq> [] \<and> \<not> isspace (hd r) then None else Some (current, r)
       else split_token insq r (current @ [c]))"
| "split_token no_quotes p current = (case p of
      [] \<Rightarrow> Some (current, [])
    | c # r \<Rightarrow>
       if c \<in> {32, 10, 13, 9} then Some (current, r)
       else if c = 34 then split_token inq r current
       else if c = 39 then split_token insq r current
       else split_token no_quotes r (current @ [c]))"
  by pat_completeness auto
termination by (relation "measure (\<lambda>(q, p, current). length p)") auto

declare split_token.simps [simp del]

lemma split_token_le: "split_token q p current = Some (t, r) \<Longrightarrow> length r \<le> length p - (if p = [] then 0 else 1)"
proof (induction "length p" arbitrary: q p current rule: less_induct)
  case less
  have IH: "length r \<le> length p'" if "split_token q' p' c' = Some (t, r)" "length p' < length p" for q' p' c'
    using less.hyps [OF that(2,1)] by (simp split: if_split_asm)
  show ?case
  proof (cases p)
    case Nil
    then show ?thesis using less.prems by (cases q) (simp_all add: split_token.simps)
  next
    case (Cons c s)
    have "length r \<le> length s"
    proof (cases q)
      case no_quotes
      then show ?thesis using less.prems IH [of _ s] Cons
        by (subst (asm) no_quotes, subst (asm) split_token.simps(3)) (auto split: if_split_asm)
    next
      case inq
      then show ?thesis using less.prems IH [of _ s] IH [of _ "tl s"] IH [of _ "drop 3 s"] Cons
        by (subst (asm) inq, subst (asm) split_token.simps(1)) (fastforce split: if_split_asm)
    next
      case insq
      then show ?thesis using less.prems IH [of _ s] IH [of _ "tl s"] Cons
        by (subst (asm) insq, subst (asm) split_token.simps(2)) (fastforce split: if_split_asm)
    qed
    then show ?thesis using Cons by simp
  qed
qed

function splitargs_from :: "bytes \<Rightarrow> bytes list \<Rightarrow> bytes list option" where
  "splitargs_from p result =
    (case dropWhile isspace p of
       [] \<Rightarrow> Some result
     | c # r \<Rightarrow> (case split_token no_quotes (c # r) [] of
         None \<Rightarrow> None
       | Some (current, q) \<Rightarrow> splitargs_from q (result @ [current])))"
  by pat_completeness auto
termination
proof (relation "measure (\<lambda>(p, result). length p)", simp, goal_cases)
  case (1 p result c r x current q)
  then have "length (c # r) \<le> length p" using length_dropWhile_le [of isspace p] by simp
  with split_token_le [of no_quotes "c # r" "[]" current q] 1 show ?case by simp
qed

declare splitargs_from.simps [simp del]

definition splitargs :: "bytes \<Rightarrow> bytes list option" where
  "splitargs lineStr = splitargs_from (takeWhile (\<lambda>c. c \<noteq> 0) lineStr) []"

subsection \<open>catRepr (server/server_entry.cpp)\<close>

text \<open>
  A quoted argument, as MONITOR shows it. A character that does not print is written by
  \<open>snprintf(buf, 5, "\x%02x", val[i])\<close>: \<open>val[i]\<close> is a signed \<open>char\<close> that becomes an \<open>int\<close>, and \<open>buf\<close>
  keeps four characters.
\<close>

definition hex_digit :: "u32 \<Rightarrow> byte" where
  "hex_digit d = (if d < 10 then 48 + ucast d else 87 + ucast d)"

definition printf_02x :: "u32 \<Rightarrow> bytes" where
  "printf_02x v =
    (let s = dropWhile (\<lambda>d. d = 0) (map (\<lambda>i. drop_bit (4 * i) v AND 15) [7, 6, 5, 4, 3, 2, 1, 0]) in
     map hex_digit (replicate (2 - length s) 0 @ s))"

definition isprint :: "byte \<Rightarrow> bool" where
  "isprint c \<longleftrightarrow> 32 \<le> c \<and> c < 127"

definition catRepr_char :: "byte \<Rightarrow> bytes" where
  "catRepr_char c =
    (if c = 92 \<or> c = 34 then [92, c]
     else if c = 10 then [92, 110]
     else if c = 13 then [92, 114]
     else if c = 9 then [92, 116]
     else if c = 7 then [92, 97]
     else if c = 8 then [92, 98]
     else if isprint c then [c]
     else take 4 ([92, 120] @ printf_02x (scast c)))"

definition catRepr :: "bytes \<Rightarrow> bytes" where
  "catRepr val = [34] @ concat (map catRepr_char val) @ [34]"

text \<open>The arguments of a request, as \<open>replyMonitors\<close> joins them.\<close>

definition monitor_args :: "bytes list \<Rightarrow> bytes" where
  "monitor_args args = concat (map (\<lambda>a. catRepr a @ [32]) (butlast args)) @ (if args = [] then [] else catRepr (last args))"

definition shown_as :: "byte \<Rightarrow> bytes \<Rightarrow> bool" where
  "shown_as b s \<longleftrightarrow> (case s of
      [c] \<Rightarrow> c = b \<and> c \<noteq> 92 \<and> c \<noteq> 34 \<and> c \<noteq> 0
    | [c, x] \<Rightarrow> c = 92 \<and> x \<noteq> 120 \<and> x \<noteq> 0 \<and> unescape x = b
    | [c, x, h, l] \<Rightarrow> c = 92 \<and> x = 120 \<and> is_hex_digit h \<and> is_hex_digit l \<and> h \<noteq> 0 \<and> l \<noteq> 0 \<and>
        hex_digit_to_int h * 16 + hex_digit_to_int l = b
    | _ \<Rightarrow> False)"

lemma ascii_shown: "list_all (\<lambda>n. shown_as (of_nat n) (catRepr_char (of_nat n))) [0..<128]"
  by code_simp

lemma catRepr_char_ascii: "b < 128 \<Longrightarrow> shown_as b (catRepr_char b)"
proof -
  assume "b < 128"
  then have "unat b < 128" by (simp add: word_less_nat_alt)
  then have "unat b \<in> set [0..<128]" by simp
  from bspec [OF ascii_shown [unfolded list_all_iff] this] show ?thesis by simp
qed


lemma split_token_shown:
  assumes "shown_as b s"
  shows "split_token inq (s @ r) current = split_token inq r (current @ [b])"
  using assms by (subst split_token.simps(1)) (auto simp: shown_as_def split: list.split_asm)

lemma shown_no_nul: "shown_as b s \<Longrightarrow> 0 \<notin> set s"
  by (auto simp: shown_as_def split: list.split_asm)

definition ascii :: "bytes \<Rightarrow> bool" where
  "ascii s \<longleftrightarrow> (\<forall>b\<in>set s. b < 128)"

lemma split_token_quoted:
  "ascii v \<Longrightarrow> split_token inq (concat (map catRepr_char v) @ r) current = split_token inq r (current @ v)"
proof (induction v arbitrary: current)
  case (Cons b v)
  then have "b < 128" "ascii v" by (auto simp: ascii_def)
  then show ?case using split_token_shown [OF catRepr_char_ascii] Cons.IH by simp
qed simp

lemma split_token_catRepr:
  assumes "ascii v" "r = [] \<or> isspace (hd r)"
  shows "split_token no_quotes (catRepr v @ r) [] = Some (v, r)"
  using assms(2) split_token_quoted [OF assms(1), of "34 # r" "[]"]
  by (subst split_token.simps(3)) (auto simp: catRepr_def split_token.simps(1) [of "34 # r"])

lemma splitargs_from_catRepr:
  assumes "ascii v" "r = [] \<or> isspace (hd r)"
  shows "splitargs_from (catRepr v @ r) result = splitargs_from r (result @ [v])"
proof -
  have "dropWhile isspace (catRepr v @ r) = catRepr v @ r" "catRepr v @ r = 34 # tl (catRepr v @ r)"
    by (simp_all add: catRepr_def isspace_def)
  then show ?thesis
    using split_token_catRepr [OF assms] by (subst splitargs_from.simps) (metis (no_types, lifting) list.simps(5) option.simps(5) old.prod.case)
qed

lemma splitargs_from_space: "splitargs_from (32 # r) result = splitargs_from r result"
  by (subst (1 2) splitargs_from.simps) (simp add: isspace_def)

lemma splitargs_from_monitor:
  "\<forall>a\<in>set args. ascii a \<Longrightarrow> splitargs_from (monitor_args args) result = Some (result @ args)"
proof (induction args arbitrary: result)
  case Nil
  then show ?case by (simp add: monitor_args_def splitargs_from.simps)
next
  case (Cons a args)
  show ?case
  proof (cases "args = []")
    case True
    then show ?thesis using Cons.prems splitargs_from_catRepr [of a "[]"]
      by (simp add: monitor_args_def splitargs_from.simps [of "[]"])
  next
    case False
    then have "monitor_args (a # args) = catRepr a @ 32 # monitor_args args" by (simp add: monitor_args_def)
    then show ?thesis using Cons splitargs_from_catRepr [of a "32 # monitor_args args"]
      by (simp add: splitargs_from_space isspace_def)
  qed
qed

lemma catRepr_no_nul: "ascii a \<Longrightarrow> 0 \<notin> set (catRepr a)"
  using shown_no_nul [OF catRepr_char_ascii] by (auto simp: catRepr_def ascii_def)

lemma monitor_no_nul: "\<forall>a\<in>set args. ascii a \<Longrightarrow> 0 \<notin> set (monitor_args args)"
  using catRepr_no_nul by (auto simp: monitor_args_def dest: in_set_butlastD)

text \<open>C26: The line that MONITOR shows for a request parses back to the request: for arguments of 7-bit
  characters, whatever quotes, blanks, control characters and zero bytes they hold, \<open>splitargs\<close> reads from the
  quoted arguments exactly the arguments.\<close>

theorem splitargs_monitor_roundtrip:
  assumes "\<forall>a\<in>set args. ascii a"
  shows "splitargs (monitor_args args) = Some args"
proof -
  have "takeWhile (\<lambda>c. c \<noteq> 0) (monitor_args args) = monitor_args args"
    using monitor_no_nul [OF assms] by (auto simp: takeWhile_eq_all_conv)
  then show ?thesis unfolding splitargs_def using splitargs_from_monitor [OF assms, of "[]"] by (simp only: append_Nil)
qed

theorem splitargs_monitor_roundtrip_witness:
  "splitargs (monitor_args [str ''set'', [0, 34, 92, 10], []]) = Some [str ''set'', [0, 34, 92, 10], []]"
  by (rule splitargs_monitor_roundtrip) (simp add: ascii_def str_def)

lemma high_shown: "list_all (\<lambda>n. catRepr_char (of_nat n) = [92, 120, 102, 102]) [128..<256]"
  by code_simp

lemma catRepr_char_high: "128 \<le> b \<Longrightarrow> catRepr_char b = [92, 120, 102, 102]"
proof -
  assume "128 \<le> b"
  then have "unat b \<in> set [128..<256]" using unsigned_less [of b] unfolding set_upt atLeastLessThan_iff by (simp add: word_le_nat_alt)
  from bspec [OF high_shown [unfolded list_all_iff] this] show ?thesis by simp
qed

text \<open>C35: \<open>catRepr\<close> writes every byte from 128 on as \<open>\xff\<close>, because the sign of \<open>val[i]\<close> is extended
  before it is printed: two requests that differ in such a byte are shown as the same line, and the line
  parses back to byte 255.\<close>

theorem catRepr_high_bytes_collapse:
  assumes "128 \<le> b" "128 \<le> c"
  shows "catRepr (u @ b # v) = catRepr (u @ c # v) \<and> splitargs (catRepr [b]) = Some [[255]]"
proof -
  have "splitargs (catRepr [255]) = Some [[255]]" by code_simp
  then show ?thesis using assms by (simp add: catRepr_def catRepr_char_high)
qed

theorem catRepr_high_bytes_collapse_witness:
  "catRepr [0xc3, 0xa9] = catRepr [0xc3, 0xa8] \<and> splitargs (catRepr [0xa9]) = Some [[255]]"
  using catRepr_high_bytes_collapse [of "0xa9" "0xa8" "[0xc3]" "[]"] by simp

end
