(* ===== verification/NetSession.thy ===== *)
theory NetSession
  imports Request RedisPort
begin

section \<open>Connections (network/network.cpp, server/server_entry.cpp)\<close>

text \<open>
  A client connection: \<open>NetSession\<close> reads bytes from a socket into \<open>_queryBuf\<close>, parses requests out of it
  (inline or multi bulk), runs them and writes the replies back in batches. The record holds the members
  of the class; \<open>ns_queryBuf\<close> is the first \<open>_queryBufPos\<close> bytes of the buffer, the byte after them is the
  terminating zero. \<open>ns_ctx\<close> is the session as the commands see it, with \<open>_args\<close> and the memory limit.
  \<open>asio\<close> is outside the model: \<open>ns_written\<close> are the bytes whose \<open>async_write\<close> has completed,
  \<open>ns_sendFailed\<close> says that one has failed, and the callbacks are the steps of \<open>net_step\<close>. Metrics, logging, the general log and the monitors are left out.
\<close>

subsection \<open>State\<close>

datatype State = Created | DrainReqNet | DrainReqBuf | Process | Stop

datatype RedisReqMode = REDIS_REQ_UNKNOWN | REDIS_REQ_INLINE | REDIS_REQ_MULTIBULK

record 's NetSession =
  ns_ctx :: "'s Session"
  ns_state :: State
  ns_queryBuf :: bytes
  ns_reqType :: RedisReqMode
  ns_multibulklen :: int
  ns_bulkLen :: int
  ns_closeAfterRsp :: bool
  ns_closeResponse :: bool
  ns_isEnded :: bool
  ns_first :: bool
  ns_isSendRunning :: bool
  ns_callbackCanWrite :: bool
  ns_sendBuffer :: bytes
  ns_sendBufferBack :: bytes
  ns_written :: bytes
  ns_sendFailed :: bool

text \<open>What the connection reads of the server and its parameters.\<close>

record NetConf =
  nc_isRunning :: bool
  nc_sessionCount :: nat
  nc_maxClients :: u32
  nc_protoMaxBulkLen :: u32
  nc_clientOutputBufferLimitNormalHardMB :: u64
  nc_clientOutputBufferLimitNormalSoftMB :: u64
  nc_clientOutputBufferLimitNormalSoftSecond :: nat

type_synonym ('s, 'a) net = "('s NetSession, 'a) st"

definition REDIS_IOBUF_LEN :: nat where "REDIS_IOBUF_LEN = 1024 * 16"
definition REDIS_MAX_QUERYBUF_LEN :: nat where "REDIS_MAX_QUERYBUF_LEN = 1024 * 1024 * 1024"
definition REDIS_INLINE_MAX_SIZE :: int where "REDIS_INLINE_MAX_SIZE = 1024 * 64"
definition REDIS_MBULK_BIG_ARG :: int where "REDIS_MBULK_BIG_ARG = 1024 * 32"
definition NET_SEND_RSP_BATCH_SIZE :: nat where "NET_SEND_RSP_BATCH_SIZE = 1400"

definition in_ctx :: "('s, 'a) cmd \<Rightarrow> ('s, 'a) net" where
  "in_ctx m ns = (case m (ns_ctx ns) of (r, \<sigma>) \<Rightarrow> (r, ns\<lparr>ns_ctx := \<sigma>\<rparr>))"

definition setState :: "State \<Rightarrow> 's NetSession \<Rightarrow> 's NetSession" where
  "setState s ns = ns\<lparr>ns_state := s\<rparr>"

definition set_args :: "bytes list \<Rightarrow> 's NetSession \<Rightarrow> 's NetSession" where
  "set_args args ns = ns\<lparr>ns_ctx := ns_ctx ns\<lparr>se_args := args\<rparr>\<rparr>"

definition set_mem :: "MemLimit \<Rightarrow> 's NetSession \<Rightarrow> 's NetSession" where
  "set_mem m ns = ns\<lparr>ns_ctx := ns_ctx ns\<lparr>se_mem := m\<rparr>\<rparr>"

subsection \<open>Sending replies\<close>

text \<open>\<open>drainRspWithoutLock\<close> hands \<open>_sendBuffer\<close> to \<open>async_write\<close>.\<close>

definition drainRspWithoutLock :: "'s NetSession \<Rightarrow> 's NetSession" where
  "drainRspWithoutLock ns = (if length (ns_sendBuffer ns) = 0 then ns else ns\<lparr>ns_isSendRunning := True\<rparr>)"

definition drainRsp :: "'s NetSession \<Rightarrow> 's NetSession" where
  "drainRsp ns = (if ns_isSendRunning ns then ns\<lparr>ns_callbackCanWrite := True\<rparr> else drainRspWithoutLock ns)"

definition resetMemoryLimit :: "NetConf \<Rightarrow> MemLimit \<Rightarrow> MemLimit" where
  "resetMemoryLimit nc m =
     m\<lparr>ml_softLimitReachedTime := (if \<not> ml_haveExceedSoftLimit m then None else ml_softLimitReachedTime m),
       ml_haveExceedHardLimit := False, ml_haveExceedSoftLimit := False,
       ml_hardMemoryLimit := push_bit 20 (nc_clientOutputBufferLimitNormalHardMB nc),
       ml_softMemoryLimit := push_bit 20 (nc_clientOutputBufferLimitNormalSoftMB nc),
       ml_softMemoryLimitSeconds := nc_clientOutputBufferLimitNormalSoftSecond nc,
       ml_commandUsedMemory := 0\<rparr>"

definition endSession :: "'s NetSession \<Rightarrow> 's NetSession" where
  "endSession ns = ns\<lparr>ns_isEnded := True\<rparr>"

text \<open>The part of \<open>setResponse\<close> after its checks: the reply goes behind the one that is being written.\<close>

definition enqueue :: "bytes \<Rightarrow> 's NetSession \<Rightarrow> 's NetSession" where
  "enqueue s ns =
    (if ns_isSendRunning ns then ns\<lparr>ns_sendBufferBack := ns_sendBufferBack ns @ s\<rparr>
     else
       let ns = ns\<lparr>ns_sendBuffer := ns_sendBuffer ns @ s\<rparr> in
       if length (ns_sendBuffer ns) > NET_SEND_RSP_BATCH_SIZE then drainRspWithoutLock ns else ns)"

definition queue_reply :: "NetConf \<Rightarrow> bytes \<Rightarrow> 's NetSession \<Rightarrow> 's NetSession" where
  "queue_reply nc s ns = (let ns = enqueue s ns in set_mem (resetMemoryLimit nc (se_mem (ns_ctx ns))) ns)"

definition setResponse :: "NetConf \<Rightarrow> bytes \<Rightarrow> ('s, unit) net" where
  "setResponse nc s ns =
    (let m = (se_mem (ns_ctx ns))\<lparr>ml_commandUsedMemory :=
           of_nat (length s * 2 + length (ns_sendBuffer ns) + length (ns_sendBufferBack ns))\<rparr>;
         (status, m') = checkMemLimit m;
         ns = set_mem m' ns in
     if isl status then (status, ns)
     else if ns_isEnded ns then (err ERR_NETWORK ''connection is ended'', ns\<lparr>ns_closeAfterRsp := True\<rparr>)
     else if s = [] then (ok (), ns)
     else if ns_closeAfterRsp ns \<and> ns_closeResponse ns then (ok (), ns)
     else (ok (), queue_reply nc s (if ns_closeAfterRsp ns then ns\<lparr>ns_closeResponse := True\<rparr> else ns)))"

definition resetMultiBulkCtx :: "'s NetSession \<Rightarrow> 's NetSession" where
  "resetMultiBulkCtx ns = set_args [] (ns\<lparr>ns_reqType := REDIS_REQ_UNKNOWN, ns_multibulklen := 0, ns_bulkLen := -1\<rparr>)"

text \<open>The status of a \<open>setResponse\<close> that nobody looks at.\<close>

definition setRspAndClose :: "NetConf \<Rightarrow> bytes \<Rightarrow> ('s, unit) net" where
  "setRspAndClose nc s =
     sthen (smod (\<lambda>ns. ns\<lparr>ns_closeAfterRsp := True\<rparr>))
       (stry (setResponse nc (errorReply s)) (\<lambda>_. smod resetMultiBulkCtx))"

definition reject :: "NetConf \<Rightarrow> string \<Rightarrow> ('s, unit) net" where
  "reject nc s = sthen (setRspAndClose nc (str s)) (smod (setState Stop))"

text \<open>\<open>drainRspCallback\<close> after a write of \<open>actualLen\<close> bytes, or after an error.\<close>

definition drainRspCallback :: "bool \<Rightarrow> nat \<Rightarrow> ('s, unit) net" where
  "drainRspCallback ec actualLen = sget (\<lambda>ns.
     if ec then smod endSession
     else if actualLen \<noteq> length (ns_sendBuffer ns) then smod (\<lambda>ns. endSession ns\<lparr>ns_sendBuffer := []\<rparr>)
     else if \<not> ns_isSendRunning ns then sfail Fatal
     else
       sthen (smod (\<lambda>ns. ns\<lparr>ns_written := ns_written ns @ ns_sendBuffer ns,
                ns_sendBuffer := ns_sendBufferBack ns, ns_sendBufferBack := []\<rparr>))
      (sthen (smod (\<lambda>ns.
         if ns_callbackCanWrite ns \<and> ns_sendBuffer ns \<noteq> []
         then drainRspWithoutLock (ns\<lparr>ns_callbackCanWrite := False\<rparr>)
         else ns\<lparr>ns_callbackCanWrite := False, ns_isSendRunning := False\<rparr>))
       (smod (\<lambda>ns. if ns_closeResponse ns \<and> ns_sendBuffer ns = [] then endSession ns else ns))))"

subsection \<open>Requests\<close>

definition replied :: "NetConf \<Rightarrow> bytes \<Rightarrow> ('s, bool) net" where
  "replied nc s = stry (setResponse nc s) (\<lambda>r. sret (\<not> isl r))"

text \<open>\<open>args[i]\<close> of a vector; the value of an \<open>Expected\<close> that holds an error is undefined.\<close>

definition vec_at :: "nat \<Rightarrow> ('s, bytes) net" where
  "vec_at i = sget (\<lambda>ns. let args = se_args (ns_ctx ns) in if i < length args then sret (args ! i) else sfail Undef)"

definition value_of :: "'a expected \<Rightarrow> ('s, 'a) net" where
  "value_of e = (case e of Inr v \<Rightarrow> sret v | Inl (Status _ _) \<Rightarrow> sfail Undef | Inl f \<Rightarrow> sfail f)"

text \<open>
  The commands that take over the connection. What the replication and migration managers do with the
  borrowed socket is outside the model; the request ends with \<open>false\<close>.
\<close>

definition psync_request :: "'s Server \<Rightarrow> NetConf \<Rightarrow> ('s, bool) net" where
  "psync_request sv nc = sget (\<lambda>ns.
     let args = se_args (ns_ctx ns);
         answer = (\<lambda>s. stry (setResponse nc (fmtErr (str s))) (\<lambda>_. sret True)) in
     if \<not> sv_aofEnabled sv then answer ''aof psync enable first''
     else if length args < 3 then answer ''wrong arguments count''
     else if args ! 1 \<noteq> str ''?'' \<or> args ! 2 \<noteq> str ''-1'' then answer ''just support ? -1''
     else sbind (vec_at 3) (\<lambda>a.
       if a = [] then answer ''need rocksdb number''
       else case stoul a of
         Inl (Status _ _) \<Rightarrow> answer ''kvstore invalid''
       | Inl f \<Rightarrow> sfail f
       | Inr store \<Rightarrow>
           if unat store \<ge> sv_kvstoreCount sv
           then stry (setResponse nc (fmtErr (take 99 (str ''kvstore '' @ dec_of_int (sint store) @ str '' invalid, [0, '' @
                  dec_of_nat (sv_kvstoreCount sv) @ str '']'')))) (\<lambda>_. sret True)
           else sret False))"

definition bg_request :: "'s Server \<Rightarrow> NetConf \<Rightarrow> bytes \<Rightarrow> ('s, bool) net option" where
  "bg_request sv nc name =
    (if name = str ''fullsync''
     then Some (sget (\<lambda>ns. if length (se_args (ns_ctx ns)) = 4 then sret False else sfail Fatal))
     else if name = str ''incrsync''
     then Some (sget (\<lambda>ns. if length (se_args (ns_ctx ns)) = 6 then sret False else sfail Fatal))
     else if name = str ''readymigrate''
     then Some (sthen (vec_at 1) (sthen (vec_at 2) (sthen (vec_at 3) (sthen (vec_at 4) (sret False)))))
     else if name = str ''preparemigrate''
     then Some (sbind (vec_at 4) (\<lambda>a. sthen (value_of (stoul a)) (sthen (vec_at 1) (sthen (vec_at 2) (sthen (vec_at 3) (sret False))))))
     else if name = str ''quit''
     then Some (sthen (smod (\<lambda>ns. ns\<lparr>ns_closeAfterRsp := True\<rparr>)) (replied nc fmtOK))
     else if name = str ''psync'' then Some (psync_request sv nc)
     else None)"

definition run_request :: "'s Command list \<Rightarrow> 's Server \<Rightarrow> NetConf \<Rightarrow> ('s, bool) net" where
  "run_request cs sv nc =
     stry (in_ctx (runSessionCmd cs sv)) (\<lambda>expect. case expect of
       Inl (Status c m) \<Rightarrow> replied nc (fmtErr (Status_toString c m))
     | Inl f \<Rightarrow> sfail f
     | Inr v \<Rightarrow> replied nc v)"

definition ServerEntry_processRequest :: "'s Command list \<Rightarrow> 's Server \<Rightarrow> NetConf \<Rightarrow> ('s, bool) net" where
  "ServerEntry_processRequest cs sv nc =
    (if \<not> nc_isRunning nc then sret False
     else stry (in_ctx (precheck cs sv)) (\<lambda>expCmd. case expCmd of
       Inl (Status c m) \<Rightarrow> replied nc (errorReply (Status_toString c m))
     | Inl f \<Rightarrow> sfail f
     | Inr c \<Rightarrow>
         case (if co_isBgCmd c then bg_request sv nc (co_name c) else None) of
           Some bg \<Rightarrow> bg
         | None \<Rightarrow> run_request cs sv nc))"

text \<open>These commands as they are registered; their \<open>run\<close> is never called.\<close>

definition bg_command :: "string \<Rightarrow> int \<Rightarrow> 's Command" where
  "bg_command name arity =
     \<lparr>co_name = str name, co_arity = arity, co_admin = True, co_isBgCmd = True, co_run = (\<lambda>_. sfail Fatal)\<rparr>"

definition bg_commands :: "'s Command list" where
  "bg_commands = [bg_command ''fullsync'' 4, bg_command ''quit'' 0, bg_command ''incrsync'' 6, bg_command ''psync'' 4,
     bg_command ''preparemigrate'' 5, bg_command ''readymigrate'' 5]"

definition processReq :: "'s Command list \<Rightarrow> 's Server \<Rightarrow> NetConf \<Rightarrow> ('s, unit) net" where
  "processReq cs sv nc = sget (\<lambda>ns.
     sbind (if length (se_args (ns_ctx ns)) \<noteq> 0 then ServerEntry_processRequest cs sv nc else sret True) (\<lambda>continueSched.
     sget (\<lambda>ns.
     if \<not> continueSched then smod (\<lambda>ns. setState Stop (endSession ns))
     else if \<not> ns_closeAfterRsp ns
     then sthen (smod resetMultiBulkCtx)
       (smod (\<lambda>ns. if length (ns_queryBuf ns) = 0 then setState DrainReqNet ns else setState DrainReqBuf ns))
     else smod (setState Stop))))"

subsection \<open>Parsing\<close>

text \<open>\<open>strchr(_queryBuf.data() + pos, c)\<close>: the search ends at a zero byte.\<close>

definition strchr :: "bytes \<Rightarrow> nat \<Rightarrow> byte \<Rightarrow> nat option" where
  "strchr buf pos c =
    (let i = pos + length (takeWhile (\<lambda>b. b \<noteq> c \<and> b \<noteq> 0) (drop pos buf)) in
     if i < length buf \<and> buf ! i = c then Some i else None)"

definition shiftQueryBuf :: "int \<Rightarrow> int \<Rightarrow> 's NetSession \<Rightarrow> 's NetSession" where
  "shiftQueryBuf start end' ns =
    (let n = int (length (ns_queryBuf ns)) in
     if n = 0 then ns
     else
       let start = (if start < 0 then if n + start < 0 then 0 else n + start else start);
           end' = (if end' < 0 then if n + end' < 0 then 0 else n + end' else end');
           newLen = (if start > end' then 0 else end' - start + 1);
           (start, newLen) =
             (if newLen \<noteq> 0
              then if start \<ge> n then (start, 0)
                else if end' \<ge> n then (start, if start > n - 1 then 0 else n - 1 - start + 1)
                else (start, newLen)
              else (0, newLen));
           moved = (if start \<noteq> 0 \<and> newLen \<noteq> 0 then drop (nat start) (ns_queryBuf ns) else ns_queryBuf ns) in
       ns\<lparr>ns_queryBuf := take (nat newLen) moved\<rparr>)"

definition processInlineBuffer :: "'s Command list \<Rightarrow> 's Server \<Rightarrow> NetConf \<Rightarrow> ('s, unit) net" where
  "processInlineBuffer cs sv nc = sget (\<lambda>ns.
     let buf = ns_queryBuf ns in
     case strchr buf 0 10 of
       None \<Rightarrow>
         if int (length buf) > REDIS_INLINE_MAX_SIZE then reject nc ''Protocol error: too big inline request''
         else smod (setState DrainReqNet)
     | Some newline \<Rightarrow>
         let (newline, linefeed_chars) =
               (if newline \<noteq> 0 \<and> buf ! (newline - 1) = 13 then (newline - 1, 2) else (newline, 1 :: nat));
             querylen = newline in
         case splitargs (take querylen buf) of
           None \<Rightarrow> reject nc ''Protocol error: unbalanced quotes in request''
         | Some argv \<Rightarrow>
             sthen (smod (shiftQueryBuf (int (querylen + linefeed_chars)) (-1)))
               (sget (\<lambda>ns.
                if length (se_args (ns_ctx ns)) \<noteq> 0 then sfail Fatal
                else sthen (smod (\<lambda>ns. setState Process (set_args (filter (\<lambda>v. v \<noteq> []) argv) ns))) (processReq cs sv nc))))"

text \<open>The head of a bulk: the loop breaks, the function returns, or the bulk starts at a position.\<close>

datatype bulk_head = Break | Return | Bulk_at int

definition bulk_header :: "NetConf \<Rightarrow> int \<Rightarrow> ('s, bulk_head) net" where
  "bulk_header nc pos = sget (\<lambda>ns.
     let buf = ns_queryBuf ns; n = int (length buf); return = (\<lambda>s. sthen (reject nc s) (sret Return)) in
     if ns_bulkLen ns \<noteq> -1 then sret (Bulk_at pos)
     else case strchr buf (nat pos) 13 of
       None \<Rightarrow> if n - pos > REDIS_INLINE_MAX_SIZE then return ''Protocol error: too big bulk count string'' else sret Break
     | Some newLine \<Rightarrow>
         if int newLine > n - 2 then sret Break
         else if buf ! nat pos \<noteq> 36
         then sthen (setRspAndClose nc (str ''Protocol error: expected '' @ [39, 36, 39] @ str '', got '' @ [39, buf ! nat pos, 39]))
               (sthen (smod (setState Stop)) (sret Return))
         else case string2ll (take (newLine - (nat pos + 1)) (drop (nat pos + 1) buf)) of
           None \<Rightarrow> return ''Protocol error: invalid bulk length''
         | Some ll \<Rightarrow>
             if ll < 0 \<or> ll > uint (nc_protoMaxBulkLen nc) then return ''Protocol error: invalid bulk length''
             else
               let pos = int newLine + 2 in
               if ll \<ge> REDIS_MBULK_BIG_ARG
               then sthen (smod (shiftQueryBuf pos (-1))) (sthen (smod (\<lambda>ns. ns\<lparr>ns_bulkLen := ll\<rparr>)) (sret (Bulk_at 0)))
               else sthen (smod (\<lambda>ns. ns\<lparr>ns_bulkLen := ll\<rparr>)) (sret (Bulk_at pos)))"

text \<open>The loop over the bulks, \<open>_multibulklen\<close> times; the position behind them, or nothing after a return.\<close>

primrec bulk_loop :: "NetConf \<Rightarrow> nat \<Rightarrow> int \<Rightarrow> ('s, int option) net" where
  "bulk_loop nc 0 pos = sret (Some pos)"
| "bulk_loop nc (Suc k) pos = sbind (bulk_header nc pos) (\<lambda>h. case h of
      Break \<Rightarrow> sret (Some pos)
    | Return \<Rightarrow> sret None
    | Bulk_at pos \<Rightarrow> sget (\<lambda>ns.
        let n = int (length (ns_queryBuf ns)); bulkLen = ns_bulkLen ns in
        if n - pos < bulkLen + 2 then sret (Some pos)
        else
          sthen (smod (\<lambda>ns. set_args (se_args (ns_ctx ns) @ [take (nat bulkLen) (drop (nat pos) (ns_queryBuf ns))])
                   (ns\<lparr>ns_bulkLen := -1, ns_multibulklen := ns_multibulklen ns - 1\<rparr>)))
            (bulk_loop nc k (pos + bulkLen + 2))))"

definition process_bulks :: "'s Command list \<Rightarrow> 's Server \<Rightarrow> NetConf \<Rightarrow> int \<Rightarrow> ('s, unit) net" where
  "process_bulks cs sv nc pos = sget (\<lambda>ns.
     if \<not> ns_multibulklen ns > 0 then sfail Fatal
     else sbind (bulk_loop nc (nat (ns_multibulklen ns)) pos) (\<lambda>r. case r of
         None \<Rightarrow> sret ()
       | Some pos \<Rightarrow>
           sthen (if pos \<noteq> 0 then smod (shiftQueryBuf pos (-1)) else sret ()) (sget (\<lambda>ns.
           if ns_multibulklen ns = 0 then sthen (smod (setState Process)) (processReq cs sv nc)
           else smod (setState DrainReqNet)))))"

definition processMultibulkBuffer :: "'s Command list \<Rightarrow> 's Server \<Rightarrow> NetConf \<Rightarrow> ('s, unit) net" where
  "processMultibulkBuffer cs sv nc = sget (\<lambda>ns.
     let buf = ns_queryBuf ns; n = int (length buf) in
     if ns_multibulklen ns \<noteq> 0 then process_bulks cs sv nc 0
     else case strchr buf 0 13 of
       None \<Rightarrow>
         if n > REDIS_INLINE_MAX_SIZE then reject nc ''Protocol error: too big mbulk count string''
         else smod (setState DrainReqNet)
     | Some newLine \<Rightarrow>
         if int newLine > n - 2 then smod (setState DrainReqNet)
         else if buf ! 0 \<noteq> 42 then reject nc ''Protocol error: multiBulk first char not *''
         else case string2ll (take (newLine - 1) (drop 1 buf)) of
           None \<Rightarrow> reject nc ''Protocol error: invalid multibulk length''
         | Some ll \<Rightarrow>
             if ll > 1024 * 1024 then reject nc ''Protocol error: invalid multibulk length''
             else
               let pos = int newLine + 2 in
               if ll \<le> 0
               then sthen (smod (shiftQueryBuf pos (-1))) (sget (\<lambda>ns.
                 if length (se_args (ns_ctx ns)) \<noteq> 0 then sfail Fatal
                 else sthen (smod (setState Process)) (processReq cs sv nc)))
               else sthen (smod (\<lambda>ns. ns\<lparr>ns_multibulklen := ll\<rparr>)) (process_bulks cs sv nc pos))"

text \<open>One turn of the loop of \<open>parseAndProcessReq\<close>; \<open>_queryBuf[0]\<close> of an empty buffer is the terminator.\<close>

definition parse_once :: "'s Command list \<Rightarrow> 's Server \<Rightarrow> NetConf \<Rightarrow> ('s, unit) net" where
  "parse_once cs sv nc =
     sthen (smod (\<lambda>ns.
       if ns_reqType ns = REDIS_REQ_UNKNOWN
       then ns\<lparr>ns_reqType := (if ns_queryBuf ns \<noteq> [] \<and> hd (ns_queryBuf ns) = 42 then REDIS_REQ_MULTIBULK else REDIS_REQ_INLINE)\<rparr>
       else ns))
      (sget (\<lambda>ns. case ns_reqType ns of
         REDIS_REQ_MULTIBULK \<Rightarrow> processMultibulkBuffer cs sv nc
       | REDIS_REQ_INLINE \<Rightarrow> processInlineBuffer cs sv nc
       | REDIS_REQ_UNKNOWN \<Rightarrow> sfail Fatal))"

text \<open>\<open>drainReqCallback\<close> after \<open>data\<close> was read, or after an error.\<close>

definition drainReqCallback :: "NetConf \<Rightarrow> bool \<Rightarrow> bytes \<Rightarrow> ('s, unit) net" where
  "drainReqCallback nc ec data =
    (if ec then smod endSession
     else sthen (sget (\<lambda>ns.
       if ns_first ns \<and> nc_sessionCount nc > unat (nc_maxClients nc)
       then sthen (setRspAndClose nc (str ''-ERR max number of clients reached'' @ crlf)) (smod (setState Stop))
       else sthen (smod (\<lambda>ns. ns\<lparr>ns_first := False\<rparr>)) (sget (\<lambda>ns.
         if ns_state ns \<noteq> DrainReqBuf \<and> ns_state ns \<noteq> DrainReqNet then sfail Fatal
         else sthen (smod (\<lambda>ns. ns\<lparr>ns_queryBuf := ns_queryBuf ns @ data\<rparr>)) (sget (\<lambda>ns.
           if length (ns_queryBuf ns) > REDIS_MAX_QUERYBUF_LEN
           then reject nc ''Closing client that reached max query buffer length''
           else smod (setState DrainReqBuf)))))))
      (smod (\<lambda>ns. if ns_state ns = Stop then drainRsp ns else ns)))"

end
