(* ===== verification/NetFrame.thy ===== *)
theory NetFrame
  imports NetSession
begin

section \<open>What the operations of a connection leave alone\<close>

text \<open>
  \<open>within R m\<close> says that the computation \<open>m\<close> only makes changes in \<open>R\<close>, whether it succeeds or not; the rules
  in \<open>frame_intros\<close> compose it along the monad. Running a request leaves the parser alone (\<open>same_parse\<close>), so
  every turn of the parser either shortens the buffer, waits for bytes or stops (\<open>turn\<close>), which makes the loop of
  \<open>parseAndProcessReq\<close> end.
\<close>

definition within :: "('s \<Rightarrow> 's \<Rightarrow> bool) \<Rightarrow> ('s, 'a) st \<Rightarrow> bool" where
  "within R m \<longleftrightarrow> (\<forall>s r s'. m s = (r, s') \<longrightarrow> R s s')"

lemma withinD: "within R m \<Longrightarrow> m s = (r, s') \<Longrightarrow> R s s'"
  by (auto simp: within_def)

lemma within_snd: "within R m \<Longrightarrow> R s (snd (m s))"
  by (cases "m s") (auto simp: within_def)

lemma within_smod [intro]: "(\<And>s. R s (f s)) \<Longrightarrow> within R (smod f)"
  by (simp add: within_def smod_def)

lemma within_sget [intro]: "(\<And>s. within R (f s)) \<Longrightarrow> within R (sget f)"
  by (simp add: within_def)

lemma within_sret [intro]: "reflp R \<Longrightarrow> within R (sret x)" "reflp R \<Longrightarrow> within R (sfail e)"
  by (auto simp: within_def reflp_def)

lemma within_sbind [intro]:
  assumes "transp R" "within R m" "\<And>x. within R (f x)"
  shows "within R (sbind m f)"
  unfolding within_def
proof (intro allI impI)
  fix s r t assume "sbind m f s = (r, t)"
  then show "R s t"
  proof (cases rule: sbind_eqE)
    case (cont x s')
    then show ?thesis using withinD [OF assms(2)] withinD [OF assms(3)] assms(1) by (blast dest: transpD)
  qed (use withinD [OF assms(2)] in blast)
qed

lemma within_stry [intro]:
  assumes "transp R" "within R m" "\<And>x. within R (f x)"
  shows "within R (stry m f)"
  unfolding within_def
proof (intro allI impI)
  fix s r t assume "stry m f s = (r, t)"
  then show "R s t"
    by (cases rule: stry_eqE) (use withinD [OF assms(2)] withinD [OF assms(3)] assms(1) in \<open>blast dest: transpD\<close>)+
qed

text \<open>What a request keeps of the parser: all but the session and what belongs to sending.\<close>

definition same_parse :: "'s NetSession \<Rightarrow> 's NetSession \<Rightarrow> bool" where
  "same_parse ns ns' \<longleftrightarrow> ns_queryBuf ns' = ns_queryBuf ns \<and> ns_reqType ns' = ns_reqType ns \<and>
     ns_multibulklen ns' = ns_multibulklen ns \<and> ns_bulkLen ns' = ns_bulkLen ns \<and> ns_state ns' = ns_state ns \<and>
     ns_first ns' = ns_first ns"

lemma same_parse_rt [simp]: "reflp same_parse" "transp same_parse"
  by (auto simp: same_parse_def reflp_def transp_def)

lemma setResponse_parse: "within same_parse (setResponse nc s)"
  by (auto simp: within_def same_parse_def setResponse_def queue_reply_def enqueue_def set_mem_def drainRspWithoutLock_def Let_def
      split: prod.splits if_splits)

lemma in_ctx_parse: "within same_parse (in_ctx m)"
  by (auto simp: within_def same_parse_def in_ctx_def split: prod.splits)

lemma within_if: "within R a \<Longrightarrow> within R b \<Longrightarrow> within R (if c then a else b)"
  by simp

lemmas frame_intros = within_smod within_sget within_sret within_sbind within_stry within_if

lemma arg_parse: "within same_parse (vec_at i)"
  by (auto simp: vec_at_def Let_def intro!: frame_intros)

lemma value_of_parse: "within same_parse (value_of e)"
  by (auto simp: value_of_def intro!: frame_intros split: sum.split fault.split)

lemma replied_parse: "within same_parse (replied nc s)"
  by (auto simp: replied_def intro!: frame_intros setResponse_parse)

lemma psync_parse: "within same_parse (psync_request sv nc)"
  by (auto simp: psync_request_def Let_def intro!: frame_intros setResponse_parse arg_parse split: sum.split fault.split)

lemma bg_parse: "bg_request sv nc name = Some m \<Longrightarrow> within same_parse m"
  by (auto simp: bg_request_def intro!: frame_intros replied_parse arg_parse value_of_parse psync_parse
      simp: same_parse_def split: if_split_asm)

lemma processRequest_parse: "within same_parse (ServerEntry_processRequest cs sv nc)"
  by (auto simp: ServerEntry_processRequest_def run_request_def intro!: frame_intros replied_parse in_ctx_parse
      split: sum.split fault.split option.split if_split_asm) (rule bg_parse)


subsection \<open>Requests leave the parser fresh\<close>

abbreviation ns_args :: "'s NetSession \<Rightarrow> bytes list" where
  "ns_args ns \<equiv> se_args (ns_ctx ns)"

definition fresh_parse :: "'s NetSession \<Rightarrow> bool" where
  "fresh_parse ns \<longleftrightarrow> ns_reqType ns = REDIS_REQ_UNKNOWN \<and> ns_multibulklen ns = 0 \<and> ns_bulkLen ns = -1 \<and> ns_args ns = []"

lemma smod_apply [simp]: "smod f s = (ok (), f s)"
  by (simp add: smod_def)

lemma sthen_smod [simp]: "sthen (smod f) m s = m (f s)"
  by (simp add: sbind_def)

lemma processReq_ok:
  assumes "processReq cs sv nc ns = (Inr u, ns')"
  shows "ns_queryBuf ns' = ns_queryBuf ns \<and> ns_first ns' = ns_first ns \<and>
    (ns_state ns' = Stop \<or>
     fresh_parse ns' \<and> ns_state ns' = (if ns_queryBuf ns = [] then DrainReqNet else DrainReqBuf))"
proof -
  obtain b ns1 where 1: "(if length (ns_args ns) \<noteq> 0 then ServerEntry_processRequest cs sv nc else sret True) ns = (Inr b, ns1)"
    "(if \<not> b then smod (\<lambda>ns. setState Stop (endSession ns))
     else if \<not> ns_closeAfterRsp ns1
     then sthen (smod resetMultiBulkCtx)
       (smod (\<lambda>ns. if length (ns_queryBuf ns) = 0 then setState DrainReqNet ns else setState DrainReqBuf ns))
     else smod (setState Stop)) ns1 = (Inr u, ns')"
    using assms by (auto simp: processReq_def sbind_eq_Inr)
  have "same_parse ns ns1"
    using 1(1) withinD [OF processRequest_parse, of cs sv nc ns "Inr b" ns1] by (auto simp: same_parse_def split: if_split_asm)
  then show ?thesis
    using 1(2) by (auto simp: same_parse_def fresh_parse_def setState_def endSession_def resetMultiBulkCtx_def set_args_def
        split: if_split_asm)
qed

definition crashes :: "'s Command list \<Rightarrow> 's Server \<Rightarrow> NetConf \<Rightarrow> bool" where
  "crashes cs sv nc \<longleftrightarrow> (\<exists>ns e. ns_args ns \<noteq> [] \<and> fst (ServerEntry_processRequest cs sv nc ns) = Inl e)"

lemma processReq_crash: "processReq cs sv nc ns = (Inl e, ns') \<Longrightarrow> crashes cs sv nc"
  unfolding crashes_def
  by (auto simp: processReq_def elim!: sbind_eqE split: if_split_asm intro!: exI [of _ ns] exI [of _ e])

lemma checkMemLimit_status: "fst (checkMemLimit m) = Inl e \<Longrightarrow> \<exists>c s. e = Status c s"
  by (auto simp: checkMemLimit_def sbind_def smod_def sclock_now_def split: if_split_asm option.split_asm)

lemma setResponse_status: "setResponse nc s ns = (Inl e, ns') \<Longrightarrow> \<exists>c m. e = Status c m"
  using checkMemLimit_status by (auto simp: setResponse_def Let_def split: prod.split_asm if_split_asm) (metis fst_conv isl_def)

lemma stry_setResponse: "stry (setResponse nc s) f ns = f (fst (setResponse nc s ns)) (snd (setResponse nc s ns))"
  using setResponse_status [of nc s ns] by (auto simp: stry_def split: prod.split sum.split fault.split)

lemma setRspAndClose_apply:
  "setRspAndClose nc s ns = (ok (), resetMultiBulkCtx (snd (setResponse nc (errorReply s) (ns\<lparr>ns_closeAfterRsp := True\<rparr>))))"
  by (simp add: setRspAndClose_def stry_setResponse)

definition rejected :: "NetConf \<Rightarrow> bytes \<Rightarrow> 's NetSession \<Rightarrow> 's NetSession" where
  "rejected nc s ns = setState Stop (resetMultiBulkCtx (snd (setResponse nc (errorReply s) (ns\<lparr>ns_closeAfterRsp := True\<rparr>))))"

lemma reject_apply: "reject nc s ns = (ok (), rejected nc (str s) ns)"
  by (simp add: reject_def sbind_def setRspAndClose_apply rejected_def)

lemma rejected_fields:
  "ns_state (rejected nc s ns) = Stop" "fresh_parse (rejected nc s ns)" "ns_queryBuf (rejected nc s ns) = ns_queryBuf ns"
  using within_snd [OF setResponse_parse, of "ns\<lparr>ns_closeAfterRsp := True\<rparr>" nc "errorReply s"]
  by (simp_all add: rejected_def setState_def fresh_parse_def resetMultiBulkCtx_def set_args_def same_parse_def)

lemma shiftQueryBuf_drop: "0 \<le> p \<Longrightarrow> shiftQueryBuf p (-1) ns = ns\<lparr>ns_queryBuf := drop (nat p) (ns_queryBuf ns)\<rparr>"
  by (cases "p < int (length (ns_queryBuf ns))") (auto simp: shiftQueryBuf_def Let_def)

lemma strchr_Some: "strchr buf pos c = Some i \<Longrightarrow> pos \<le> i \<and> i < length buf \<and> buf ! i = c"
  by (auto simp: strchr_def Let_def split: if_split_asm)


subsection \<open>The bulks of a request\<close>

lemma bulk_header_cases:
  assumes "0 \<le> pos" "pos \<le> int (length (ns_queryBuf ns))"
  obtains (rejected) s where "bulk_header nc pos ns = (ok Return, rejected nc s ns)"
  | (more) "bulk_header nc pos ns = (ok Break, ns)" "ns_bulkLen ns = -1"
  | (known) "bulk_header nc pos ns = (ok (Bulk_at pos), ns)" "ns_bulkLen ns \<noteq> -1"
  | (head) p b l where "ns_bulkLen ns = -1" "bulk_header nc pos ns = (ok (Bulk_at p), ns\<lparr>ns_queryBuf := b, ns_bulkLen := l\<rparr>)"
      "0 \<le> l" "l \<le> uint (nc_protoMaxBulkLen nc)" "0 \<le> p" "p \<le> int (length b)"
      "int (length b) - p < int (length (ns_queryBuf ns)) - pos"
proof -
  let ?buf = "ns_queryBuf ns"
  have rej: thesis if "bulk_header nc pos ns = (ok Return, rejected nc s ns)" for s using that rejected by blast
  show thesis
  proof (cases "ns_bulkLen ns = -1")
    case False
    then show thesis by (intro known) (simp_all add: bulk_header_def Let_def)
  next
    case True
    show thesis
    proof (cases "strchr ?buf (nat pos) 13")
      case None
      then show thesis using True rej more
        by (cases "int (length ?buf) - pos > REDIS_INLINE_MAX_SIZE") (auto simp: bulk_header_def Let_def sbind_def reject_apply)
    next
      case (Some nl)
      note nl = strchr_Some [OF Some]
      let ?ll = "string2ll (take (nl - (nat pos + 1)) (drop (nat pos + 1) ?buf))"
      consider "int nl > int (length ?buf) - 2" | "int nl \<le> int (length ?buf) - 2" "?buf ! nat pos \<noteq> 36"
        | "int nl \<le> int (length ?buf) - 2" "?buf ! nat pos = 36" "\<forall>ll. ?ll = Some ll \<longrightarrow> ll < 0 \<or> ll > uint (nc_protoMaxBulkLen nc)"
        | ll where "int nl \<le> int (length ?buf) - 2" "?buf ! nat pos = 36" "?ll = Some ll" "0 \<le> ll" "ll \<le> uint (nc_protoMaxBulkLen nc)"
        by fastforce
      then show thesis
      proof cases
        case 1
        then show thesis using True Some more by (simp add: bulk_header_def Let_def)
      next
        case 2
        then show thesis using True Some rej
          by (simp add: bulk_header_def Let_def sbind_def setRspAndClose_apply rejected_def)
      next
        case 3
        then show thesis using True Some rej
          by (cases ?ll) (auto simp: bulk_header_def Let_def sbind_def reject_apply)
      next
        case 4
        show thesis
        proof (cases "ll \<ge> REDIS_MBULK_BIG_ARG")
          case big: True
          show thesis
            using 4 True Some nl big assms
            by (intro head [where p = 0 and b = "drop (nat (int nl + 2)) ?buf" and l = ll])
              (auto simp: bulk_header_def Let_def sbind_def shiftQueryBuf_drop)
        next
          case False
          show thesis
            using 4 True Some nl False assms
            by (intro head [where p = "int nl + 2" and b = ?buf and l = ll]) (auto simp: bulk_header_def Let_def sbind_def)
        qed
      qed
    qed
  qed
qed


definition bulks_done :: "'s NetSession \<Rightarrow> int \<Rightarrow> NetConf \<Rightarrow> 's NetSession \<Rightarrow> int \<Rightarrow> bool" where
  "bulks_done ns pos nc ns' p \<longleftrightarrow> (\<exists>b m l as. ns' = set_args as (ns\<lparr>ns_queryBuf := b, ns_multibulklen := m, ns_bulkLen := l\<rparr>) \<and>
     0 \<le> m \<and> m \<le> ns_multibulklen ns \<and> length as + nat m = length (ns_args ns) + nat (ns_multibulklen ns) \<and>
     -1 \<le> l \<and> l \<le> max (ns_bulkLen ns) (uint (nc_protoMaxBulkLen nc)) \<and> ((m < ns_multibulklen ns \<or> ns_bulkLen ns = -1) \<and> m = 0 \<longrightarrow> l = -1) \<and>
     0 \<le> p \<and> p \<le> int (length b) \<and> int (length b) - p \<le> int (length (ns_queryBuf ns)) - pos \<and>
     (m < ns_multibulklen ns \<longrightarrow> int (length b) - p < int (length (ns_queryBuf ns)) - pos))"

lemma set_args_fields [simp]:
  "ns_ctx (set_args as ns) = ns_ctx ns\<lparr>se_args := as\<rparr>" "ns_queryBuf (set_args as ns) = ns_queryBuf ns"
  "ns_multibulklen (set_args as ns) = ns_multibulklen ns" "ns_bulkLen (set_args as ns) = ns_bulkLen ns"
  "ns_state (set_args as ns) = ns_state ns" "ns_reqType (set_args as ns) = ns_reqType ns" "ns_first (set_args as ns) = ns_first ns"
  by (simp_all add: set_args_def)

lemma bulks_done_refl:
  "0 \<le> pos \<Longrightarrow> pos \<le> int (length (ns_queryBuf ns)) \<Longrightarrow> -1 \<le> ns_bulkLen ns \<Longrightarrow> 0 \<le> ns_multibulklen ns \<Longrightarrow> bulks_done ns pos nc ns pos"
  unfolding bulks_done_def
  by (rule exI [of _ "ns_queryBuf ns"], rule exI [of _ "ns_multibulklen ns"], rule exI [of _ "ns_bulkLen ns"],
      rule exI [of _ "ns_args ns"]) (simp add: set_args_def)

lemma bulks_done_trans:
  assumes "bulks_done ns pos nc ns1 p1" "bulks_done ns1 p1 nc ns2 p2"
  shows "bulks_done ns pos nc ns2 p2"
proof -
  obtain b1 m1 l1 as1 where 1: "ns1 = set_args as1 (ns\<lparr>ns_queryBuf := b1, ns_multibulklen := m1, ns_bulkLen := l1\<rparr>)"
    "0 \<le> m1" "m1 \<le> ns_multibulklen ns" "length as1 + nat m1 = length (ns_args ns) + nat (ns_multibulklen ns)"
    "-1 \<le> l1" "l1 \<le> max (ns_bulkLen ns) (uint (nc_protoMaxBulkLen nc))"
    "(m1 < ns_multibulklen ns \<or> ns_bulkLen ns = -1) \<and> m1 = 0 \<longrightarrow> l1 = -1"
    "0 \<le> p1" "p1 \<le> int (length b1)" "int (length b1) - p1 \<le> int (length (ns_queryBuf ns)) - pos"
    "m1 < ns_multibulklen ns \<longrightarrow> int (length b1) - p1 < int (length (ns_queryBuf ns)) - pos"
    using assms(1) unfolding bulks_done_def by blast
  obtain b2 m2 l2 as2 where 2: "ns2 = set_args as2 (ns1\<lparr>ns_queryBuf := b2, ns_multibulklen := m2, ns_bulkLen := l2\<rparr>)"
    "0 \<le> m2" "m2 \<le> m1" "length as2 + nat m2 = length as1 + nat m1"
    "-1 \<le> l2" "l2 \<le> max l1 (uint (nc_protoMaxBulkLen nc))" "(m2 < m1 \<or> l1 = -1) \<and> m2 = 0 \<longrightarrow> l2 = -1"
    "0 \<le> p2" "p2 \<le> int (length b2)" "int (length b2) - p2 \<le> int (length b1) - p1"
    "m2 < m1 \<longrightarrow> int (length b2) - p2 < int (length b1) - p1"
    using assms(2) unfolding bulks_done_def 1(1) by auto
  have e: "ns2 = set_args as2 (ns\<lparr>ns_queryBuf := b2, ns_multibulklen := m2, ns_bulkLen := l2\<rparr>)"
    by (simp add: 2(1) 1(1) set_args_def)
  show ?thesis
    unfolding bulks_done_def
  proof (rule exI [of _ b2], rule exI [of _ m2], rule exI [of _ l2], rule exI [of _ as2], intro conjI e impI)
    show "l2 \<le> max (ns_bulkLen ns) (uint (nc_protoMaxBulkLen nc))" using 1(6) 2(6) by linarith
    show "l2 = -1" if "(m2 < ns_multibulklen ns \<or> ns_bulkLen ns = -1) \<and> m2 = 0"
      using that 1(3,7) 2(2,3,7) by (cases "m2 < m1") auto
    show "int (length b2) - p2 < int (length (ns_queryBuf ns)) - pos" if "m2 < ns_multibulklen ns"
      using that 1(3,10,11) 2(3,10,11) by (cases "m2 < m1") auto
  qed (use 1(2,3,4,10) 2(2,3,4,5,8,9,10) in linarith)+
qed

text \<open>One bulk, once its length is known.\<close>

definition take_bulk :: "int \<Rightarrow> 's NetSession \<Rightarrow> 's NetSession" where
  "take_bulk pos ns = set_args (ns_args ns @ [take (nat (ns_bulkLen ns)) (drop (nat pos) (ns_queryBuf ns))])
     (ns\<lparr>ns_bulkLen := -1, ns_multibulklen := ns_multibulklen ns - 1\<rparr>)"

lemma take_bulk_done:
  assumes "0 \<le> pos" "-1 \<le> ns_bulkLen ns" "0 < ns_multibulklen ns" "pos + ns_bulkLen ns + 2 \<le> int (length (ns_queryBuf ns))"
  shows "bulks_done ns pos nc (take_bulk pos ns) (pos + ns_bulkLen ns + 2)"
  unfolding bulks_done_def take_bulk_def
  by (rule exI [of _ "ns_queryBuf ns"], rule exI [of _ "ns_multibulklen ns - 1"], rule exI [of _ "-1"],
      rule exI [of _ "ns_args ns @ [take (nat (ns_bulkLen ns)) (drop (nat pos) (ns_queryBuf ns))]"])
    (use assms in \<open>auto simp: set_args_def max_def\<close>)

lemma bulk_head_done:
  assumes "ns_bulkLen ns = -1" "0 < ns_multibulklen ns" "0 \<le> l" "l \<le> uint (nc_protoMaxBulkLen nc)" "0 \<le> p" "p \<le> int (length b)"
    "int (length b) - p < int (length (ns_queryBuf ns)) - pos"
  shows "bulks_done ns pos nc (ns\<lparr>ns_queryBuf := b, ns_bulkLen := l\<rparr>) p"
  unfolding bulks_done_def
  by (rule exI [of _ b], rule exI [of _ "ns_multibulklen ns"], rule exI [of _ l], rule exI [of _ "ns_args ns"])
    (use assms in \<open>simp add: set_args_def\<close>)

lemma bulk_loop_Suc:
  "bulk_loop nc (Suc k) pos = sbind (bulk_header nc pos) (\<lambda>h. case h of
      Break \<Rightarrow> sret (Some pos)
    | Return \<Rightarrow> sret None
    | Bulk_at pos \<Rightarrow> (\<lambda>ns.
        if int (length (ns_queryBuf ns)) - pos < ns_bulkLen ns + 2 then (ok (Some pos), ns)
        else bulk_loop nc k (pos + ns_bulkLen ns + 2) (take_bulk pos ns)))"
  by (auto simp: fun_eq_iff sbind_def Let_def take_bulk_def split: prod.split sum.split bulk_head.split)

lemma bulk_loop_ok:
  assumes "0 \<le> pos" "pos \<le> int (length (ns_queryBuf ns))" "-1 \<le> ns_bulkLen ns" "ns_multibulklen ns = int k"
  shows "(\<exists>ns'. bulk_loop nc k pos ns = (ok None, ns') \<and> ns_state ns' = Stop \<and> fresh_parse ns') \<or>
    (\<exists>p ns'. bulk_loop nc k pos ns = (ok (Some p), ns') \<and> bulks_done ns pos nc ns' p)"
  using assms
proof (induction k arbitrary: pos ns)
  case 0
  then show ?case using bulks_done_refl [of pos ns nc] by auto
next
  case (Suc k)
  let ?more = "\<lambda>ns pos r. (\<exists>ns'. r = (ok None, ns') \<and> ns_state ns' = Stop \<and> fresh_parse ns') \<or>
    (\<exists>p ns'. r = (ok (Some p), ns') \<and> bulks_done ns pos nc ns' p)"
  have at: "?more ns1 p (if int (length (ns_queryBuf ns1)) - p < ns_bulkLen ns1 + 2 then (ok (Some p), ns1)
      else bulk_loop nc k (p + ns_bulkLen ns1 + 2) (take_bulk p ns1))"
    if "0 \<le> p" "p \<le> int (length (ns_queryBuf ns1))" "-1 \<le> ns_bulkLen ns1" "ns_multibulklen ns1 = int (Suc k)"
    for p and ns1 :: "'a NetSession"
  proof (cases "int (length (ns_queryBuf ns1)) - p < ns_bulkLen ns1 + 2")
    case True
    then show ?thesis using bulks_done_refl [of p ns1 nc] that by simp
  next
    case False
    have d: "bulks_done ns1 p nc (take_bulk p ns1) (p + ns_bulkLen ns1 + 2)"
      using that False by (intro take_bulk_done) auto
    have "?more (take_bulk p ns1) (p + ns_bulkLen ns1 + 2) (bulk_loop nc k (p + ns_bulkLen ns1 + 2) (take_bulk p ns1))"
      using that False by (intro Suc.IH) (auto simp: take_bulk_def)
    then show ?thesis using bulks_done_trans [OF d] False by auto
  qed
  show ?case
    using Suc.prems(1,2)
  proof (cases rule: bulk_header_cases [where nc = nc and ns = ns])
    case (rejected s)
    then show ?thesis by (auto simp: bulk_loop_Suc sbind_def rejected_fields)
  next
    case more
    then show ?thesis using bulks_done_refl [of pos ns nc] Suc.prems by (auto simp: bulk_loop_Suc sbind_def)
  next
    case known
    then have "bulk_loop nc (Suc k) pos ns = (if int (length (ns_queryBuf ns)) - pos < ns_bulkLen ns + 2 then (ok (Some pos), ns)
      else bulk_loop nc k (pos + ns_bulkLen ns + 2) (take_bulk pos ns))"
      by (simp only: bulk_loop_Suc sbind_def prod.case sum.case bulk_head.case)
    then show ?thesis using at [OF Suc.prems] by (simp only:)
  next
    case (head p b l)
    let ?ns = "ns\<lparr>ns_queryBuf := b, ns_bulkLen := l\<rparr>"
    have d: "bulks_done ns pos nc ?ns p" using head Suc.prems(4) by (intro bulk_head_done) auto
    have "bulk_loop nc (Suc k) pos ns = (if int (length (ns_queryBuf ?ns)) - p < ns_bulkLen ?ns + 2 then (ok (Some p), ?ns)
      else bulk_loop nc k (p + ns_bulkLen ?ns + 2) (take_bulk p ?ns))"
      by (simp only: bulk_loop_Suc sbind_def head(2) prod.case sum.case bulk_head.case)
    moreover have "ns_multibulklen ?ns = int (Suc k)" "p \<le> int (length (ns_queryBuf ?ns))" "-1 \<le> ns_bulkLen ?ns"
      using head Suc.prems(4) by simp_all
    ultimately have "?more ?ns p (bulk_loop nc (Suc k) pos ns)" using at [OF head(5)] by (simp only:)
    then show ?thesis using bulks_done_trans [OF d] by auto
  qed
qed


subsection \<open>One turn of the parser\<close>

lemma bulk_header_Return: "bulk_header nc pos ns = (Inr Return, ns') \<Longrightarrow> ns_state ns' = Stop"
  by (auto simp: bulk_header_def Let_def sbind_def reject_apply setRspAndClose_apply rejected_fields setState_def
      split: if_split_asm option.split_asm)

lemma bulk_loop_None: "bulk_loop nc k pos ns = (Inr None, ns') \<Longrightarrow> ns_state ns' = Stop"
proof (induction k arbitrary: pos ns)
  case (Suc k)
  from Suc.prems [unfolded bulk_loop_Suc] show ?case
  proof (cases rule: sbind_eqE)
    case (cont h ns1)
    then show ?thesis using bulk_header_Return Suc.IH by (cases h) (auto split: if_split_asm)
  qed simp
qed simp

definition turn_end :: "'s NetSession \<Rightarrow> bool" where
  "turn_end ns \<longleftrightarrow> ns_state ns \<in> {DrainReqNet, Stop} \<or> ns_state ns = DrainReqBuf \<and> fresh_parse ns"

lemma processReq_end: "processReq cs sv nc ns = (Inr u, ns') \<Longrightarrow> turn_end ns'"
  using processReq_ok [of cs sv nc ns u ns'] by (auto simp: turn_end_def)

lemma rejected_end [simp]: "turn_end (rejected nc s ns)"
  by (simp add: turn_end_def rejected_fields)

lemma wait_end [simp]: "turn_end (setState DrainReqNet ns)"
  by (simp add: turn_end_def setState_def)

lemma process_bulks_apply:
  "process_bulks cs sv nc pos ns =
    (if \<not> ns_multibulklen ns > 0 then (Inl Fatal, ns)
     else case bulk_loop nc (nat (ns_multibulklen ns)) pos ns of
       (Inl e, ns') \<Rightarrow> (Inl e, ns')
     | (Inr None, ns') \<Rightarrow> (ok (), ns')
     | (Inr (Some p), ns') \<Rightarrow>
         let ns' = (if p \<noteq> 0 then shiftQueryBuf p (-1) ns' else ns') in
         if ns_multibulklen ns' = 0 then processReq cs sv nc (setState Process ns') else (ok (), setState DrainReqNet ns'))"
  by (auto simp: process_bulks_def sbind_def Let_def split: prod.split sum.split option.split)

lemma process_bulks_end: "process_bulks cs sv nc pos ns = (Inr u, ns') \<Longrightarrow> turn_end ns'"
  by (auto simp: process_bulks_apply Let_def turn_end_def [of ns'] dest: bulk_loop_None processReq_end [unfolded turn_end_def]
      simp: setState_def split: if_split_asm option.split_asm prod.split_asm sum.split_asm)

lemma processMultibulkBuffer_end: "processMultibulkBuffer cs sv nc ns = (Inr u, ns') \<Longrightarrow> turn_end ns'"
  by (auto simp: processMultibulkBuffer_def Let_def reject_apply dest: process_bulks_end processReq_end
      split: if_split_asm option.split_asm)

lemma processInlineBuffer_end: "processInlineBuffer cs sv nc ns = (Inr u, ns') \<Longrightarrow> turn_end ns'"
  by (auto simp: processInlineBuffer_def Let_def reject_apply dest: processReq_end
      split: if_split_asm option.split_asm)

lemma parse_once_end: "parse_once cs sv nc ns = (Inr u, ns') \<Longrightarrow> turn_end ns'"
  by (auto simp: parse_once_def Let_def dest: processInlineBuffer_end processMultibulkBuffer_end
      split: if_split_asm RedisReqMode.split_asm)

definition parse_ok :: "NetConf \<Rightarrow> 's NetSession \<Rightarrow> bool" where
  "parse_ok nc ns \<longleftrightarrow> 0 \<le> ns_multibulklen ns \<and> length (ns_args ns) + nat (ns_multibulklen ns) \<le> 1024 * 1024 \<and>
     -1 \<le> ns_bulkLen ns \<and> ns_bulkLen ns \<le> uint (nc_protoMaxBulkLen nc) \<and>
     (ns_multibulklen ns = 0 \<longrightarrow> ns_bulkLen ns = -1 \<and> ns_args ns = []) \<and>
     (ns_reqType ns \<noteq> REDIS_REQ_MULTIBULK \<longrightarrow> ns_multibulklen ns = 0)"

lemma minus_one_le_uint: "-1 \<le> uint w"
  by (rule order_trans [of _ 0]) simp_all

lemma fresh_parse_ok: "fresh_parse ns \<Longrightarrow> parse_ok nc ns"
  by (simp add: fresh_parse_def parse_ok_def minus_one_le_uint)

text \<open>What a turn does from a state of the parser: it crashes only with a request, and shortens the buffer if it goes on.\<close>

definition turn :: "'s Command list \<Rightarrow> 's Server \<Rightarrow> NetConf \<Rightarrow> 's NetSession \<Rightarrow> unit expected \<times> 's NetSession \<Rightarrow> bool" where
  "turn cs sv nc ns p \<longleftrightarrow> (case p of
      (Inl e, ns') \<Rightarrow> crashes cs sv nc
    | (Inr u, ns') \<Rightarrow> ns_state ns' = Stop \<or> parse_ok nc ns' \<and> length (ns_queryBuf ns') \<le> length (ns_queryBuf ns) \<and>
        (ns_state ns' = DrainReqBuf \<longrightarrow> length (ns_queryBuf ns') < length (ns_queryBuf ns)))"

lemma turn_rejected [simp]: "turn cs sv nc ns (ok u, rejected nc s ns)"
  by (simp add: turn_def rejected_fields)

lemma turn_wait: "parse_ok nc ns \<Longrightarrow> turn cs sv nc ns (ok u, setState DrainReqNet ns)"
  by (simp add: turn_def setState_def parse_ok_def)

lemma turn_request:
  assumes "length (ns_queryBuf ns1) < length (ns_queryBuf ns)"
  shows "turn cs sv nc ns (processReq cs sv nc ns1)"
  using assms processReq_ok [of cs sv nc ns1] processReq_crash [of cs sv nc ns1] fresh_parse_ok [of _ nc]
  by (fastforce simp: turn_def split: prod.split sum.split)

lemma turn_trans: "turn cs sv nc ns1 p \<Longrightarrow> length (ns_queryBuf ns1) \<le> length (ns_queryBuf ns) \<Longrightarrow> turn cs sv nc ns p"
  by (cases p; cases "fst p") (auto simp: turn_def)


lemma process_bulks_turn:
  assumes "0 \<le> pos" "pos \<le> int (length (ns_queryBuf ns))" "0 < ns_multibulklen ns" "ns_reqType ns = REDIS_REQ_MULTIBULK" "parse_ok nc ns"
  shows "turn cs sv nc ns (process_bulks cs sv nc pos ns)"
proof -
  let ?k = "nat (ns_multibulklen ns)"
  have ok: "-1 \<le> ns_bulkLen ns" "ns_bulkLen ns \<le> uint (nc_protoMaxBulkLen nc)"
    "length (ns_args ns) + nat (ns_multibulklen ns) \<le> 1024 * 1024"
    using assms(5) by (auto simp: parse_ok_def)
  from bulk_loop_ok [OF assms(1,2) ok(1), of ?k nc] assms(3) consider
    (none) ns' where "bulk_loop nc ?k pos ns = (ok None, ns')" "ns_state ns' = Stop"
    | (some) p ns' where "bulk_loop nc ?k pos ns = (ok (Some p), ns')" "bulks_done ns pos nc ns' p"
    by auto
  then show ?thesis
  proof cases
    case none
    then show ?thesis using none assms(3) by (simp add: process_bulks_apply turn_def)
  next
    case some
    obtain b m l as where d: "ns' = set_args as (ns\<lparr>ns_queryBuf := b, ns_multibulklen := m, ns_bulkLen := l\<rparr>)"
      "0 \<le> m" "length as + nat m = length (ns_args ns) + nat (ns_multibulklen ns)"
      "-1 \<le> l" "l \<le> max (ns_bulkLen ns) (uint (nc_protoMaxBulkLen nc))" "0 \<le> p" "p \<le> int (length b)"
      "int (length b) - p \<le> int (length (ns_queryBuf ns)) - pos"
      "m < ns_multibulklen ns \<longrightarrow> int (length b) - p < int (length (ns_queryBuf ns)) - pos"
      using some(2) unfolding bulks_done_def by blast
    obtain ns2 where ns2: "ns2 = set_args as (ns\<lparr>ns_queryBuf := drop (nat p) b, ns_multibulklen := m, ns_bulkLen := l\<rparr>)" by blast
    have s: "(if p \<noteq> 0 then shiftQueryBuf p (-1) ns' else ns') = ns2"
      using d(6) by (auto simp: shiftQueryBuf_drop d(1) set_args_def ns2)
    have m: "ns_multibulklen ns2 = m" "ns_queryBuf ns2 = drop (nat p) b" by (simp_all add: ns2)
    have e: "process_bulks cs sv nc pos ns =
      (if m = 0 then processReq cs sv nc (setState Process ns2) else (ok (), setState DrainReqNet ns2))"
      unfolding process_bulks_apply some(1) prod.case sum.case option.case Let_def s m using assms(3) by simp
    show ?thesis
    proof (cases "m = 0")
      case True
      have "length (ns_queryBuf (setState Process ns2)) < length (ns_queryBuf ns)"
        using assms(1,3) d(6,7,9) True by (auto simp: setState_def m)
      then show ?thesis unfolding e using True turn_request by simp
    next
      case False
      have "l \<le> uint (nc_protoMaxBulkLen nc)" using d(5) ok(2) by simp
      then have "parse_ok nc ns2" unfolding ns2 using d(2-4) False ok(3) assms(4) by (simp add: parse_ok_def)
      moreover have "length (ns_queryBuf ns2) \<le> length (ns_queryBuf ns)" using d(6,7,8) assms(1) by (auto simp: m)
      ultimately show ?thesis unfolding e using False turn_trans [OF turn_wait [of nc ns2]] by simp
    qed
  qed
qed


lemma processMultibulkBuffer_turn:
  assumes "parse_ok nc ns" "ns_reqType ns = REDIS_REQ_MULTIBULK"
  shows "turn cs sv nc ns (processMultibulkBuffer cs sv nc ns)"
proof (cases "ns_multibulklen ns = 0")
  case False
  then have "0 < ns_multibulklen ns" using assms(1) by (simp add: parse_ok_def)
  then show ?thesis using process_bulks_turn [of 0 ns nc cs sv] assms by (simp add: processMultibulkBuffer_def Let_def)
next
  case True
  note ok = assms(1)[unfolded parse_ok_def] and w = turn_wait [OF assms(1), of cs sv "()"]
  let ?buf = "ns_queryBuf ns"
  show ?thesis
  proof (cases "strchr ?buf 0 13")
    case None
    then show ?thesis using True w by (simp add: processMultibulkBuffer_def Let_def reject_apply)
  next
    case (Some nl)
    note nl = strchr_Some [OF Some]
    show ?thesis
    proof (cases "int nl > int (length ?buf) - 2 \<or> ?buf ! 0 \<noteq> 42")
      case True
      then show ?thesis using \<open>ns_multibulklen ns = 0\<close> Some w
        by (auto simp: processMultibulkBuffer_def Let_def reject_apply)
    next
      case line: False
      show ?thesis
      proof (cases "\<exists>ll. string2ll (take (nl - 1) (drop 1 ?buf)) = Some ll \<and> ll \<le> 1024 * 1024")
        case False
        then show ?thesis using True Some line
          by (auto simp: processMultibulkBuffer_def Let_def reject_apply split: option.split)
      next
        case True
        then obtain ll where ll: "string2ll (take (nl - 1) (drop 1 ?buf)) = Some ll" "ll \<le> 1024 * 1024" by blast
        let ?ns = "ns\<lparr>ns_multibulklen := ll\<rparr>" and ?rest = "setState Process (ns\<lparr>ns_queryBuf := drop (nl + 2) ?buf\<rparr>)"
        have e: "processMultibulkBuffer cs sv nc ns =
          (if ll \<le> 0 then processReq cs sv nc ?rest else process_bulks cs sv nc (int nl + 2) ?ns)"
          using \<open>ns_multibulklen ns = 0\<close> Some line ll ok
          by (simp add: processMultibulkBuffer_def Let_def shiftQueryBuf_drop nat_add_distrib)
        show ?thesis
        proof (cases "ll \<le> 0")
          case True
          have "length (ns_queryBuf ?rest) < length ?buf" using nl by (auto simp: setState_def)
          then show ?thesis unfolding e using True turn_request by simp
        next
          case False
          have "parse_ok nc ?ns" using False ll(2) ok \<open>ns_multibulklen ns = 0\<close> assms(2) by (simp add: parse_ok_def)
          then have "turn cs sv nc ?ns (process_bulks cs sv nc (int nl + 2) ?ns)"
            using False line assms(2) by (intro process_bulks_turn) auto
          then show ?thesis unfolding e using False turn_trans [of cs sv nc ?ns _ ns] by simp
        qed
      qed
    qed
  qed
qed

lemma processInlineBuffer_turn:
  assumes "parse_ok nc ns" "ns_reqType ns \<noteq> REDIS_REQ_MULTIBULK"
  shows "turn cs sv nc ns (processInlineBuffer cs sv nc ns)"
proof (cases "strchr (ns_queryBuf ns) 0 10")
  case None
  then show ?thesis using turn_wait [OF assms(1), of cs sv "()"] by (simp add: processInlineBuffer_def Let_def reject_apply)
next
  case (Some nl)
  let ?buf = "ns_queryBuf ns"
  have args: "ns_args ns = []" using assms by (simp add: parse_ok_def)
  let ?ns = "\<lambda>argv. setState Process (set_args (filter (\<lambda>v. v \<noteq> []) argv) (ns\<lparr>ns_queryBuf := drop (nl + 1) ?buf\<rparr>))"
  have e: "processInlineBuffer cs sv nc ns =
    (case splitargs (take (if nl \<noteq> 0 \<and> ?buf ! (nl - 1) = 13 then nl - 1 else nl) ?buf) of
       None \<Rightarrow> reject nc ''Protocol error: unbalanced quotes in request'' ns
     | Some argv \<Rightarrow> processReq cs sv nc (?ns argv))"
  proof (cases "nl \<noteq> 0 \<and> ?buf ! (nl - 1) = 13")
    case True
    then have "nat (int (nl - 1 + 2)) = nl + 1" by auto
    then show ?thesis using Some args True
      by (simp add: processInlineBuffer_def Let_def shiftQueryBuf_drop split: option.split)
  next
    case False
    then show ?thesis using Some args
      by (auto simp: processInlineBuffer_def Let_def shiftQueryBuf_drop nat_add_distrib split: option.split)
  qed
  have "length (ns_queryBuf (?ns argv)) < length ?buf" for argv using strchr_Some [OF Some] by (auto simp: setState_def)
  then show ?thesis unfolding e using turn_request [of "?ns argv" ns for argv] by (auto simp: reject_apply split: option.split)
qed

lemma parse_once_turn:
  assumes "parse_ok nc ns"
  shows "turn cs sv nc ns (parse_once cs sv nc ns)"
proof -
  obtain ns1 where ns1: "ns1 = (if ns_reqType ns = REDIS_REQ_UNKNOWN
       then ns\<lparr>ns_reqType := (if ns_queryBuf ns \<noteq> [] \<and> hd (ns_queryBuf ns) = 42 then REDIS_REQ_MULTIBULK else REDIS_REQ_INLINE)\<rparr>
       else ns)" by blast
  have "parse_ok nc ns1" "ns_reqType ns1 \<noteq> REDIS_REQ_UNKNOWN" "ns_queryBuf ns1 = ns_queryBuf ns"
    using assms by (auto simp: ns1 parse_ok_def)
  moreover have "parse_once cs sv nc ns = (case ns_reqType ns1 of
         REDIS_REQ_MULTIBULK \<Rightarrow> processMultibulkBuffer cs sv nc
       | REDIS_REQ_INLINE \<Rightarrow> processInlineBuffer cs sv nc
       | REDIS_REQ_UNKNOWN \<Rightarrow> sfail Fatal) ns1"
    unfolding parse_once_def by (simp only: sthen_smod sget_apply ns1)
  ultimately show ?thesis
    using turn_trans [OF processMultibulkBuffer_turn [of nc ns1 cs sv], of ns] turn_trans [OF processInlineBuffer_turn [of nc ns1 cs sv], of ns]
    by (cases "ns_reqType ns1") auto
qed

subsection \<open>The loop\<close>

function parse_loop :: "'s Command list \<Rightarrow> 's Server \<Rightarrow> NetConf \<Rightarrow> ('s, unit) net" where
  "parse_loop cs sv nc ns =
    (if ns_state ns = DrainReqBuf
     then case parse_once cs sv nc ns of (Inl e, ns') \<Rightarrow> (Inl e, ns') | (Inr _, ns') \<Rightarrow> parse_loop cs sv nc ns'
     else (ok (), ns))"
  by pat_completeness auto
termination
proof (relation "measures [\<lambda>(cs, sv, nc, ns). if ns_state ns = DrainReqBuf \<and> \<not> parse_ok nc ns then 1 else 0,
    \<lambda>(cs, sv, nc, ns). if ns_state ns = DrainReqBuf then Suc (length (ns_queryBuf ns)) else 0]", goal_cases)
  case (2 cs sv nc ns x ns' u)
  then have p: "parse_once cs sv nc ns = (Inr u, ns')" by simp
  from 2(1) parse_once_end [OF p] parse_once_turn [of nc ns cs sv] fresh_parse_ok [of ns' nc] show ?case
    by (auto simp: p turn_def turn_end_def)
qed simp

end
