(* ===== verification/NetRun.thy ===== *)
theory NetRun
  imports NetFrame "HOL-Library.Sublist"
begin

section \<open>Runs of a connection\<close>

text \<open>
  The events of a connection: \<open>start\<close>, a completed \<open>async_read_some\<close>, one turn of the loop of
  \<open>parseAndProcessReq\<close>, the end of the loop, a completed \<open>async_write\<close>. Reading and parsing alternate;
  the completion of a write may come between any two of their steps, because it runs on the thread of the
  socket while the loop runs on a worker. A turn of the loop touches what the callback touches only in
  \<open>setResponse\<close>, under the mutex.
\<close>

definition parseAndProcessReq :: "'s Command list \<Rightarrow> 's Server \<Rightarrow> NetConf \<Rightarrow> ('s, unit) net" where
  "parseAndProcessReq cs sv nc = sthen (parse_loop cs sv nc) (smod drainRsp)"

definition stepState :: "'s Command list \<Rightarrow> 's Server \<Rightarrow> NetConf \<Rightarrow> ('s, unit) net" where
  "stepState cs sv nc = sget (\<lambda>ns.
     sthen (if ns_state ns = Created
            then if ns_reqType ns \<noteq> REDIS_REQ_UNKNOWN \<or> ns_multibulklen ns \<noteq> 0 \<or> ns_bulkLen ns \<noteq> -1 then sfail Fatal
              else smod (setState DrainReqNet)
            else sret ())
      (sget (\<lambda>ns. case ns_state ns of
         DrainReqNet \<Rightarrow> sret ()
       | DrainReqBuf \<Rightarrow> parseAndProcessReq cs sv nc
       | Process \<Rightarrow> processReq cs sv nc
       | _ \<Rightarrow> sfail Fatal)))"

definition NetSession_new :: "NetConf \<Rightarrow> 's Session \<Rightarrow> 's NetSession" where
  "NetSession_new nc \<sigma> =
     \<lparr>ns_ctx = \<sigma>\<lparr>se_args := [], se_mem := resetMemoryLimit nc
        \<lparr>ml_net = True, ml_hardMemoryLimit = 0, ml_softMemoryLimit = 0, ml_softMemoryLimitSeconds = 0,
         ml_haveExceedHardLimit = False, ml_haveExceedSoftLimit = False, ml_softLimitReachedTime = None,
         ml_commandUsedMemory = 0, ml_sclock = ml_sclock (se_mem \<sigma>)\<rparr>\<rparr>,
      ns_state = Created, ns_queryBuf = [], ns_reqType = REDIS_REQ_UNKNOWN, ns_multibulklen = 0, ns_bulkLen = -1,
      ns_closeAfterRsp = False, ns_closeResponse = False, ns_isEnded = False, ns_first = True,
      ns_isSendRunning = False, ns_callbackCanWrite = False, ns_sendBuffer = [], ns_sendBufferBack = [],
      ns_written = [], ns_sendFailed = False\<rparr>"

datatype phase = Starting | Reading | Parsing | Halted | Crashed

datatype net_event = Start | Recv bytes | RecvError | Parse | ParseEnd | Sent | SendError

definition outcome :: "('s NetSession \<Rightarrow> phase) \<Rightarrow> unit expected \<times> 's NetSession \<Rightarrow> phase \<times> 's NetSession" where
  "outcome f p = (case p of (Inl _, ns) \<Rightarrow> (Crashed, ns) | (Inr _, ns) \<Rightarrow> (f ns, ns))"

inductive net_step ::
  "'s Command list \<Rightarrow> 's Server \<Rightarrow> NetConf \<Rightarrow> net_event \<Rightarrow> phase \<times> 's NetSession \<Rightarrow> phase \<times> 's NetSession \<Rightarrow> bool"
  for cs :: "'s Command list" and sv :: "'s Server" and nc :: NetConf where
  start: "net_step cs sv nc Start (Starting, ns) (outcome (\<lambda>_. Reading) (stepState cs sv nc ns))"
| recv: "data \<noteq> [] \<Longrightarrow> length data \<le> REDIS_IOBUF_LEN \<Longrightarrow>
    net_step cs sv nc (Recv data) (Reading, ns)
      (outcome (\<lambda>ns. if ns_state ns = DrainReqBuf then Parsing else Halted) (drainReqCallback nc False data ns))"
| recv_error: "net_step cs sv nc RecvError (Reading, ns) (outcome (\<lambda>_. Halted) (drainReqCallback nc True [] ns))"
| parse: "ns_state ns = DrainReqBuf \<Longrightarrow> net_step cs sv nc Parse (Parsing, ns) (outcome (\<lambda>_. Parsing) (parse_once cs sv nc ns))"
| parse_end: "ns_state ns \<noteq> DrainReqBuf \<Longrightarrow>
    net_step cs sv nc ParseEnd (Parsing, ns) (if ns_state ns = DrainReqNet then Reading else Halted, drainRsp ns)"
| sent: "ph \<noteq> Crashed \<Longrightarrow> ns_isSendRunning ns \<Longrightarrow> \<not> ns_sendFailed ns \<Longrightarrow>
    net_step cs sv nc Sent (ph, ns) (outcome (\<lambda>_. ph) (drainRspCallback False (length (ns_sendBuffer ns)) ns))"
| send_error: "ph \<noteq> Crashed \<Longrightarrow> ns_isSendRunning ns \<Longrightarrow> \<not> ns_sendFailed ns \<Longrightarrow>
    net_step cs sv nc SendError (ph, ns)
      (outcome (\<lambda>_. ph) (sthen (drainRspCallback True 0) (smod (\<lambda>ns. ns\<lparr>ns_sendFailed := True\<rparr>)) ns))"

inductive_cases net_stepE: "net_step cs sv nc ev (ph, ns) c"

inductive net_run ::
  "'s Command list \<Rightarrow> 's Server \<Rightarrow> NetConf \<Rightarrow> net_event list \<Rightarrow> phase \<times> 's NetSession \<Rightarrow> phase \<times> 's NetSession \<Rightarrow> bool"
  for cs :: "'s Command list" and sv :: "'s Server" and nc :: NetConf where
  finished: "net_run cs sv nc [] c c"
| more: "net_step cs sv nc ev c c' \<Longrightarrow> net_run cs sv nc evs c' c'' \<Longrightarrow> net_run cs sv nc (ev # evs) c c''"

lemma net_run_append: "net_run cs sv nc evs c c' \<Longrightarrow> net_run cs sv nc evs' c' c'' \<Longrightarrow> net_run cs sv nc (evs @ evs') c c''"
  by (induction rule: net_run.induct) (auto intro: net_run.intros)

subsection \<open>What is sent\<close>

text \<open>The bytes for the client: written, being written, waiting.\<close>

definition out :: "'s NetSession \<Rightarrow> bytes" where
  "out ns = ns_written ns @ ns_sendBuffer ns @ ns_sendBufferBack ns"

definition send_ok :: "'s NetSession \<Rightarrow> bool" where
  "send_ok ns \<longleftrightarrow> (if ns_isSendRunning ns then ns_sendBuffer ns \<noteq> [] else ns_sendBufferBack ns = [] \<and> \<not> ns_callbackCanWrite ns)"

definition drained :: "'s NetSession \<Rightarrow> bool" where
  "drained ns \<longleftrightarrow> (if ns_isSendRunning ns then ns_sendBufferBack ns \<noteq> [] \<longrightarrow> ns_callbackCanWrite ns else ns_sendBuffer ns = [])"

definition closed :: "'s NetSession \<Rightarrow> bool" where
  "closed ns \<longleftrightarrow> ns_isEnded ns \<or> ns_closeAfterRsp ns \<and> ns_closeResponse ns"

definition sends :: "'s NetSession \<Rightarrow> 's NetSession \<Rightarrow> bool" where
  "sends ns ns' \<longleftrightarrow> (send_ok ns \<longrightarrow> send_ok ns') \<and> (send_ok ns \<longrightarrow> prefix (out ns) (out ns')) \<and> ns_written ns' = ns_written ns \<and>
     ns_sendFailed ns' = ns_sendFailed ns \<and> (closed ns \<longrightarrow> closed ns' \<and> out ns' = out ns) \<and>
     (ns_closeAfterRsp ns \<longrightarrow> ns_closeAfterRsp ns') \<and> (ns_isEnded ns \<longrightarrow> ns_isEnded ns')"

lemma sends_rt [simp]: "reflp sends" "transp sends"
  by (auto simp: sends_def reflp_def transp_def intro: prefix_order.trans)

lemma sends_refl: "sends ns ns"
  by (simp add: sends_def)

lemma setResponse_cases:
  assumes "setResponse nc s ns = (r, ns')"
  obtains (none) m where "ns' = set_mem m ns"
  | (ended) m where "ns_isEnded ns" "ns' = set_mem m ns\<lparr>ns_closeAfterRsp := True\<rparr>"
  | (queued) m where "\<not> ns_isEnded ns" "s \<noteq> []" "\<not> (ns_closeAfterRsp ns \<and> ns_closeResponse ns)" "r = ok ()"
      "ns' = queue_reply nc s (if ns_closeAfterRsp ns then set_mem m ns\<lparr>ns_closeResponse := True\<rparr> else set_mem m ns)"
proof -
  have [simp]: "ns_isEnded (set_mem m ns) = ns_isEnded ns" "ns_closeAfterRsp (set_mem m ns) = ns_closeAfterRsp ns"
    "ns_closeResponse (set_mem m ns) = ns_closeResponse ns" for m
    by (simp_all add: set_mem_def)
  obtain st m where c: "checkMemLimit ((se_mem (ns_ctx ns))\<lparr>ml_commandUsedMemory :=
      of_nat (length s * 2 + length (ns_sendBuffer ns) + length (ns_sendBufferBack ns))\<rparr>) = (st, m)"
    by (cases "checkMemLimit ((se_mem (ns_ctx ns))\<lparr>ml_commandUsedMemory :=
      of_nat (length s * 2 + length (ns_sendBuffer ns) + length (ns_sendBufferBack ns))\<rparr>)")
  from assms [unfolded setResponse_def Let_def c prod.case] show thesis
    using none [of m] ended [of m] queued [of m] by (simp split: if_split_asm)
qed

lemma enqueue_sent:
  "send_ok ns \<Longrightarrow> out (enqueue s ns) = out ns @ s \<and> send_ok (enqueue s ns)"
  "ns_written (enqueue s ns) = ns_written ns" "ns_sendFailed (enqueue s ns) = ns_sendFailed ns"
  "ns_closeAfterRsp (enqueue s ns) = ns_closeAfterRsp ns" "ns_isEnded (enqueue s ns) = ns_isEnded ns"
  by (auto simp: enqueue_def Let_def drainRspWithoutLock_def NET_SEND_RSP_BATCH_SIZE_def out_def send_ok_def)

lemma set_mem_sends [simp]:
  "out (set_mem m ns) = out ns" "send_ok (set_mem m ns) = send_ok ns" "ns_written (set_mem m ns) = ns_written ns"
  "ns_sendFailed (set_mem m ns) = ns_sendFailed ns" "ns_closeAfterRsp (set_mem m ns) = ns_closeAfterRsp ns"
  "ns_isEnded (set_mem m ns) = ns_isEnded ns" "ns_closeResponse (set_mem m ns) = ns_closeResponse ns"
  by (simp_all add: set_mem_def out_def send_ok_def)

lemma queue_reply_sent:
  "send_ok ns \<Longrightarrow> out (queue_reply nc s ns) = out ns @ s \<and> send_ok (queue_reply nc s ns)"
  "ns_written (queue_reply nc s ns) = ns_written ns" "ns_sendFailed (queue_reply nc s ns) = ns_sendFailed ns"
  "ns_closeAfterRsp (queue_reply nc s ns) = ns_closeAfterRsp ns" "ns_isEnded (queue_reply nc s ns) = ns_isEnded ns"
  by (simp_all add: queue_reply_def Let_def enqueue_sent)

lemma setResponse_sends: "within sends (setResponse nc s)"
  unfolding within_def
proof (intro allI impI)
  fix ns :: "'a NetSession" and r ns' assume "setResponse nc s ns = (r, ns')"
  then show "sends ns ns'"
  proof (cases rule: setResponse_cases)
    case (none m)
    then show ?thesis by (simp add: set_mem_def sends_def closed_def out_def send_ok_def)
  next
    case (ended m)
    then show ?thesis by (simp add: set_mem_def sends_def closed_def out_def send_ok_def)
  next
    case (queued m)
    let ?ns = "if ns_closeAfterRsp ns then set_mem m ns\<lparr>ns_closeResponse := True\<rparr> else set_mem m ns"
    have e: "out ?ns = out ns" "send_ok ?ns = send_ok ns" "ns_written ?ns = ns_written ns" "ns_sendFailed ?ns = ns_sendFailed ns"
      "ns_closeAfterRsp ?ns = ns_closeAfterRsp ns" "ns_isEnded ?ns = ns_isEnded ns"
      by (simp_all add: set_mem_def out_def send_ok_def)
    have "\<not> closed ns" using queued(1,3) by (simp add: closed_def)
    then show ?thesis unfolding sends_def queued(5) queue_reply_sent(2-5) e using queue_reply_sent(1) [of ?ns nc s] e by simp
  qed
qed

lemma upd_sends:
  "sends ns (ns\<lparr>ns_closeAfterRsp := True\<rparr>)" "sends ns (setState st ns)" "sends ns (set_args a ns)"
  "sends ns (setState st (set_args a ns))" "sends ns (setState st (endSession ns))" "sends ns (resetMultiBulkCtx ns)"
  "sends ns (ns\<lparr>ns_bulkLen := l\<rparr>)" "sends ns (ns\<lparr>ns_multibulklen := m\<rparr>)" "sends ns (ns\<lparr>ns_reqType := t\<rparr>)"
  "sends ns (set_args a (ns\<lparr>ns_bulkLen := l, ns_multibulklen := m\<rparr>))" "sends ns (ns\<lparr>ns_ctx := x\<rparr>)"
  "sends ns (ns\<lparr>ns_first := b\<rparr>)" "sends ns (ns\<lparr>ns_queryBuf := q\<rparr>)" "sends ns (endSession ns)"
  by (auto simp: sends_def closed_def out_def send_ok_def setState_def endSession_def resetMultiBulkCtx_def set_args_def)

lemma shift_sends: "sends ns (shiftQueryBuf a b ns)"
  by (auto simp: shiftQueryBuf_def Let_def intro: upd_sends sends_refl)

lemma in_ctx_sends: "within sends (in_ctx m)"
  by (auto simp: within_def in_ctx_def upd_sends split: prod.split_asm)

lemma within_here: "(\<And>s. within R (f s)) \<Longrightarrow> within R (\<lambda>s. f s s)"
  by (simp add: within_def)

lemmas send_intros = frame_intros sends_rt sends_refl setResponse_sends in_ctx_sends upd_sends shift_sends

lemma arg_sends: "within sends (vec_at i)"
  unfolding vec_at_def Let_def by (intro send_intros)

lemma value_of_sends: "within sends (value_of e)"
  unfolding value_of_def by (auto intro!: send_intros split: sum.split fault.split)

lemma replied_sends: "within sends (replied nc s)"
  unfolding replied_def by (intro send_intros)

lemma psync_sends: "within sends (psync_request sv nc)"
  by (auto simp: psync_request_def Let_def intro!: send_intros arg_sends split: sum.split fault.split)

lemma bg_sends: "bg_request sv nc name = Some m \<Longrightarrow> within sends m"
  by (auto simp: bg_request_def intro!: send_intros replied_sends arg_sends value_of_sends psync_sends split: if_split_asm)

lemma processRequest_sends: "within sends (ServerEntry_processRequest cs sv nc)"
  by (auto simp: ServerEntry_processRequest_def run_request_def intro!: send_intros replied_sends
      split: sum.split fault.split option.split if_split_asm) (rule bg_sends)

lemma processReq_sends: "within sends (processReq cs sv nc)"
  by (auto simp: processReq_def intro!: send_intros processRequest_sends)

lemma setRspAndClose_sends: "within sends (setRspAndClose nc s)"
  unfolding setRspAndClose_def by (intro send_intros)

lemma reject_sends: "within sends (reject nc s)"
  unfolding reject_def by (intro send_intros setRspAndClose_sends)

lemma processInlineBuffer_sends: "within sends (processInlineBuffer cs sv nc)"
  by (auto simp: processInlineBuffer_def Let_def intro!: send_intros processReq_sends reject_sends split: option.split)

lemma bulk_header_sends: "within sends (bulk_header nc pos)"
  by (auto simp: bulk_header_def Let_def intro!: send_intros reject_sends setRspAndClose_sends split: option.split)

lemma bulk_loop_sends: "within sends (bulk_loop nc k pos)"
proof (induction k arbitrary: pos)
  case (Suc k)
  show ?case
    unfolding bulk_loop.simps Let_def
    apply (intro within_sbind sends_rt bulk_header_sends)
    subgoal for h
      by (cases h) (simp_all only: bulk_head.case, (intro send_intros Suc.IH)+)
    done
qed (simp add: within_sret)

lemma process_bulks_sends: "within sends (process_bulks cs sv nc pos)"
  by (auto simp: process_bulks_def intro!: send_intros bulk_loop_sends processReq_sends split: option.split)
    (rule within_here, intro send_intros processReq_sends)

lemma processMultibulkBuffer_sends: "within sends (processMultibulkBuffer cs sv nc)"
  by (auto simp: processMultibulkBuffer_def Let_def intro!: send_intros process_bulks_sends processReq_sends reject_sends
      split: option.split)

lemma parse_once_sends: "within sends (parse_once cs sv nc)"
  by (auto simp: parse_once_def intro!: send_intros processMultibulkBuffer_sends processInlineBuffer_sends
      split: RedisReqMode.split)

lemma drainRsp_sends: "sends ns (drainRsp ns)" "send_ok ns \<Longrightarrow> drained (drainRsp ns)"
  by (auto simp: drainRsp_def drainRspWithoutLock_def sends_def closed_def out_def send_ok_def drained_def)

lemma drainReqCallback_sends: "within sends (drainReqCallback nc ec data)"
  by (auto simp: drainReqCallback_def intro!: send_intros setRspAndClose_sends reject_sends drainRsp_sends)

subsection \<open>Every state of a connection\<close>

definition net_inv :: "NetConf \<Rightarrow> phase \<times> 's NetSession \<Rightarrow> bool" where
  "net_inv nc c \<longleftrightarrow> (case c of (ph, ns) \<Rightarrow> send_ok ns \<and>
     (case ph of
        Starting \<Rightarrow> ns_state ns = Created \<and> fresh_parse ns \<and> drained ns
      | Reading \<Rightarrow> ns_state ns = DrainReqNet \<and> parse_ok nc ns \<and> drained ns
      | Parsing \<Rightarrow> ns_state ns = Stop \<or> ns_state ns \<in> {DrainReqNet, DrainReqBuf} \<and> parse_ok nc ns
      | Halted \<Rightarrow> drained ns
      | Crashed \<Rightarrow> True))"

lemma net_inv_new: "net_inv nc (Starting, NetSession_new nc \<sigma>)"
  by (simp add: net_inv_def NetSession_new_def send_ok_def drained_def fresh_parse_def)

lemma send_ok_within: "within sends m \<Longrightarrow> m ns = (r, ns') \<Longrightarrow> send_ok ns \<Longrightarrow> send_ok ns'"
  using withinD [of sends m ns r ns'] by (simp add: sends_def)

lemma step_start:
  assumes "net_inv nc (Starting, ns)"
  shows "stepState cs sv nc ns = (ok (), setState DrainReqNet ns)"
  using assms by (simp add: stepState_def net_inv_def fresh_parse_def setState_def)

lemma drainReqCallback_data:
  "drainReqCallback nc False data ns =
    (if ns_first ns \<and> nc_sessionCount nc > unat (nc_maxClients nc)
     then (ok (), drainRsp (rejected nc (str ''-ERR max number of clients reached'' @ crlf) ns))
     else if ns_state ns \<noteq> DrainReqBuf \<and> ns_state ns \<noteq> DrainReqNet then (Inl Fatal, ns\<lparr>ns_first := False\<rparr>)
     else
       let ns = ns\<lparr>ns_first := False, ns_queryBuf := ns_queryBuf ns @ data\<rparr> in
       if length (ns_queryBuf ns) > REDIS_MAX_QUERYBUF_LEN
       then (ok (), drainRsp (rejected nc (str ''Closing client that reached max query buffer length'') ns))
       else (ok (), setState DrainReqBuf ns))"
  by (auto simp: drainReqCallback_def sbind_def setRspAndClose_apply reject_apply rejected_fields Let_def setState_def rejected_def)

lemma reject_bytes_sends: "within sends (sthen (setRspAndClose nc s) (smod (setState Stop)))"
  by (intro send_intros setRspAndClose_sends)

lemma reject_bytes_apply: "sthen (setRspAndClose nc s) (smod (setState Stop)) ns = (ok (), rejected nc s ns)"
  by (simp add: sbind_def setRspAndClose_apply rejected_def)

lemma step_recv:
  assumes "net_inv nc (Reading, ns)"
  obtains ns' where "drainReqCallback nc False data ns = (ok (), ns')" "send_ok ns'"
    "ns_state ns' = DrainReqBuf \<and> parse_ok nc ns' \<or> ns_state ns' = Stop \<and> drained ns'"
proof -
  have i: "send_ok ns" "ns_state ns = DrainReqNet" "parse_ok nc ns" using assms by (auto simp: net_inv_def)
  let ?ns = "ns\<lparr>ns_first := False, ns_queryBuf := ns_queryBuf ns @ data\<rparr>"
  consider s ns1 where "drainReqCallback nc False data ns = (ok (), drainRsp (rejected nc s ns1))" "send_ok ns1"
    | "drainReqCallback nc False data ns = (ok (), setState DrainReqBuf ?ns)"
    using i by (cases "ns_first ns \<and> nc_sessionCount nc > unat (nc_maxClients nc)";
      cases "length (ns_queryBuf ?ns) > REDIS_MAX_QUERYBUF_LEN") (auto simp: drainReqCallback_data Let_def send_ok_def)
  then show thesis
  proof cases
    case 1
    have r: "send_ok (rejected nc s ns1)"
      using send_ok_within [OF reject_bytes_sends reject_bytes_apply 1(2), of nc s] .
    then have "send_ok (drainRsp (rejected nc s ns1))" using drainRsp_sends(1) [of "rejected nc s ns1"] by (simp add: sends_def)
    moreover have "ns_state (drainRsp (rejected nc s ns1)) = Stop"
      by (simp add: drainRsp_def drainRspWithoutLock_def rejected_fields)
    ultimately show thesis using that 1(1) drainRsp_sends(2) [OF r] by blast
  next
    case 2
    then show thesis using that [of "setState DrainReqBuf ?ns"] i by (simp add: setState_def send_ok_def parse_ok_def)
  qed
qed


definition after_send :: "'s NetSession \<Rightarrow> 's NetSession" where
  "after_send ns = ns\<lparr>ns_written := ns_written ns @ ns_sendBuffer ns, ns_sendBuffer := ns_sendBufferBack ns, ns_sendBufferBack := [],
     ns_isSendRunning := ns_callbackCanWrite ns \<and> ns_sendBufferBack ns \<noteq> [], ns_callbackCanWrite := False,
     ns_isEnded := ns_isEnded ns \<or> ns_closeResponse ns \<and> ns_sendBufferBack ns = []\<rparr>"

lemma drainRspCallback_sent:
  "ns_isSendRunning ns \<Longrightarrow> drainRspCallback False (length (ns_sendBuffer ns)) ns = (ok (), after_send ns)"
  by (cases ns) (auto simp: drainRspCallback_def drainRspWithoutLock_def endSession_def after_send_def)

lemma after_send_simps:
  "ns_isSendRunning (after_send ns) \<longleftrightarrow> ns_callbackCanWrite ns \<and> ns_sendBufferBack ns \<noteq> []"
  "ns_sendBuffer (after_send ns) = ns_sendBufferBack ns" "ns_sendBufferBack (after_send ns) = []"
  "ns_callbackCanWrite (after_send ns) \<longleftrightarrow> False"
  by (simp_all add: after_send_def)

lemma after_send_facts:
  "same_parse ns (after_send ns)" "ns_ctx (after_send ns) = ns_ctx ns" "ns_closeAfterRsp (after_send ns) = ns_closeAfterRsp ns"
  "ns_closeResponse (after_send ns) = ns_closeResponse ns" "ns_sendFailed (after_send ns) = ns_sendFailed ns"
  "out (after_send ns) = out ns" "ns_isEnded ns \<Longrightarrow> ns_isEnded (after_send ns)"
  "\<not> ns_closeResponse ns \<Longrightarrow> ns_isEnded (after_send ns) = ns_isEnded ns"
  by (simp_all add: after_send_def same_parse_def out_def)

lemma after_send_ok:
  "send_ok ns \<Longrightarrow> ns_isSendRunning ns \<Longrightarrow> send_ok (after_send ns)" "ns_isSendRunning ns \<Longrightarrow> drained ns \<Longrightarrow> drained (after_send ns)"
  by (cases "ns_callbackCanWrite ns"; cases "ns_sendBufferBack ns = []"; simp add: send_ok_def drained_def after_send_simps)+

lemma net_inv_cong:
  assumes "net_inv nc (ph, ns)" "same_parse ns ns'" "ns_ctx ns' = ns_ctx ns" "send_ok ns'" "drained ns \<longrightarrow> drained ns'"
  shows "net_inv nc (ph, ns')"
proof -
  have "ns_state ns' = ns_state ns" "fresh_parse ns' = fresh_parse ns" "parse_ok nc ns' = parse_ok nc ns"
    using assms(2,3) by (simp_all add: same_parse_def fresh_parse_def parse_ok_def)
  then show ?thesis using assms(1,4,5) by (cases ph) (auto simp: net_inv_def)
qed

lemma net_inv_step:
  assumes "net_step cs sv nc ev c c'" "net_inv nc c"
  shows "net_inv nc c' \<and> (fst c' = Crashed \<longrightarrow> fst c = Crashed \<or> crashes cs sv nc)"
  using assms
proof (cases rule: net_step.cases)
  case (start ns)
  have i: "fresh_parse ns" "send_ok ns" "drained ns" using assms(2) start by (auto simp: net_inv_def)
  then have "parse_ok nc (setState DrainReqNet ns)" "send_ok (setState DrainReqNet ns)" "drained (setState DrainReqNet ns)"
    using fresh_parse_ok [OF i(1), of nc] by (simp_all add: setState_def parse_ok_def send_ok_def drained_def)
  then show ?thesis using step_start [of nc ns cs sv] assms(2) start by (simp add: outcome_def net_inv_def) (simp add: setState_def)
next
  case (recv data ns)
  then obtain ns' where "drainReqCallback nc False data ns = (ok (), ns')" "send_ok ns'"
    "ns_state ns' = DrainReqBuf \<and> parse_ok nc ns' \<or> ns_state ns' = Stop \<and> drained ns'"
    using step_recv [of nc ns data] assms(2) by blast
  then show ?thesis using recv by (auto simp: outcome_def net_inv_def)
next
  case (recv_error ns)
  then show ?thesis using assms(2)
    by (auto simp: drainReqCallback_def outcome_def net_inv_def endSession_def send_ok_def drained_def)
next
  case (parse ns)
  have i: "send_ok ns" "parse_ok nc ns" using assms(2) parse by (auto simp: net_inv_def)
  obtain r ns' where p: "parse_once cs sv nc ns = (r, ns')" by (cases "parse_once cs sv nc ns")
  have s: "send_ok ns'" using send_ok_within [OF parse_once_sends p i(1)] .
  show ?thesis
  proof (cases r)
    case (Inl e)
    then show ?thesis using parse p s parse_once_turn [OF i(2), of cs sv] by (auto simp: outcome_def net_inv_def turn_def)
  next
    case (Inr u)
    then show ?thesis using parse p s parse_once_turn [OF i(2), of cs sv] parse_once_end [of cs sv nc ns u ns']
      by (auto simp: outcome_def net_inv_def turn_def turn_end_def)
  qed
next
  case (parse_end ns)
  have "send_ok ns" using assms(2) parse_end by (simp add: net_inv_def)
  then have "send_ok (drainRsp ns)" "drained (drainRsp ns)" using drainRsp_sends [of ns] by (simp_all add: sends_def)
  moreover have "ns_state (drainRsp ns) = ns_state ns" "parse_ok nc (drainRsp ns) = parse_ok nc ns"
    by (simp_all add: drainRsp_def drainRspWithoutLock_def parse_ok_def)
  ultimately show ?thesis using assms(2) parse_end by (auto simp: net_inv_def)
next
  case (sent ph ns)
  have "send_ok ns" using assms(2) sent by (simp add: net_inv_def)
  then show ?thesis using sent assms(2) drainRspCallback_sent [OF sent(5)]
      net_inv_cong [of nc ph ns "after_send ns", OF _ after_send_facts(1,2)] after_send_ok [of ns]
    by (simp add: outcome_def)
next
  case (send_error ph ns)
  let ?ns = "endSession ns\<lparr>ns_sendFailed := True\<rparr>"
  have "c' = (ph, ?ns)" using send_error(3) by (simp add: drainRspCallback_def outcome_def sbind_def)
  moreover have "same_parse ns ?ns" "ns_ctx ?ns = ns_ctx ns" "send_ok ?ns = send_ok ns" "drained ?ns = drained ns"
    by (simp_all add: same_parse_def endSession_def send_ok_def drained_def)
  moreover have "send_ok ns" using assms(2) send_error by (simp add: net_inv_def)
  ultimately show ?thesis using send_error assms(2) net_inv_cong [of nc ph ns ?ns] by simp
qed


lemma net_inv_run:
  "net_run cs sv nc evs c c' \<Longrightarrow> net_inv nc c \<Longrightarrow> net_inv nc c' \<and> (fst c' = Crashed \<longrightarrow> fst c = Crashed \<or> crashes cs sv nc)"
  by (induction rule: net_run.induct) (auto dest: net_inv_step)


lemma sends_step:
  assumes "net_step cs sv nc ev c c'" "net_inv nc c"
  shows "prefix (out (snd c)) (out (snd c')) \<and> prefix (ns_written (snd c)) (ns_written (snd c')) \<and>
    (closed (snd c) \<longrightarrow> closed (snd c') \<and> out (snd c') = out (snd c))"
  using assms
proof (cases rule: net_step.cases)
  case (sent ph ns)
  moreover have "prefix (ns_written ns) (ns_written (after_send ns))" by (simp add: after_send_def)
  ultimately show ?thesis using drainRspCallback_sent [of ns] after_send_facts(3,4,6,7) [of ns]
    by (auto simp: outcome_def closed_def)
next
  case (send_error ph ns)
  then show ?thesis by (simp add: drainRspCallback_def outcome_def sbind_def endSession_def out_def closed_def)
next
  case (start ns)
  then show ?thesis using step_start [of nc ns cs sv] assms(2) by (simp add: outcome_def setState_def out_def closed_def)
next
  case (recv data ns)
  moreover have "send_ok ns" using assms(2) recv by (simp add: net_inv_def)
  ultimately show ?thesis using within_snd [OF drainReqCallback_sends, of ns nc False data]
    by (auto simp: outcome_def sends_def split: prod.split sum.split)
next
  case (recv_error ns)
  moreover have "send_ok ns" using assms(2) recv_error by (simp add: net_inv_def)
  ultimately show ?thesis using within_snd [OF drainReqCallback_sends, of ns nc True "[]"]
    by (auto simp: outcome_def sends_def split: prod.split sum.split)
next
  case (parse ns)
  moreover have "send_ok ns" using assms(2) parse by (simp add: net_inv_def)
  ultimately show ?thesis using within_snd [OF parse_once_sends, of ns cs sv nc]
    by (auto simp: outcome_def sends_def split: prod.split sum.split)
next
  case (parse_end ns)
  moreover have "send_ok ns" using assms(2) parse_end by (simp add: net_inv_def)
  ultimately show ?thesis using drainRsp_sends(1) [of ns] by (simp add: sends_def)
qed

lemma sends_run:
  "net_run cs sv nc evs c c' \<Longrightarrow> net_inv nc c \<Longrightarrow> prefix (out (snd c)) (out (snd c')) \<and>
    prefix (ns_written (snd c)) (ns_written (snd c')) \<and> (closed (snd c) \<longrightarrow> closed (snd c') \<and> out (snd c') = out (snd c))"
proof (induction rule: net_run.induct)
  case (more ev c c' evs c'')
  then show ?case using sends_step [OF more(1,4)] net_inv_step [OF more(1,4)] by (auto intro: prefix_order.trans)
qed auto

text \<open>C4: What a connection has queued for its client is never lost, reordered or changed, however writes
  overlap with reading and parsing: the bytes queued in a later state extend those queued before. Unless a turn of the parser is under
  way, bytes wait only while a write runs, so none is left behind. After the reply that closes a connection, or its
  end, nothing is queued any more.\<close>

theorem replies_kept_in_order:
  assumes "net_run cs sv nc evs (Starting, NetSession_new nc \<sigma>) (ph, ns)" "net_run cs sv nc evs' (ph, ns) (ph', ns')"
  shows "prefix (out ns) (out ns') \<and> prefix (ns_written ns) (ns_written ns') \<and>
    (ph \<noteq> Parsing \<and> ph \<noteq> Crashed \<and> \<not> ns_isSendRunning ns \<longrightarrow> ns_written ns = out ns) \<and>
    (ns_isEnded ns \<or> ns_closeAfterRsp ns \<and> ns_closeResponse ns \<longrightarrow> out ns' = out ns)"
proof -
  have i: "net_inv nc (ph, ns)" using net_inv_run [OF assms(1) net_inv_new] by simp
  have "ns_written ns = out ns" if "ph \<noteq> Parsing" "ph \<noteq> Crashed" "\<not> ns_isSendRunning ns"
    using i that by (cases ph) (auto simp: net_inv_def send_ok_def drained_def out_def)
  then show ?thesis using sends_run [OF assms(2) i] by (simp add: closed_def)
qed


subsection \<open>The parser stops\<close>

declare parse_loop.simps [simp del]

lemma parse_turns:
  assumes "net_run cs sv nc (replicate k Parse) (Parsing, ns) c" "ns_state ns = DrainReqBuf \<longrightarrow> parse_ok nc ns"
  shows "k \<le> Suc (length (ns_queryBuf ns))"
  using assms
proof (induction k arbitrary: ns)
  case (Suc k)
  from Suc.prems(1) obtain c1 where 1: "net_step cs sv nc Parse (Parsing, ns) c1" "net_run cs sv nc (replicate k Parse) c1 c"
    by (auto elim: net_run.cases)
  then have s: "ns_state ns = DrainReqBuf" "c1 = outcome (\<lambda>_. Parsing) (parse_once cs sv nc ns)"
    by (auto elim: net_step.cases)
  have stop: "k = 0" if "\<And>c'. \<not> net_step cs sv nc Parse c1 c'"
    using 1(2) that by (cases k) (auto elim: net_run.cases)
  obtain r ns' where p: "parse_once cs sv nc ns = (r, ns')" by (cases "parse_once cs sv nc ns")
  show ?case
  proof (cases "isl r \<or> ns_state ns' \<noteq> DrainReqBuf")
    case True
    have "\<not> net_step cs sv nc Parse c1 c'" for c'
      using True s(2) p by (cases r) (auto simp: outcome_def elim: net_step.cases)
    then show ?thesis using stop by simp
  next
    case False
    then have "c1 = (Parsing, ns')" "parse_ok nc ns'" "length (ns_queryBuf ns') < length (ns_queryBuf ns)"
      using s p parse_once_turn [of nc ns cs sv] Suc.prems(2) by (cases r; auto simp: outcome_def turn_def)+
    then show ?thesis using Suc.IH [of ns'] 1(2) by simp
  qed
qed simp

lemma parse_loop_runs:
  "\<exists>k. net_run cs sv nc (replicate k Parse) (Parsing, ns) (outcome (\<lambda>_. Parsing) (parse_loop cs sv nc ns)) \<and>
    (\<forall>u ns'. parse_loop cs sv nc ns = (Inr u, ns') \<longrightarrow> ns_state ns' \<noteq> DrainReqBuf)"
proof (induction cs sv nc ns rule: parse_loop.induct)
  case (1 cs sv nc ns)
  show ?case
  proof (cases "ns_state ns = DrainReqBuf")
    case False
    then show ?thesis by (intro exI [of _ 0]) (simp add: parse_loop.simps [of cs sv nc ns] outcome_def net_run.finished)
  next
    case True
    obtain r ns' where p: "parse_once cs sv nc ns = (r, ns')" by (cases "parse_once cs sv nc ns")
    note step = net_step.parse [OF True, of cs sv nc, unfolded p]
    show ?thesis
    proof (cases r)
      case (Inl e)
      then show ?thesis using True p net_run.more [OF step net_run.finished]
        by (intro exI [of _ 1]) (simp add: parse_loop.simps [of cs sv nc ns])
    next
      case (Inr u)
      then obtain k where "net_run cs sv nc (replicate k Parse) (Parsing, ns') (outcome (\<lambda>_. Parsing) (parse_loop cs sv nc ns'))"
        "\<forall>u ns''. parse_loop cs sv nc ns' = (Inr u, ns'') \<longrightarrow> ns_state ns'' \<noteq> DrainReqBuf"
        using 1 [OF True p [symmetric]] by blast
      then show ?thesis using True p Inr net_run.more [OF step]
        by (intro exI [of _ "Suc k"]) (simp add: parse_loop.simps [of cs sv nc ns] outcome_def)
    qed
  qed
qed

text \<open>C5: The loop that parses and runs requests ends: from every state in which a connection parses, at most one
  turn more than there are bytes in the buffer is possible, whatever the requests do, and the loop of
  \<open>parseAndProcessReq\<close> is such a sequence of turns, at whose end the parser waits for bytes or has stopped.\<close>

theorem parse_loop_terminates:
  assumes "net_run cs sv nc evs (Starting, NetSession_new nc \<sigma>) (Parsing, ns)"
  shows "(\<forall>k c. net_run cs sv nc (replicate k Parse) (Parsing, ns) c \<longrightarrow> k \<le> Suc (length (ns_queryBuf ns))) \<and>
    (\<exists>k. net_run cs sv nc (replicate k Parse) (Parsing, ns) (outcome (\<lambda>_. Parsing) (parse_loop cs sv nc ns))) \<and>
    (\<forall>u ns'. parse_loop cs sv nc ns = (Inr u, ns') \<longrightarrow> ns_state ns' \<noteq> DrainReqBuf)"
proof -
  have "ns_state ns = DrainReqBuf \<longrightarrow> parse_ok nc ns" using net_inv_run [OF assms net_inv_new] by (auto simp: net_inv_def)
  then show ?thesis using parse_turns [of cs sv nc _ ns] parse_loop_runs [of cs sv nc ns] by blast
qed

end
