(* ===== verification/NetStream.thy ===== *)
theory NetStream
  imports NetRun
begin

section \<open>Requests in a stream of bytes\<close>

text \<open>
  A client writes its requests as multi bulks, one after the other, and the network delivers the bytes in
  pieces of any size. The parser finds the requests again, whatever the pieces are, and the replies leave in
  the order of the requests.
\<close>

definition bulk_head :: "bytes \<Rightarrow> bytes" where
  "bulk_head a = [36] @ dec_of_nat (length a) @ crlf"

definition bulk :: "bytes \<Rightarrow> bytes" where
  "bulk a = bulk_head a @ a @ crlf"

definition req_head :: "bytes list \<Rightarrow> bytes" where
  "req_head args = [42] @ dec_of_nat (length args) @ crlf"

definition resp :: "bytes list \<Rightarrow> bytes" where
  "resp args = req_head args @ concat (map bulk args)"

definition stream :: "bytes list list \<Rightarrow> bytes" where
  "stream reqs = concat (map resp reqs)"

lemma stream_simps [simp]: "stream [] = []" "stream (r # rs) = resp r @ stream rs"
  by (simp_all add: stream_def)

subsection \<open>A line with a number\<close>

lemma length_dec: "n < 10 ^ k \<Longrightarrow> 0 < k \<Longrightarrow> length (dec_of_nat n) \<le> k"
proof (induction n arbitrary: k rule: dec_of_nat.induct)
  case (1 n)
  show ?case
  proof (cases "n < 10")
    case True
    then show ?thesis using 1(3) by (subst dec_of_nat.simps) simp
  next
    case False
    then obtain k' where k: "k = Suc k'" "0 < k'" using 1(2,3) by (cases k; cases "k - 1") auto
    then have "n div 10 < 10 ^ k'" using 1(2) by (simp add: less_mult_imp_div_less)
    then have "length (dec_of_nat (n div 10)) \<le> k'" using 1(1) [OF False] k(2) by simp
    then show ?thesis using False k(1) by (subst dec_of_nat.simps) simp
  qed
qed

lemma dec_no_cr: "b \<in> set (dec_of_nat n) \<Longrightarrow> b \<noteq> 13 \<and> b \<noteq> 0"
  using dec_of_nat_digits [of n] by (auto simp: isdigit_def)

lemma takeWhile_line: "\<forall>b\<in>set xs. P b \<Longrightarrow> \<not> P c \<Longrightarrow> takeWhile P (take m (xs @ c # ys)) = take m xs"
proof (induction xs arbitrary: m)
  case (Cons a xs)
  then show ?case by (cases m) auto
next
  case Nil
  then show ?case by (cases m) auto
qed

text \<open>The line that starts at a position, and what is in the buffer of it.\<close>

lemma strchr_line:
  assumes "drop pos buf @ u = c # dec_of_nat n @ crlf @ t" "pos \<le> length buf" "c \<noteq> 13" "c \<noteq> 0"
  shows "strchr buf pos 13 = (if length buf - pos \<le> Suc (length (dec_of_nat n)) then None else Some (pos + Suc (length (dec_of_nat n))))"
proof -
  let ?xs = "c # dec_of_nat n" and ?m = "length buf - pos"
  have d: "drop pos buf = take ?m (?xs @ 13 # 10 # t)"
    using assms(1) by (simp add: crlf_def) (metis append_eq_conv_conj length_drop)
  have "\<forall>b\<in>set ?xs. b \<noteq> 13 \<and> b \<noteq> 0" using assms(3,4) dec_no_cr by auto
  then have w: "takeWhile (\<lambda>b. b \<noteq> 13 \<and> b \<noteq> 0) (drop pos buf) = take ?m ?xs"
    unfolding d by (intro takeWhile_line) auto
  show ?thesis
  proof (cases "?m \<le> length ?xs")
    case True
    then show ?thesis unfolding strchr_def w Let_def using assms(2) by simp
  next
    case False
    have "buf ! (pos + length ?xs) = drop pos buf ! length ?xs" using False by simp
    also have "\<dots> = 13" unfolding d using False by (simp add: nth_append)
    finally show ?thesis unfolding strchr_def w Let_def using False by simp
  qed
qed

lemma line_number:
  assumes "drop pos buf @ u = c # dec_of_nat n @ crlf @ t" "Suc (length (dec_of_nat n)) < length buf - pos" "n < 2 ^ 62"
  shows "string2ll (take (length (dec_of_nat n)) (drop (Suc pos) buf)) = Some (int n)"
proof -
  have "drop pos buf = take (length buf - pos) (c # dec_of_nat n @ crlf @ t)"
    using assms(1) by (metis append_eq_conv_conj length_drop)
  then have "drop (Suc pos) buf = take (length buf - pos - 1) (dec_of_nat n @ crlf @ t)"
    by (metis drop_Suc drop_tl list.sel(3) tl_take)
  then have "take (length (dec_of_nat n)) (drop (Suc pos) buf) = dec_of_nat n"
    using assms(2) by (simp add: min_def)
  then show ?thesis using string2ll_dec [of "int n"] assms(3) by (simp add: dec_of_int_def)
qed


subsection \<open>Bulks\<close>

lemma length_bulk_head: "length (bulk_head a) = length (dec_of_nat (length a)) + 3" "length (req_head args) = length (dec_of_nat (length args)) + 3"
  by (simp_all add: bulk_head_def req_head_def crlf_def)

lemma dec_short: "n < 2 ^ 62 \<Longrightarrow> length (dec_of_nat n) \<le> 19"
  by (rule length_dec) simp_all

lemma bulk_header_stream:
  assumes "ns_bulkLen ns = -1" "0 \<le> pos" "pos \<le> int (length (ns_queryBuf ns))"
    and "drop (nat pos) (ns_queryBuf ns) @ u = bulk a @ t" "length a \<le> unat (nc_protoMaxBulkLen nc)"
  obtains (short) "bulk_header nc pos ns = (ok Break, ns)" "length (ns_queryBuf ns) - nat pos < length (bulk_head a)"
  | (found) p b where "bulk_header nc pos ns = (ok (Bulk_at p), ns\<lparr>ns_queryBuf := b, ns_bulkLen := int (length a)\<rparr>)"
      "0 \<le> p" "p \<le> int (length b)" "drop (nat p) b @ u = a @ crlf @ t"
proof -
  let ?buf = "ns_queryBuf ns" and ?d = "dec_of_nat (length a)"
  obtain P where P: "pos = int P" "P \<le> length ?buf" using assms(2,3) by (intro that [of "nat pos"]) auto
  have "unat (nc_protoMaxBulkLen nc) < 2 ^ LENGTH(32)" by (rule unsigned_less)
  then have n: "length a < 2 ^ 62" using assms(5) by simp
  have l: "drop P ?buf @ u = 36 # ?d @ crlf @ (a @ crlf @ t)" using assms(4) P(1) by (simp add: bulk_def bulk_head_def)
  note c = strchr_line [OF l P(2)]
  show thesis
  proof (cases "length ?buf - P < length (bulk_head a)")
    case True
    have "bulk_header nc pos ns = (ok Break, ns)"
    proof (cases "length ?buf - P \<le> Suc (length ?d)")
      case le: True
      then have "strchr ?buf P 13 = None" using c by simp
      moreover have "\<not> int (length ?buf) - pos > REDIS_INLINE_MAX_SIZE"
        using le P dec_short [OF n] by (simp add: REDIS_INLINE_MAX_SIZE_def)
      ultimately show ?thesis using assms(1) P(1) by (simp add: bulk_header_def Let_def)
    next
      case False
      then have "strchr ?buf P 13 = Some (P + Suc (length ?d))" using c by simp
      moreover have "int (P + Suc (length ?d)) > int (length ?buf) - 2" using True by (simp add: length_bulk_head)
      ultimately show ?thesis using assms(1) P(1) by (simp add: bulk_header_def Let_def)
    qed
    then show thesis using True short P(1) by simp
  next
    case False
    obtain nl where nl: "nl = P + Suc (length ?d)" by blast
    have f: "nl + 2 \<le> length ?buf" using P(2) False by (simp add: length_bulk_head nl)
    then have f: "nl + 2 \<le> length ?buf" "strchr ?buf P 13 = Some nl" using c by (simp_all add: nl)
    have m: "string2ll (take (nl - (P + 1)) (drop (P + 1) ?buf)) = Some (int (length a))"
      using line_number [OF l _ n] f(1) by (simp add: nl)
    have "?buf ! P = (drop P ?buf @ u) ! 0" using f(1) nl by (simp add: nth_append)
    then have h: "?buf ! P = 36" unfolding l by simp
    have a: "drop (nl + 2) ?buf @ u = a @ crlf @ t"
    proof -
      have "drop (nl + 2) ?buf @ u = drop (Suc (length ?d) + 2) (drop P ?buf @ u)" using f(1) by (simp add: nl add.commute)
      then show ?thesis unfolding l by (simp add: crlf_def)
    qed
    have u: "\<not> int (length a) > uint (nc_protoMaxBulkLen nc)" using zle_int [of "length a" "unat (nc_protoMaxBulkLen nc)"] assms(5) by simp
    have i: "\<not> int nl > int (length ?buf) - 2" using f(1) by simp
    show thesis
    proof (cases "int (length a) \<ge> REDIS_MBULK_BIG_ARG")
      case True
      have "bulk_header nc pos ns = (ok (Bulk_at 0), ns\<lparr>ns_queryBuf := drop (nl + 2) ?buf, ns_bulkLen := int (length a)\<rparr>)"
        using assms(1) f m h u True i by (simp add: bulk_header_def Let_def sbind_def shiftQueryBuf_drop nat_add_distrib P(1))
      then show thesis using found [of 0] a by simp
    next
      case False
      have "bulk_header nc pos ns = (ok (Bulk_at (int nl + 2)), ns\<lparr>ns_queryBuf := ?buf, ns_bulkLen := int (length a)\<rparr>)"
        using assms(1) f m h u False i by (simp add: bulk_header_def Let_def sbind_def P(1))
      then show thesis using found [of "int nl + 2" ?buf] a f(1) by (simp add: nat_add_distrib)
    qed
  qed
qed


text \<open>The bytes of the bulks that are still to come, and how many of them the parser needs to go on.\<close>

definition rest_bulks :: "int \<Rightarrow> bytes list \<Rightarrow> bytes" where
  "rest_bulks l as = (if l = -1 then concat (map bulk as) else hd as @ crlf @ concat (map bulk (tl as)))"

definition unit_len :: "int \<Rightarrow> bytes list \<Rightarrow> nat" where
  "unit_len l as = (if l = -1 then length (bulk_head (hd as)) else nat l + 2)"

definition bulks_left ::
  "NetConf \<Rightarrow> 's NetSession \<Rightarrow> int \<Rightarrow> bytes list \<Rightarrow> bytes \<Rightarrow> bytes \<Rightarrow> bool" where
  "bulks_left nc ns pos as u t \<longleftrightarrow> 0 \<le> pos \<and> pos \<le> int (length (ns_queryBuf ns)) \<and> ns_multibulklen ns = int (length as) \<and>
     (ns_bulkLen ns = -1 \<or> as \<noteq> [] \<and> ns_bulkLen ns = int (length (hd as))) \<and>
     drop (nat pos) (ns_queryBuf ns) @ u = rest_bulks (ns_bulkLen ns) as @ t \<and>
     (\<forall>a\<in>set as. length a \<le> unat (nc_protoMaxBulkLen nc))"

definition bulks_read :: "'s NetSession \<Rightarrow> bytes list \<Rightarrow> bytes list \<Rightarrow> 's NetSession \<Rightarrow> bool" where
  "bulks_read ns as as' ns' \<longleftrightarrow> (\<exists>ds b l. as = ds @ as' \<and>
     ns' = set_args (ns_args ns @ ds) (ns\<lparr>ns_queryBuf := b, ns_multibulklen := int (length as'), ns_bulkLen := l\<rparr>))"

lemma bulks_read_trans: "bulks_read ns as bs ns1 \<Longrightarrow> bulks_read ns1 bs cs ns2 \<Longrightarrow> bulks_read ns as cs ns2"
  by (auto simp: bulks_read_def set_args_def) blast

lemma bulks_read_refl: "ns_multibulklen ns = int (length as) \<Longrightarrow> bulks_read ns as as ns"
  unfolding bulks_read_def
  by (rule exI [of _ "[]"], rule exI [of _ "ns_queryBuf ns"], rule exI [of _ "ns_bulkLen ns"]) (simp add: set_args_def)

lemma take_bulk_stream:
  assumes "bulks_left nc ns pos (a # as) u t" "ns_bulkLen ns \<noteq> -1" "length a + 2 \<le> length (ns_queryBuf ns) - nat pos"
  shows "bulks_left nc (take_bulk pos ns) (pos + ns_bulkLen ns + 2) as u t" "bulks_read ns (a # as) as (take_bulk pos ns)"
proof -
  have b: "ns_bulkLen ns = int (length a)" "0 \<le> pos" "drop (nat pos) (ns_queryBuf ns) @ u = a @ crlf @ concat (map bulk as) @ t"
    using assms(1,2) by (auto simp: bulks_left_def rest_bulks_def)
  let ?d = "drop (nat pos) (ns_queryBuf ns)"
  have a: "take (length a) ?d = take (length a) (?d @ u)" "drop (length a + 2) ?d @ u = drop (length a + 2) (?d @ u)"
    using assms(3) by simp_all
  have t: "take_bulk pos ns = set_args (ns_args ns @ [a]) (ns\<lparr>ns_queryBuf := ns_queryBuf ns, ns_multibulklen := int (length as), ns_bulkLen := -1\<rparr>)"
    using a(1) assms(1) unfolding take_bulk_def b(1) by (simp add: b(3) bulks_left_def set_args_def)
  have "nat (pos + int (length a) + 2) = length a + 2 + nat pos" using b(2) by simp
  then have "drop (nat (pos + int (length a) + 2)) (ns_queryBuf ns) = drop (length a + 2) ?d" by (simp add: add.commute)
  then have d: "drop (nat (pos + int (length a) + 2)) (ns_queryBuf ns) @ u = concat (map bulk as) @ t"
    unfolding a(2)[folded b(3)] using a(2) unfolding b(3) by (simp add: crlf_def)
  show "bulks_left nc (take_bulk pos ns) (pos + ns_bulkLen ns + 2) as u t"
    using assms b d unfolding bulks_left_def t by (auto simp: rest_bulks_def)
  show "bulks_read ns (a # as) as (take_bulk pos ns)"
    unfolding bulks_read_def by (rule exI [of _ "[a]"], rule exI [of _ "ns_queryBuf ns"], rule exI [of _ "-1"]) (simp add: t)
qed

lemma bulk_loop_stream:
  assumes "bulks_left nc ns pos as u t"
  shows "\<exists>p ns' as'. bulk_loop nc (length as) pos ns = (ok (Some p), ns') \<and> bulks_left nc ns' p as' u t \<and> bulks_read ns as as' ns' \<and>
    (as' \<noteq> [] \<longrightarrow> length (ns_queryBuf ns') - nat p < unit_len (ns_bulkLen ns') as')"
  using assms
proof (induction as arbitrary: ns pos)
  case Nil
  then have "bulks_read ns [] [] ns" by (intro bulks_read_refl) (simp add: bulks_left_def)
  then show ?case using Nil by auto
next
  case (Cons a as)
  let ?res = "\<lambda>r ns. \<exists>p ns' as'. r = (ok (Some p), ns') \<and> bulks_left nc ns' p as' u t \<and> bulks_read ns (a # as) as' ns' \<and>
    (as' \<noteq> [] \<longrightarrow> length (ns_queryBuf ns') - nat p < unit_len (ns_bulkLen ns') as')"
  have at: "?res (if int (length (ns_queryBuf ns1)) - p < ns_bulkLen ns1 + 2 then (ok (Some p), ns1)
      else bulk_loop nc (length as) (p + ns_bulkLen ns1 + 2) (take_bulk p ns1)) ns1"
    if l: "bulks_left nc ns1 p (a # as) u t" "ns_bulkLen ns1 \<noteq> -1" for p and ns1 :: "'a NetSession"
  proof (cases "int (length (ns_queryBuf ns1)) - p < ns_bulkLen ns1 + 2")
    case True
    have "length (ns_queryBuf ns1) - nat p < unit_len (ns_bulkLen ns1) (a # as)"
      using True l by (auto simp: unit_len_def bulks_left_def)
    moreover have "bulks_read ns1 (a # as) (a # as) ns1" using l(1) by (intro bulks_read_refl) (simp add: bulks_left_def)
    ultimately show ?thesis
      by (intro exI [of _ p] exI [of _ ns1] exI [of _ "a # as"]) (simp add: True l(1))
  next
    case False
    have "length a + 2 \<le> length (ns_queryBuf ns1) - nat p" using False l by (auto simp: bulks_left_def)
    note tb = take_bulk_stream [OF l this]
    from Cons.IH [OF tb(1)] obtain q ns' as' where
      q: "bulk_loop nc (length as) (p + ns_bulkLen ns1 + 2) (take_bulk p ns1) = (ok (Some q), ns')" "bulks_left nc ns' q as' u t"
      "bulks_read (take_bulk p ns1) as as' ns'" "as' \<noteq> [] \<longrightarrow> length (ns_queryBuf ns') - nat q < unit_len (ns_bulkLen ns') as'"
      by blast
    then show ?thesis using bulks_read_trans [OF tb(2) q(3)] False
      by (intro exI [of _ q] exI [of _ ns'] exI [of _ as']) simp
  qed
  show ?case
  proof (cases "ns_bulkLen ns = -1")
    case False
    then have "bulk_header nc pos ns = (ok (Bulk_at pos), ns)" by (simp add: bulk_header_def Let_def)
    then have "bulk_loop nc (length (a # as)) pos ns = (if int (length (ns_queryBuf ns)) - pos < ns_bulkLen ns + 2 then (ok (Some pos), ns)
      else bulk_loop nc (length as) (pos + ns_bulkLen ns + 2) (take_bulk pos ns))"
      by (simp only: list.size add_Suc_right add_0_right bulk_loop_Suc sbind_def prod.case sum.case bulk_head.case)
    then show ?thesis using at [OF Cons.prems False] by (simp only:)
  next
    case True
    have l: "0 \<le> pos" "pos \<le> int (length (ns_queryBuf ns))" "ns_multibulklen ns = int (Suc (length as))"
      "drop (nat pos) (ns_queryBuf ns) @ u = bulk a @ (concat (map bulk as) @ t)" "\<forall>x\<in>set (a # as). length x \<le> unat (nc_protoMaxBulkLen nc)"
      using Cons.prems True by (auto simp: bulks_left_def rest_bulks_def)
    from l(5) have "length a \<le> unat (nc_protoMaxBulkLen nc)" by simp
    with True l(1,2,4) show ?thesis
    proof (cases rule: bulk_header_stream)
      case short
      then have "bulk_loop nc (length (a # as)) pos ns = (ok (Some pos), ns)"
        by (simp only: list.size add_Suc_right add_0_right bulk_loop_Suc sbind_def prod.case sum.case bulk_head.case sret_apply)
      then show ?thesis using Cons.prems bulks_read_refl [of ns "a # as"] l(3) short(2) True
        by (auto simp: unit_len_def)
    next
      case (found p b)
      let ?ns = "ns\<lparr>ns_queryBuf := b, ns_bulkLen := int (length a)\<rparr>"
      have n: "bulks_left nc ?ns p (a # as) u t" using found l(3,5) by (auto simp: bulks_left_def rest_bulks_def)
      have r: "bulks_read ns (a # as) (a # as) ?ns"
        unfolding bulks_read_def
        by (rule exI [of _ "[]"], rule exI [of _ b], rule exI [of _ "int (length a)"]) (use l(3) in \<open>simp add: set_args_def\<close>)
      have e: "bulk_loop nc (length (a # as)) pos ns = (if int (length (ns_queryBuf ?ns)) - p < ns_bulkLen ?ns + 2 then (ok (Some p), ?ns)
        else bulk_loop nc (length as) (p + ns_bulkLen ?ns + 2) (take_bulk p ?ns))"
        by (simp only: list.size add_Suc_right add_0_right bulk_loop_Suc sbind_def found(1) prod.case sum.case bulk_head.case)
      have g: "ns_bulkLen ?ns \<noteq> -1" by simp
      have "?res (bulk_loop nc (length (a # as)) pos ns) ?ns" unfolding e by (rule at [OF n g])
      then show ?thesis using bulks_read_trans [OF r] by blast
    qed
  qed
qed


lemma process_bulks_stream:
  assumes "bulks_left nc ns pos as u t" "as \<noteq> []"
  obtains (wait) as' ns' where "process_bulks cs sv nc pos ns = (ok (), setState DrainReqNet ns')" "bulks_read ns as as' ns'"
      "as' \<noteq> []" "bulks_left nc ns' 0 as' u t" "length (ns_queryBuf ns') < unit_len (ns_bulkLen ns') as'"
  | (request) b where "process_bulks cs sv nc pos ns =
      processReq cs sv nc (setState Process (set_args (ns_args ns @ as) (ns\<lparr>ns_queryBuf := b, ns_multibulklen := 0, ns_bulkLen := -1\<rparr>)))"
      "b @ u = t"
proof -
  obtain p ns1 as' where 1: "bulk_loop nc (length as) pos ns = (ok (Some p), ns1)" "bulks_left nc ns1 p as' u t"
    "bulks_read ns as as' ns1" "as' \<noteq> [] \<longrightarrow> length (ns_queryBuf ns1) - nat p < unit_len (ns_bulkLen ns1) as'"
    using bulk_loop_stream [OF assms(1)] by blast
  obtain ns2 where ns2: "ns2 = ns1\<lparr>ns_queryBuf := drop (nat p) (ns_queryBuf ns1)\<rparr>" by blast
  have k: "nat (ns_multibulklen ns) = length as" "ns_multibulklen ns > 0" "ns_multibulklen ns1 = int (length as')" "0 \<le> p"
    using assms 1(2) by (auto simp: bulks_left_def)
  have "(if p \<noteq> 0 then shiftQueryBuf p (-1) ns1 else ns1) = ns2" using k(4) by (simp add: shiftQueryBuf_drop ns2)
  then have e: "process_bulks cs sv nc pos ns =
    (if as' = [] then processReq cs sv nc (setState Process ns2) else (ok (), setState DrainReqNet ns2))"
    unfolding process_bulks_apply k(1) 1(1) prod.case sum.case option.case Let_def using k(2,3) by (simp add: ns2)
  have l: "bulks_left nc ns2 0 as' u t" using 1(2) by (auto simp: bulks_left_def ns2)
  obtain ds b l where r: "as = ds @ as'"
    "ns1 = set_args (ns_args ns @ ds) (ns\<lparr>ns_queryBuf := b, ns_multibulklen := int (length as'), ns_bulkLen := l\<rparr>)"
    using 1(3) by (auto simp: bulks_read_def)
  show thesis
  proof (cases "as' = []")
    case True
    have "l = -1" using l True r(2) by (simp add: bulks_left_def ns2)
    then have "ns2 = set_args (ns_args ns @ as) (ns\<lparr>ns_queryBuf := ns_queryBuf ns2, ns_multibulklen := 0, ns_bulkLen := -1\<rparr>)"
      using True r by (simp add: ns2 set_args_def)
    then have "process_bulks cs sv nc pos ns =
      processReq cs sv nc (setState Process (set_args (ns_args ns @ as) (ns\<lparr>ns_queryBuf := ns_queryBuf ns2, ns_multibulklen := 0, ns_bulkLen := -1\<rparr>)))"
      using e True by simp
    moreover have "ns_queryBuf ns2 @ u = t" using l True \<open>l = -1\<close> r(2) by (simp add: bulks_left_def ns2 rest_bulks_def)
    ultimately show thesis using request by blast
  next
    case False
    have "bulks_read ns as as' ns2"
      unfolding bulks_read_def
      by (rule exI [of _ ds], rule exI [of _ "drop (nat p) b"], rule exI [of _ l]) (simp add: r ns2 set_args_def)
    moreover have "length (ns_queryBuf ns2) < unit_len (ns_bulkLen ns2) as'" using 1(4) False by (simp add: ns2)
    ultimately show thesis using wait [of ns2 as'] e False l by simp
  qed
qed

subsection \<open>A turn of the parser\<close>

definition fits :: "NetConf \<Rightarrow> bytes list \<Rightarrow> bool" where
  "fits nc args \<longleftrightarrow> args \<noteq> [] \<and> length args \<le> 1024 * 1024 \<and> (\<forall>a\<in>set args. length a \<le> unat (nc_protoMaxBulkLen nc))"

text \<open>Where the parser stands: \<open>u\<close> are the bytes that have not arrived, \<open>todo\<close> the requests not yet run.\<close>

definition at_stream :: "NetConf \<Rightarrow> 's NetSession \<Rightarrow> bytes \<Rightarrow> bytes list list \<Rightarrow> bool" where
  "at_stream nc ns u todo \<longleftrightarrow>
     ns_multibulklen ns = 0 \<and> ns_bulkLen ns = -1 \<and> ns_args ns = [] \<and> ns_reqType ns \<noteq> REDIS_REQ_INLINE \<and>
       ns_queryBuf ns @ u = stream todo \<or>
     (\<exists>as rest. todo = (ns_args ns @ as) # rest \<and> as \<noteq> [] \<and> ns_reqType ns = REDIS_REQ_MULTIBULK \<and>
       bulks_left nc ns 0 as u (stream rest))"

definition stalled :: "'s NetSession \<Rightarrow> bytes list list \<Rightarrow> bool" where
  "stalled ns todo \<longleftrightarrow> todo = [] \<or>
     (if ns_multibulklen ns = 0 then length (ns_queryBuf ns) < length (req_head (hd todo))
      else length (ns_queryBuf ns) < unit_len (ns_bulkLen ns) (drop (length (ns_args ns)) (hd todo)))"

definition parser_moved :: "'s NetSession \<Rightarrow> 's NetSession \<Rightarrow> bool" where
  "parser_moved ns ns' \<longleftrightarrow> (\<exists>a b m l. ns' = setState DrainReqNet (set_args a
     (ns\<lparr>ns_queryBuf := b, ns_reqType := REDIS_REQ_MULTIBULK, ns_multibulklen := m, ns_bulkLen := l\<rparr>)))"

lemma parse_once_multibulk:
  assumes "ns_reqType ns \<noteq> REDIS_REQ_INLINE" "ns_reqType ns = REDIS_REQ_UNKNOWN \<longrightarrow> ns_queryBuf ns \<noteq> [] \<and> hd (ns_queryBuf ns) = 42"
  shows "parse_once cs sv nc ns = processMultibulkBuffer cs sv nc (ns\<lparr>ns_reqType := REDIS_REQ_MULTIBULK\<rparr>)"
proof (cases "ns_reqType ns")
  case REDIS_REQ_MULTIBULK
  then have e: "ns\<lparr>ns_reqType := REDIS_REQ_MULTIBULK\<rparr> = ns" by (cases ns) simp
  show ?thesis unfolding e using REDIS_REQ_MULTIBULK by (simp add: parse_once_def)
qed (use assms in \<open>simp_all add: parse_once_def\<close>)

lemma stream_state [simp]: "at_stream nc (setState s ns) = at_stream nc ns" "stalled (setState s ns) = stalled ns"
  by (simp_all add: fun_eq_iff at_stream_def stalled_def bulks_left_def setState_def)

text \<open>The bulks of the request the parser is in.\<close>

lemma in_request_stream:
  assumes ns1: "ns1 = ns\<lparr>ns_reqType := REDIS_REQ_MULTIBULK, ns_multibulklen := m\<rparr>"
    and "bulks_left nc ns1 pos as u (stream rest)" "as \<noteq> []"
  obtains (wait) ns' where "process_bulks cs sv nc pos ns1 = (ok (), ns')" "parser_moved ns ns'"
      "at_stream nc ns' u ((ns_args ns @ as) # rest)" "stalled ns' ((ns_args ns @ as) # rest)"
  | (request) b where "b @ u = stream rest" "process_bulks cs sv nc pos ns1 =
      processReq cs sv nc (setState Process (set_args (ns_args ns @ as)
        (ns\<lparr>ns_queryBuf := b, ns_reqType := REDIS_REQ_MULTIBULK, ns_multibulklen := 0, ns_bulkLen := -1\<rparr>)))"
  using assms(2,3)
proof (cases rule: process_bulks_stream [where cs = cs and sv = sv])
  case (wait as' ns')
  obtain ds b l where r: "as = ds @ as'"
    "ns' = set_args (ns_args ns @ ds) (ns1\<lparr>ns_queryBuf := b, ns_multibulklen := int (length as'), ns_bulkLen := l\<rparr>)"
    using wait(2) by (auto simp: bulks_read_def ns1)
  have "parser_moved ns (setState DrainReqNet ns')"
    unfolding parser_moved_def
    by (rule exI [of _ "ns_args ns @ ds"], rule exI [of _ b], rule exI [of _ "int (length as')"], rule exI [of _ l])
      (simp add: r ns1 set_args_def setState_def)
  moreover have "at_stream nc ns' u ((ns_args ns @ as) # rest)"
    using wait(3,4) r by (auto simp: at_stream_def ns1)
  moreover have "stalled ns' ((ns_args ns @ as) # rest)"
    using wait(3,5) r by (simp add: stalled_def ns1)
  ultimately show thesis using wait(1) that(1) by simp
next
  case (request b)
  have "set_args (ns_args ns1 @ as) (ns1\<lparr>ns_queryBuf := b, ns_multibulklen := 0, ns_bulkLen := -1\<rparr>) = set_args (ns_args ns @ as)
        (ns\<lparr>ns_queryBuf := b, ns_reqType := REDIS_REQ_MULTIBULK, ns_multibulklen := 0, ns_bulkLen := -1\<rparr>)"
    by (simp add: ns1 set_args_def)
  then show thesis using request that(2) [of b] by simp
qed

lemma parse_once_stream:
  assumes "at_stream nc ns u todo" "list_all (fits nc) todo" "ns_queryBuf ns \<noteq> []"
  obtains (wait) ns' where "parse_once cs sv nc ns = (ok (), ns')" "parser_moved ns ns'" "at_stream nc ns' u todo" "stalled ns' todo"
  | (request) args rest b where "todo = args # rest" "b @ u = stream rest" "parse_once cs sv nc ns =
      processReq cs sv nc (setState Process (set_args args
        (ns\<lparr>ns_queryBuf := b, ns_reqType := REDIS_REQ_MULTIBULK, ns_multibulklen := 0, ns_bulkLen := -1\<rparr>)))"
proof (cases "ns_multibulklen ns = 0")
  case False
  then obtain as rest where m: "todo = (ns_args ns @ as) # rest" "as \<noteq> []" "ns_reqType ns = REDIS_REQ_MULTIBULK"
    "bulks_left nc ns 0 as u (stream rest)"
    using assms(1) by (auto simp: at_stream_def)
  let ?ns = "ns\<lparr>ns_reqType := REDIS_REQ_MULTIBULK, ns_multibulklen := ns_multibulklen ns\<rparr>"
  have e: "ns\<lparr>ns_reqType := REDIS_REQ_MULTIBULK\<rparr> = ?ns" "?ns = ns" using m(3) by simp_all
  have p: "parse_once cs sv nc ns = process_bulks cs sv nc 0 ?ns"
    using parse_once_multibulk [of ns cs sv nc] m(3) False e by (simp add: processMultibulkBuffer_def)
  have "bulks_left nc ?ns 0 as u (stream rest)" using m(4) e(2) by simp
  from refl this m(2) show thesis
    by (cases rule: in_request_stream [where cs = cs and sv = sv]) (use p m(1) wait request in simp_all)
next
  case True
  then have s: "ns_bulkLen ns = -1" "ns_args ns = []" "ns_reqType ns \<noteq> REDIS_REQ_INLINE" "ns_queryBuf ns @ u = stream todo"
    using assms(1) by (auto simp: at_stream_def bulks_left_def)
  obtain r rest where todo: "todo = r # rest" using s(4) assms(3) by (cases todo) auto
  have r: "r \<noteq> []" "length r \<le> 1024 * 1024" "\<forall>a\<in>set r. length a \<le> unat (nc_protoMaxBulkLen nc)"
    using assms(2) by (auto simp: todo fits_def)
  let ?buf = "ns_queryBuf ns" and ?d = "dec_of_nat (length r)" and ?ns = "ns\<lparr>ns_reqType := REDIS_REQ_MULTIBULK\<rparr>"
  have l: "drop 0 ?buf @ u = 42 # ?d @ crlf @ (concat (map bulk r) @ stream rest)"
    using s(4) by (simp add: todo resp_def req_head_def)
  have n: "length r < 2 ^ 62" using r(2) by simp
  have h: "hd ?buf = 42" "?buf ! 0 = 42" using l assms(3) by (cases ?buf; simp)+
  have p: "parse_once cs sv nc ns = processMultibulkBuffer cs sv nc ?ns"
    using parse_once_multibulk [OF s(3)] assms(3) h(1) by simp
  note c = strchr_line [OF l, simplified]
  show thesis
  proof (cases "length ?buf < length (req_head r)")
    case short: True
    have "parse_once cs sv nc ns = (ok (), setState DrainReqNet ?ns)"
    proof (cases "length ?buf \<le> Suc (length ?d)")
      case le: True
      then show ?thesis unfolding p using True c dec_short [OF n]
        by (simp add: processMultibulkBuffer_def Let_def REDIS_INLINE_MAX_SIZE_def)
    next
      case False
      then show ?thesis unfolding p using True c short
        by (simp add: processMultibulkBuffer_def Let_def length_bulk_head)
    qed
    moreover have "parser_moved ns (setState DrainReqNet ?ns)"
      unfolding parser_moved_def
      by (rule exI [of _ "ns_args ns"], rule exI [of _ ?buf], rule exI [of _ "ns_multibulklen ns"], rule exI [of _ "ns_bulkLen ns"])
        (simp add: set_args_def setState_def)
    moreover have "at_stream nc ?ns u todo" "stalled ?ns todo" using s True short by (simp_all add: at_stream_def stalled_def todo)
    ultimately show thesis using wait by simp
  next
    case False
    obtain nl where nl: "nl = Suc (length ?d)" by blast
    have f: "nl + 2 \<le> length ?buf" using False by (simp add: length_bulk_head nl)
    have g: "strchr ?buf 0 13 = Some nl" "\<not> int nl > int (length ?buf) - 2" using c f by (simp_all add: nl)
    have m: "string2ll (take (nl - 1) (drop 1 ?buf)) = Some (int (length r))"
      using line_number [OF l _ n] f by (simp add: nl)
    let ?ns1 = "ns\<lparr>ns_reqType := REDIS_REQ_MULTIBULK, ns_multibulklen := int (length r)\<rparr>"
    have q: "parse_once cs sv nc ns = process_bulks cs sv nc (int nl + 2) ?ns1"
      unfolding p using True g m h(2) r(1,2) by (simp add: processMultibulkBuffer_def Let_def)
    have "drop (nl + 2) ?buf @ u = drop (nl + 2) (drop 0 ?buf @ u)" using f by simp
    then have "drop (nl + 2) ?buf @ u = concat (map bulk r) @ stream rest" unfolding l by (simp add: nl crlf_def)
    then have "bulks_left nc ?ns1 (int nl + 2) r u (stream rest)"
      using s(1) r(3) f by (simp add: bulks_left_def rest_bulks_def nat_add_distrib)
    from refl this r(1) show thesis
      by (cases rule: in_request_stream [where cs = cs and sv = sv]) (use q todo s(2) wait request in simp_all)
  qed
qed


subsection \<open>A request and its reply\<close>

text \<open>
  The requests of a client one after the other, as the session sees them: each finds the state that the
  one before has left, with the memory counters reset, and none of them meets a limit on its memory.
\<close>

definition next_request :: "NetConf \<Rightarrow> 's Session \<Rightarrow> 's Session" where
  "next_request nc \<sigma> = \<sigma>\<lparr>se_args := [], se_mem := resetMemoryLimit nc (se_mem \<sigma>)\<rparr>"

primrec answers ::
  "'s Command list \<Rightarrow> 's Server \<Rightarrow> NetConf \<Rightarrow> bytes list list \<Rightarrow> 's Session \<Rightarrow> bytes list \<Rightarrow> 's Session \<Rightarrow> bool" where
  "answers cs sv nc [] \<sigma> replies \<sigma>' \<longleftrightarrow> replies = [] \<and> \<sigma>' = \<sigma>"
| "answers cs sv nc (args # rest) \<sigma> replies \<sigma>' \<longleftrightarrow> (\<exists>r rs \<sigma>1. replies = r # rs \<and> r \<noteq> [] \<and>
     processRequest cs sv (\<sigma>\<lparr>se_args := args\<rparr>) = (ok r, \<sigma>1) \<and>
     ml_hardMemoryLimit (se_mem \<sigma>1) = 0 \<and> ml_softMemoryLimit (se_mem \<sigma>1) = 0 \<and>
     answers cs sv nc rest (next_request nc \<sigma>1) rs \<sigma>')"

definition plain_commands :: "'s Command list \<Rightarrow> bool" where
  "plain_commands cs \<longleftrightarrow> (\<forall>c\<in>set cs. \<not> co_isBgCmd c)"

definition open_session :: "'s NetSession \<Rightarrow> bool" where
  "open_session ns \<longleftrightarrow> \<not> ns_isEnded ns \<and> \<not> ns_closeAfterRsp ns \<and> \<not> ns_closeResponse ns \<and> \<not> ns_sendFailed ns"

lemma find_command_mem: "find_command cs name = Some c \<Longrightarrow> c \<in> set cs"
  using nth_mem [of _ "rev cs"] by (auto simp: find_command_def find_Some_iff)

lemma precheck_Inr: "precheck cs sv \<sigma> = (Inr c, \<sigma>') \<Longrightarrow> c \<in> set cs"
  by (auto simp: precheck_def Let_def elim!: sbind_eqE split: if_split_asm option.split_asm dest: find_command_mem)

lemma setResponse_plain:
  assumes "ml_hardMemoryLimit (se_mem (ns_ctx ns)) = 0" "ml_softMemoryLimit (se_mem (ns_ctx ns)) = 0" "open_session ns" "s \<noteq> []"
  shows "setResponse nc s ns = (ok (), enqueue s (set_mem (resetMemoryLimit nc (se_mem (ns_ctx ns))) ns))"
proof -
  let ?m = "(se_mem (ns_ctx ns))\<lparr>ml_commandUsedMemory := of_nat (length s * 2 + length (ns_sendBuffer ns) + length (ns_sendBufferBack ns))\<rparr>"
  have c: "checkMemLimit ?m = (ok (), ?m)" using assms(1,2) by (simp add: checkMemLimit_def)
  have q: "queue_reply nc s (set_mem ?m ns) = enqueue s (set_mem (resetMemoryLimit nc (se_mem (ns_ctx ns))) ns)"
    by (simp add: queue_reply_def enqueue_def drainRspWithoutLock_def set_mem_def resetMemoryLimit_def Let_def)
  show ?thesis
    using assms(3,4) unfolding setResponse_def c Let_def prod.case q [symmetric] by (simp add: open_session_def)
qed

lemma processRequest_net:
  assumes "processRequest cs sv (ns_ctx ns) = (ok r, \<sigma>1)" "plain_commands cs" "nc_isRunning nc"
  shows "ServerEntry_processRequest cs sv nc ns = replied nc r (ns\<lparr>ns_ctx := \<sigma>1\<rparr>)"
  using assms(1) unfolding processRequest_def
proof (cases rule: stry_eqE)
  case (error c msg \<sigma>')
  then show ?thesis using assms(3)
    by (simp add: ServerEntry_processRequest_def stry_def in_ctx_def)
next
  case (cont c \<sigma>')
  have "\<not> co_isBgCmd c" using precheck_Inr [OF cont(1)] assms(2) by (simp add: plain_commands_def)
  then have e: "ServerEntry_processRequest cs sv nc ns = run_request cs sv nc (ns\<lparr>ns_ctx := \<sigma>'\<rparr>)"
    using cont(1) assms(3) by (simp add: ServerEntry_processRequest_def stry_def in_ctx_def)
  from cont(2) [unfolded sum.case] show ?thesis
  proof (cases rule: stry_eqE)
    case (error c msg \<sigma>2)
    then show ?thesis unfolding e by (simp add: run_request_def stry_def in_ctx_def)
  next
    case (cont v \<sigma>2)
    then show ?thesis unfolding e by (simp add: run_request_def stry_def in_ctx_def)
  qed simp
qed simp

lemma request_reply:
  assumes "processRequest cs sv (ns_ctx ns) = (ok r, \<sigma>1)" "plain_commands cs" "nc_isRunning nc" "open_session ns" "r \<noteq> []"
    "ml_hardMemoryLimit (se_mem \<sigma>1) = 0" "ml_softMemoryLimit (se_mem \<sigma>1) = 0" "ns_args ns \<noteq> []"
  shows "processReq cs sv nc ns = (ok (),
    let ns' = resetMultiBulkCtx (enqueue r (ns\<lparr>ns_ctx := \<sigma>1\<lparr>se_mem := resetMemoryLimit nc (se_mem \<sigma>1)\<rparr>\<rparr>)) in
    setState (if ns_queryBuf ns = [] then DrainReqNet else DrainReqBuf) ns')"
proof -
  let ?ns = "ns\<lparr>ns_ctx := \<sigma>1\<rparr>" and ?e = "enqueue r (ns\<lparr>ns_ctx := \<sigma>1\<lparr>se_mem := resetMemoryLimit nc (se_mem \<sigma>1)\<rparr>\<rparr>)"
  have "setResponse nc r ?ns = (ok (), ?e)"
    using setResponse_plain [of ?ns r nc] assms(4-7) by (simp add: open_session_def set_mem_def)
  then have "ServerEntry_processRequest cs sv nc ns = (ok True, ?e)"
    unfolding processRequest_net [OF assms(1-3)] by (simp add: replied_def stry_def)
  moreover have "ns_queryBuf ?e = ns_queryBuf ns" "ns_closeAfterRsp ?e = ns_closeAfterRsp ns"
    by (simp_all add: enqueue_def drainRspWithoutLock_def Let_def)
  ultimately show ?thesis
    using assms(4,8) by (simp add: processReq_def sbind_def open_session_def Let_def resetMultiBulkCtx_def)
qed


subsection \<open>Runs over a stream of requests\<close>

primrec received :: "net_event list \<Rightarrow> bytes" where
  "received [] = []"
| "received (ev # evs) = (case ev of Recv data \<Rightarrow> data | _ \<Rightarrow> []) @ received evs"

definition pipe_phase :: "phase \<Rightarrow> 's NetSession \<Rightarrow> bytes list list \<Rightarrow> bool" where
  "pipe_phase ph ns todo \<longleftrightarrow> (case ph of
      Starting \<Rightarrow> ns_queryBuf ns = []
    | Reading \<Rightarrow> stalled ns todo
    | Parsing \<Rightarrow> if ns_state ns = DrainReqBuf then ns_queryBuf ns \<noteq> [] else ns_state ns = DrainReqNet \<and> stalled ns todo
    | _ \<Rightarrow> False)"

definition pipe_inv ::
  "'s Command list \<Rightarrow> 's Server \<Rightarrow> NetConf \<Rightarrow> bytes list \<Rightarrow> 's Session \<Rightarrow> bytes \<Rightarrow> phase \<times> 's NetSession \<Rightarrow> bool" where
  "pipe_inv cs sv nc replies \<sigma>' u c \<longleftrightarrow> (case c of (ph, ns) \<Rightarrow> net_inv nc c \<and> open_session ns \<and>
     (\<exists>todo rs. list_all (fits nc) todo \<and> answers cs sv nc todo (ns_ctx ns\<lparr>se_args := []\<rparr>) rs \<sigma>' \<and>
       out ns @ concat rs = concat replies \<and> at_stream nc ns u todo \<and>
       pipe_phase ph ns todo))"

text \<open>A server that runs, with room for the client, and whose limit on bulks leaves room in the buffer.\<close>

definition accepts :: "NetConf \<Rightarrow> bool" where
  "accepts nc \<longleftrightarrow> nc_isRunning nc \<and> nc_sessionCount nc \<le> unat (nc_maxClients nc) \<and> unat (nc_protoMaxBulkLen nc) + 2 ^ 15 \<le> 2 ^ 30"

lemma stalled_short:
  assumes "stalled ns todo" "at_stream nc ns u todo" "u \<noteq> []" "list_all (fits nc) todo"
  shows "length (ns_queryBuf ns) < unat (nc_protoMaxBulkLen nc) + 25"
proof -
  obtain r rest where todo: "todo = r # rest" using assms(2,3) by (cases todo) (auto simp: at_stream_def)
  have r: "length r < 2 ^ 62" "\<forall>a\<in>set r. length a \<le> unat (nc_protoMaxBulkLen nc)" using assms(4) by (auto simp: todo fits_def)
  have "unat (nc_protoMaxBulkLen nc) < 2 ^ LENGTH(32)" by (rule unsigned_less)
  then have a: "length a < 2 ^ 62" if "a \<in> set r" for a using r(2) that by fastforce
  show ?thesis
  proof (cases "ns_multibulklen ns = 0")
    case True
    then show ?thesis using assms(1) dec_short [OF r(1)] by (simp add: stalled_def todo length_bulk_head)
  next
    case False
    then obtain as where as: "r = ns_args ns @ as" "as \<noteq> []" "bulks_left nc ns 0 as u (stream rest)"
      using assms(2) by (auto simp: at_stream_def todo)
    then have h: "hd as \<in> set r" by simp
    have "length (ns_queryBuf ns) < unit_len (ns_bulkLen ns) as" using assms(1) False by (simp add: stalled_def todo as(1))
    moreover have "unit_len (ns_bulkLen ns) as \<le> unat (nc_protoMaxBulkLen nc) + 24"
      using as(3) bspec [OF r(2) h] dec_short [OF a [OF h]] by (auto simp: unit_len_def bulks_left_def length_bulk_head)
    ultimately show ?thesis by simp
  qed
qed

lemma enqueue_fields:
  "ns_ctx (enqueue s ns) = ns_ctx ns" "ns_queryBuf (enqueue s ns) = ns_queryBuf ns" "ns_closeAfterRsp (enqueue s ns) = ns_closeAfterRsp ns"
  "ns_closeResponse (enqueue s ns) = ns_closeResponse ns" "ns_isEnded (enqueue s ns) = ns_isEnded ns" "ns_sendFailed (enqueue s ns) = ns_sendFailed ns"
  by (simp_all add: enqueue_def drainRspWithoutLock_def Let_def)

lemma at_stream_fresh: "fresh_parse ns \<Longrightarrow> ns_queryBuf ns @ u = stream todo \<Longrightarrow> at_stream nc ns u todo"
  by (simp add: at_stream_def fresh_parse_def)

lemma stalled_empty: "fresh_parse ns \<Longrightarrow> ns_queryBuf ns = [] \<Longrightarrow> stalled ns todo"
  by (simp add: stalled_def fresh_parse_def req_head_def)

lemma pipe_parse:
  assumes "pipe_inv cs sv nc replies \<sigma>' u (Parsing, ns)" "ns_state ns = DrainReqBuf" "plain_commands cs" "accepts nc"
  obtains ns' where "parse_once cs sv nc ns = (ok (), ns')" "pipe_inv cs sv nc replies \<sigma>' u (Parsing, ns')"
proof -
  obtain todo rs where i: "net_inv nc (Parsing, ns)" "open_session ns" "list_all (fits nc) todo"
    "answers cs sv nc todo (ns_ctx ns\<lparr>se_args := []\<rparr>) rs \<sigma>'" "out ns @ concat rs = concat replies" "at_stream nc ns u todo"
    "ns_queryBuf ns \<noteq> []"
    using assms(1,2) by (auto simp: pipe_inv_def pipe_phase_def)
  have s: "send_ok ns" using i(1) by (simp add: net_inv_def)
  have inv: "net_inv nc (Parsing, ns')" if "parse_once cs sv nc ns = (ok (), ns')" for ns'
    using net_inv_step [OF net_step.parse [OF assms(2)] i(1), of cs sv] that by (simp add: outcome_def)
  from i(6,3,7) show thesis
  proof (cases rule: parse_once_stream [where cs = cs and sv = sv])
    case (wait ns')
    obtain a b m l where ns': "ns' = setState DrainReqNet (set_args a
      (ns\<lparr>ns_queryBuf := b, ns_reqType := REDIS_REQ_MULTIBULK, ns_multibulklen := m, ns_bulkLen := l\<rparr>))"
      using wait(2) by (auto simp: parser_moved_def)
    have "ns_ctx ns'\<lparr>se_args := []\<rparr> = ns_ctx ns\<lparr>se_args := []\<rparr>" "out ns' = out ns" "open_session ns'" "ns_state ns' = DrainReqNet"
      using i(2) by (simp_all add: ns' setState_def set_args_def out_def open_session_def)
    then have "pipe_inv cs sv nc replies \<sigma>' u (Parsing, ns')"
      using inv [OF wait(1)] i(3-5) wait(3,4) unfolding pipe_inv_def
      by (simp only: prod.case) (intro conjI exI [of _ todo] exI [of _ rs], simp_all add: pipe_phase_def)
    then show thesis using wait(1) that by blast
  next
    case (request args rest b)
    let ?ns = "setState Process (set_args args
        (ns\<lparr>ns_queryBuf := b, ns_reqType := REDIS_REQ_MULTIBULK, ns_multibulklen := 0, ns_bulkLen := -1\<rparr>))"
    obtain r rs' \<sigma>1 where a: "rs = r # rs'" "r \<noteq> []" "processRequest cs sv (ns_ctx ns\<lparr>se_args := args\<rparr>) = (ok r, \<sigma>1)"
      "ml_hardMemoryLimit (se_mem \<sigma>1) = 0" "ml_softMemoryLimit (se_mem \<sigma>1) = 0" "answers cs sv nc rest (next_request nc \<sigma>1) rs' \<sigma>'"
      using i(4) by (auto simp: request(1))
    have n: "ns_ctx ?ns = ns_ctx ns\<lparr>se_args := args\<rparr>" "open_session ?ns" "ns_args ?ns \<noteq> []" "ns_queryBuf ?ns = b" "nc_isRunning nc"
      using i(2,3) assms(4) by (simp_all add: setState_def open_session_def request(1) fits_def set_args_def accepts_def)
    let ?e = "enqueue r (?ns\<lparr>ns_ctx := \<sigma>1\<lparr>se_mem := resetMemoryLimit nc (se_mem \<sigma>1)\<rparr>\<rparr>)"
    let ?ns' = "setState (if b = [] then DrainReqNet else DrainReqBuf) (resetMultiBulkCtx ?e)"
    have e: "parse_once cs sv nc ns = (ok (), ?ns')"
      unfolding request(3) using request_reply [of cs sv ?ns r \<sigma>1 nc] a(2-5) n assms(3) by (simp add: Let_def)
    have o: "out ?e = out ns @ r" using enqueue_sent(1) [of "?ns\<lparr>ns_ctx := \<sigma>1\<lparr>se_mem := resetMemoryLimit nc (se_mem \<sigma>1)\<rparr>\<rparr>" r] s
      by (simp add: send_ok_def out_def setState_def set_args_def)
    have f: "out ?ns' = out ?e" "ns_ctx ?ns' = ns_ctx ?e\<lparr>se_args := []\<rparr>" "open_session ?ns' = open_session ?e" "ns_queryBuf ?ns' = ns_queryBuf ?e"
      "fresh_parse ?ns'" "ns_state ?ns' = (if b = [] then DrainReqNet else DrainReqBuf)"
      by (simp_all add: setState_def resetMultiBulkCtx_def set_args_def out_def open_session_def fresh_parse_def)
    have g: "ns_ctx ?e = \<sigma>1\<lparr>se_mem := resetMemoryLimit nc (se_mem \<sigma>1)\<rparr>" "open_session ?e" "ns_queryBuf ?e = b"
      using n(2,4) by (simp_all add: enqueue_fields open_session_def)
    have x: "ns_ctx ?ns'\<lparr>se_args := []\<rparr> = next_request nc \<sigma>1" unfolding f(2) g(1) by (simp add: next_request_def)
    have t: "at_stream nc ?ns' u rest" by (rule at_stream_fresh [OF f(5)]) (use f(4) g(3) request(2) in simp)
    have st: "b = [] \<longrightarrow> stalled ?ns' rest" by (intro impI stalled_empty [OF f(5)]) (use f(4) g(3) in simp)
    have "pipe_inv cs sv nc replies \<sigma>' u (Parsing, ?ns')"
      unfolding pipe_inv_def prod.case
    proof (intro conjI exI [of _ rest] exI [of _ rs'])
      show "out ?ns' @ concat rs' = concat replies" using i(5) o f(1) a(1) by simp
      show "open_session ?ns'" using f(3) g(2) by simp
      show "list_all (fits nc) rest" using i(3) request(1) by simp
      show "pipe_phase Parsing ?ns' rest"
        using f(4,6) g(3) st by (cases "b = []") (simp_all add: pipe_phase_def)
    qed (use inv [OF e] x a(6) t in simp_all)
    then show thesis using e that by blast
  qed
qed

lemma pipe_move:
  assumes "pipe_inv cs sv nc replies \<sigma>' u (ph, ns)" "net_inv nc (ph', ns')" "open_session ns'" "out ns' = out ns"
    and "ns_ctx ns' = ns_ctx ns" "ns_queryBuf ns' = ns_queryBuf ns" "ns_reqType ns' = ns_reqType ns"
      "ns_multibulklen ns' = ns_multibulklen ns" "ns_bulkLen ns' = ns_bulkLen ns"
    and "\<And>todo. pipe_phase ph ns todo \<Longrightarrow> stalled ns' = stalled ns \<Longrightarrow> pipe_phase ph' ns' todo"
  shows "pipe_inv cs sv nc replies \<sigma>' u (ph', ns')"
proof -
  have "stalled ns' = stalled ns" "at_stream nc ns' = at_stream nc ns"
    using assms(5-9) by (simp_all add: fun_eq_iff stalled_def at_stream_def bulks_left_def)
  then show ?thesis using assms(1-5,10) unfolding pipe_inv_def prod.case by metis
qed

lemma pipe_step:
  assumes "net_step cs sv nc ev c c'" "pipe_inv cs sv nc replies \<sigma>' (received [ev] @ u) c" "plain_commands cs" "accepts nc"
    "ev \<noteq> RecvError" "ev \<noteq> SendError"
  shows "pipe_inv cs sv nc replies \<sigma>' u c'"
  using assms(1)
proof (cases rule: net_step.cases)
  case (start ns)
  then have i: "pipe_inv cs sv nc replies \<sigma>' u (Starting, ns)" using assms(2) by simp
  then have n: "net_inv nc (Starting, ns)" "open_session ns" by (simp_all add: pipe_inv_def)
  have c: "c' = (Reading, setState DrainReqNet ns)" using step_start [OF n(1)] start by (simp add: outcome_def)
  have "fresh_parse ns" using n(1) by (simp add: net_inv_def)
  then show ?thesis unfolding c using net_inv_step [OF assms(1)] n start c
    by (intro pipe_move [OF i]) (auto simp: pipe_phase_def setState_def open_session_def out_def stalled_empty)
next
  case (recv data ns)
  then have i: "pipe_inv cs sv nc replies \<sigma>' (data @ u) (Reading, ns)" using assms(2) by simp
  then obtain todo rs where p: "net_inv nc (Reading, ns)" "open_session ns" "list_all (fits nc) todo"
    "answers cs sv nc todo (ns_ctx ns\<lparr>se_args := []\<rparr>) rs \<sigma>'" "out ns @ concat rs = concat replies" "at_stream nc ns (data @ u) todo"
    "stalled ns todo"
    by (auto simp: pipe_inv_def pipe_phase_def)
  let ?ns = "setState DrainReqBuf (ns\<lparr>ns_first := False, ns_queryBuf := ns_queryBuf ns @ data\<rparr>)"
  have "length (ns_queryBuf ns) < unat (nc_protoMaxBulkLen nc) + 25" using stalled_short [OF p(7,6) _ p(3)] recv(4) by simp
  then have "\<not> length (ns_queryBuf ns @ data) > REDIS_MAX_QUERYBUF_LEN"
    using recv(5) assms(4) by (simp add: REDIS_MAX_QUERYBUF_LEN_def REDIS_IOBUF_LEN_def accepts_def)
  then have "drainReqCallback nc False data ns = (ok (), ?ns)"
    using p(1) assms(4) by (simp add: drainReqCallback_data net_inv_def accepts_def Let_def)
  then have c: "c' = (Parsing, ?ns)" using recv by (simp add: outcome_def setState_def)
  have "at_stream nc ?ns u todo"
    using p(6) by (auto simp: at_stream_def bulks_left_def)
  then show ?thesis
    using net_inv_step [OF assms(1)] p recv c unfolding pipe_inv_def
    by (auto simp: pipe_phase_def setState_def open_session_def out_def intro!: exI [of _ todo] exI [of _ rs])
next
  case (parse ns)
  then have "pipe_inv cs sv nc replies \<sigma>' u (Parsing, ns)" using assms(2) by simp
  from this parse(4) assms(3,4) obtain ns' where "parse_once cs sv nc ns = (ok (), ns')" "pipe_inv cs sv nc replies \<sigma>' u (Parsing, ns')"
    by (rule pipe_parse)
  then show ?thesis using parse by (simp add: outcome_def)
next
  case (parse_end ns)
  then have i: "pipe_inv cs sv nc replies \<sigma>' u (Parsing, ns)" using assms(2) by simp
  then have n: "net_inv nc (Parsing, ns)" "open_session ns" "ns_state ns = DrainReqNet"
    using parse_end(4) by (auto simp: pipe_inv_def pipe_phase_def)
  have d: "out (drainRsp ns) = out ns" "open_session (drainRsp ns) = open_session ns"
    by (simp_all add: drainRsp_def drainRspWithoutLock_def out_def open_session_def)
  have c: "c' = (Reading, drainRsp ns)" using parse_end n(3) by simp
  show ?thesis unfolding c using net_inv_step [OF assms(1)] n parse_end c d
    by (intro pipe_move [OF i]) (auto simp: pipe_phase_def drainRsp_def drainRspWithoutLock_def)
next
  case (sent ph ns)
  then have i: "pipe_inv cs sv nc replies \<sigma>' u (ph, ns)" using assms(2) by simp
  then have n: "net_inv nc (ph, ns)" "open_session ns" by (simp_all add: pipe_inv_def)
  have c: "c' = (ph, after_send ns)" using drainRspCallback_sent [OF sent(5)] sent by (simp add: outcome_def)
  have "open_session (after_send ns)" using n(2) after_send_facts [of ns] by (simp add: open_session_def)
  then show ?thesis unfolding c using net_inv_step [OF assms(1)] n sent c after_send_facts [of ns]
    by (intro pipe_move [OF i]) (auto simp: pipe_phase_def same_parse_def split: phase.split)
qed (use assms(5,6) in simp_all)


lemma pipe_run:
  "net_run cs sv nc evs c c' \<Longrightarrow> pipe_inv cs sv nc replies \<sigma>' (received evs @ u) c \<Longrightarrow> plain_commands cs \<Longrightarrow> accepts nc \<Longrightarrow>
    RecvError \<notin> set evs \<Longrightarrow> SendError \<notin> set evs \<Longrightarrow> pipe_inv cs sv nc replies \<sigma>' u c'"
proof (induction rule: net_run.induct)
  case (more ev c c' evs c'')
  then show ?case using pipe_step [OF more(1), of replies \<sigma>' "received evs @ u"] by auto
qed simp

lemma received_replicate [simp]: "received (replicate k Parse) = []"
  by (induction k) simp_all

text \<open>From every state of such a run the connection comes to rest without further input.\<close>

lemma pipe_sent:
  assumes "pipe_inv cs sv nc replies \<sigma>' u (Reading, ns)"
  obtains evs ns' where "set evs \<subseteq> {Sent}" "net_run cs sv nc evs (Reading, ns) (Reading, ns')" "\<not> ns_isSendRunning ns'"
proof -
  have s: "net_run cs sv nc [Sent] (Reading, x) (Reading, after_send x)" if "ns_isSendRunning x" "\<not> ns_sendFailed x" for x :: "'a NetSession"
    using net_step.sent [of Reading x cs sv nc] that drainRspCallback_sent [of x]
    by (auto simp: outcome_def intro: net_run.intros)
  have f: "\<not> ns_sendFailed ns" "\<not> ns_sendFailed (after_send ns)"
    using assms after_send_facts(5) [of ns] by (auto simp: pipe_inv_def open_session_def)
  have t: "\<not> ns_isSendRunning (after_send (after_send ns))" by (simp add: after_send_simps)
  show thesis
  proof (cases "ns_isSendRunning ns")
    case False
    then show thesis using that [of "[]" ns] net_run.finished [of cs sv nc "(Reading, ns)"] by simp
  next
    case True
    show thesis
    proof (cases "ns_isSendRunning (after_send ns)")
      case False
      then show thesis using that [of "[Sent]"] s [OF True f(1)] by simp
    next
      case r: True
      then show thesis using that [of "[Sent, Sent]"] net_run_append [OF s [OF True f(1)] s [OF r f(2)]] t by simp
    qed
  qed
qed

lemma pipe_rests:
  assumes "pipe_inv cs sv nc replies \<sigma>' u (ph, ns)" "plain_commands cs" "accepts nc"
  shows "\<exists>evs ns'. set evs \<subseteq> {Start, Parse, ParseEnd, Sent} \<and> net_run cs sv nc evs (ph, ns) (Reading, ns') \<and> \<not> ns_isSendRunning ns'"
proof -
  have rd: "\<exists>evs ns'. set evs \<subseteq> {Start, Parse, ParseEnd, Sent} \<and> net_run cs sv nc (es @ evs) (ph, ns) (Reading, ns') \<and> \<not> ns_isSendRunning ns'"
    if "net_run cs sv nc es (ph, ns) (Reading, x)" "pipe_inv cs sv nc replies \<sigma>' u (Reading, x)" for es x
  proof -
    note x = that
    obtain evs ns' where e: "set evs \<subseteq> {Sent}" "net_run cs sv nc evs (Reading, x) (Reading, ns')" "\<not> ns_isSendRunning ns'"
      using pipe_sent [OF x(2)] by blast
    then show ?thesis using net_run_append [OF that(1) e(2)] by auto
  qed
  show ?thesis
  proof (cases ph)
    case Starting
    have st: "net_step cs sv nc Start (ph, ns) (Reading, setState DrainReqNet ns)"
      using net_step.start [of cs sv nc ns] step_start [of nc ns cs sv] assms(1) Starting by (simp add: outcome_def pipe_inv_def)
    have "pipe_inv cs sv nc replies \<sigma>' u (Reading, setState DrainReqNet ns)"
      using pipe_step [OF st _ assms(2,3)] assms(1) by simp
    from rd [OF net_run.more [OF st net_run.finished] this] obtain evs ns' where
      "set evs \<subseteq> {Start, Parse, ParseEnd, Sent}" "net_run cs sv nc (Start # evs) (ph, ns) (Reading, ns')" "\<not> ns_isSendRunning ns'"
      by auto
    then show ?thesis by (intro exI [of _ "Start # evs"] exI [of _ ns']) auto
  next
    case Reading
    then show ?thesis using rd [of "[]" ns] assms(1) net_run.finished [of cs sv nc "(Reading, ns)"] by simp
  next
    case Parsing
    obtain k where k: "net_run cs sv nc (replicate k Parse) (Parsing, ns) (outcome (\<lambda>_. Parsing) (parse_loop cs sv nc ns))"
      "\<forall>v ns'. parse_loop cs sv nc ns = (Inr v, ns') \<longrightarrow> ns_state ns' \<noteq> DrainReqBuf"
      using parse_loop_runs by blast
    have pi: "pipe_inv cs sv nc replies \<sigma>' u (outcome (\<lambda>_. Parsing) (parse_loop cs sv nc ns))"
      by (rule pipe_run [OF k(1)]) (use assms Parsing in auto)
    obtain r ns1 where l: "parse_loop cs sv nc ns = (r, ns1)" by (cases "parse_loop cs sv nc ns")
    have r: "r = ok ()" using pi l by (cases r) (auto simp: outcome_def pipe_inv_def pipe_phase_def)
    have p1: "pipe_inv cs sv nc replies \<sigma>' u (Parsing, ns1)" "ns_state ns1 \<noteq> DrainReqBuf" using pi k(2) l r by (auto simp: outcome_def)
    then have e: "net_step cs sv nc ParseEnd (Parsing, ns1) (Reading, drainRsp ns1)"
      using net_step.parse_end [OF p1(2), of cs sv nc] by (auto simp: pipe_inv_def pipe_phase_def)
    have p2: "pipe_inv cs sv nc replies \<sigma>' u (Reading, drainRsp ns1)" using pipe_step [OF e _ assms(2,3)] p1(1) by simp
    have "net_run cs sv nc (replicate k Parse @ [ParseEnd]) (ph, ns) (Reading, drainRsp ns1)"
      using net_run_append [OF k(1)] net_run.more [OF e net_run.finished] l r Parsing by (simp add: outcome_def)
    from rd [OF this p2] obtain evs ns' where "set evs \<subseteq> {Start, Parse, ParseEnd, Sent}"
      "net_run cs sv nc ((replicate k Parse @ [ParseEnd]) @ evs) (ph, ns) (Reading, ns')" "\<not> ns_isSendRunning ns'"
      by blast
    then show ?thesis by (intro exI [of _ "(replicate k Parse @ [ParseEnd]) @ evs"] exI [of _ ns']) auto
  qed (use assms(1) in \<open>simp_all add: pipe_inv_def pipe_phase_def\<close>)
qed

lemma pipe_prefix: "pipe_inv cs sv nc replies \<sigma>' u (ph, ns) \<Longrightarrow> prefix (out ns) (concat replies)"
  unfolding pipe_inv_def prefix_def by auto metis

lemma pipe_done:
  assumes "pipe_inv cs sv nc replies \<sigma>' [] (Reading, ns)" "\<not> ns_isSendRunning ns"
  shows "ns_written ns = concat replies \<and> ns_ctx ns = \<sigma>'"
proof -
  obtain todo rs where p: "net_inv nc (Reading, ns)" "answers cs sv nc todo (ns_ctx ns\<lparr>se_args := []\<rparr>) rs \<sigma>'"
    "out ns @ concat rs = concat replies" "at_stream nc ns [] todo" "stalled ns todo"
    using assms(1) by (auto simp: pipe_inv_def pipe_phase_def)
  have t: "todo = []"
  proof (rule ccontr)
    assume "todo \<noteq> []"
    then show False using p(4,5) unfolding at_stream_def
    proof (elim disjE exE conjE, goal_cases)
      case 1
      then show False by (cases todo) (simp_all add: stalled_def resp_def)
    next
      case (2 as rest)
      then have "ns_multibulklen ns \<noteq> 0" "length (rest_bulks (ns_bulkLen ns) as) \<le> length (ns_queryBuf ns)"
        by (auto simp: bulks_left_def)
      moreover have "unit_len (ns_bulkLen ns) as \<le> length (rest_bulks (ns_bulkLen ns) as)"
        using 2 by (cases as) (auto simp: unit_len_def rest_bulks_def bulks_left_def bulk_def crlf_def)
      ultimately show False using 2 by (simp add: stalled_def)
    qed
  qed
  then have "ns_args ns = []" using p(4) by (simp add: at_stream_def)
  then have "ns_ctx ns\<lparr>se_args := []\<rparr> = ns_ctx ns" by simp
  then show ?thesis using p(1-3) t assms(2) by (auto simp: net_inv_def drained_def send_ok_def out_def)
qed

lemma pipe_new:
  assumes "answers cs sv nc reqs (ns_ctx (NetSession_new nc \<sigma>)) replies \<sigma>'" "list_all (fits nc) reqs"
  shows "pipe_inv cs sv nc replies \<sigma>' (stream reqs) (Starting, NetSession_new nc \<sigma>)"
proof -
  let ?ns = "NetSession_new nc \<sigma>"
  have f: "ns_args ?ns = []" "open_session ?ns" "out ?ns = []" "ns_queryBuf ?ns = []" "fresh_parse ?ns"
    by (simp_all add: NetSession_new_def open_session_def out_def fresh_parse_def)
  then have e: "ns_ctx ?ns\<lparr>se_args := []\<rparr> = ns_ctx ?ns" by simp
  show ?thesis using assms f net_inv_new [of nc \<sigma>] at_stream_fresh [OF f(5), of "stream reqs" reqs nc] unfolding pipe_inv_def prod.case e
    by (intro conjI exI [of _ reqs] exI [of _ replies]) (simp_all add: pipe_phase_def)
qed


end
