(* ===== verification/NetLists.thy ===== *)
theory NetLists
  imports NetStream ListServe
begin

section \<open>A server of lists over a connection\<close>

text \<open>
  The connection, the requests, the commands, the transactions and RocksDB together: bytes of requests in,
  bytes of replies out, and in between a map from keys to lists.
\<close>

definition no_limits :: "NetConf \<Rightarrow> bool" where
  "no_limits nc \<longleftrightarrow> nc_clientOutputBufferLimitNormalHardMB nc = 0 \<and> nc_clientOutputBufferLimitNormalSoftMB nc = 0"

lemma reset_unlimited:
  "no_limits nc \<Longrightarrow> ml_hardMemoryLimit (resetMemoryLimit nc m) = 0 \<and> ml_softMemoryLimit (resetMemoryLimit nc m) = 0"
  by (simp add: no_limits_def resetMemoryLimit_def)

lemma same_mem_limits:
  "same_mem m m' \<Longrightarrow> ml_hardMemoryLimit m' = ml_hardMemoryLimit m \<and> ml_softMemoryLimit m' = ml_softMemoryLimit m"
  by (cases m, cases m') (simp add: same_mem_def)

lemma spec_reply: "fst (spec op xs) \<noteq> []"
  by (cases op) (auto simp: Let_def fmtLongLong_def fmtBulk_def fmtNull_def fmtOK_def fmtMultiBulkLen_def str_def crlf_def
      split: option.split)

context cmd_env
begin

lemma idle_next: "idle n \<sigma> \<Longrightarrow> no_limits nc \<Longrightarrow> idle n (next_request nc \<sigma>)"
  using reset_unlimited [of nc "se_mem \<sigma>"]
  by (simp add: idle_def live_def plain_session_def next_request_def unlimited_def)

lemma stored_next: "stored g k xs (next_request nc \<sigma>) = stored g k xs \<sigma>"
  by (simp add: stored_def sees_def fresh_def list_of_def next_request_def)

lemma outside_next: "outside K \<sigma> (next_request nc \<sigma>') = outside K \<sigma> \<sigma>'" "se_dbId (next_request nc \<sigma>) = se_dbId \<sigma>"
  by (simp_all add: outside_def next_request_def)

lemma answers_ok:
  assumes "idle (txns rs + n) \<sigma>" "list_all (op_ok \<circ> snd) rs" "fst ` set rs \<subseteq> K" "\<And>k. k \<in> K \<Longrightarrow> stored (growth rs + g) k (m k) \<sigma>"
    and "no_limits nc" "ml_hardMemoryLimit (se_mem \<sigma>) = 0" "ml_softMemoryLimit (se_mem \<sigma>) = 0"
  shows "\<exists>\<sigma>'. answers list_commands sv nc (requests rs) \<sigma> (fst (db_spec rs m)) \<sigma>' \<and> idle n \<sigma>' \<and> outside K \<sigma> \<sigma>' \<and>
    se_dbId \<sigma>' = se_dbId \<sigma> \<and> (\<forall>k\<in>K. stored g k (snd (db_spec rs m) k) \<sigma>')"
  using assms(1-4,6,7)
proof (induction rs arbitrary: \<sigma> m)
  case Nil
  then show ?case by (auto simp: requests_def growth_def txns_def outside_def)
next
  case (Cons r rs)
  obtain key op where r: "r = (key, op)" by (cases r)
  let ?\<sigma> = "\<sigma>\<lparr>se_args := args_of key op\<rparr>" and ?m = "m(key := snd (spec op (m key)))"
  have t: "txns (r # rs) + n = ids op + (txns rs + n)" "growth (r # rs) + g = grow op + (growth rs + g)"
    by (simp_all add: txns_def growth_def r)
  have k: "op_ok op" "key \<in> K" "list_all (op_ok \<circ> snd) rs" "fst ` set rs \<subseteq> K"
    using Cons.prems(2,3) r by (auto simp: comp_def)
  obtain \<sigma>1 where 1: "processRequest list_commands sv ?\<sigma> = (ok (fst (spec op (m key))), \<sigma>1)" "idle (txns rs + n) \<sigma>1"
    "outside K ?\<sigma> \<sigma>1" "se_dbId \<sigma>1 = se_dbId ?\<sigma>" "same_mem (se_mem ?\<sigma>) (se_mem \<sigma>1)" "\<forall>k\<in>K. stored (growth rs + g) k (?m k) \<sigma>1"
    using request_serves [of op "txns rs + n" ?\<sigma> key K "growth rs + g" m] Cons.prems(1,4) k(1,2) t
    by (auto simp: idle_args stored_args)
  have l: "ml_hardMemoryLimit (se_mem \<sigma>1) = 0" "ml_softMemoryLimit (se_mem \<sigma>1) = 0"
    using same_mem_limits [OF 1(5)] Cons.prems(5,6) by simp_all
  let ?\<sigma>1 = "next_request nc \<sigma>1"
  have u: "ml_hardMemoryLimit (se_mem ?\<sigma>1) = 0" "ml_softMemoryLimit (se_mem ?\<sigma>1) = 0"
    using reset_unlimited [OF assms(5), of "se_mem \<sigma>1"] by (simp_all add: next_request_def)
  have st: "stored (growth rs + g) k (?m k) ?\<sigma>1" if "k \<in> K" for k
    using bspec [OF 1(6) that] by (simp only: stored_next)
  obtain \<sigma>2 where 2: "answers list_commands sv nc (requests rs) ?\<sigma>1 (fst (db_spec rs ?m)) \<sigma>2" "idle n \<sigma>2"
    "outside K ?\<sigma>1 \<sigma>2" "se_dbId \<sigma>2 = se_dbId ?\<sigma>1" "\<forall>k\<in>K. stored g k (snd (db_spec rs ?m) k) \<sigma>2"
    using Cons.IH [OF idle_next [OF 1(2) assms(5)] k(3,4) st u] by blast
  have "db_spec (r # rs) m = (fst (spec op (m key)) # fst (db_spec rs ?m), snd (db_spec rs ?m))"
    by (simp add: r split: prod.split)
  moreover have "answers list_commands sv nc (requests (r # rs)) \<sigma> (fst (spec op (m key)) # fst (db_spec rs ?m)) \<sigma>2"
    using 1(1) 2(1) l spec_reply by (simp add: requests_def r)
  moreover have "outside K \<sigma> ?\<sigma>1" "se_dbId ?\<sigma>1 = se_dbId \<sigma>" using 1(3,4) by (simp_all add: outside_args outside_next)
  ultimately show ?case using 2 outside_trans by auto
qed

end

context reliable_server
begin

lemma answers_refines:
  assumes "session_idle (txns rs + n) sv \<sigma>" "list_all (op_ok \<circ> snd) rs" "fst ` set rs \<subseteq> K"
    and "\<And>key. key \<in> K \<Longrightarrow> holds_list dbv sv (growth rs + g) key (m key) \<sigma>"
    and "no_limits nc" "ml_hardMemoryLimit (se_mem \<sigma>) = 0" "ml_softMemoryLimit (se_mem \<sigma>) = 0"
  shows "\<exists>\<sigma>'. answers list_commands sv nc (requests rs) \<sigma> (fst (db_spec rs m)) \<sigma>' \<and>
    (\<forall>key\<in>K. holds_list dbv sv g key (snd (db_spec rs m) key) \<sigma>')"
  using ce.answers_ok [of rs n \<sigma> K g m nc] assms by (auto simp: idle_eq stored_eq)

end

lemma new_session:
  assumes "session_idle n sv \<sigma>" "no_limits nc"
  shows "session_idle n sv (ns_ctx (NetSession_new nc \<sigma>))" "holds_list dbv sv g key xs (ns_ctx (NetSession_new nc \<sigma>)) = holds_list dbv sv g key xs \<sigma>"
    "ml_hardMemoryLimit (se_mem (ns_ctx (NetSession_new nc \<sigma>))) = 0" "ml_softMemoryLimit (se_mem (ns_ctx (NetSession_new nc \<sigma>))) = 0"
  using assms reset_unlimited [OF assms(2)]
  by (simp_all add: session_idle_def plain_session_def NetSession_new_def unlimited_def holds_list_def list_of_def)

lemma list_commands_plain: "plain_commands list_commands"
  by (simp add: plain_commands_def list_commands_def list_command_def)

text \<open>C1: A client of the server sees a map from keys to lists, through the network. Take a server whose RocksDB
  calls succeed and whose stores hold the unexpired lists \<open>m\<close> under the keys \<open>K\<close>, and a new connection. The client writes any
  well-formed list requests on these keys, as bytes that arrive in any pieces. In every run in which the socket does not fail,
  the server sends nothing but the replies of the specification, in order; once all has arrived and the connection
  is at rest, it has sent all of them and the stores hold the lists of the specification; and it always comes to rest.\<close>

theorem list_server_over_network:
  assumes "reliable_rocksdb R dbv wr" "sv_ops sv = rocks_ops R" "plain_server sv" "accepts nc" "no_limits nc"
    and "session_idle (txns rs + n) sv \<sigma>" "list_all (op_ok \<circ> snd) rs" "list_all (fits nc) (requests rs)" "fst ` set rs \<subseteq> K"
    and "\<forall>key\<in>K. holds_list dbv sv (growth rs + g) key (m key) \<sigma>"
    and "net_run list_commands sv nc evs (Starting, NetSession_new nc \<sigma>) (ph, ns)" "RecvError \<notin> set evs" "SendError \<notin> set evs"
    and "received evs @ u = stream (requests rs)"
  shows "prefix (out ns) (concat (fst (db_spec rs m))) \<and>
    (u = [] \<and> ph = Reading \<and> \<not> ns_isSendRunning ns \<longrightarrow> ns_written ns = concat (fst (db_spec rs m)) \<and>
       (\<forall>key\<in>K. holds_list dbv sv g key (snd (db_spec rs m) key) (ns_ctx ns))) \<and>
    (\<exists>evs' ns'. set evs' \<subseteq> {Start, Parse, ParseEnd, Sent} \<and> net_run list_commands sv nc evs' (ph, ns) (Reading, ns') \<and>
       \<not> ns_isSendRunning ns')"
proof -
  have s: "reliable_server R dbv wr sv"
    using assms(1-3) by (simp add: reliable_server_def reliable_server_axioms_def)
  note w = new_session [OF assms(6,5)]
  obtain \<sigma>' where a: "answers list_commands sv nc (requests rs) (ns_ctx (NetSession_new nc \<sigma>)) (fst (db_spec rs m)) \<sigma>'"
    "\<forall>key\<in>K. holds_list dbv sv g key (snd (db_spec rs m) key) \<sigma>'"
    using reliable_server.answers_refines [OF s w(1) assms(7,9) _ assms(5) w(3,4), of g m] assms(10) by (auto simp: w(2))
  have p: "pipe_inv list_commands sv nc (fst (db_spec rs m)) \<sigma>' u (ph, ns)"
    by (rule pipe_run [OF assms(11)]) (use pipe_new [OF a(1) assms(8)] assms(4,12-14) list_commands_plain in simp_all)
  then show ?thesis
    using pipe_prefix [OF p] pipe_done [of list_commands sv nc "fst (db_spec rs m)" \<sigma>' ns] a(2) pipe_rests [OF p list_commands_plain assms(4)] by blast
qed

subsection \<open>A run\<close>

lemma received_append [simp]: "received (xs @ ys) = received xs @ received ys"
  by (induction xs) simp_all

lemma received_internal: "set evs \<subseteq> {Start, Parse, ParseEnd, Sent} \<Longrightarrow> received evs = []"
  by (induction evs) auto

definition sample_conf :: NetConf where
  "sample_conf = \<lparr>nc_isRunning = True, nc_sessionCount = 1, nc_maxClients = 10000, nc_protoMaxBulkLen = 512 * 1024 * 1024,
     nc_clientOutputBufferLimitNormalHardMB = 0, nc_clientOutputBufferLimitNormalSoftMB = 0,
     nc_clientOutputBufferLimitNormalSoftSecond = 10\<rparr>"

lemma sample_conf_ok: "accepts sample_conf" "no_limits sample_conf"
  by (simp_all add: sample_conf_def accepts_def no_limits_def)

definition two_requests :: "request list" where
  "two_requests = [(str ''a'', PUSH LP_TAIL [str ''x'', str ''y'']), (str ''a'', POP LP_HEAD)]"

lemma two_requests_spec:
  "db_spec two_requests (\<lambda>_. []) = ([str '':2'' @ crlf, str ''$1'' @ crlf @ str ''x'' @ crlf], (\<lambda>_. [])(str ''a'' := [str ''y'']))"
  by (simp add: two_requests_def pushed_def popped_def fmtLongLong_def fmtBulk_def dec_of_int_def dec_of_nat.simps digit_def str_def fun_eq_iff)

lemma two_requests_ok:
  "txns two_requests = 4" "growth two_requests = 3" "list_all (op_ok \<circ> snd) two_requests" "fst ` set two_requests \<subseteq> {str ''a''}"
  "list_all (fits sample_conf) (requests two_requests)"
  by (simp_all add: two_requests_def txns_def growth_def ids_def grow_def requests_def fits_def sample_conf_def str_def)

lemma two_requests_bytes:
  "stream (requests two_requests) = str ''*4'' @ crlf @ str ''$5'' @ crlf @ str ''RPUSH'' @ crlf @ str ''$1'' @ crlf @ str ''a'' @ crlf @
     str ''$1'' @ crlf @ str ''x'' @ crlf @ str ''$1'' @ crlf @ str ''y'' @ crlf @
     str ''*2'' @ crlf @ str ''$4'' @ crlf @ str ''LPOP'' @ crlf @ str ''$1'' @ crlf @ str ''a'' @ crlf"
  by (simp add: two_requests_def requests_def resp_def req_head_def bulk_def bulk_head_def dec_of_nat.simps digit_def str_def)

text \<open>The bytes arrive in two pieces, cut inside the head of a bulk.\<close>

theorem list_server_over_network_witness:
  "\<exists>evs ns. received evs = stream (requests two_requests) \<and>
     net_run list_commands (mem_server 10) sample_conf evs (Starting, NetSession_new sample_conf (mem_session 10)) (Reading, ns) \<and>
     ns_written ns = str '':2'' @ crlf @ str ''$1'' @ crlf @ str ''x'' @ crlf \<and>
     holds_list mem_lookup (mem_server 10) 0 (str ''a'') [str ''y''] (ns_ctx ns)"
proof -
  let ?run = "net_run list_commands (mem_server 10) sample_conf" and ?c = "(Starting, NetSession_new sample_conf (mem_session 10))"
  let ?int = "{Start, Parse, ParseEnd, Sent}" and ?s = "stream (requests two_requests)"
  have ops: "sv_ops (mem_server 10) = rocks_ops mem_rocks" by (simp add: mem_server_def)
  have idle: "session_idle (txns two_requests + 0) (mem_server 10) (mem_session 10)"
    using mem_session_idle [of 4 10] by (simp add: two_requests_ok)
  have holds: "\<forall>key\<in>{str ''a''}. holds_list mem_lookup (mem_server 10) (growth two_requests + 0) key ((\<lambda>_. []) key) (mem_session 10)"
    using mem_session_empty [of 3 "str ''a''" 10] by (simp add: two_requests_ok str_def)
  have plain: "plain_server (mem_server 10)" by (simp add: mem_server_plain)
  note T = list_server_over_network [OF memr.reliable_rocksdb_axioms ops plain sample_conf_ok idle two_requests_ok(3,5,4) holds]
  have rest: "\<exists>evs' ns'. ?run (evs @ evs') ?c (Reading, ns') \<and> received evs' = [] \<and> RecvError \<notin> set evs' \<and> SendError \<notin> set evs' \<and> \<not> ns_isSendRunning ns'"
    if "?run evs ?c c" "RecvError \<notin> set evs" "SendError \<notin> set evs" "received evs @ u = ?s" for evs c u
  proof -
    obtain ph ns where c: "c = (ph, ns)" by (cases c)
    from T [OF that(1)[unfolded c] that(2-4)] obtain evs' ns' where
      "set evs' \<subseteq> ?int" "?run evs' (ph, ns) (Reading, ns')" "\<not> ns_isSendRunning ns'" by blast
    then show ?thesis using net_run_append [OF that(1)] received_internal [of evs'] c by blast
  qed
  have piece: "\<exists>c. ?run (evs @ [Recv data]) ?c c" if "?run evs ?c (Reading, ns)" "data \<noteq> []" "length data \<le> REDIS_IOBUF_LEN" for evs ns data
    using net_run_append [OF that(1) net_run.more [OF net_step.recv [OF that(2,3)] net_run.finished]] by blast
  have len: "length ?s = 57" by (simp add: two_requests_bytes str_def crlf_def)
  obtain e0 ns0 where 0: "?run e0 ?c (Reading, ns0)" "received e0 = []" "RecvError \<notin> set e0" "SendError \<notin> set e0"
    using rest [OF net_run.finished, of ?s] by auto
  obtain c1 where 1: "?run (e0 @ [Recv (take 5 ?s)]) ?c c1"
    using piece [OF 0(1), of "take 5 ?s"] len by (fastforce simp: REDIS_IOBUF_LEN_def)
  obtain e1 ns1 where 2: "?run ((e0 @ [Recv (take 5 ?s)]) @ e1) ?c (Reading, ns1)" "received e1 = []" "RecvError \<notin> set e1" "SendError \<notin> set e1"
    using rest [OF 1, of "drop 5 ?s"] 0 by auto
  obtain c2 where 3: "?run (((e0 @ [Recv (take 5 ?s)]) @ e1) @ [Recv (drop 5 ?s)]) ?c c2"
    using piece [OF 2(1), of "drop 5 ?s"] len by (auto simp: REDIS_IOBUF_LEN_def)
  obtain e2 ns2 where 4: "?run ((((e0 @ [Recv (take 5 ?s)]) @ e1) @ [Recv (drop 5 ?s)]) @ e2) ?c (Reading, ns2)" "received e2 = []"
    "RecvError \<notin> set e2" "SendError \<notin> set e2" "\<not> ns_isSendRunning ns2"
    using rest [OF 3, of "[]"] 0 2 by auto
  have r: "received ((((e0 @ [Recv (take 5 ?s)]) @ e1) @ [Recv (drop 5 ?s)]) @ e2) = ?s" using 0 2 4 by simp
  have "ns_written ns2 = concat (fst (db_spec two_requests (\<lambda>_. []))) \<and>
      (\<forall>key\<in>{str ''a''}. holds_list mem_lookup (mem_server 10) 0 key (snd (db_spec two_requests (\<lambda>_. [])) key) (ns_ctx ns2))"
    using T [OF 4(1), of "[]"] 0 2 4 r by auto
  then have "ns_written ns2 = str '':2'' @ crlf @ str ''$1'' @ crlf @ str ''x'' @ crlf \<and>
      holds_list mem_lookup (mem_server 10) 0 (str ''a'') [str ''y''] (ns_ctx ns2)"
    by (simp add: two_requests_spec)
  then show ?thesis using 4(1) r by blast
qed

end
