(* ===== verification/NetSamples.thy ===== *)
theory NetSamples
  imports NetLists
begin

section \<open>Commands that take over a connection, and sample runs\<close>

text \<open>C34: A client can end the server with PREPAREMIGRATE: when the last argument is not a number, the error is
  logged and the value of the failed conversion is read all the same, which is undefined.\<close>

theorem preparemigrate_bad_number_undefined:
  assumes "nc_isRunning nc" "se_authed (ns_ctx ns) \<or> sv_requirepass sv = []"
    and "se_args (ns_ctx ns) = [str ''preparemigrate'', a, b, d, num]" "stoul num = err c msg"
  shows "ServerEntry_processRequest bg_commands sv nc ns = (Inl Undef, ns)"
proof -
  have "precheck bg_commands sv (ns_ctx ns) = (ok (bg_command ''preparemigrate'' 5), ns_ctx ns)"
    using assms(2,3)
    by (auto simp: precheck_def bg_commands_def bg_command_def find_command_def isAdminCmd_def Let_def toLower_def str_def)
  then show ?thesis
    using assms by (simp add: ServerEntry_processRequest_def in_ctx_def stry_def bg_command_def bg_request_def vec_at_def Let_def
        sbind_def value_of_def str_def)
qed

definition sample_net :: "bytes list \<Rightarrow> (memdb, memtxn) RocksKVStore list NetSession" where
  "sample_net args = set_args args (NetSession_new sample_conf (mem_session 10))"

theorem preparemigrate_bad_number_undefined_witness:
  "ServerEntry_processRequest bg_commands (mem_server 10) sample_conf
     (sample_net [str ''preparemigrate'', str ''a'', str ''b'', str ''c'', str ''x'']) =
   (Inl Undef, sample_net [str ''preparemigrate'', str ''a'', str ''b'', str ''c'', str ''x''])"
proof -
  have "stoul (str ''x'') = err ERR_INTERGER ''''" by code_simp
  then show ?thesis
    by (intro preparemigrate_bad_number_undefined) (simp_all add: sample_conf_def sample_net_def mem_server_def)
qed


subsection \<open>Sample runs\<close>

definition sample_received :: "(memdb, memtxn) RocksKVStore list NetSession" where
  "sample_received = setState DrainReqBuf ((NetSession_new sample_conf (mem_session 10))\<lparr>ns_first := False, ns_queryBuf := stream [[str ''LPOP'']]\<rparr>)"

lemma sample_stream: "stream [[str ''LPOP'']] = str ''*1'' @ crlf @ str ''$4'' @ crlf @ str ''LPOP'' @ crlf"
  by (simp add: resp_def req_head_def bulk_def bulk_head_def dec_of_nat.simps digit_def str_def)

lemma sample_run:
  "net_run list_commands (mem_server 10) sample_conf [Start, Recv (stream [[str ''LPOP'']])]
     (Starting, NetSession_new sample_conf (mem_session 10)) (Parsing, sample_received)"
proof -
  let ?ns = "setState DrainReqNet (NetSession_new sample_conf (mem_session 10))" and ?s = "stream [[str ''LPOP'']]"
  have 1: "net_step list_commands (mem_server 10) sample_conf Start (Starting, NetSession_new sample_conf (mem_session 10)) (Reading, ?ns)"
    using net_step.start [of list_commands "mem_server 10" sample_conf "NetSession_new sample_conf (mem_session 10)"]
    by (simp add: step_start [OF net_inv_new] outcome_def)
  have l: "?s \<noteq> []" "length ?s \<le> REDIS_IOBUF_LEN" "length ?s \<le> REDIS_MAX_QUERYBUF_LEN"
    unfolding sample_stream by (simp_all add: str_def crlf_def REDIS_IOBUF_LEN_def REDIS_MAX_QUERYBUF_LEN_def)
  have "drainReqCallback sample_conf False ?s ?ns = (ok (), sample_received)"
    using l(3) by (simp add: drainReqCallback_data setState_def NetSession_new_def sample_conf_def sample_received_def Let_def
        del: stream_simps)
  then have 2: "net_step list_commands (mem_server 10) sample_conf (Recv ?s) (Reading, ?ns) (Parsing, sample_received)"
    using net_step.recv [OF l(1,2), of list_commands "mem_server 10" sample_conf ?ns]
    by (simp add: outcome_def sample_received_def setState_def del: stream_simps)
  show ?thesis by (rule net_run.more [OF 1 net_run.more [OF 2 net_run.finished]])
qed


theorem parse_loop_terminates_witness:
  "length (ns_queryBuf sample_received) = 14 \<and>
   \<not> (\<exists>c. net_run list_commands (mem_server 10) sample_conf (replicate 16 Parse) (Parsing, sample_received) c) \<and>
   (\<exists>k. net_run list_commands (mem_server 10) sample_conf (replicate k Parse) (Parsing, sample_received)
      (outcome (\<lambda>_. Parsing) (parse_loop list_commands (mem_server 10) sample_conf sample_received)))"
proof -
  have "length (ns_queryBuf sample_received) = 14"
    unfolding sample_received_def sample_stream by (simp add: setState_def str_def crlf_def)
  then show ?thesis using parse_loop_terminates [OF sample_run] by fastforce
qed

theorem replies_kept_in_order_witness:
  "\<exists>ph ns k. net_run list_commands (mem_server 10) sample_conf (replicate k Parse) (Parsing, sample_received) (ph, ns) \<and>
     prefix (out sample_received) (out ns)"
proof -
  obtain k where k: "net_run list_commands (mem_server 10) sample_conf (replicate k Parse) (Parsing, sample_received)
      (outcome (\<lambda>_. Parsing) (parse_loop list_commands (mem_server 10) sample_conf sample_received))"
    using parse_loop_runs by blast
  obtain ph ns where o: "outcome (\<lambda>_. Parsing) (parse_loop list_commands (mem_server 10) sample_conf sample_received) = (ph, ns)"
    by (cases "outcome (\<lambda>_. Parsing) (parse_loop list_commands (mem_server 10) sample_conf sample_received)")
  show ?thesis using k replies_kept_in_order [OF sample_run k [unfolded o]] unfolding o by blast
qed


lemma two_requests_answered:
  "\<exists>\<sigma>'. answers list_commands (mem_server 10) sample_conf (requests two_requests) (ns_ctx (NetSession_new sample_conf (mem_session 10)))
     (fst (db_spec two_requests (\<lambda>_. []))) \<sigma>'"
proof -
  have "session_idle (txns two_requests + 0) (mem_server 10) (mem_session 10)"
    using mem_session_idle [of 4 10] by (simp add: two_requests_ok)
  note w = new_session [OF this sample_conf_ok(2)]
  have "holds_list mem_lookup (mem_server 10) (growth two_requests + 0) (str ''a'') [] (mem_session 10)"
    using mem_session_empty [of 3 "str ''a''" 10] by (simp add: two_requests_ok str_def)
  then have h: "holds_list mem_lookup (mem_server 10) (growth two_requests + 0) key ((\<lambda>_. []) key)
      (ns_ctx (NetSession_new sample_conf (mem_session 10)))" if "key \<in> {str ''a''}" for key
    using that by (simp add: w(2))
  have "reliable_server mem_rocks mem_lookup mem_wr (mem_server 10)"
    using memr.reliable_rocksdb_axioms mem_server_plain
    by (simp add: reliable_server_def reliable_server_axioms_def mem_server_def)
  from reliable_server.answers_refines [OF this w(1) two_requests_ok(3,4) _ sample_conf_ok(2) w(3,4), of 0 "\<lambda>_. []"] h show ?thesis by blast
qed


end
