(* ===== verification/Spec2Isabelle.thy ===== *)
theory Spec2Isabelle
  imports Mgl BinlogVisible KVStore ListServe CommitRetry NetSamples
begin

text \<open>
  A verification development of novadb.
\<close>

end
